(* ===== verification/RMQ_Prelude.thy ===== *)
theory RMQ_Prelude
  imports Main "HOL-Library.Word" "HOL-Library.AList" "HOL-Library.Char_ord"
    "HOL-Library.List_Lexorder"
begin

text \<open>
  Shared vocabulary of the development: byte strings and little-endian integers, decimal
  rendering and parsing (Rust's \<open>format!\<close> and \<open>str::parse\<close> on unsigned integers), the
  ordered map that stands for \<open>std::collections::BTreeMap\<close>, the hash map that stands for
  \<open>std::collections::HashMap\<close>, and the interfaces (locales) through which the components
  use the ordered map.

  Unsigned 64-bit quantities that only count (offsets, epochs, sizes) are \<open>nat\<close>; the
  source adds to them without a wrap-around check, so the model is exact below
  \<open>2 ^ 64\<close>. Counters that are decremented by \<open>fetch_sub\<close> (and so would wrap) are
  \<open>64 word\<close>; casts that truncate are written out.
\<close>

section \<open>Bytes and machine integers\<close>

type_synonym byte = "8 word"
type_synonym bytes = "8 word list"
type_synonym u64 = "64 word"

abbreviation u64_max :: nat where
  "u64_max \<equiv> 2 ^ 64 - 1"

abbreviation u32_max :: nat where
  "u32_max \<equiv> 2 ^ 32 - 1"

named_theorems btree_laws \<open>lookup laws of the ordered map\<close>
named_theorems le_simps \<open>little-endian encodings\<close>

primrec le_bytes :: "nat \<Rightarrow> nat \<Rightarrow> bytes" where
  "le_bytes 0 x = []"
| "le_bytes (Suc n) x = word_of_nat (x mod 256) # le_bytes n (x div 256)"

primrec of_le_bytes :: "bytes \<Rightarrow> nat" where
  "of_le_bytes [] = 0"
| "of_le_bytes (b # bs) = unat b + 256 * of_le_bytes bs"

lemma length_le_bytes [simp, le_simps]: "length (le_bytes n x) = n"
  by (induction n arbitrary: x) auto

lemma unat_byte_of_nat: "x < 256 \<Longrightarrow> unat (word_of_nat x :: byte) = x"
  by (simp add: unat_of_nat)

lemma of_le_bytes_le_bytes [le_simps]: "of_le_bytes (le_bytes n x) = x mod 256 ^ n"
proof (induction n arbitrary: x)
  case 0
  then show ?case by simp
next
  case (Suc n)
  have "x mod 256 ^ Suc n = x mod 256 + 256 * (x div 256 mod 256 ^ n)"
    by (simp add: mod_mult2_eq)
  with Suc show ?case by (simp add: unat_byte_of_nat)
qed

lemma of_le_bytes_le_bytes_id: "x < 256 ^ n \<Longrightarrow> of_le_bytes (le_bytes n x) = x"
  by (simp add: of_le_bytes_le_bytes)

lemma of_le_bytes_zero: "\<forall>b \<in> set bs. b = 0 \<Longrightarrow> of_le_bytes bs = 0"
  by (induction bs) auto

section \<open>Decimal rendering and parsing\<close>

fun show_nat :: "nat \<Rightarrow> string" where
  "show_nat n = (if n < 10 then [char_of (48 + n)] else show_nat (n div 10) @ [char_of (48 + n mod 10)])"

declare show_nat.simps [simp del]

fun parse_digits :: "nat \<Rightarrow> nat \<Rightarrow> string \<Rightarrow> nat option" where
  "parse_digits mx acc [] = Some acc"
| "parse_digits mx acc (c # cs) =
     (let d = of_char c in
      if 48 \<le> d \<and> d \<le> (57 :: nat)
      then (let a = acc * 10 + (d - 48) in if a \<le> mx then parse_digits mx a cs else None)
      else None)"

text \<open>\<open>str::parse::<u32/u64>\<close>: no empty input, one optional \<open>+\<close>, digits, no overflow.\<close>

definition parse_uint :: "nat \<Rightarrow> string \<Rightarrow> nat option" where
  "parse_uint mx s =
     (case s of [] \<Rightarrow> None
      | c # cs \<Rightarrow> if c = CHR ''+'' then (if cs = [] then None else parse_digits mx 0 cs)
                  else parse_digits mx 0 s)"

definition is_digit :: "char \<Rightarrow> bool" where
  "is_digit c \<longleftrightarrow> (48 :: nat) \<le> of_char c \<and> of_char c \<le> (57 :: nat)"

lemma of_char_digit: "d < 10 \<Longrightarrow> of_char (char_of (48 + d :: nat)) = 48 + d"
  by (simp add: of_char_of)

lemma show_nat_digits: "\<forall>c \<in> set (show_nat n). is_digit c"
proof (induction n rule: show_nat.induct)
  case (1 n)
  show ?case
    using 1 by (auto simp: show_nat.simps [of n] is_digit_def of_char_of)
qed

lemma show_nat_nonempty [simp]: "show_nat n \<noteq> []"
  by (subst show_nat.simps) simp

lemma parse_digits_append:
  "parse_digits mx acc (xs @ ys) =
     (case parse_digits mx acc xs of None \<Rightarrow> None | Some a \<Rightarrow> parse_digits mx a ys)"
  by (induction xs arbitrary: acc) (auto simp: Let_def)

lemma parse_digits_show_nat: "n \<le> mx \<Longrightarrow> parse_digits mx 0 (show_nat n) = Some n"
proof (induction n rule: show_nat.induct)
  case (1 n)
  show ?case
  proof (cases "n < 10")
    case True
    with 1 show ?thesis by (simp add: show_nat.simps [of n] of_char_of Let_def)
  next
    case False
    have "n div 10 \<le> mx" using 1(2) div_le_dividend le_trans by blast
    with False 1 have "parse_digits mx 0 (show_nat (n div 10)) = Some (n div 10)" by simp
    moreover have "n div 10 * 10 + n mod 10 = n" by presburger
    ultimately show ?thesis using False 1(2)
      by (simp add: show_nat.simps [of n] parse_digits_append of_char_of Let_def)
  qed
qed

lemma parse_uint_show_nat [simp]:
  assumes "n \<le> mx" shows "parse_uint mx (show_nat n) = Some n"
proof (cases "show_nat n")
  case Nil
  then show ?thesis by simp
next
  case (Cons c cs)
  then have "is_digit c" using show_nat_digits [of n] by simp
  then have "c \<noteq> CHR ''+''" by (auto simp: is_digit_def)
  with Cons show ?thesis
    using parse_digits_show_nat [OF assms] by (simp add: parse_uint_def)
qed

lemma show_nat_inject [simp]: "show_nat m = show_nat n \<longleftrightarrow> m = n"
proof
  assume eq: "show_nat m = show_nat n"
  have "Some m = parse_uint (max m n) (show_nat m)" by simp
  also have "\<dots> = Some n" unfolding eq by simp
  finally show "m = n" by simp
qed simp

text \<open>Splitting two equal strings at a character that occurs in neither left part.\<close>

lemma append_sep_eq:
  assumes "xs @ c # ys = xs' @ c # ys'" and "c \<notin> set xs" and "c \<notin> set xs'"
  shows "xs = xs' \<and> ys = ys'"
  using assms
proof (induction xs arbitrary: xs')
  case Nil
  then show ?case by (cases xs') auto
next
  case (Cons x xs)
  then show ?case by (cases xs') auto
qed

lemma append_sep_eq_right:
  assumes "xs @ c # ys = xs' @ c # ys'" and "c \<notin> set ys" and "c \<notin> set ys'"
  shows "xs = xs' \<and> ys = ys'"
proof -
  from assms(1) have "rev ys @ c # rev xs = rev ys' @ c # rev xs'"
    by (metis append_Cons append_Nil append_assoc rev.simps(2) rev_append rev_rev_ident)
  with assms show ?thesis using append_sep_eq [of "rev ys" c "rev xs" "rev ys'" "rev xs'"] by simp
qed

section \<open>Ordered maps (BTreeMap)\<close>

text \<open>
  The interface of \<open>BTreeMap\<close> the components use: \<open>get\<close>, \<open>insert\<close>, \<open>remove\<close>, the keys of
  a half-open \<open>range(lo..hi)\<close>, and the entry with the greatest key not above a bound
  (\<open>range(..=k).next_back()\<close>).
\<close>

locale ordered_map =
  fixes get :: "'m \<Rightarrow> 'k::linorder \<Rightarrow> 'v option"
    and put :: "'k \<Rightarrow> 'v \<Rightarrow> 'm \<Rightarrow> 'm"
    and del :: "'k \<Rightarrow> 'm \<Rightarrow> 'm"
    and keys_in :: "'k \<Rightarrow> 'k \<Rightarrow> 'm \<Rightarrow> 'k list"
    and floor_entry :: "'k \<Rightarrow> 'm \<Rightarrow> ('k \<times> 'v) option"
    and wf :: "'m \<Rightarrow> bool"
  assumes get_put: "wf m \<Longrightarrow> get (put k v m) = (get m)(k \<mapsto> v)"
    and wf_put: "wf m \<Longrightarrow> wf (put k v m)"
    and get_del: "wf m \<Longrightarrow> get (del k m) = (get m)(k := None)"
    and wf_del: "wf m \<Longrightarrow> wf (del k m)"
    and set_keys_in: "wf m \<Longrightarrow> set (keys_in lo hi m) = {k. lo \<le> k \<and> k < hi \<and> get m k \<noteq> None}"
    and floor_entry_Some: "wf m \<Longrightarrow> floor_entry k m = Some (j, v) \<longleftrightarrow>
          j \<le> k \<and> get m j = Some v \<and> (\<forall>i. j < i \<and> i \<le> k \<longrightarrow> get m i = None)"
begin

text \<open>Removing a list of keys one by one, as the code's \<open>for k in keys { m.remove(&k) }\<close>.\<close>

lemma wf_fold_del: "wf m \<Longrightarrow> wf (fold del ks m)"
  by (induction ks arbitrary: m) (auto simp: wf_del)

lemma get_fold_del: "wf m \<Longrightarrow> get (fold del ks m) = (\<lambda>k. if k \<in> set ks then None else get m k)"
proof (induction ks arbitrary: m)
  case (Cons x ks)
  then show ?case by (auto simp: get_del wf_del fun_eq_iff)
qed auto

lemma get_del_range:
  "wf m \<Longrightarrow> get (fold del (keys_in lo hi m) m) = (\<lambda>k. if lo \<le> k \<and> k < hi then None else get m k)"
  by (auto simp: get_fold_del set_keys_in fun_eq_iff)

end

text \<open>
  Maps from start offsets to half-open ranges. \<open>ranges_disjoint\<close> is the source's comment
  on the cold tier ("disjoint"); under it the floor lookup finds the range that covers an
  offset exactly when there is one.
\<close>

definition ranges_disjoint :: "('v \<Rightarrow> nat) \<Rightarrow> (nat \<rightharpoonup> 'v) \<Rightarrow> bool" where
  "ranges_disjoint end_of m \<longleftrightarrow>
     (\<forall>s v s' v'. m s = Some v \<longrightarrow> m s' = Some v' \<longrightarrow> s < s' \<longrightarrow> end_of v \<le> s')"

locale range_index = ordered_map get put del keys_in floor_entry wf
  for get :: "'m \<Rightarrow> nat \<Rightarrow> 'v option" and put del keys_in floor_entry wf +
  fixes end_of :: "'v \<Rightarrow> nat"
begin

lemma floor_covers_iff:
  assumes "wf m" and "ranges_disjoint end_of (get m)"
  shows "(floor_entry p m = Some (s, v) \<and> p < end_of v) \<longleftrightarrow>
         (get m s = Some v \<and> s \<le> p \<and> p < end_of v)"
proof
  assume "get m s = Some v \<and> s \<le> p \<and> p < end_of v"
  then have s: "get m s = Some v" "s \<le> p" "p < end_of v" by auto
  have "get m i = None" if "s < i" "i \<le> p" for i
  proof (rule ccontr)
    assume "get m i \<noteq> None"
    then have "end_of v \<le> i" using assms(2) s that by (auto simp: ranges_disjoint_def)
    with s that show False by simp
  qed
  with s assms(1) show "floor_entry p m = Some (s, v) \<and> p < end_of v"
    by (simp add: floor_entry_Some)
qed (use assms in \<open>auto simp: floor_entry_Some\<close>)

lemma put_disjoint:
  assumes "wf m" and "ranges_disjoint end_of (get m)"
    and "\<And>s' v'. get m s' = Some v' \<Longrightarrow> s' < s \<Longrightarrow> end_of v' \<le> s"
    and "\<And>s' v'. get m s' = Some v' \<Longrightarrow> s < s' \<Longrightarrow> end_of v \<le> s'"
  shows "ranges_disjoint end_of (get (put s v m))"
  using assms unfolding ranges_disjoint_def by (auto simp: get_put)

end

text \<open>The model of \<open>BTreeMap\<close>: an association list in ascending key order.\<close>

type_synonym ('k, 'v) btree = "('k \<times> 'v) list"

definition bt_wf :: "('k::linorder, 'v) btree \<Rightarrow> bool" where
  "bt_wf t \<longleftrightarrow> sorted_wrt (<) (map fst t)"

fun bt_insert :: "'k::linorder \<Rightarrow> 'v \<Rightarrow> ('k, 'v) btree \<Rightarrow> ('k, 'v) btree" where
  "bt_insert k v [] = [(k, v)]"
| "bt_insert k v (e # t) =
     (if fst e < k then e # bt_insert k v t
      else if fst e = k then (k, v) # t
      else (k, v) # e # t)"

definition bt_remove :: "'k \<Rightarrow> ('k, 'v) btree \<Rightarrow> ('k, 'v) btree" where
  "bt_remove k t = filter (\<lambda>e. fst e \<noteq> k) t"

definition bt_range :: "'k::linorder \<Rightarrow> 'k \<Rightarrow> ('k, 'v) btree \<Rightarrow> 'k list" where
  "bt_range lo hi t = map fst (filter (\<lambda>e. lo \<le> fst e \<and> fst e < hi) t)"

definition bt_floor :: "'k::linorder \<Rightarrow> ('k, 'v) btree \<Rightarrow> ('k \<times> 'v) option" where
  "bt_floor k t = (case rev (filter (\<lambda>e. fst e \<le> k) t) of [] \<Rightarrow> None | e # _ \<Rightarrow> Some e)"

lemma bt_wf_Nil [simp]: "bt_wf []"
  by (simp add: bt_wf_def)

lemma bt_wf_Cons [simp]: "bt_wf (e # t) \<longleftrightarrow> (\<forall>x \<in> set t. fst e < fst x) \<and> bt_wf t"
  by (auto simp: bt_wf_def)

lemma set_bt_insert: "set (map fst (bt_insert k v t)) = insert k (set (map fst t))"
  by (induction t) auto

lemma bt_wf_insert [simp]: "bt_wf t \<Longrightarrow> bt_wf (bt_insert k v t)"
proof (induction t)
  case (Cons e t)
  have "fst e < fst x" if "fst e < k" "x \<in> set (bt_insert k v t)" for x
  proof -
    have "fst x \<in> insert k (set (map fst t))"
      using that(2) set_bt_insert [of k v t] by (metis image_eqI list.set_map)
    with that(1) Cons.prems show ?thesis by auto
  qed
  with Cons show ?case by (auto intro: less_trans)
qed simp

lemma bt_get_notin: "bt_wf t \<Longrightarrow> \<forall>x \<in> set t. k < fst x \<Longrightarrow> map_of t k = None"
  by (induction t) auto

lemma bt_get_insert [simp]: "map_of (bt_insert k v t) = (map_of t)(k \<mapsto> v)"
  by (induction t) (auto simp: fun_eq_iff)

lemma bt_wf_filter [simp]: "bt_wf t \<Longrightarrow> bt_wf (filter P t)"
  by (induction t) auto

lemma bt_wf_remove [simp]: "bt_wf t \<Longrightarrow> bt_wf (bt_remove k t)"
  by (simp add: bt_remove_def)

lemma bt_get_remove [simp]: "map_of (bt_remove k t) = (map_of t)(k := None)"
  by (induction t) (auto simp: bt_remove_def fun_eq_iff)

lemma bt_wf_distinct: "bt_wf t \<Longrightarrow> distinct (map fst t)"
  by (induction t) auto

lemma set_bt_range: "set (bt_range lo hi t) = {k. lo \<le> k \<and> k < hi \<and> map_of t k \<noteq> None}"
  by (induction t) (auto simp: bt_range_def)

lemma bt_floor_snoc:
  "bt_floor k (t @ [e]) = (if fst e \<le> k then Some e else bt_floor k t)"
  by (simp add: bt_floor_def)

lemma bt_wf_snoc: "bt_wf (t @ [e]) \<longleftrightarrow> bt_wf t \<and> (\<forall>x \<in> set t. fst x < fst e)"
  by (induction t) auto

lemma bt_floor_Some:
  "bt_wf t \<Longrightarrow> bt_floor k t = Some (j, v) \<longleftrightarrow>
     j \<le> k \<and> map_of t j = Some v \<and> (\<forall>i. j < i \<and> i \<le> k \<longrightarrow> map_of t i = None)"
proof (induction t rule: rev_induct)
  case Nil
  then show ?case by (simp add: bt_floor_def)
next
  case (snoc e t)
  obtain a b where e: "e = (a, b)" by (cases e)
  from snoc.prems have wf: "bt_wf t" and lt: "\<forall>x \<in> set t. fst x < a"
    by (auto simp: bt_wf_snoc e)
  have a: "map_of t a = None" using lt by (auto simp: map_of_eq_None_iff)
  have big: "map_of t i = None" if "a \<le> i" for i
    using lt that by (force simp: map_of_eq_None_iff)
  have get: "map_of (t @ [e]) i = (if i = a then Some b else map_of t i)" for i
    using a by (auto simp: map_add_def e split: option.splits)
  show ?case
  proof (cases "a \<le> k")
    case True
    then have "bt_floor k (t @ [e]) = Some (a, b)" by (simp add: bt_floor_snoc e)
    moreover have "(a, b) = (j, v) \<longleftrightarrow>
        j \<le> k \<and> map_of (t @ [e]) j = Some v \<and> (\<forall>i. j < i \<and> i \<le> k \<longrightarrow> map_of (t @ [e]) i = None)"
      (is "_ \<longleftrightarrow> ?rhs")
    proof
      assume "(a, b) = (j, v)"
      then show ?rhs using True big by (auto simp: get simp del: map_of_append)
    next
      assume rhs: ?rhs
      have "\<not> j < a" using rhs True get [of a] by (fastforce simp del: map_of_append)
      moreover have "\<not> a < j"
      proof
        assume less: "a < j"
        then have "map_of t j = None" by (simp add: big)
        with less rhs get [of j] show False by (auto simp del: map_of_append split: if_splits)
      qed
      ultimately have "j = a" by simp
      with rhs get [of a] show "(a, b) = (j, v)" by (simp del: map_of_append)
    qed
    ultimately show ?thesis by simp
  next
    case False
    then show ?thesis using snoc.IH [OF wf] get by (auto simp: bt_floor_snoc e)
  qed
qed

interpretation bt: ordered_map map_of bt_insert bt_remove bt_range bt_floor bt_wf
  by unfold_locales (auto simp: set_bt_range bt_floor_Some)

lemmas bt_laws [btree_laws] = bt_get_insert bt_get_remove bt.get_del_range

section \<open>Hash maps\<close>

text \<open>
  A \<open>HashMap\<close> is an association list with distinct keys (\<^const>\<open>AList.update\<close> inserts or
  overwrites, \<^const>\<open>AList.delete\<close> removes). Its order stands for the iteration order, which
  Rust leaves unspecified: no property below depends on it.
\<close>

definition hm_entry :: "'v \<Rightarrow> ('k \<times> 'v) list \<Rightarrow> 'k \<Rightarrow> 'v" where
  "hm_entry d m k = (case map_of m k of None \<Rightarrow> d | Some v \<Rightarrow> v)"

lemma hm_entry_update [simp]:
  "hm_entry d (AList.update k v m) k' = (if k' = k then v else hm_entry d m k')"
  by (simp add: hm_entry_def update_conv')

section \<open>Sums over association lists\<close>

definition weight :: "('v \<Rightarrow> nat) \<Rightarrow> ('k \<times> 'v) list \<Rightarrow> nat" where
  "weight f m = (\<Sum>e\<leftarrow>m. f (snd e))"

lemma weight_simps [simp]: "weight f [] = 0" "weight f (e # m) = f (snd e) + weight f m"
  by (simp_all add: weight_def)

lemma weight_bt_insert:
  "bt_wf t \<Longrightarrow> weight f (bt_insert k v t) + (case map_of t k of None \<Rightarrow> 0 | Some w \<Rightarrow> f w) =
     weight f t + f v"
proof (induction t)
  case (Cons e t)
  have "map_of t k = None" if "k \<le> fst e"
    using Cons.prems that by (intro bt_get_notin) auto
  with Cons show ?case by (cases e) auto
qed simp

lemma weight_bt_remove:
  "bt_wf t \<Longrightarrow> weight f (bt_remove k t) + (case map_of t k of None \<Rightarrow> 0 | Some w \<Rightarrow> f w) = weight f t"
proof (induction t)
  case (Cons e t)
  have "bt_remove k t = t" if "k = fst e"
    using Cons.prems that by (auto simp: bt_remove_def filter_id_conv)
  with Cons show ?case by (cases e) (auto simp: bt_remove_def)
qed (simp add: bt_remove_def)

lemma weight_update:
  "distinct (map fst m) \<Longrightarrow>
   weight f (AList.update k v m) + (case map_of m k of None \<Rightarrow> 0 | Some w \<Rightarrow> f w) = weight f m + f v"
proof (induction m)
  case (Cons e m)
  have "map_of m k = None" if "k = fst e"
    using Cons.prems that by (simp add: map_of_eq_None_iff)
  with Cons show ?case by (cases e) auto
qed simp

text \<open>Association lists: keys after an update or a deletion, weight after a deletion.\<close>

lemma keys_update: "fst ` set (AList.update k v al) = insert k (fst ` set al)"
  by (simp add: dom_map_of_conv_image_fst [symmetric] update_conv')

lemma keys_delete: "fst ` set (AList.delete k al) = fst ` set al - {k}"
  by (simp add: dom_map_of_conv_image_fst [symmetric] delete_conv')

lemma length_update_same: "k \<in> fst ` set al \<Longrightarrow> length (AList.update k v al) = length al"
  by (induction al) auto

lemma weight_delete:
  "distinct (map fst m) \<Longrightarrow>
   weight f (AList.delete k m) + (case map_of m k of None \<Rightarrow> 0 | Some w \<Rightarrow> f w) = weight f m"
proof (induction m)
  case (Cons e m)
  have "map_of m k = None \<and> AList.delete k m = m" if "k = fst e"
    using Cons.prems that by (simp add: map_of_eq_None_iff delete_id)
  with Cons show ?case by (cases e) auto
qed simp

end
