(* ===== verification/RMQ_Types.thy ===== *)
theory RMQ_Types
  imports RMQ_Prelude
begin

text \<open>
  The data types every component shares: \<open>src/types.rs\<close> (partitions, records, WAL records)
  and \<open>src/error.rs\<close> (the error type with all its variants; a result is \<open>rustmq_error + 'a\<close>). Error payloads
  that the source formats are rendered by the text the format string fixes.
\<close>

section \<open>Errors\<close>

datatype (plugins only: code size) rustmq_error =
    Io string
  | Serialization string
  | Network string
  | Storage string
  | Replication string
  | Config string
  | Wal string
  | Cache string
  | Upload string
  | Etl string
  | Bandwidth string
  | Balance string
  | AdminApi string
  | BufferTooSmall
  | InvalidOffset nat
  | TopicNotFound string
  | PartitionNotFound string
  | BrokerNotFound string
  | InvalidConfig string
  | PermissionDenied string
  | Tls string
  | Certificate string
  | Quic string
  | QuicConnection string
  | InvalidOperation string
  | ResourceExhausted string
  | NotFound string
  | NoLeader
  | ReplicationFailed string string
  | StaleLeaderEpoch nat nat
  | EtlProcessingFailed string
  | EtlModuleNotFound string
  | TopicAlreadyExists string
  | NotLeader string
  | OffsetOutOfRange string
  | ObjectNotFound string
  | Transport string
  | InvalidUri string
  | AuthenticationFailed string
  | AuthorizationDenied string string string
  | AuthorizationFailed string
  | CertificateRevoked string
  | CertificateExpired string
  | InvalidCertificate string
  | CertificateNotFound string
  | CertificateGeneration string
  | CertificateValidation string
  | Encryption string
  | CaNotAvailable string
  | SecurityConfig string
  | CacheOperation string
  | PrincipalExtraction string
  | AclEvaluation string
  | AclRuleNotFound string
  | AclRuleConflict string
  | InvalidAclPattern string
  | SecurityPolicyViolation string
  | RateLimitExceeded string
  | SessionExpired string
  | TlsHandshakeFailed string
  | SignatureVerificationFailed string
  | CryptographicFailure string
  | RevocationCheckFailed string
  | CertificateChainValidation string
  | SecurityAuditLog string
  | InsufficientPrivileges string
  | Timeout string
  | Internal string
  | ValidationError string
  | RaftError string
  | RaftStorage string
  | RaftNetwork string
  | ConsensusTimeout string
  | LogCompaction string
  | SnapshotError string
  | LeaderElection string
  | MembershipChange string

type_synonym 'a result = "rustmq_error + 'a"

abbreviation Ok :: "'a \<Rightarrow> 'a result" where
  "Ok \<equiv> Inr"

abbreviation Err :: "rustmq_error \<Rightarrow> 'a result" where
  "Err \<equiv> Inl"

section \<open>Partitions and records\<close>

type_synonym broker_id = string
type_synonym offset = nat

datatype topic_partition = TopicPartition (tp_topic: string) (tp_partition: nat)

text \<open>The derived \<open>Ord\<close>: by topic, then by partition number.\<close>

instantiation topic_partition :: linorder
begin

definition less_eq_topic_partition :: "topic_partition \<Rightarrow> topic_partition \<Rightarrow> bool" where
  "less_eq_topic_partition a b \<longleftrightarrow>
     tp_topic a < tp_topic b \<or> (tp_topic a = tp_topic b \<and> tp_partition a \<le> tp_partition b)"

definition less_topic_partition :: "topic_partition \<Rightarrow> topic_partition \<Rightarrow> bool" where
  "less_topic_partition a b \<longleftrightarrow>
     tp_topic a < tp_topic b \<or> (tp_topic a = tp_topic b \<and> tp_partition a < tp_partition b)"

instance
  by standard
    (auto simp: less_eq_topic_partition_def less_topic_partition_def topic_partition.expand)

end

text \<open>\<open>impl Display for TopicPartition\<close>: \<open>"{topic}:{partition}"\<close>.\<close>

definition show_tp :: "topic_partition \<Rightarrow> string" where
  "show_tp tp = tp_topic tp @ '':'' @ show_nat (tp_partition tp)"

lemma show_tp_inject: "show_tp a = show_tp b \<longleftrightarrow> a = b"
proof
  assume "show_tp a = show_tp b"
  then have "tp_topic a @ CHR '':'' # show_nat (tp_partition a) =
             tp_topic b @ CHR '':'' # show_nat (tp_partition b)"
    by (simp add: show_tp_def)
  moreover have "CHR '':'' \<notin> set (show_nat n)" for n
    using show_nat_digits [of n] by (auto simp: is_digit_def)
  ultimately have "tp_topic a = tp_topic b \<and> show_nat (tp_partition a) = show_nat (tp_partition b)"
    by (intro append_sep_eq_right)
  then show "a = b" by (simp add: topic_partition.expand)
qed simp

record header =
  hd_key :: string
  hd_value :: bytes

record rmq_record =
  rec_key :: "bytes option"
  rec_value :: bytes
  rec_headers :: "header list"
  rec_timestamp :: int

record wal_record =
  wr_tp :: topic_partition
  wr_offset :: offset
  wr_record :: rmq_record
  wr_crc32 :: nat

text \<open>A segment as it is handed to the upload manager (\<open>storage/traits.rs\<close>).\<close>

record wal_segment =
  ws_start_offset :: offset
  ws_end_offset :: offset
  ws_size_bytes :: nat
  ws_data :: bytes
  ws_tp :: topic_partition

record physical_location =
  wal_segment_seq :: nat
  file_offset :: nat
  frame_len :: nat

end
