(* ===== verification/Partition_Index.thy ===== *)
theory Partition_Index
  imports RMQ_Types
begin

text \<open>
  \<open>src/storage/partition_index.rs\<close>: the per-partition offset index and in-memory hot tier.
  Each definition is one method; the index lock makes every method one atomic step, so the
  methods are functions on the index state. The views \<open>hot_at\<close>, \<open>cold_map\<close> and
  \<open>next_offset\<close> say what an index holds; \<open>index_views\<close> collects how each method changes
  them.
\<close>

section \<open>State\<close>

record object_range =
  or_end_offset :: offset
  or_object_key :: string
  or_size_bytes :: nat

record hot_entry =
  he_record :: wal_record
  he_size :: nat

record partition_entries =
  pe_hot :: "(offset, hot_entry) btree"
  pe_cold :: "(offset, object_range) btree"
  pe_next_offset :: offset

definition pe_default :: partition_entries where
  "pe_default = \<lparr>pe_hot = [], pe_cold = [], pe_next_offset = 0\<rparr>"

datatype read_plan =
    Hot "wal_record list"
  | Cold string offset offset
  | Empty

record partition_index =
  pi_inner :: "(topic_partition \<times> partition_entries) list"
  pi_hot_bytes :: u64

text \<open>A tiered range of one partition (\<open>ColdSegment\<close> of \<open>cold_index.rs\<close>).\<close>

record cold_segment =
  cs_tp :: topic_partition
  cs_start_offset :: offset
  cs_end_offset :: offset
  cs_object_key :: string
  cs_size_bytes :: nat

section \<open>Operations\<close>

definition index_new :: partition_index where
  "index_new = \<lparr>pi_inner = [], pi_hot_bytes = 0\<rparr>"

definition insert_hot ::
  "topic_partition \<Rightarrow> offset \<Rightarrow> wal_record \<Rightarrow> nat \<Rightarrow> partition_index \<Rightarrow> partition_index" where
  "insert_hot tp off record sz idx =
     (let entries = hm_entry pe_default (pi_inner idx) tp;
          old = map_of (pe_hot entries) off;
          hb = (case old of Some e \<Rightarrow> pi_hot_bytes idx - word_of_nat (he_size e)
                          | None \<Rightarrow> pi_hot_bytes idx);
          entries' = entries\<lparr>pe_hot := bt_insert off \<lparr>he_record = record, he_size = sz\<rparr> (pe_hot entries),
                             pe_next_offset := max (pe_next_offset entries) (off + 1)\<rparr>
      in idx\<lparr>pi_inner := AList.update tp entries' (pi_inner idx),
             pi_hot_bytes := hb + word_of_nat sz\<rparr>)"

definition remove_hot :: "topic_partition \<Rightarrow> offset \<Rightarrow> partition_index \<Rightarrow> partition_index" where
  "remove_hot tp off idx =
     (case map_of (pi_inner idx) tp of
        None \<Rightarrow> idx
      | Some entries \<Rightarrow>
          (case map_of (pe_hot entries) off of
             None \<Rightarrow> idx
           | Some old \<Rightarrow>
               idx\<lparr>pi_inner := AList.update tp (entries\<lparr>pe_hot := bt_remove off (pe_hot entries)\<rparr>)
                                (pi_inner idx),
                   pi_hot_bytes := pi_hot_bytes idx - word_of_nat (he_size old)\<rparr>))"

text \<open>The eviction loop of \<open>flip_to_cold\<close>: remove the keys, adding up what they free.\<close>

fun evict :: "offset list \<Rightarrow> (offset, hot_entry) btree \<Rightarrow> u64 \<Rightarrow> (offset, hot_entry) btree \<times> u64" where
  "evict [] hot freed = (hot, freed)"
| "evict (k # ks) hot freed =
     (case map_of hot k of
        Some old \<Rightarrow> evict ks (bt_remove k hot) (freed + word_of_nat (he_size old))
      | None \<Rightarrow> evict ks hot freed)"

definition flip_to_cold ::
  "topic_partition \<Rightarrow> offset \<Rightarrow> offset \<Rightarrow> string \<Rightarrow> nat \<Rightarrow> partition_index \<Rightarrow> partition_index" where
  "flip_to_cold tp start_off end_off key sz idx =
     (let entries = hm_entry pe_default (pi_inner idx) tp;
          to_remove = bt_range start_off end_off (pe_hot entries);
          (hot', freed) = evict to_remove (pe_hot entries) 0;
          entries' = entries\<lparr>pe_hot := hot',
                             pe_cold := bt_insert start_off
                               \<lparr>or_end_offset = end_off, or_object_key = key, or_size_bytes = sz\<rparr>
                               (pe_cold entries),
                             pe_next_offset := max (pe_next_offset entries) end_off\<rparr>
      in idx\<lparr>pi_inner := AList.update tp entries' (pi_inner idx),
             pi_hot_bytes := (if freed > 0 then pi_hot_bytes idx - freed else pi_hot_bytes idx)\<rparr>)"

definition insert_cold ::
  "topic_partition \<Rightarrow> offset \<Rightarrow> offset \<Rightarrow> string \<Rightarrow> nat \<Rightarrow> partition_index \<Rightarrow> partition_index" where
  "insert_cold tp start_off end_off key sz idx =
     (let entries = hm_entry pe_default (pi_inner idx) tp;
          entries' = entries\<lparr>pe_cold := bt_insert start_off
                               \<lparr>or_end_offset = end_off, or_object_key = key, or_size_bytes = sz\<rparr>
                               (pe_cold entries),
                             pe_next_offset := max (pe_next_offset entries) end_off\<rparr>
      in idx\<lparr>pi_inner := AList.update tp entries' (pi_inner idx)\<rparr>)"

definition replace_cold ::
  "topic_partition \<Rightarrow> offset \<Rightarrow> offset \<Rightarrow> string \<Rightarrow> nat \<Rightarrow> partition_index \<Rightarrow> partition_index" where
  "replace_cold tp start_off end_off key sz idx =
     (let entries = hm_entry pe_default (pi_inner idx) tp;
          subsumed = bt_range start_off end_off (pe_cold entries);
          cold' = fold bt_remove subsumed (pe_cold entries);
          entries' = entries\<lparr>pe_cold := bt_insert start_off
                               \<lparr>or_end_offset = end_off, or_object_key = key, or_size_bytes = sz\<rparr> cold',
                             pe_next_offset := max (pe_next_offset entries) end_off\<rparr>
      in idx\<lparr>pi_inner := AList.update tp entries' (pi_inner idx)\<rparr>)"

definition hot_bytes :: "partition_index \<Rightarrow> u64" where
  "hot_bytes idx = pi_hot_bytes idx"

definition next_offset :: "partition_index \<Rightarrow> topic_partition \<Rightarrow> offset" where
  "next_offset idx tp = (case map_of (pi_inner idx) tp of None \<Rightarrow> 0 | Some e \<Rightarrow> pe_next_offset e)"

text \<open>
  The \<open>while let\<close> loop of \<open>read_plan\<close>: it walks consecutive offsets as long as they are hot
  and ends because the map is finite.
\<close>

function hot_run ::
  "(offset, hot_entry) btree \<Rightarrow> nat \<Rightarrow> offset \<Rightarrow> nat \<Rightarrow> wal_record list \<Rightarrow> wal_record list" where
  "hot_run hot max_bytes cur bytes records =
     (case map_of hot cur of
        None \<Rightarrow> records
      | Some entry \<Rightarrow>
          (let next_bytes = bytes + he_size entry in
           if records \<noteq> [] \<and> next_bytes > max_bytes then records
           else hot_run hot max_bytes (cur + 1) next_bytes (records @ [he_record entry])))"
  by pat_completeness auto
termination
proof (relation "measure (\<lambda>(hot, mb, cur, b, rs). length (filter (\<lambda>e. cur \<le> fst e) hot))", goal_cases)
  case 1
  then show ?case by simp
next
  case (2 hot mb cur b rs e nb)
  then have "(cur, e) \<in> set (filter (\<lambda>e. cur \<le> fst e) hot)" by (auto dest: map_of_SomeD)
  then have "length (filter (\<lambda>e. cur + 1 \<le> fst e) (filter (\<lambda>e. cur \<le> fst e) hot)) <
             length (filter (\<lambda>e. cur \<le> fst e) hot)"
    by (rule length_filter_less) simp
  moreover have "filter (\<lambda>e. cur + 1 \<le> fst e) (filter (\<lambda>e. cur \<le> fst e) hot) =
      filter (\<lambda>e. cur + 1 \<le> fst e) hot"
    by (auto intro: filter_cong)
  ultimately show ?case by simp
qed

declare hot_run.simps [simp del]

definition read_plan :: "partition_index \<Rightarrow> topic_partition \<Rightarrow> offset \<Rightarrow> nat \<Rightarrow> read_plan" where
  "read_plan idx tp off max_bytes =
     (case map_of (pi_inner idx) tp of
        None \<Rightarrow> Empty
      | Some entries \<Rightarrow>
          if off \<ge> pe_next_offset entries then Empty
          else if map_of (pe_hot entries) off \<noteq> None
          then Hot (hot_run (pe_hot entries) max_bytes off 0 [])
          else (case bt_floor off (pe_cold entries) of
                  Some (start, rng) \<Rightarrow>
                    if off < or_end_offset rng
                    then Cold (or_object_key rng) start (or_end_offset rng)
                    else Empty
                | None \<Rightarrow> Empty))"

definition get_partitions :: "partition_index \<Rightarrow> topic_partition list" where
  "get_partitions idx = map fst (pi_inner idx)"

definition get_cold_segments :: "partition_index \<Rightarrow> topic_partition \<Rightarrow> cold_segment list" where
  "get_cold_segments idx tp =
     (case map_of (pi_inner idx) tp of
        None \<Rightarrow> []
      | Some entries \<Rightarrow>
          map (\<lambda>(start, rng). \<lparr>cs_tp = tp, cs_start_offset = start,
                 cs_end_offset = or_end_offset rng, cs_object_key = or_object_key rng,
                 cs_size_bytes = or_size_bytes rng\<rparr>) (pe_cold entries))"


section \<open>Views of the state\<close>

named_theorems index_views \<open>how each method changes the views of the index\<close>

definition entries_of :: "partition_index \<Rightarrow> topic_partition \<Rightarrow> partition_entries" where
  "entries_of idx tp = hm_entry pe_default (pi_inner idx) tp"

definition hot_at :: "partition_index \<Rightarrow> topic_partition \<Rightarrow> offset \<Rightarrow> hot_entry option" where
  "hot_at idx tp = map_of (pe_hot (entries_of idx tp))"

definition cold_map :: "partition_index \<Rightarrow> topic_partition \<Rightarrow> offset \<Rightarrow> object_range option" where
  "cold_map idx tp = map_of (pe_cold (entries_of idx tp))"

definition total_hot_size :: "partition_index \<Rightarrow> nat" where
  "total_hot_size idx = weight (\<lambda>e. weight he_size (pe_hot e)) (pi_inner idx)"

definition entry_wf :: "partition_entries \<Rightarrow> bool" where
  "entry_wf e \<longleftrightarrow> bt_wf (pe_hot e) \<and> bt_wf (pe_cold e) \<and>
     (\<forall>k. map_of (pe_hot e) k \<noteq> None \<longrightarrow> k < pe_next_offset e) \<and>
     (\<forall>s r. map_of (pe_cold e) s = Some r \<longrightarrow> or_end_offset r \<le> pe_next_offset e)"

definition index_wf :: "partition_index \<Rightarrow> bool" where
  "index_wf idx \<longleftrightarrow> distinct (map fst (pi_inner idx)) \<and> (\<forall>tp. entry_wf (entries_of idx tp)) \<and>
     pi_hot_bytes idx = word_of_nat (total_hot_size idx)"

lemma pe_default_simps [simp]:
  "pe_hot pe_default = []" "pe_cold pe_default = []" "pe_next_offset pe_default = 0"
  by (simp_all add: pe_default_def)

lemma next_offset_entries: "next_offset idx tp = pe_next_offset (entries_of idx tp)"
  by (simp add: next_offset_def entries_of_def hm_entry_def split: option.splits)

lemma read_plan_entries:
  "read_plan idx tp off mb =
     (if off \<ge> next_offset idx tp then Empty
      else if hot_at idx tp off \<noteq> None then Hot (hot_run (pe_hot (entries_of idx tp)) mb off 0 [])
      else (case bt_floor off (pe_cold (entries_of idx tp)) of
              Some (start, rng) \<Rightarrow>
                if off < or_end_offset rng then Cold (or_object_key rng) start (or_end_offset rng)
                else Empty
            | None \<Rightarrow> Empty))"
  by (auto simp: read_plan_def next_offset_entries hot_at_def entries_of_def hm_entry_def
      split: option.splits)

lemma bt_remove_absent: "map_of h k = None \<Longrightarrow> bt_remove k h = h"
  by (auto simp: bt_remove_def filter_id_conv map_of_eq_None_iff)

lemma evict_fst: "fst (evict ks hot f) = fold bt_remove ks hot"
  by (induction ks hot f rule: evict.induct) (auto simp: bt_remove_absent split: option.splits)

lemma evict_snd:
  "bt_wf hot \<Longrightarrow> snd (evict ks hot f) + word_of_nat (weight he_size (fst (evict ks hot f))) =
     f + word_of_nat (weight he_size hot)"
proof (induction ks hot f rule: evict.induct)
  case (2 k ks hot f)
  show ?case
  proof (cases "map_of hot k")
    case None
    with 2 show ?thesis by simp
  next
    case (Some old)
    have "weight he_size (bt_remove k hot) + he_size old = weight he_size hot"
      using weight_bt_remove [OF 2(3), of he_size k] Some by simp
    then have "(word_of_nat (he_size old) :: u64) + word_of_nat (weight he_size (bt_remove k hot)) =
        word_of_nat (weight he_size hot)"
      by (metis add.commute of_nat_add)
    with 2 Some show ?thesis by (simp add: add.assoc)
  qed
qed simp

lemma entries_of_upd [simp]:
  "entries_of (idx\<lparr>pi_inner := AList.update tp e (pi_inner idx)\<rparr>) tp' =
     (if tp' = tp then e else entries_of idx tp')"
  "entries_of (idx\<lparr>pi_hot_bytes := hb\<rparr>) tp' = entries_of idx tp'"
  by (simp_all add: entries_of_def)

lemma entries_insert_hot:
  "entries_of (insert_hot tp off r sz idx) tp' =
     (if tp' = tp then (entries_of idx tp)
        \<lparr>pe_hot := bt_insert off \<lparr>he_record = r, he_size = sz\<rparr> (pe_hot (entries_of idx tp)),
         pe_next_offset := max (next_offset idx tp) (off + 1)\<rparr>
      else entries_of idx tp')"
  by (simp add: insert_hot_def Let_def entries_of_def next_offset_entries)

lemma entries_remove_hot:
  "entries_of (remove_hot tp off idx) tp' =
     (if tp' = tp then (entries_of idx tp)\<lparr>pe_hot := bt_remove off (pe_hot (entries_of idx tp))\<rparr>
      else entries_of idx tp')"
  by (auto simp: remove_hot_def entries_of_def hm_entry_def bt_remove_absent update_conv'
      split: option.splits)

lemma entries_flip_to_cold:
  "entries_of (flip_to_cold tp st en key sz idx) tp' =
     (if tp' = tp then (entries_of idx tp)
        \<lparr>pe_hot := fold bt_remove (bt_range st en (pe_hot (entries_of idx tp))) (pe_hot (entries_of idx tp)),
         pe_cold := bt_insert st \<lparr>or_end_offset = en, or_object_key = key, or_size_bytes = sz\<rparr>
                      (pe_cold (entries_of idx tp)),
         pe_next_offset := max (next_offset idx tp) en\<rparr>
      else entries_of idx tp')"
  by (simp add: flip_to_cold_def Let_def entries_of_def next_offset_entries split_beta evict_fst)

lemma entries_insert_cold:
  "entries_of (insert_cold tp st en key sz idx) tp' =
     (if tp' = tp then (entries_of idx tp)
        \<lparr>pe_cold := bt_insert st \<lparr>or_end_offset = en, or_object_key = key, or_size_bytes = sz\<rparr>
                      (pe_cold (entries_of idx tp)),
         pe_next_offset := max (next_offset idx tp) en\<rparr>
      else entries_of idx tp')"
  by (simp add: insert_cold_def Let_def entries_of_def next_offset_entries)

lemma entries_replace_cold:
  "entries_of (replace_cold tp st en key sz idx) tp' =
     (if tp' = tp then (entries_of idx tp)
        \<lparr>pe_cold := bt_insert st \<lparr>or_end_offset = en, or_object_key = key, or_size_bytes = sz\<rparr>
                      (fold bt_remove (bt_range st en (pe_cold (entries_of idx tp)))
                        (pe_cold (entries_of idx tp))),
         pe_next_offset := max (next_offset idx tp) en\<rparr>
      else entries_of idx tp')"
  by (simp add: replace_cold_def Let_def entries_of_def next_offset_entries)

lemmas entries_ops =
  entries_insert_hot entries_remove_hot entries_flip_to_cold entries_insert_cold entries_replace_cold

lemma entry_wfD: "entry_wf e \<Longrightarrow> bt_wf (pe_hot e)" "entry_wf e \<Longrightarrow> bt_wf (pe_cold e)"
  by (simp_all add: entry_wf_def)

lemma index_wf_entry: "index_wf idx \<Longrightarrow> entry_wf (entries_of idx tp)"
  by (simp add: index_wf_def)

lemmas index_wf_bt = entry_wfD [OF index_wf_entry]

lemma hot_at_insert_hot [index_views]:
  "hot_at (insert_hot tp off r sz idx) tp' =
     (if tp' = tp then (hot_at idx tp)(off \<mapsto> \<lparr>he_record = r, he_size = sz\<rparr>) else hot_at idx tp')"
  by (simp add: hot_at_def entries_insert_hot)

lemma hot_at_remove_hot [index_views]:
  "hot_at (remove_hot tp off idx) tp' =
     (if tp' = tp then (hot_at idx tp)(off := None) else hot_at idx tp')"
  by (simp add: hot_at_def entries_remove_hot)

lemma hot_at_flip_to_cold [index_views]:
  "index_wf idx \<Longrightarrow> hot_at (flip_to_cold tp st en key sz idx) tp' =
     (if tp' = tp then (\<lambda>k. if st \<le> k \<and> k < en then None else hot_at idx tp k) else hot_at idx tp')"
  by (auto simp: hot_at_def entries_flip_to_cold bt.get_del_range index_wf_bt fun_eq_iff)

lemma hot_at_cold_ops [index_views]:
  "hot_at (insert_cold tp st en key sz idx) tp' = hot_at idx tp'"
  "hot_at (replace_cold tp st en key sz idx) tp' = hot_at idx tp'"
  by (simp_all add: hot_at_def entries_insert_cold entries_replace_cold)

lemma cold_map_hot_ops [index_views]:
  "cold_map (insert_hot tp off r sz idx) tp' = cold_map idx tp'"
  "cold_map (remove_hot tp off idx) tp' = cold_map idx tp'"
  by (simp_all add: cold_map_def entries_insert_hot entries_remove_hot)

lemma cold_map_cold_ops [index_views]:
  "cold_map (flip_to_cold tp st en key sz idx) tp' =
     (if tp' = tp then (cold_map idx tp)(st \<mapsto> \<lparr>or_end_offset = en, or_object_key = key, or_size_bytes = sz\<rparr>)
      else cold_map idx tp')"
  "cold_map (insert_cold tp st en key sz idx) tp' =
     (if tp' = tp then (cold_map idx tp)(st \<mapsto> \<lparr>or_end_offset = en, or_object_key = key, or_size_bytes = sz\<rparr>)
      else cold_map idx tp')"
  by (simp_all add: cold_map_def entries_flip_to_cold entries_insert_cold)

lemma cold_map_replace_cold [index_views]:
  "index_wf idx \<Longrightarrow> cold_map (replace_cold tp st en key sz idx) tp' =
     (if tp' = tp
      then (\<lambda>k. if st \<le> k \<and> k < en then None else cold_map idx tp k)
             (st \<mapsto> \<lparr>or_end_offset = en, or_object_key = key, or_size_bytes = sz\<rparr>)
      else cold_map idx tp')"
  by (auto simp: cold_map_def entries_replace_cold bt.get_del_range index_wf_bt fun_eq_iff)

lemma next_offset_ops [index_views]:
  "next_offset (insert_hot tp off r sz idx) tp' =
     (if tp' = tp then max (next_offset idx tp) (off + 1) else next_offset idx tp')"
  "next_offset (remove_hot tp off idx) tp' = next_offset idx tp'"
  "next_offset (flip_to_cold tp st en key sz idx) tp' =
     (if tp' = tp then max (next_offset idx tp) en else next_offset idx tp')"
  "next_offset (insert_cold tp st en key sz idx) tp' =
     (if tp' = tp then max (next_offset idx tp) en else next_offset idx tp')"
  "next_offset (replace_cold tp st en key sz idx) tp' =
     (if tp' = tp then max (next_offset idx tp) en else next_offset idx tp')"
  by (simp_all add: next_offset_entries entries_ops)

lemma views_new [index_views]:
  "hot_at index_new tp = Map.empty" "cold_map index_new tp = Map.empty" "next_offset index_new tp = 0"
  by (simp_all add: hot_at_def cold_map_def next_offset_entries entries_of_def hm_entry_def index_new_def)


section \<open>Well-formedness is preserved by every method\<close>

lemma update_entry_wf:
  assumes wf: "index_wf idx" and e: "entry_wf e'"
    and hb: "hb + word_of_nat (weight he_size (pe_hot (entries_of idx tp))) =
             pi_hot_bytes idx + word_of_nat (weight he_size (pe_hot e'))"
  shows "index_wf (idx\<lparr>pi_inner := AList.update tp e' (pi_inner idx), pi_hot_bytes := hb\<rparr>)"
proof -
  let ?w = "\<lambda>e. weight he_size (pe_hot e)"
  let ?idx = "idx\<lparr>pi_inner := AList.update tp e' (pi_inner idx), pi_hot_bytes := hb\<rparr>"
  have old: "(case map_of (pi_inner idx) tp of None \<Rightarrow> 0 | Some w \<Rightarrow> ?w w) = ?w (entries_of idx tp)"
    by (simp add: entries_of_def hm_entry_def split: option.splits)
  have "total_hot_size ?idx + ?w (entries_of idx tp) = total_hot_size idx + ?w e'"
    using weight_update [of "pi_inner idx" ?w tp e'] wf
    by (simp add: total_hot_size_def index_wf_def old)
  then have "(word_of_nat (total_hot_size ?idx) :: u64) + word_of_nat (?w (entries_of idx tp)) =
      word_of_nat (total_hot_size idx) + word_of_nat (?w e')"
    by (metis of_nat_add)
  then have "(word_of_nat (total_hot_size ?idx) :: u64) = hb"
    using hb wf by (simp add: index_wf_def) (metis add_right_cancel)
  with wf e show ?thesis by (simp add: index_wf_def distinct_update)
qed

lemma index_new_wf [simp]: "index_wf index_new"
  by (simp add: index_wf_def index_new_def entries_of_def hm_entry_def entry_wf_def total_hot_size_def)

lemma insert_hot_wf: 
  assumes "index_wf idx" shows "index_wf (insert_hot tp off r sz idx)"
proof -
  let ?e = "entries_of idx tp"
  let ?h = "\<lparr>he_record = r, he_size = sz\<rparr>"
  let ?old = "case map_of (pe_hot ?e) off of None \<Rightarrow> 0 | Some e \<Rightarrow> he_size e"
  have wf: "entry_wf ?e" using assms by (rule index_wf_entry)
  have "weight he_size (bt_insert off ?h (pe_hot ?e)) + ?old = weight he_size (pe_hot ?e) + sz"
    using weight_bt_insert [of "pe_hot ?e" he_size off ?h] wf by (simp add: entry_wf_def)
  then have "(word_of_nat (weight he_size (bt_insert off ?h (pe_hot ?e))) :: u64) + word_of_nat ?old =
     word_of_nat (weight he_size (pe_hot ?e)) + word_of_nat sz"
    by (metis of_nat_add)
  then have hb: "pi_hot_bytes idx - word_of_nat ?old + word_of_nat sz +
      word_of_nat (weight he_size (pe_hot ?e)) =
      pi_hot_bytes idx + word_of_nat (weight he_size (bt_insert off ?h (pe_hot ?e)))"
    by (simp add: algebra_simps)
  have "entry_wf (?e\<lparr>pe_hot := bt_insert off ?h (pe_hot ?e),
      pe_next_offset := max (pe_next_offset ?e) (off + 1)\<rparr>)"
    using wf by (auto simp: entry_wf_def less_max_iff_disj le_max_iff_disj)
  from update_entry_wf [OF assms this, of
      "pi_hot_bytes idx - word_of_nat ?old + word_of_nat sz"] hb
  have "index_wf (idx\<lparr>pi_inner := AList.update tp (?e\<lparr>pe_hot := bt_insert off ?h (pe_hot ?e),
      pe_next_offset := max (pe_next_offset ?e) (off + 1)\<rparr>) (pi_inner idx),
      pi_hot_bytes := pi_hot_bytes idx - word_of_nat ?old + word_of_nat sz\<rparr>)"
    by simp
  moreover have "(case map_of (pe_hot ?e) off of Some e \<Rightarrow> pi_hot_bytes idx - word_of_nat (he_size e)
      | None \<Rightarrow> pi_hot_bytes idx) = pi_hot_bytes idx - word_of_nat ?old"
    by (simp split: option.splits)
  ultimately show ?thesis by (simp add: insert_hot_def Let_def entries_of_def)
qed

lemma remove_hot_wf:
  assumes "index_wf idx" shows "index_wf (remove_hot tp off idx)"
proof (cases "hot_at idx tp off")
  case None
  then show ?thesis using assms
    by (simp add: remove_hot_def hot_at_def entries_of_def hm_entry_def split: option.splits)
next
  case (Some old)
  let ?e = "entries_of idx tp"
  have e: "map_of (pi_inner idx) tp = Some ?e" and old: "map_of (pe_hot ?e) off = Some old"
    using Some by (auto simp: hot_at_def entries_of_def hm_entry_def split: option.splits)
  have wf: "entry_wf ?e" using assms by (rule index_wf_entry)
  have "weight he_size (bt_remove off (pe_hot ?e)) + he_size old = weight he_size (pe_hot ?e)"
    using weight_bt_remove [of "pe_hot ?e" he_size off] wf old by (simp add: entry_wf_def)
  then have "(word_of_nat (weight he_size (pe_hot ?e)) :: u64) =
      word_of_nat (weight he_size (bt_remove off (pe_hot ?e))) + word_of_nat (he_size old)"
    by (metis of_nat_add)
  moreover have "entry_wf (?e\<lparr>pe_hot := bt_remove off (pe_hot ?e)\<rparr>)"
    using wf by (auto simp: entry_wf_def)
  ultimately show ?thesis
    using update_entry_wf [OF assms, of "?e\<lparr>pe_hot := bt_remove off (pe_hot ?e)\<rparr>"
      "pi_hot_bytes idx - word_of_nat (he_size old)" tp]
    by (simp add: remove_hot_def e old)
qed

lemma flip_to_cold_wf:
  assumes "index_wf idx" shows "index_wf (flip_to_cold tp st en key sz idx)"
proof -
  let ?e = "entries_of idx tp"
  let ?ev = "evict (bt_range st en (pe_hot ?e)) (pe_hot ?e) 0"
  let ?e' = "?e\<lparr>pe_hot := fst ?ev,
      pe_cold := bt_insert st \<lparr>or_end_offset = en, or_object_key = key, or_size_bytes = sz\<rparr> (pe_cold ?e),
      pe_next_offset := max (pe_next_offset ?e) en\<rparr>"
  have wf: "entry_wf ?e" using assms by (rule index_wf_entry)
  then have bt: "bt_wf (pe_hot ?e)" by (simp add: entry_wf_def)
  have sub: "map_of (fst ?ev) k \<noteq> None \<Longrightarrow> map_of (pe_hot ?e) k \<noteq> None" for k
    using bt by (auto simp: evict_fst bt.get_del_range split: if_splits)
  have "entry_wf ?e'"
    using wf sub by (auto simp: entry_wf_def evict_fst bt.wf_fold_del le_max_iff_disj less_max_iff_disj)
  moreover have "snd ?ev + word_of_nat (weight he_size (fst ?ev)) = word_of_nat (weight he_size (pe_hot ?e))"
    using evict_snd [OF bt] by simp
  ultimately have "index_wf (idx\<lparr>pi_inner := AList.update tp ?e' (pi_inner idx),
      pi_hot_bytes := pi_hot_bytes idx - snd ?ev\<rparr>)"
    using update_entry_wf [OF assms, of ?e' "pi_hot_bytes idx - snd ?ev" tp] by (simp add: algebra_simps)
  moreover have "flip_to_cold tp st en key sz idx =
      idx\<lparr>pi_inner := AList.update tp ?e' (pi_inner idx), pi_hot_bytes := pi_hot_bytes idx - snd ?ev\<rparr>"
    by (simp add: flip_to_cold_def Let_def split_beta entries_of_def word_gt_0)
  ultimately show ?thesis by simp
qed

lemma cold_ops_wf:
  assumes "index_wf idx"
  shows "index_wf (insert_cold tp st en key sz idx)" and "index_wf (replace_cold tp st en key sz idx)"
proof -
  let ?e = "entries_of idx tp"
  let ?r = "\<lparr>or_end_offset = en, or_object_key = key, or_size_bytes = sz\<rparr>"
  have wf: "entry_wf ?e" using assms by (rule index_wf_entry)
  have "entry_wf (?e\<lparr>pe_cold := bt_insert st ?r (pe_cold ?e), pe_next_offset := max (pe_next_offset ?e) en\<rparr>)"
    using wf by (auto simp: entry_wf_def le_max_iff_disj less_max_iff_disj)
  from update_entry_wf [OF assms this, of "pi_hot_bytes idx" tp]
  show "index_wf (insert_cold tp st en key sz idx)"
    by (simp add: insert_cold_def Let_def entries_of_def)
  have "entry_wf (?e\<lparr>pe_cold := bt_insert st ?r (fold bt_remove (bt_range st en (pe_cold ?e)) (pe_cold ?e)),
      pe_next_offset := max (pe_next_offset ?e) en\<rparr>)"
    using wf by (auto simp: entry_wf_def bt.wf_fold_del bt.get_del_range le_max_iff_disj less_max_iff_disj
        split: if_splits)
  from update_entry_wf [OF assms this, of "pi_hot_bytes idx" tp]
  show "index_wf (replace_cold tp st en key sz idx)"
    by (simp add: replace_cold_def Let_def entries_of_def)
qed

lemmas index_ops_wf = insert_hot_wf remove_hot_wf flip_to_cold_wf cold_ops_wf


section \<open>Sequences of methods\<close>

datatype index_op =
    InsertHot topic_partition offset wal_record nat
  | RemoveHot topic_partition offset
  | FlipToCold topic_partition offset offset string nat
  | InsertCold topic_partition offset offset string nat
  | ReplaceCold topic_partition offset offset string nat

primrec apply_op :: "index_op \<Rightarrow> partition_index \<Rightarrow> partition_index" where
  "apply_op (InsertHot tp off r sz) = insert_hot tp off r sz"
| "apply_op (RemoveHot tp off) = remove_hot tp off"
| "apply_op (FlipToCold tp st en key sz) = flip_to_cold tp st en key sz"
| "apply_op (InsertCold tp st en key sz) = insert_cold tp st en key sz"
| "apply_op (ReplaceCold tp st en key sz) = replace_cold tp st en key sz"

primrec op_partition :: "index_op \<Rightarrow> topic_partition" where
  "op_partition (InsertHot tp off r sz) = tp"
| "op_partition (RemoveHot tp off) = tp"
| "op_partition (FlipToCold tp st en key sz) = tp"
| "op_partition (InsertCold tp st en key sz) = tp"
| "op_partition (ReplaceCold tp st en key sz) = tp"

lemma apply_op_wf: "index_wf idx \<Longrightarrow> index_wf (apply_op op idx)"
  by (cases op) (simp_all add: index_ops_wf)

lemma apply_ops_wf: "index_wf idx \<Longrightarrow> index_wf (fold apply_op ops idx)"
  by (induction ops arbitrary: idx) (simp_all add: apply_op_wf)

lemma apply_op_other: "op_partition op \<noteq> tp \<Longrightarrow> entries_of (apply_op op idx) tp = entries_of idx tp"
  by (cases op) (simp_all add: entries_ops)

lemma apply_ops_other:
  "tp \<notin> op_partition ` set ops \<Longrightarrow> entries_of (fold apply_op ops idx) tp = entries_of idx tp"
  by (induction ops arbitrary: idx) (auto simp: apply_op_other)

text \<open>
  Memory accounting of the hot tier. After any sequence of index methods, from the empty
  index, the \<open>hot_bytes\<close> counter is the total size of the records the hot tier holds (modulo
  the counter's 64 bits: no decrement ever wraps it away from that total), every hot offset and
  every cold range lies below the partition's \<open>next_offset\<close>, and both maps stay ordered.
\<close>

theorem index_ops_accounting:
  "index_wf (fold apply_op ops index_new) \<and>
   hot_bytes (fold apply_op ops index_new) = word_of_nat (total_hot_size (fold apply_op ops index_new))"
  using apply_ops_wf [OF index_new_wf, of ops] by (simp add: index_wf_def hot_bytes_def)

text \<open>
  Partition isolation. Whatever methods run for other partitions, in any number and order,
  what a read of partition \<open>tp\<close> resolves to and the partition's next offset do not change.
\<close>

theorem partition_isolation:
  assumes "tp \<notin> op_partition ` set ops"
  shows "read_plan (fold apply_op ops idx) tp off mb = read_plan idx tp off mb \<and>
         next_offset (fold apply_op ops idx) tp = next_offset idx tp"
  using apply_ops_other [OF assms]
  by (simp add: read_plan_entries next_offset_entries hot_at_def)


definition sample_record :: "topic_partition \<Rightarrow> offset \<Rightarrow> bytes \<Rightarrow> wal_record" where
  "sample_record tp off v =
     \<lparr>wr_tp = tp, wr_offset = off,
      wr_record = \<lparr>rec_key = None, rec_value = v, rec_headers = [], rec_timestamp = 0\<rparr>,
      wr_crc32 = 0\<rparr>"

theorem partition_isolation_witness:
  "let a = TopicPartition ''a'' 0; b = TopicPartition ''b'' 1;
       ops = [InsertHot b 7 (sample_record b 7 [1]) 10, FlipToCold b 0 9 ''k'' 100];
       idx = insert_hot a 0 (sample_record a 0 [2]) 10 index_new
   in a \<notin> op_partition ` set ops \<and>
      read_plan (fold apply_op ops idx) a 0 100 = Hot [sample_record a 0 [2]] \<and>
      read_plan idx a 0 100 = Hot [sample_record a 0 [2]]"
proof -
  let ?a = "TopicPartition ''a'' 0" and ?b = "TopicPartition ''b'' 1"
  let ?ops = "[InsertHot ?b 7 (sample_record ?b 7 [1]) 10, FlipToCold ?b 0 9 ''k'' 100]"
  let ?idx = "insert_hot ?a 0 (sample_record ?a 0 [2]) 10 index_new"
  have h: "?a \<notin> op_partition ` set ?ops" by simp
  have r: "read_plan ?idx ?a 0 100 = Hot [sample_record ?a 0 [2]]"
    by (simp add: read_plan_def insert_hot_def index_new_def hm_entry_def Let_def hot_run.simps)
  have "read_plan (fold apply_op ?ops ?idx) ?a 0 100 = Hot [sample_record ?a 0 [2]]"
    unfolding partition_isolation [OF h, of ?idx 0 100, THEN conjunct1] by (rule r)
  with h r show ?thesis unfolding Let_def by blast
qed

section \<open>What a read resolves to\<close>

text \<open>
  The abstract description of the hot path: \<open>run_bytes\<close> is the size of the first \<open>n\<close>
  consecutive hot records from an offset, \<open>run_records\<close> those records.
\<close>

definition run_bytes :: "(offset \<rightharpoonup> hot_entry) \<Rightarrow> offset \<Rightarrow> nat \<Rightarrow> nat" where
  "run_bytes hot off n = (\<Sum>i<n. he_size (the (hot (off + i))))"

definition run_records :: "(offset \<rightharpoonup> hot_entry) \<Rightarrow> offset \<Rightarrow> nat \<Rightarrow> wal_record list" where
  "run_records hot off n = map (\<lambda>i. he_record (the (hot (off + i)))) [0..<n]"

lemma run_bytes_Suc: "run_bytes hot off (Suc n) = he_size (the (hot off)) + run_bytes hot (Suc off) n"
  by (simp add: run_bytes_def sum.lessThan_Suc_shift del: sum.lessThan_Suc)

lemma run_records_Suc: "run_records hot off (Suc n) = he_record (the (hot off)) # run_records hot (Suc off) n"
  by (simp add: run_records_def map_upt_Suc del: upt_Suc)

lemma hot_run_spec:
  "\<exists>n. hot_run hot mb cur b rs = rs @ run_records (map_of hot) cur n \<and>
       (\<forall>i<n. map_of hot (cur + i) \<noteq> None) \<and>
       (n = 0 \<or> (rs = [] \<and> n = 1) \<or> b + run_bytes (map_of hot) cur n \<le> mb) \<and>
       (map_of hot (cur + n) = None \<or>
        ((rs \<noteq> [] \<or> 0 < n) \<and> mb < b + run_bytes (map_of hot) cur (Suc n)))"
proof (induction hot mb cur b rs rule: hot_run.induct)
  case (1 hot mb cur b rs)
  show ?case
  proof (cases "map_of hot cur")
    case None
    then show ?thesis
      by (intro exI [of _ 0]) (simp add: hot_run.simps [of hot mb cur b rs] run_records_def)
  next
    case (Some e)
    show ?thesis
    proof (cases "rs \<noteq> [] \<and> b + he_size e > mb")
      case True
      with Some show ?thesis
        by (intro exI [of _ 0])
          (simp add: hot_run.simps [of hot mb cur b rs] run_records_def run_bytes_def Let_def)
    next
      case False
      from 1 [OF Some refl False] obtain n where
        n: "hot_run hot mb (cur + 1) (b + he_size e) (rs @ [he_record e]) =
              rs @ run_records (map_of hot) cur (Suc n)"
        and all: "\<forall>i<n. map_of hot (Suc cur + i) \<noteq> None"
        and bd: "n = 0 \<or> b + run_bytes (map_of hot) cur (Suc n) \<le> mb"
        and mx: "map_of hot (cur + Suc n) = None \<or> mb < b + run_bytes (map_of hot) cur (Suc (Suc n))"
        by (auto simp: run_records_Suc run_bytes_Suc [of _ cur] Some add.assoc)
      have "\<forall>i<Suc n. map_of hot (cur + i) \<noteq> None"
        using all Some by (auto simp: less_Suc_eq_0_disj)
      moreover have "Suc n = 0 \<or> (rs = [] \<and> Suc n = 1) \<or> b + run_bytes (map_of hot) cur (Suc n) \<le> mb"
        using bd False Some by (auto simp: run_bytes_def)
      moreover have "hot_run hot mb cur b rs = rs @ run_records (map_of hot) cur (Suc n)"
        using n Some False by (auto simp: hot_run.simps [of hot mb cur b rs] Let_def)
      ultimately show ?thesis using mx by blast
    qed
  qed
qed

interpretation cold: range_index map_of bt_insert bt_remove bt_range bt_floor bt_wf or_end_offset
  by unfold_locales

lemma read_plan_cold_iff:
  assumes "index_wf idx" and "ranges_disjoint or_end_offset (cold_map idx tp)"
    and "off < next_offset idx tp" and "hot_at idx tp off = None"
  shows "read_plan idx tp off mb = Cold key s e \<longleftrightarrow>
     (\<exists>rng. cold_map idx tp s = Some rng \<and> or_object_key rng = key \<and> or_end_offset rng = e \<and>
            s \<le> off \<and> off < e)"
proof -
  have "read_plan idx tp off mb = Cold key s e \<longleftrightarrow>
      (\<exists>rng. bt_floor off (pe_cold (entries_of idx tp)) = Some (s, rng) \<and> off < or_end_offset rng \<and>
         or_object_key rng = key \<and> or_end_offset rng = e)"
    using assms by (auto simp: read_plan_entries hot_at_def split: option.splits if_splits)
  then show ?thesis
    using cold.floor_covers_iff [of "pe_cold (entries_of idx tp)" off s] assms(1,2)
    by (auto simp: cold_map_def index_wf_bt)
qed

lemma read_plan_hot:
  assumes "index_wf idx" and hot: "hot_at idx tp off \<noteq> None"
  shows "\<exists>n>0. read_plan idx tp off mb = Hot (run_records (hot_at idx tp) off n) \<and>
      (\<forall>i<n. hot_at idx tp (off + i) \<noteq> None) \<and>
      (n = 1 \<or> run_bytes (hot_at idx tp) off n \<le> mb) \<and>
      (hot_at idx tp (off + n) = None \<or> mb < run_bytes (hot_at idx tp) off (Suc n))"
proof -
  let ?h = "pe_hot (entries_of idx tp)"
  have "off < next_offset idx tp"
    using assms(1) hot by (auto simp: index_wf_def entry_wf_def hot_at_def next_offset_entries)
  with hot have rp: "read_plan idx tp off mb = Hot (hot_run ?h mb off 0 [])"
    by (simp add: read_plan_entries)
  from hot_run_spec [of ?h mb off 0 "[]"] obtain n where
    n: "hot_run ?h mb off 0 [] = run_records (hot_at idx tp) off n"
      "\<forall>i<n. hot_at idx tp (off + i) \<noteq> None"
      "n = 0 \<or> n = 1 \<or> run_bytes (hot_at idx tp) off n \<le> mb"
      "hot_at idx tp (off + n) = None \<or> (0 < n \<and> mb < run_bytes (hot_at idx tp) off (Suc n))"
    by (auto simp: hot_at_def)
  with hot have "0 < n" by (cases n) auto
  with n rp show ?thesis
    by auto
qed

lemma read_plan_cold:
  assumes "index_wf idx" and "ranges_disjoint or_end_offset (cold_map idx tp)"
    and c: "hot_at idx tp off = None" "cold_map idx tp s = Some rng" "s \<le> off" "off < or_end_offset rng"
  shows "read_plan idx tp off mb = Cold (or_object_key rng) s (or_end_offset rng)"
proof -
  have "off < next_offset idx tp"
    using assms(1) c by (fastforce simp: index_wf_def entry_wf_def cold_map_def next_offset_entries)
  with c show ?thesis using read_plan_cold_iff [OF assms(1,2)] by blast
qed

text \<open>
  C25. Resolution of a read. In a well-formed index whose cold ranges are disjoint, a read at an
  offset returns (a) if the offset is hot, a non-empty run of consecutive hot records that starts
  exactly there, fits in \<open>max_bytes\<close> unless it is one record, and stops only at a gap or because
  the next record would not fit; (b) if it is not hot but some cold range covers it, that range and
  its object; (c) nothing otherwise.
\<close>

theorem read_plan_resolves:
  assumes "index_wf idx" and "ranges_disjoint or_end_offset (cold_map idx tp)"
  shows "(hot_at idx tp off \<noteq> None \<longrightarrow>
           (\<exists>n>0. read_plan idx tp off mb = Hot (run_records (hot_at idx tp) off n) \<and>
              (\<forall>i<n. hot_at idx tp (off + i) \<noteq> None) \<and>
              (n = 1 \<or> run_bytes (hot_at idx tp) off n \<le> mb) \<and>
              (hot_at idx tp (off + n) = None \<or> mb < run_bytes (hot_at idx tp) off (Suc n)))) \<and>
         (\<forall>s rng. hot_at idx tp off = None \<and> cold_map idx tp s = Some rng \<and> s \<le> off \<and>
              off < or_end_offset rng \<longrightarrow>
            read_plan idx tp off mb = Cold (or_object_key rng) s (or_end_offset rng)) \<and>
         (hot_at idx tp off = None \<and>
            (\<forall>s rng. cold_map idx tp s = Some rng \<longrightarrow> \<not> (s \<le> off \<and> off < or_end_offset rng)) \<longrightarrow>
            read_plan idx tp off mb = Empty)"
proof (intro conjI impI allI)
  assume "hot_at idx tp off \<noteq> None"
  then show "\<exists>n>0. read_plan idx tp off mb = Hot (run_records (hot_at idx tp) off n) \<and>
      (\<forall>i<n. hot_at idx tp (off + i) \<noteq> None) \<and>
      (n = 1 \<or> run_bytes (hot_at idx tp) off n \<le> mb) \<and>
      (hot_at idx tp (off + n) = None \<or> mb < run_bytes (hot_at idx tp) off (Suc n))"
    by (rule read_plan_hot [OF assms(1)])
next
  fix s rng
  assume "hot_at idx tp off = None \<and> cold_map idx tp s = Some rng \<and> s \<le> off \<and> off < or_end_offset rng"
  then show "read_plan idx tp off mb = Cold (or_object_key rng) s (or_end_offset rng)"
    using read_plan_cold [OF assms] by blast
next
  assume e: "hot_at idx tp off = None \<and>
      (\<forall>s rng. cold_map idx tp s = Some rng \<longrightarrow> \<not> (s \<le> off \<and> off < or_end_offset rng))"
  show "read_plan idx tp off mb = Empty"
  proof (cases "read_plan idx tp off mb")
    case (Hot x)
    with e show ?thesis by (auto simp: read_plan_entries split: if_splits option.splits)
  next
    case Empty
    then show ?thesis .
  next
    case (Cold key s en)
    then have "off < next_offset idx tp" by (auto simp: read_plan_entries split: if_splits)
    then have "\<exists>rng. cold_map idx tp s = Some rng \<and> s \<le> off \<and> off < or_end_offset rng"
      using read_plan_cold_iff [OF assms, of off mb key s en] Cold e by auto
    with e show ?thesis by blast
  qed
qed

theorem read_plan_resolves_witness:
  "let a = TopicPartition ''a'' 0;
       idx = fold apply_op [InsertHot a 0 (sample_record a 0 [2]) 10, InsertHot a 1 (sample_record a 1 [3]) 10,
                            FlipToCold a 0 1 ''k'' 50] index_new
   in index_wf idx \<and> ranges_disjoint or_end_offset (cold_map idx a) \<and>
      read_plan idx a 0 100 = Cold ''k'' 0 1 \<and>
      (\<exists>n>0. read_plan idx a 1 100 = Hot (run_records (hot_at idx a) 1 n)) \<and>
      read_plan idx a 2 100 = Empty"
proof -
  let ?a = "TopicPartition ''a'' 0"
  let ?i0 = "insert_hot ?a 1 (sample_record ?a 1 [3]) 10 (insert_hot ?a 0 (sample_record ?a 0 [2]) 10 index_new)"
  let ?idx = "flip_to_cold ?a 0 1 ''k'' 50 ?i0"
  have wf0: "index_wf ?i0" by (simp add: index_ops_wf)
  define idx where "idx = ?idx"
  have wf: "index_wf idx" unfolding idx_def using wf0 by (rule flip_to_cold_wf)
  have cold: "cold_map idx ?a = [0 \<mapsto> \<lparr>or_end_offset = 1, or_object_key = ''k'', or_size_bytes = 50\<rparr>]"
    by (simp add: index_views idx_def)
  have dj: "ranges_disjoint or_end_offset (cold_map idx ?a)"
    unfolding cold by (simp add: ranges_disjoint_def)
  have hot: "hot_at idx ?a k = (if k = 1 then Some \<lparr>he_record = sample_record ?a 1 [3], he_size = 10\<rparr> else None)"
    for k using wf0 by (simp add: index_views idx_def)
  note r = read_plan_resolves [OF wf dj]
  have "read_plan idx ?a 0 100 = Cold ''k'' 0 1"
    using r [of 0 100] by (simp add: hot cold)
  moreover have "\<exists>n>0. read_plan idx ?a 1 100 = Hot (run_records (hot_at idx ?a) 1 n)"
    using r [of 1 100] hot by auto
  moreover have "read_plan idx ?a 2 100 = Empty"
    using r [of 2 100] by (simp add: hot cold)
  ultimately show ?thesis using wf dj unfolding Let_def idx_def by simp
qed

end
