(* ===== verification/Cold_Index.thy ===== *)
theory Cold_Index
  imports Partition_Index "HOL-Library.Product_Lexorder" "HOL-Library.Multiset"
begin

text \<open>
  \<open>src/storage/cold_index.rs\<close>: the broker-local durable manifest of tiered segments, at the
  level of the bytes of its file. The manifest file is a byte string; \<open>append_record\<close> is its
  content after one fsynced append, \<open>load\<close> the replay at startup (with the truncation of a torn
  tail), \<open>fold_manifest\<close> the pure fold into the live set. \<open>bincode\<close> and \<open>crc32fast\<close> are
  parameters (\<open>ser\<close>, \<open>deser\<close>, \<open>crc\<close>).
\<close>

section \<open>Records and frames\<close>

datatype manifest_record =
    Register cold_segment
  | Compact cold_segment "string list"

record load_result =
  lr_live :: "cold_segment list"
  lr_orphan_object_keys :: "string list"

definition manifest_frame ::
  "(manifest_record \<Rightarrow> bytes) \<Rightarrow> (bytes \<Rightarrow> 32 word) \<Rightarrow> manifest_record \<Rightarrow> bytes" where
  "manifest_frame ser crc rec =
     (let body = ser rec in le_bytes 4 (length body) @ body @ le_bytes 4 (unat (crc body)))"

definition append_record ::
  "(manifest_record \<Rightarrow> bytes) \<Rightarrow> (bytes \<Rightarrow> 32 word) \<Rightarrow> manifest_record \<Rightarrow> bytes \<Rightarrow> bytes" where
  "append_record ser crc rec file = file @ manifest_frame ser crc rec"

definition register ::
  "(manifest_record \<Rightarrow> bytes) \<Rightarrow> (bytes \<Rightarrow> 32 word) \<Rightarrow> topic_partition \<Rightarrow> offset \<Rightarrow> offset \<Rightarrow>
   string \<Rightarrow> nat \<Rightarrow> bytes \<Rightarrow> bytes" where
  "register ser crc tp st en key sz file =
     append_record ser crc
       (Register \<lparr>cs_tp = tp, cs_start_offset = st, cs_end_offset = en,
                  cs_object_key = key, cs_size_bytes = sz\<rparr>) file"

definition record_compaction ::
  "(manifest_record \<Rightarrow> bytes) \<Rightarrow> (bytes \<Rightarrow> 32 word) \<Rightarrow> cold_segment \<Rightarrow> string list \<Rightarrow> bytes \<Rightarrow> bytes" where
  "record_compaction ser crc merged sources file = append_record ser crc (Compact merged sources) file"

section \<open>Replay\<close>

text \<open>
  The \<open>while\<close> loop of \<open>load\<close>: the records of the complete, checksummed frames, and the
  position where the loop stopped. (The \<open>checked_add\<close>s cannot fail on a 64-bit \<open>usize\<close>, since
  a length header is below \<open>2 ^ 32\<close>.)
\<close>

function load_loop ::
  "(bytes \<Rightarrow> manifest_record option) \<Rightarrow> (bytes \<Rightarrow> 32 word) \<Rightarrow> bytes \<Rightarrow> nat \<Rightarrow> manifest_record list \<Rightarrow>
   manifest_record list \<times> nat" where
  "load_loop deser crc bs pos records =
     (if pos + 4 \<le> length bs then
        (let len = of_le_bytes (take 4 (drop pos bs));
             body_start = pos + 4;
             crc_start = body_start + len;
             frame_end = crc_start + 4
         in if frame_end > length bs then (records, pos)
            else (let body = take len (drop body_start bs);
                      stored_crc = of_le_bytes (take 4 (drop crc_start bs))
                  in if unat (crc body) \<noteq> stored_crc then (records, pos)
                     else (case deser body of
                             None \<Rightarrow> (records, pos)
                           | Some rec \<Rightarrow> load_loop deser crc bs frame_end (records @ [rec]))))
      else (records, pos))"
  by pat_completeness auto
termination
  by (relation "measure (\<lambda>(deser, crc, bs, pos, rs). length bs - pos)") auto

declare load_loop.simps [simp del]

section \<open>Folding the log\<close>

type_synonym live_set = "(topic_partition \<times> (offset, cold_segment) btree) list"

fun fold_records ::
  "manifest_record list \<Rightarrow> live_set \<Rightarrow> string list \<Rightarrow> live_set \<times> string list" where
  "fold_records [] live orphans = (live, orphans)"
| "fold_records (Register seg # rs) live orphans =
     fold_records rs
       (AList.update (cs_tp seg)
          (bt_insert (cs_start_offset seg) seg (hm_entry [] live (cs_tp seg))) live)
       orphans"
| "fold_records (Compact merged sources # rs) live orphans =
     (let entries = hm_entry [] live (cs_tp merged);
          subsumed = bt_range (cs_start_offset merged) (cs_end_offset merged) entries;
          entries' = bt_insert (cs_start_offset merged) merged (fold bt_remove subsumed entries)
      in fold_records rs (AList.update (cs_tp merged) entries' live) (orphans @ sources))"

definition fold_manifest :: "manifest_record list \<Rightarrow> load_result" where
  "fold_manifest records =
     (let (live, orphans) = fold_records records [] [];
          out = concat (map (\<lambda>(tp, m). map snd m) live)
      in \<lparr>lr_live = sort_key (\<lambda>s. (cs_tp s, cs_start_offset s)) out,
          lr_orphan_object_keys = orphans\<rparr>)"

text \<open>\<open>load\<close>: the folded result and the file content it leaves (the torn tail cut off).\<close>

definition load ::
  "(bytes \<Rightarrow> manifest_record option) \<Rightarrow> (bytes \<Rightarrow> 32 word) \<Rightarrow> bytes \<Rightarrow> load_result \<times> bytes" where
  "load deser crc bs =
     (let (records, pos) = load_loop deser crc bs 0 []
      in (fold_manifest records, if pos < length bs then take pos bs else bs))"

section \<open>Crash safety of the file format\<close>

text \<open>
  What the manifest needs of the codec, for the records it holds: they decode to themselves and
  their encoding fits the frame's 32-bit length field.
\<close>

definition encodable ::
  "(manifest_record \<Rightarrow> bytes) \<Rightarrow> (bytes \<Rightarrow> manifest_record option) \<Rightarrow> manifest_record \<Rightarrow> bool" where
  "encodable ser deser r \<longleftrightarrow> deser (ser r) = Some r \<and> length (ser r) < 2 ^ 32"

abbreviation manifest_frames ::
  "(manifest_record \<Rightarrow> bytes) \<Rightarrow> (bytes \<Rightarrow> 32 word) \<Rightarrow> manifest_record list \<Rightarrow> bytes" where
  "manifest_frames ser crc rs \<equiv> concat (map (manifest_frame ser crc) rs)"

lemma length_manifest_frame: "length (manifest_frame ser crc r) = length (ser r) + 8"
  by (simp add: manifest_frame_def Let_def)

lemma crc_le_bytes [simp]: "of_le_bytes (le_bytes 4 (unat (c :: 32 word))) = unat c"
proof -
  have "unat c < 2 ^ 32" using unsigned_less [of c, where 'a = nat] by simp
  then show ?thesis by (intro of_le_bytes_le_bytes_id) simp
qed

lemma load_loop_frame:
  assumes "encodable ser deser r"
  shows "load_loop deser crc (pre @ manifest_frame ser crc r @ rest) (length pre) rs =
         load_loop deser crc (pre @ manifest_frame ser crc r @ rest)
           (length (pre @ manifest_frame ser crc r)) (rs @ [r])"
proof -
  let ?bs = "pre @ manifest_frame ser crc r @ rest"
  have len: "of_le_bytes (le_bytes 4 (length (ser r))) = length (ser r)"
    using assms by (intro of_le_bytes_le_bytes_id) (simp add: encodable_def)
  have dr: "drop (length pre) ?bs =
      le_bytes 4 (length (ser r)) @ ser r @ le_bytes 4 (unat (crc (ser r))) @ rest"
    by (simp add: manifest_frame_def Let_def)
  have t1: "take 4 (drop (length pre) ?bs) = le_bytes 4 (length (ser r))"
    by (subst dr) simp
  have t2: "take (length (ser r)) (drop (length pre + 4) ?bs) = ser r"
    by (subst add.commute, subst drop_drop [symmetric], subst dr) simp
  have "drop (length pre + 4 + length (ser r)) ?bs = drop (4 + length (ser r)) (drop (length pre) ?bs)"
    by (simp add: add.commute add.left_commute)
  then have t3: "take 4 (drop (length pre + 4 + length (ser r)) ?bs) = le_bytes 4 (unat (crc (ser r)))"
    by (subst (asm) dr) simp
  have fe: "length pre + 4 + length (ser r) + 4 = length (pre @ manifest_frame ser crc r)"
    by (simp add: length_manifest_frame)
  show ?thesis
    using assms
    by (subst load_loop.simps)
      (simp only: Let_def t1 len t2 t3 crc_le_bytes fe, simp add: length_manifest_frame encodable_def)
qed

lemma load_loop_frames:
  assumes "\<forall>r \<in> set rs. encodable ser deser r"
  shows "load_loop deser crc (pre @ manifest_frames ser crc rs @ rest) (length pre) acc =
         load_loop deser crc (pre @ manifest_frames ser crc rs @ rest)
           (length (pre @ manifest_frames ser crc rs)) (acc @ rs)"
  using assms
proof (induction rs arbitrary: pre acc)
  case (Cons r rs)
  have "load_loop deser crc (pre @ manifest_frame ser crc r @ manifest_frames ser crc rs @ rest)
          (length pre) acc =
        load_loop deser crc ((pre @ manifest_frame ser crc r) @ manifest_frames ser crc rs @ rest)
          (length (pre @ manifest_frame ser crc r)) (acc @ [r])"
    using load_loop_frame [of ser deser r crc pre "manifest_frames ser crc rs @ rest" acc] Cons.prems by simp
  also have "\<dots> = load_loop deser crc ((pre @ manifest_frame ser crc r) @ manifest_frames ser crc rs @ rest)
          (length ((pre @ manifest_frame ser crc r) @ manifest_frames ser crc rs)) ((acc @ [r]) @ rs)"
    using Cons.prems by (intro Cons.IH) simp
  finally show ?case by simp
qed simp

lemma load_loop_torn:
  assumes "length (ser r) < 2 ^ 32" and "n < length (manifest_frame ser crc r)"
  shows "load_loop deser crc (pre @ take n (manifest_frame ser crc r)) (length pre) acc = (acc, length pre)"
proof (cases "n < 4")
  case True
  then show ?thesis by (subst load_loop.simps) simp
next
  case False
  let ?bs = "pre @ take n (manifest_frame ser crc r)"
  have len: "of_le_bytes (le_bytes 4 (length (ser r))) = length (ser r)"
    using assms by (intro of_le_bytes_le_bytes_id) simp
  have "take 4 (drop (length pre) ?bs) = le_bytes 4 (length (ser r))"
    using False by (simp add: manifest_frame_def Let_def min_def)
  with len have l: "of_le_bytes (take 4 (drop (length pre) ?bs)) = length (ser r)" by simp
  have "length ?bs < length pre + 4 + length (ser r) + 4"
    using assms(2) by (simp add: length_manifest_frame)
  then show ?thesis by (subst load_loop.simps) (simp only: Let_def l, simp)
qed

lemma load_loop_end: "load_loop deser crc bs (length bs) acc = (acc, length bs)"
  by (subst load_loop.simps) simp

lemma load_frames_torn:
  assumes "\<forall>r \<in> set rs. encodable ser deser r" and "length (ser r) < 2 ^ 32"
    and "n < length (manifest_frame ser crc r)"
  shows "load deser crc (manifest_frames ser crc rs @ take n (manifest_frame ser crc r)) =
         (fold_manifest rs, manifest_frames ser crc rs)"
  using load_loop_frames [OF assms(1), of crc "[]" "take n (manifest_frame ser crc r)" "[]"]
    load_loop_torn [OF assms(2,3), of deser "manifest_frames ser crc rs" rs]
  by (simp add: load_def)

lemma load_frames:
  assumes "\<forall>r \<in> set rs. encodable ser deser r"
  shows "load deser crc (manifest_frames ser crc rs) = (fold_manifest rs, manifest_frames ser crc rs)"
  using load_loop_frames [OF assms, of crc "[]" "[]" "[]"]
  by (simp add: load_def load_loop_end)

text \<open>
  C27. Crash safety of the manifest. Whatever number of bytes of a last frame reached the disk
  before a crash (none, or any proper part of it), \<open>load\<close> recovers exactly the records appended
  before it and cuts the torn bytes off, so records appended after the restart are recovered by the
  next \<open>load\<close> together with the old ones.
\<close>

theorem manifest_crash_safe:
  assumes "\<forall>r \<in> set (rs @ rs'). encodable ser deser r" and "length (ser r) < 2 ^ 32"
    and "n < length (manifest_frame ser crc r)"
  shows "load deser crc (fold (append_record ser crc) rs [] @ take n (manifest_frame ser crc r)) =
           (fold_manifest rs, fold (append_record ser crc) rs []) \<and>
         fst (load deser crc (fold (append_record ser crc) rs'
           (snd (load deser crc (fold (append_record ser crc) rs [] @ take n (manifest_frame ser crc r)))))) =
         fold_manifest (rs @ rs')"
proof -
  have app: "fold (append_record ser crc) xs f = f @ manifest_frames ser crc xs" for xs f
    by (induction xs arbitrary: f) (simp_all add: append_record_def)
  have 1: "load deser crc (manifest_frames ser crc rs @ take n (manifest_frame ser crc r)) =
      (fold_manifest rs, manifest_frames ser crc rs)"
    using assms by (intro load_frames_torn) auto
  have 2: "load deser crc (manifest_frames ser crc rs @ manifest_frames ser crc rs') =
      (fold_manifest (rs @ rs'), manifest_frames ser crc (rs @ rs'))"
    using load_frames [OF assms(1), of crc] by simp
  show ?thesis by (simp add: app 1 2)
qed

definition sample_segment :: "offset \<Rightarrow> offset \<Rightarrow> string \<Rightarrow> cold_segment" where
  "sample_segment st en key =
     \<lparr>cs_tp = TopicPartition ''t'' 0, cs_start_offset = st, cs_end_offset = en,
      cs_object_key = key, cs_size_bytes = 10\<rparr>"

theorem manifest_crash_safe_witness:
  "let r0 = Register (sample_segment 0 5 ''a''); r1 = Register (sample_segment 5 9 ''b'');
       ser = (\<lambda>r. if r = r0 then [1, 2] else [3]);
       deser = (\<lambda>b. if b = [1, 2] then Some r0 else if b = [3] then Some r1 else None);
       crc = (\<lambda>b. 7)
   in load deser crc (fold (append_record ser crc) [r0] [] @ take 5 (manifest_frame ser crc r1)) =
        (fold_manifest [r0], fold (append_record ser crc) [r0] []) \<and>
      fst (load deser crc (fold (append_record ser crc) [r1]
        (snd (load deser crc (fold (append_record ser crc) [r0] [] @ take 5 (manifest_frame ser crc r1)))))) =
      fold_manifest [r0, r1]"
proof -
  let ?r0 = "Register (sample_segment 0 5 ''a'')" and ?r1 = "Register (sample_segment 5 9 ''b'')"
  let ?ser = "\<lambda>r. if r = ?r0 then [1, 2 :: byte] else [3]"
  let ?deser = "\<lambda>b :: bytes. if b = [1, 2] then Some ?r0 else if b = [3] then Some ?r1 else None"
  let ?crc = "\<lambda>b :: bytes. 7 :: 32 word"
  have ne: "?r1 \<noteq> ?r0" by (simp add: sample_segment_def)
  have a: "\<forall>r \<in> set ([?r0] @ [?r1]). encodable ?ser ?deser r" using ne by (simp add: encodable_def)
  have b: "length (?ser ?r1) < 2 ^ 32" using ne by simp
  have c: "5 < length (manifest_frame ?ser ?crc ?r1)" using ne by (simp add: length_manifest_frame)
  show ?thesis unfolding Let_def using manifest_crash_safe [OF a b c] unfolding append_Cons append_Nil .
qed

section \<open>The fold mirrors the in-memory index\<close>

text \<open>
  \<open>PartitionIndex::replace_cold\<close> claims to mirror the manifest's fold so that the in-memory and
  the durable view stay identical. An event of a running broker is a hot-tier change (not logged)
  or a tiering or compaction step, which is logged and applied to the index.
\<close>

datatype store_event =
    HotInsert topic_partition offset wal_record nat
  | HotDrop topic_partition offset
  | Tiered cold_segment
  | Compacted cold_segment "string list"

primrec event_op :: "store_event \<Rightarrow> index_op" where
  "event_op (HotInsert tp off r sz) = InsertHot tp off r sz"
| "event_op (HotDrop tp off) = RemoveHot tp off"
| "event_op (Tiered seg) =
     FlipToCold (cs_tp seg) (cs_start_offset seg) (cs_end_offset seg) (cs_object_key seg) (cs_size_bytes seg)"
| "event_op (Compacted seg sources) =
     ReplaceCold (cs_tp seg) (cs_start_offset seg) (cs_end_offset seg) (cs_object_key seg) (cs_size_bytes seg)"

primrec event_log :: "store_event \<Rightarrow> manifest_record list" where
  "event_log (HotInsert tp off r sz) = []"
| "event_log (HotDrop tp off) = []"
| "event_log (Tiered seg) = [Register seg]"
| "event_log (Compacted seg sources) = [Compact seg sources]"

definition seg_range :: "cold_segment \<Rightarrow> object_range" where
  "seg_range seg = \<lparr>or_end_offset = cs_end_offset seg, or_object_key = cs_object_key seg,
                    or_size_bytes = cs_size_bytes seg\<rparr>"

definition live_map :: "live_set \<Rightarrow> topic_partition \<Rightarrow> offset \<Rightarrow> cold_segment option" where
  "live_map live tp = map_of (hm_entry [] live tp)"

definition live_wf :: "live_set \<Rightarrow> bool" where
  "live_wf live \<longleftrightarrow> distinct (map fst live) \<and>
     (\<forall>tp. bt_wf (hm_entry [] live tp) \<and>
        (\<forall>s seg. live_map live tp s = Some seg \<longrightarrow> cs_tp seg = tp \<and> cs_start_offset seg = s))"

definition mirrors :: "live_set \<Rightarrow> partition_index \<Rightarrow> bool" where
  "mirrors live idx \<longleftrightarrow> (\<forall>tp s. cold_map idx tp s = map_option seg_range (live_map live tp s))"

lemma live_map_update:
  "live_map (AList.update tp t live) tp' = (if tp' = tp then map_of t else live_map live tp')"
  by (simp add: live_map_def)

lemma live_wf_update:
  assumes "live_wf live" and "bt_wf t"
    and "\<And>s seg. map_of t s = Some seg \<Longrightarrow> cs_tp seg = tp \<and> cs_start_offset seg = s"
  shows "live_wf (AList.update tp t live)"
  using assms by (simp add: live_wf_def distinct_update live_map_update)

definition live_register :: "cold_segment \<Rightarrow> live_set \<Rightarrow> live_set" where
  "live_register seg live =
     AList.update (cs_tp seg) (bt_insert (cs_start_offset seg) seg (hm_entry [] live (cs_tp seg))) live"

definition live_compact :: "cold_segment \<Rightarrow> live_set \<Rightarrow> live_set" where
  "live_compact m live =
     AList.update (cs_tp m) (bt_insert (cs_start_offset m) m
       (fold bt_remove (bt_range (cs_start_offset m) (cs_end_offset m) (hm_entry [] live (cs_tp m)))
          (hm_entry [] live (cs_tp m)))) live"

primrec live_step :: "manifest_record \<Rightarrow> live_set \<Rightarrow> live_set" where
  "live_step (Register seg) = live_register seg"
| "live_step (Compact m sources) = live_compact m"

lemma fst_fold_records: "fst (fold_records rs live orphans) = fold live_step rs live"
  by (induction rs live orphans rule: fold_records.induct)
    (simp_all add: live_register_def live_compact_def Let_def)

lemma live_map_register:
  "live_map (live_register seg live) tp =
     (if tp = cs_tp seg then (live_map live tp)(cs_start_offset seg \<mapsto> seg) else live_map live tp)"
  by (simp add: live_register_def live_map_update) (simp add: live_map_def)

lemma live_map_compact:
  "live_wf live \<Longrightarrow> live_map (live_compact m live) tp =
     (if tp = cs_tp m
      then (\<lambda>k. if cs_start_offset m \<le> k \<and> k < cs_end_offset m then None else live_map live tp k)
             (cs_start_offset m \<mapsto> m)
      else live_map live tp)"
  by (auto simp: live_compact_def live_map_update bt.get_del_range live_wf_def live_map_def fun_eq_iff)

lemma live_step_wf: "live_wf live \<Longrightarrow> live_wf (live_step r live)"
proof (cases r)
  case (Register seg)
  assume "live_wf live"
  then show ?thesis unfolding Register live_step.simps live_register_def
    by (intro live_wf_update) (auto simp: live_wf_def live_map_def split: if_splits)
next
  case (Compact m sources)
  assume "live_wf live"
  then show ?thesis unfolding Compact live_step.simps live_compact_def
    by (intro live_wf_update)
      (auto simp: live_wf_def live_map_def bt.wf_fold_del bt.get_del_range split: if_splits)
qed

lemma live_steps_wf: "live_wf live \<Longrightarrow> live_wf (fold live_step rs live)"
  by (induction rs arbitrary: live) (simp_all add: live_step_wf)

lemma live_wf_Nil [simp]: "live_wf []"
  by (simp add: live_wf_def hm_entry_def live_map_def)

lemma mirrors_step:
  assumes "mirrors live idx" and "live_wf live" and "index_wf idx"
  shows "mirrors (fold live_step (event_log ev) live) (apply_op (event_op ev) idx)"
  using assms
  by (cases ev) (auto simp: mirrors_def index_views live_map_register live_map_compact seg_range_def)

lemma mirrors_steps:
  assumes "mirrors live idx" and "live_wf live" and "index_wf idx"
  shows "mirrors (fold live_step (concat (map event_log evs)) live) (fold apply_op (map event_op evs) idx)"
  using assms
proof (induction evs arbitrary: live idx)
  case (Cons ev evs)
  from mirrors_step [OF Cons.prems, of ev] Cons.prems
  have "mirrors (fold live_step (concat (map event_log evs)) (fold live_step (event_log ev) live))
      (fold apply_op (map event_op evs) (apply_op (event_op ev) idx))"
    by (intro Cons.IH) (simp_all add: live_steps_wf apply_op_wf)
  then show ?case by simp
qed simp

section \<open>Recovery rebuilds the cold index\<close>

text \<open>The first loop of \<open>PartitionStore::new_with_fencing\<close>: insert every live segment.\<close>

definition restore_cold :: "cold_segment list \<Rightarrow> partition_index \<Rightarrow> partition_index" where
  "restore_cold segs idx =
     fold (\<lambda>seg. insert_cold (cs_tp seg) (cs_start_offset seg) (cs_end_offset seg)
                  (cs_object_key seg) (cs_size_bytes seg)) segs idx"

definition live_segments :: "live_set \<Rightarrow> cold_segment list" where
  "live_segments live = concat (map (\<lambda>(tp, m). map snd m) live)"

abbreviation seg_key :: "cold_segment \<Rightarrow> topic_partition \<times> offset" where
  "seg_key s \<equiv> (cs_tp s, cs_start_offset s)"

lemma lr_live_fold_manifest:
  "lr_live (fold_manifest rs) = sort_key seg_key (live_segments (fold live_step rs []))"
  by (simp add: fold_manifest_def live_segments_def split_beta Let_def fst_fold_records)

lemma distinct_live_segments:
  assumes "distinct (map fst live)"
    and "\<And>tp m. (tp, m) \<in> set live \<Longrightarrow> distinct (map fst m) \<and> (\<forall>e \<in> set m. seg_key (snd e) = (tp, fst e))"
  shows "distinct (map seg_key (live_segments live))"
  using assms
proof (induction live)
  case (Cons x live)
  obtain tp m where x: "x = (tp, m)" by (cases x)
  have m: "distinct (map fst m)" "\<And>e. e \<in> set m \<Longrightarrow> seg_key (snd e) = (tp, fst e)"
    using Cons.prems(2) [of tp m] x by auto
  have "map (seg_key \<circ> snd) m = map (Pair tp) (map fst m)" using m(2) by auto
  then have "distinct (map (seg_key \<circ> snd) m)" using m(1) by (simp add: distinct_map inj_on_def)
  moreover have "distinct (map seg_key (live_segments live))"
    using Cons.prems by (intro Cons.IH) auto
  moreover have "seg_key (snd e) \<noteq> seg_key seg" if e: "e \<in> set m" and seg: "seg \<in> set (live_segments live)" for e seg
  proof -
    from seg obtain tp' m' e' where e': "(tp', m') \<in> set live" "e' \<in> set m'" "seg = snd e'"
      by (auto simp: live_segments_def)
    then have "cs_tp seg = tp'" using Cons.prems(2) [of tp' m'] by auto
    moreover have "tp' \<noteq> tp" using e'(1) Cons.prems(1) x by force
    ultimately show ?thesis using m(2) [OF e] by auto
  qed
  ultimately show ?case using x by (fastforce simp: live_segments_def)
qed (simp add: live_segments_def)

lemma live_wf_entries:
  assumes "live_wf live" and "(tp, m) \<in> set live"
  shows "distinct (map fst m) \<and> (\<forall>e \<in> set m. seg_key (snd e) = (tp, fst e))"
proof -
  have m: "hm_entry [] live tp = m"
    using assms by (simp add: live_wf_def hm_entry_def map_of_eq_Some_iff)
  then have wf: "bt_wf m" using assms(1) by (auto simp: live_wf_def)
  then have "map_of m (fst e) = Some (snd e)" if "e \<in> set m" for e
    using that by (simp add: bt_wf_distinct)
  then have lm: "live_map live tp (fst e) = Some (snd e)" if "e \<in> set m" for e
    using that m by (simp add: live_map_def)
  have "seg_key (snd e) = (tp, fst e)" if "e \<in> set m" for e
    using lm [OF that] assms(1) unfolding live_wf_def by blast
  with bt_wf_distinct [OF wf] show ?thesis by blast
qed

lemma set_live_segments:
  assumes "live_wf live"
  shows "seg \<in> set (live_segments live) \<longleftrightarrow> live_map live (cs_tp seg) (cs_start_offset seg) = Some seg"
proof
  assume "seg \<in> set (live_segments live)"
  then obtain tp m where m: "(tp, m) \<in> set live" "seg \<in> snd ` set m"
    by (auto simp: live_segments_def)
  then obtain s where s: "(s, seg) \<in> set m" by auto
  have "hm_entry [] live tp = m"
    using assms m(1) by (simp add: live_wf_def hm_entry_def map_of_eq_Some_iff)
  moreover have "tp = cs_tp seg" "s = cs_start_offset seg" "distinct (map fst m)"
    using live_wf_entries [OF assms m(1)] s by auto
  ultimately show "live_map live (cs_tp seg) (cs_start_offset seg) = Some seg"
    using s by (simp add: live_map_def)
next
  assume l: "live_map live (cs_tp seg) (cs_start_offset seg) = Some seg"
  then obtain m where "map_of live (cs_tp seg) = Some m" "map_of m (cs_start_offset seg) = Some seg"
    by (auto simp: live_map_def hm_entry_def split: option.splits)
  then have "(cs_tp seg, m) \<in> set live" "(cs_start_offset seg, seg) \<in> set m"
    by (auto dest: map_of_SomeD)
  then show "seg \<in> set (live_segments live)"
    by (force simp: live_segments_def)
qed

lemma cold_map_restore:
  "cold_map (restore_cold segs idx) tp s =
     (case map_of (rev (map (\<lambda>seg. (seg_key seg, seg)) segs)) (tp, s) of
        None \<Rightarrow> cold_map idx tp s | Some seg \<Rightarrow> Some (seg_range seg))"
proof (induction segs arbitrary: idx)
  case Nil
  then show ?case by (simp add: restore_cold_def)
next
  case (Cons seg segs)
  let ?ins = "insert_cold (cs_tp seg) (cs_start_offset seg) (cs_end_offset seg) (cs_object_key seg)
    (cs_size_bytes seg)"
  have "restore_cold (seg # segs) idx = restore_cold segs (?ins idx)"
    by (simp add: restore_cold_def)
  then show ?case using Cons.IH [of "?ins idx"]
    by (auto simp: index_views seg_range_def map_add_def split: option.splits)
qed

lemma cold_map_restore_distinct:
  assumes "distinct (map seg_key segs)"
  shows "cold_map (restore_cold segs index_new) tp s = Some r \<longleftrightarrow>
     (\<exists>seg \<in> set segs. seg_key seg = (tp, s) \<and> seg_range seg = r)"
proof -
  let ?ps = "rev (map (\<lambda>seg. (seg_key seg, seg)) segs)"
  have "distinct (map fst ?ps)" using assms by (simp add: rev_map [symmetric] comp_def)
  then have iff: "map_of ?ps (tp, s) = Some seg \<longleftrightarrow> seg \<in> set segs \<and> seg_key seg = (tp, s)" for seg
    by (auto simp: map_of_eq_Some_iff)
  show ?thesis
  proof (cases "map_of ?ps (tp, s)")
    case None
    with iff have "\<forall>seg \<in> set segs. seg_key seg \<noteq> (tp, s)" by (metis option.distinct(1))
    with None show ?thesis by (auto simp: cold_map_restore index_views)
  next
    case (Some seg)
    with iff have "\<forall>seg' \<in> set segs. seg_key seg' = (tp, s) \<longrightarrow> seg' = seg" by (metis option.inject)
    with Some iff [of seg] show ?thesis by (auto simp: cold_map_restore)
  qed
qed

text \<open>What a restart restores is the live set of the manifest.\<close>

lemma set_lr_live:
  "seg \<in> set (lr_live (fold_manifest ms)) \<longleftrightarrow> live_map (fold live_step ms []) (cs_tp seg) (cs_start_offset seg) = Some seg"
  using set_live_segments [OF live_steps_wf [OF live_wf_Nil], of seg ms] by (simp add: lr_live_fold_manifest)

lemma cold_map_restore_manifest:
  "cold_map (restore_cold (lr_live (fold_manifest ms)) index_new) tp s =
     map_option seg_range (live_map (fold live_step ms []) tp s)"
proof -
  let ?live = "fold live_step ms []" and ?segs = "lr_live (fold_manifest ms)"
  have wf: "live_wf ?live" by (simp add: live_steps_wf)
  have "distinct (map seg_key (live_segments ?live))"
    using wf live_wf_entries [OF wf] by (intro distinct_live_segments) (auto simp: live_wf_def)
  then have "distinct (map seg_key ?segs)" by (simp add: lr_live_fold_manifest distinct_map)
  note restored = cold_map_restore_distinct [OF this]
  have live: "live_map ?live tp s = Some seg \<longleftrightarrow> seg \<in> set ?segs \<and> seg_key seg = (tp, s)" for seg
  proof
    assume l: "live_map ?live tp s = Some seg"
    then have "cs_tp seg = tp \<and> cs_start_offset seg = s" using wf unfolding live_wf_def by blast
    with l show "seg \<in> set ?segs \<and> seg_key seg = (tp, s)" by (simp add: set_lr_live)
  qed (auto simp: set_lr_live)
  have "cold_map (restore_cold ?segs index_new) tp s = Some r \<longleftrightarrow>
      map_option seg_range (live_map ?live tp s) = Some r" for r
    unfolding restored map_option_eq_Some Bex_def live by blast
  then show ?thesis by (metis option.exhaust)
qed

text \<open>
  C6. The durable and the in-memory cold index stay identical. For every history of a broker
  (hot-tier inserts and drops, tiering registrations, compactions, in any order), folding the
  manifest records the history logged and inserting the live segments into an empty index, as a
  restart does, rebuilds for every partition exactly the cold ranges the running index had.
\<close>

theorem recovery_restores_cold_index:
  "cold_map (restore_cold (lr_live (fold_manifest (concat (map event_log evs)))) index_new) tp =
   cold_map (fold apply_op (map event_op evs) index_new) tp"
proof
  fix s
  have "mirrors (fold live_step (concat (map event_log evs)) []) (fold apply_op (map event_op evs) index_new)"
    by (rule mirrors_steps) (simp_all add: mirrors_def index_views live_map_def hm_entry_def)
  then show "cold_map (restore_cold (lr_live (fold_manifest (concat (map event_log evs)))) index_new) tp s =
      cold_map (fold apply_op (map event_op evs) index_new) tp s"
    by (simp add: cold_map_restore_manifest mirrors_def)
qed

text \<open>
  Why a log segment must be gone before its range is compacted. When two adjacent ranges were tiered
  and merged, and the log segment of the first one, kept by a fenced or interrupted tiering run, is then
  tiered again, the flip replaces the merged range by the small one: every offset of the second range
  reads as empty below the next offset, and the object that was just registered is both live and in
  the list of orphans that the next start deletes.
\<close>

theorem retier_after_compaction_loses:
  assumes "cs_tp a = tp" and "cs_tp b = tp" and "cs_tp m = tp"
    and "cs_start_offset a < cs_end_offset a" and "cs_end_offset a = cs_start_offset b" and "cs_start_offset b < cs_end_offset b"
    and "cs_start_offset m = cs_start_offset a" and "cs_end_offset m = cs_end_offset b"
    and "cs_start_offset b \<le> off" and "off < cs_end_offset b"
  shows "let evs = [Tiered a, Tiered b, Compacted m [cs_object_key a, cs_object_key b], Tiered a];
             idx = fold apply_op (map event_op evs) index_new;
             manifest = fold_manifest (concat (map event_log evs))
         in off < next_offset idx tp \<and> read_plan idx tp off mb = Empty \<and>
            a \<in> set (lr_live manifest) \<and> cs_object_key a \<in> set (lr_orphan_object_keys manifest)"
proof -
  let ?evs = "[Tiered a, Tiered b, Compacted m [cs_object_key a, cs_object_key b], Tiered a]"
  define idx where "idx = fold apply_op (map event_op ?evs) index_new"
  have wf: "index_wf idx" unfolding idx_def by (rule apply_ops_wf) simp
  have wfs: "index_wf (flip_to_cold tp' st en key sz (flip_to_cold tp' st' en' key' sz' index_new))" for tp' st en key sz st' en' key' sz'
    by (intro flip_to_cold_wf) simp
  have cm: "cold_map idx tp = [cs_start_offset a \<mapsto> seg_range a]"
    unfolding idx_def using assms wfs by (auto simp: index_views seg_range_def fun_eq_iff)
  have next_off: "next_offset idx tp = cs_end_offset b" unfolding idx_def using assms by (auto simp: index_views)
  have hot: "hot_at idx tp off = None" unfolding idx_def using assms wfs by (simp add: index_views flip_to_cold_wf cold_ops_wf)
  have dis: "ranges_disjoint or_end_offset (cold_map idx tp)" by (simp add: cm ranges_disjoint_def)
  have "read_plan idx tp off mb = Empty"
  proof (cases "read_plan idx tp off mb")
    case (Cold key s e)
    with read_plan_cold_iff [OF wf dis _ hot] next_off assms cm show ?thesis by (auto simp: seg_range_def split: if_splits)
  qed (use hot in \<open>auto simp: read_plan_entries split: if_splits option.splits\<close>)
  moreover have "a \<in> set (lr_live (fold_manifest (concat (map event_log ?evs))))"
    unfolding set_lr_live by (simp add: live_map_register)
  moreover have "cs_object_key a \<in> set (lr_orphan_object_keys (fold_manifest (concat (map event_log ?evs))))"
    by (simp add: fold_manifest_def Let_def split_beta)
  ultimately show ?thesis using next_off assms unfolding idx_def Let_def by simp
qed

theorem retier_after_compaction_loses_witness:
  "let a = sample_segment 0 5 ''a''; b = sample_segment 5 9 ''b''; m = sample_segment 0 9 ''m'';
       evs = [Tiered a, Tiered b, Compacted m [''a'', ''b''], Tiered a];
       idx = fold apply_op (map event_op evs) index_new
   in read_plan idx (TopicPartition ''t'' 0) 7 100 = Empty \<and> next_offset idx (TopicPartition ''t'' 0) = 9 \<and>
      ''a'' \<in> set (lr_orphan_object_keys (fold_manifest (concat (map event_log evs))))"
  using retier_after_compaction_loses [of "sample_segment 0 5 ''a''" "TopicPartition ''t'' 0" "sample_segment 5 9 ''b''" "sample_segment 0 9 ''m''" 7 100]
  by (simp add: sample_segment_def Let_def index_views)

end
