(* ===== verification/Object_Storage.thy ===== *)
theory Object_Storage
  imports RMQ_Types "HOL-Library.Sublist"
begin

text \<open>
  \<open>src/storage/traits.rs\<close> (the \<open>ObjectStorage\<close> interface) and
  \<open>src/storage/object_storage.rs\<close>: the local object store, the bandwidth limiter and the
  upload manager. A trait object is a record of its methods over a state of type \<open>'o\<close>; the
  locale \<open>object_store\<close> states what a client may rely on, and is interpreted on
  \<open>LocalObjectStorage\<close>. \<open>crc32fast\<close> and \<open>lz4_flex\<close> are parameters. Characters are bytes, so
  \<open>is_alphanumeric\<close> is its restriction to ASCII.
\<close>

section \<open>The ObjectStorage interface\<close>

record object_version =
  ov_e_tag :: "string option"
  ov_version :: "string option"

datatype precondition = Create | Match object_version

datatype put_outcome = Written object_version | PreconditionFailed

record 'o object_ops =
  op_put :: "string \<Rightarrow> bytes \<Rightarrow> 'o \<Rightarrow> unit result \<times> 'o"
  op_put_if :: "string \<Rightarrow> bytes \<Rightarrow> precondition \<Rightarrow> 'o \<Rightarrow> put_outcome result \<times> 'o"
  op_get :: "string \<Rightarrow> 'o \<Rightarrow> bytes result"
  op_get_versioned :: "string \<Rightarrow> 'o \<Rightarrow> (bytes \<times> object_version) result"
  op_delete :: "string \<Rightarrow> 'o \<Rightarrow> unit result \<times> 'o"

text \<open>
  The contract: for keys the store represents as they are (\<open>plain\<close>), the store behaves as a map
  from keys to contents, and a conditional write goes through exactly when its precondition holds
  of the current content.
\<close>

locale object_store =
  fixes ops :: "'o object_ops"
    and contents :: "'o \<Rightarrow> string \<rightharpoonup> bytes"
    and plain :: "string \<Rightarrow> bool"
    and tag_of :: "bytes \<Rightarrow> object_version"
  assumes put_contents: "plain k \<Longrightarrow>
      \<exists>s'. op_put ops k d s = (Ok (), s') \<and>
           (\<forall>j. plain j \<longrightarrow> contents s' j = ((contents s)(k \<mapsto> d)) j)"
    and get_contents: "plain k \<Longrightarrow>
      (case contents s k of Some d \<Rightarrow> op_get ops k s = Ok d
                          | None \<Rightarrow> \<exists>m. op_get ops k s = Err (NotFound m))"
    and get_versioned_contents: "plain k \<Longrightarrow>
      (case contents s k of Some d \<Rightarrow> op_get_versioned ops k s = Ok (d, tag_of d)
                          | None \<Rightarrow> \<exists>m. op_get_versioned ops k s = Err (NotFound m))"
    and put_if_create: "plain k \<Longrightarrow>
      \<exists>s'. op_put_if ops k d Create s =
             (Ok (if contents s k = None then Written (tag_of d) else PreconditionFailed), s') \<and>
           (\<forall>j. plain j \<longrightarrow>
              contents s' j = (if contents s k = None then (contents s)(k \<mapsto> d) else contents s) j)"
    and put_if_match: "plain k \<Longrightarrow>
      (let ok = (\<exists>d'. contents s k = Some d' \<and> tag_of d' = tag_of d0) in
       \<exists>s'. op_put_if ops k d (Match (tag_of d0)) s =
             (Ok (if ok then Written (tag_of d) else PreconditionFailed), s') \<and>
           (\<forall>j. plain j \<longrightarrow> contents s' j = (if ok then (contents s)(k \<mapsto> d) else contents s) j))"
    and delete_contents: "plain k \<Longrightarrow>
      \<exists>s'. op_delete ops k s = (Ok (), s') \<and>
           (\<forall>j. plain j \<longrightarrow> contents s' j = ((contents s)(k := None)) j)"
begin

lemma get_Some: "plain k \<Longrightarrow> contents s k = Some d \<Longrightarrow> op_get ops k s = Ok d"
  using get_contents [of k s] by simp

lemma get_None: "plain k \<Longrightarrow> contents s k = None \<Longrightarrow> \<exists>m. op_get ops k s = Err (NotFound m)"
  using get_contents [of k s] by simp

lemma put_then_get:
  assumes "plain k" and "op_put ops k d s = (r, s')"
  shows "r = Ok ()" and "op_get ops k s' = Ok d"
    and "plain j \<Longrightarrow> j \<noteq> k \<Longrightarrow> contents s' j = contents s j"
proof -
  from put_contents [OF assms(1), of d s] assms(2)
  have r: "r = Ok ()" and c: "\<forall>j. plain j \<longrightarrow> contents s' j = ((contents s)(k \<mapsto> d)) j" by auto
  then show "r = Ok ()" "op_get ops k s' = Ok d"
    using assms(1) by (auto intro: get_Some)
  show "plain j \<Longrightarrow> j \<noteq> k \<Longrightarrow> contents s' j = contents s j" using c by auto
qed

end

section \<open>LocalObjectStorage\<close>

text \<open>
  The directory tree under \<open>base_path\<close> is a map from relative paths to file contents. The file
  system skips the empty and the \<open>.\<close> components of a path (\<open>norm_path\<close>), so that several texts name
  one file; the keys of \<open>plain_key\<close> have no such component. Disk errors, a path that is at once a file and
  a directory, and a key that names the base directory itself are not modelled.
\<close>

text \<open>\<open>str::split\<close> at a character.\<close>

fun split_on :: "char \<Rightarrow> string \<Rightarrow> string list" where
  "split_on c [] = [[]]"
| "split_on c (x # xs) =
     (if x = c then [] # split_on c xs
      else (case split_on c xs of [] \<Rightarrow> [[x]] | p # ps \<Rightarrow> (x # p) # ps))"

type_synonym local_fs = "string \<rightharpoonup> bytes"

text \<open>A path as the file system resolves it.\<close>

fun join_path :: "string list \<Rightarrow> string" where
  "join_path [] = []"
| "join_path [c] = c"
| "join_path (c # d # cs) = c @ CHR ''/'' # join_path (d # cs)"

definition norm_path :: "string \<Rightarrow> string" where
  "norm_path path = join_path (filter (\<lambda>c. c \<noteq> [] \<and> c \<noteq> ''.'') (split_on (CHR ''/'') path))"

definition key_char :: "char \<Rightarrow> bool" where
  "key_char c \<longleftrightarrow>
     (CHR ''0'' \<le> c \<and> c \<le> CHR ''9'') \<or> (CHR ''a'' \<le> c \<and> c \<le> CHR ''z'') \<or>
     (CHR ''A'' \<le> c \<and> c \<le> CHR ''Z'') \<or> c = CHR ''/'' \<or> c = CHR ''-'' \<or> c = CHR ''_'' \<or> c = CHR ''.''"

text \<open>\<open>key_to_path\<close>, relative to \<open>base_path\<close>.\<close>

definition key_to_path :: "string \<Rightarrow> string result" where
  "key_to_path key =
     (let sanitized = filter key_char key in
      if sublist ''..'' sanitized \<or> prefix ''/'' sanitized then Err (InvalidConfig ''Invalid object key'')
      else if sanitized = [] then Err (InvalidConfig ''Empty object key'')
      else Ok sanitized)"

text \<open>The format \<open>{:08x}\<close> of a \<open>u32\<close>.\<close>

definition hex_digit :: "nat \<Rightarrow> char" where
  "hex_digit d = ''0123456789abcdef'' ! d"

definition hex8 :: "nat \<Rightarrow> string" where
  "hex8 n = map (\<lambda>i. hex_digit (n div 16 ^ i mod 16)) (rev [0..<8])"

definition local_etag :: "(bytes \<Rightarrow> 32 word) \<Rightarrow> bytes \<Rightarrow> object_version" where
  "local_etag crc bs = \<lparr>ov_e_tag = Some (hex8 (unat (crc bs))), ov_version = None\<rparr>"

lemma hex_digit_inject: "a < 16 \<Longrightarrow> b < 16 \<Longrightarrow> hex_digit a = hex_digit b \<longleftrightarrow> a = b"
  by (simp add: hex_digit_def nth_eq_iff_index_eq)

lemma digits_eq_mod:
  fixes n m b :: nat
  assumes "\<forall>i<k. n div b ^ i mod b = m div b ^ i mod b"
  shows "n mod b ^ k = m mod b ^ k"
  using assms
proof (induction k)
  case (Suc k)
  have "x mod b ^ Suc k = b ^ k * (x div b ^ k mod b) + x mod b ^ k" for x
    by (simp add: mult.commute [of b] mod_mult2_eq)
  with Suc show ?case by simp
qed simp

lemma hex8_inject: "n < 2 ^ 32 \<Longrightarrow> m < 2 ^ 32 \<Longrightarrow> hex8 n = hex8 m \<longleftrightarrow> n = m"
  using digits_eq_mod [of 8 n 16 m] by (auto simp: hex8_def hex_digit_inject)

definition local_put :: "string \<Rightarrow> bytes \<Rightarrow> local_fs \<Rightarrow> unit result \<times> local_fs" where
  "local_put key data fs =
     (case key_to_path key of Inl e \<Rightarrow> (Err e, fs) | Inr path \<Rightarrow> (Ok (), fs(norm_path path \<mapsto> data)))"

definition local_put_if ::
  "(bytes \<Rightarrow> 32 word) \<Rightarrow> string \<Rightarrow> bytes \<Rightarrow> precondition \<Rightarrow> local_fs \<Rightarrow> put_outcome result \<times> local_fs" where
  "local_put_if crc key data expect fs =
     (case key_to_path key of
        Inl e \<Rightarrow> (Err e, fs)
      | Inr path \<Rightarrow>
          (let precondition_ok =
             (case (expect, fs (norm_path path)) of
                (Create, None) \<Rightarrow> True
              | (Create, Some _) \<Rightarrow> False
              | (Match _, None) \<Rightarrow> False
              | (Match v, Some bs) \<Rightarrow> ov_e_tag v = ov_e_tag (local_etag crc bs))
           in if \<not> precondition_ok then (Ok PreconditionFailed, fs)
              else (Ok (Written (local_etag crc data)), fs(norm_path path \<mapsto> data))))"

definition local_get :: "string \<Rightarrow> local_fs \<Rightarrow> bytes result" where
  "local_get key fs =
     (case key_to_path key of
        Inl e \<Rightarrow> Err e
      | Inr path \<Rightarrow> (case fs (norm_path path) of Some data \<Rightarrow> Ok data
                      | None \<Rightarrow> Err (NotFound (''File not found: '' @ path))))"

definition local_get_versioned ::
  "(bytes \<Rightarrow> 32 word) \<Rightarrow> string \<Rightarrow> local_fs \<Rightarrow> (bytes \<times> object_version) result" where
  "local_get_versioned crc key fs =
     (case key_to_path key of
        Inl e \<Rightarrow> Err e
      | Inr path \<Rightarrow> (case fs (norm_path path) of Some data \<Rightarrow> Ok (data, local_etag crc data)
                      | None \<Rightarrow> Err (NotFound (''File not found: '' @ path))))"

text \<open>
  \<open>get_range\<close> for a range with \<open>start \<le> end\<close>: \<open>read_exact\<close> fails when the file ends before the range.
\<close>

definition local_get_range :: "string \<Rightarrow> nat \<times> nat \<Rightarrow> local_fs \<Rightarrow> bytes result" where
  "local_get_range key rng fs =
     (case key_to_path key of
        Inl e \<Rightarrow> Err e
      | Inr path \<Rightarrow>
          (case fs (norm_path path) of
             None \<Rightarrow> Err (NotFound (''File not found: '' @ path))
           | Some data \<Rightarrow>
               (let read_size = snd rng - fst rng;
                    buffer = take read_size (drop (fst rng) data)
                in if length buffer < read_size then Err (Io ''unexpected end of file'') else Ok buffer)))"

definition local_delete :: "string \<Rightarrow> local_fs \<Rightarrow> unit result \<times> local_fs" where
  "local_delete key fs =
     (case key_to_path key of Inl e \<Rightarrow> (Err e, fs) | Inr path \<Rightarrow> (Ok (), fs(norm_path path := None)))"

definition local_exists :: "string \<Rightarrow> local_fs \<Rightarrow> bool result" where
  "local_exists key fs =
     (case key_to_path key of Inl e \<Rightarrow> Err e | Inr path \<Rightarrow> Ok (fs (norm_path path) \<noteq> None))"

definition local_ops :: "(bytes \<Rightarrow> 32 word) \<Rightarrow> local_fs object_ops" where
  "local_ops crc = \<lparr>op_put = local_put, op_put_if = local_put_if crc, op_get = local_get,
                    op_get_versioned = local_get_versioned crc, op_delete = local_delete\<rparr>"

text \<open>The keys the store represents as they are.\<close>

definition plain_key :: "string \<Rightarrow> bool" where
  "plain_key k \<longleftrightarrow> key_to_path k = Ok k \<and> (\<forall>c \<in> set (split_on (CHR ''/'') k). c \<noteq> [] \<and> c \<noteq> ''.'')"

lemma plain_keyD: "plain_key k \<Longrightarrow> key_to_path k = Inr k"
  by (simp add: plain_key_def)

lemma split_on_nonempty: "split_on c s \<noteq> []"
  by (cases s) (auto split: list.splits)

lemma join_split: "join_path (split_on (CHR ''/'') s) = s"
proof (induction s)
  case (Cons x s)
  then show ?case
    using split_on_nonempty [of "CHR ''/''" s] by (cases "split_on (CHR ''/'') s"; cases "tl (split_on (CHR ''/'') s)") auto
qed simp

lemma plain_norm: "plain_key k \<Longrightarrow> norm_path k = k"
  by (simp add: norm_path_def plain_key_def filter_True join_split)

interpretation local_store: object_store "local_ops crc" "\<lambda>fs :: local_fs. fs" plain_key "local_etag crc"
  for crc
proof unfold_locales
  fix k and d d0 :: bytes and s :: local_fs
  assume k: "plain_key k"
  show "\<exists>s'. op_put (local_ops crc) k d s = (Ok (), s') \<and>
      (\<forall>j. plain_key j \<longrightarrow> s' j = (s(k \<mapsto> d)) j)"
    using k by (simp add: local_ops_def local_put_def plain_keyD plain_norm)
  show "case s k of None \<Rightarrow> \<exists>m. op_get (local_ops crc) k s = Err (NotFound m)
      | Some d \<Rightarrow> op_get (local_ops crc) k s = Ok d"
    using k by (simp add: local_ops_def local_get_def plain_keyD plain_norm split: option.splits)
  show "case s k of None \<Rightarrow> \<exists>m. op_get_versioned (local_ops crc) k s = Err (NotFound m)
      | Some d \<Rightarrow> op_get_versioned (local_ops crc) k s = Ok (d, local_etag crc d)"
    using k by (simp add: local_ops_def local_get_versioned_def plain_keyD plain_norm split: option.splits)
  show "\<exists>s'. op_put_if (local_ops crc) k d Create s =
      (Ok (if s k = None then Written (local_etag crc d) else PreconditionFailed), s') \<and>
      (\<forall>j. plain_key j \<longrightarrow> s' j = (if s k = None then s(k \<mapsto> d) else s) j)"
    using k by (simp add: local_ops_def local_put_if_def plain_keyD plain_norm Let_def split: option.splits)
  have tag: "ov_e_tag (local_etag crc d0) = ov_e_tag (local_etag crc b) \<longleftrightarrow>
      local_etag crc b = local_etag crc d0" for b
    using hex8_inject unsigned_less [where 'a = nat and 'b = 32] by (auto simp: local_etag_def)
  show "let ok = \<exists>d'. s k = Some d' \<and> local_etag crc d' = local_etag crc d0 in
      \<exists>s'. op_put_if (local_ops crc) k d (Match (local_etag crc d0)) s =
        (Ok (if ok then Written (local_etag crc d) else PreconditionFailed), s') \<and>
        (\<forall>j. plain_key j \<longrightarrow> s' j = (if ok then s(k \<mapsto> d) else s) j)"
    using k by (cases "s k") (simp_all add: local_ops_def local_put_if_def plain_keyD plain_norm Let_def tag)
  show "\<exists>s'. op_delete (local_ops crc) k s = (Ok (), s') \<and>
      (\<forall>j. plain_key j \<longrightarrow> s' j = (s(k := None)) j)"
    using k by (simp add: local_ops_def local_delete_def plain_keyD plain_norm)
qed

section \<open>Listing a directory\<close>

text \<open>
  \<open>list\<close>: \<open>readdir\<close> is the enumeration of a directory by the operating system (empty for a path that
  is no directory). The keys returned repeat the separator when the prefix ends with one.
\<close>

definition local_list :: "(string \<Rightarrow> local_fs \<Rightarrow> string list) \<Rightarrow> string \<Rightarrow> local_fs \<Rightarrow> string list result" where
  "local_list readdir pre fs =
     (case key_to_path pre of
        Inl e \<Rightarrow> Err e
      | Inr path \<Rightarrow> Ok (map (\<lambda>name. pre @ ''/'' @ name) (readdir (norm_path path) fs)))"

text \<open>The files and directories directly under a directory.\<close>

definition child_names :: "string \<Rightarrow> local_fs \<Rightarrow> string set" where
  "child_names dir fs =
     {n. n \<noteq> [] \<and> CHR ''/'' \<notin> set n \<and>
         (fs (dir @ CHR ''/'' # n) \<noteq> None \<or> (\<exists>rest. fs (dir @ CHR ''/'' # n @ CHR ''/'' # rest) \<noteq> None))}"

definition readdir_ok :: "(string \<Rightarrow> local_fs \<Rightarrow> string list) \<Rightarrow> bool" where
  "readdir_ok readdir \<longleftrightarrow>
     (\<forall>dir fs. finite (dom fs) \<longrightarrow> distinct (readdir dir fs) \<and> set (readdir dir fs) = child_names dir fs)"

text \<open>
  What a client of \<open>list\<close> may rely on: for a directory of plain keys, every object directly in it is
  listed once, under a key that reads the same object. \<open>tidy\<close> says that only plain keys are in use.
\<close>

locale listing_store = object_store +
  fixes list_of :: "string \<Rightarrow> 'a \<Rightarrow> string list result"
    and exists_of :: "string \<Rightarrow> 'a \<Rightarrow> bool result"
    and tidy :: "'a \<Rightarrow> bool"
  assumes list_contents: "tidy s \<Longrightarrow> plain (dir @ CHR ''/'' # k) \<Longrightarrow>
      \<exists>names f. list_of (dir @ ''/'') s = Ok (map f names) \<and> distinct names \<and>
        (\<forall>n \<in> set names. CHR ''/'' \<notin> set n \<and> plain (dir @ CHR ''/'' # n) \<and>
           (case contents s (dir @ CHR ''/'' # n) of Some b \<Rightarrow> op_get ops (f n) s = Ok b
                                                  | None \<Rightarrow> \<exists>e. op_get ops (f n) s = Err e)) \<and>
        (\<forall>n. CHR ''/'' \<notin> set n \<and> plain (dir @ CHR ''/'' # n) \<and> contents s (dir @ CHR ''/'' # n) \<noteq> None \<longrightarrow> n \<in> set names)"
    and exists_contents: "plain k \<Longrightarrow> contents s k \<noteq> None \<Longrightarrow> exists_of k s = Ok True"
    and put_tidy: "tidy s \<Longrightarrow> plain k \<Longrightarrow> tidy (snd (op_put ops k d s))"

definition tidy_fs :: "local_fs \<Rightarrow> bool" where
  "tidy_fs fs \<longleftrightarrow> finite (dom fs) \<and> (\<forall>p. fs p \<noteq> None \<longrightarrow> plain_key p)"

text \<open>Prefixes of plain keys at a separator are plain, and doubling a separator does not change the path.\<close>

lemma split_on_append: "split_on c (xs @ c # ys) = split_on c xs @ split_on c ys"
  by (induction xs) (auto split: list.splits simp: split_on_nonempty)

lemma key_to_path_conv: "key_to_path k = Ok k \<longleftrightarrow> list_all key_char k \<and> \<not> sublist ''..'' k \<and> \<not> prefix ''/'' k \<and> k \<noteq> []"
  by (auto simp: key_to_path_def Let_def filter_id_conv list_all_iff)

lemma plain_key_prefix:
  assumes "plain_key (k @ CHR ''/'' # rest)"
  shows "plain_key k"
proof -
  have "key_to_path (k @ CHR ''/'' # rest) = Ok (k @ CHR ''/'' # rest)"
    and c: "\<forall>c \<in> set (split_on (CHR ''/'') k). c \<noteq> [] \<and> c \<noteq> ''.''"
    using assms by (auto simp: plain_key_def split_on_append)
  then have "list_all key_char k" "\<not> sublist ''..'' k" "\<not> prefix ''/'' (k @ CHR ''/'' # rest)"
    unfolding key_to_path_conv by (auto simp: sublist_append)
  moreover have "k \<noteq> []" using c by auto
  ultimately show ?thesis using c by (cases k) (auto simp: plain_key_def key_to_path_conv)
qed

lemma norm_double_slash:
  assumes "plain_key (dir @ CHR ''/'' # n)"
  shows "norm_path (dir @ ''/'' @ ''/'' @ n) = dir @ CHR ''/'' # n"
    and "key_to_path (dir @ ''/'' @ ''/'' @ n) = Ok (dir @ ''/'' @ ''/'' @ n)"
proof -
  have "split_on (CHR ''/'') (dir @ ''/'' @ ''/'' @ n) = split_on (CHR ''/'') dir @ [] # split_on (CHR ''/'') n"
    using split_on_append [of "CHR ''/''" dir "CHR ''/'' # n"] by simp
  moreover have "norm_path (dir @ CHR ''/'' # n) = dir @ CHR ''/'' # n" by (rule plain_norm [OF assms])
  ultimately show "norm_path (dir @ ''/'' @ ''/'' @ n) = dir @ CHR ''/'' # n"
    by (simp add: norm_path_def split_on_append)
  have k: "list_all key_char (dir @ CHR ''/'' # n)" "\<not> sublist ''..'' (dir @ CHR ''/'' # n)"
    "\<not> prefix ''/'' (dir @ CHR ''/'' # n)"
    using assms unfolding plain_key_def key_to_path_conv by auto
  have "\<not> sublist ''..'' (dir @ CHR ''/'' # CHR ''/'' # n)"
    using k(2) by (auto simp: sublist_append sublist_Cons_right prefix_Cons suffix_Cons Cons_eq_append_conv)
  then show "key_to_path (dir @ ''/'' @ ''/'' @ n) = Ok (dir @ ''/'' @ ''/'' @ n)"
    using k(1,3) by (cases dir) (auto simp: key_to_path_conv)
qed

lemma dir_slash_path:
  assumes "plain_key (dir @ CHR ''/'' # k)"
  shows "\<exists>path. key_to_path (dir @ ''/'') = Ok path \<and> norm_path path = dir"
proof -
  have d: "plain_key dir" by (rule plain_key_prefix [OF assms])
  have k: "list_all key_char (dir @ CHR ''/'' # k)" "\<not> sublist ''..'' (dir @ CHR ''/'' # k)"
    "\<not> prefix ''/'' (dir @ CHR ''/'' # k)"
    using assms unfolding plain_key_def key_to_path_conv by auto
  have "\<not> sublist ''..'' (dir @ ''/'')"
    using k(2) sublist_append [of "''..''" "dir @ ''/''" k] by simp
  then have "key_to_path (dir @ ''/'') = Ok (dir @ ''/'')"
    using k(1,3) by (cases dir) (auto simp: key_to_path_conv)
  moreover have "norm_path (dir @ ''/'') = dir"
    using plain_norm [OF d] split_on_append [of "CHR ''/''" dir "[]"] by (simp add: norm_path_def)
  ultimately show ?thesis by (intro exI [of _ "dir @ ''/''"]) simp
qed

lemma tidy_child_plain:
  assumes "tidy_fs fs" and "n \<in> child_names dir fs"
  shows "plain_key (dir @ CHR ''/'' # n)"
proof -
  from assms(2) consider "fs (dir @ CHR ''/'' # n) \<noteq> None"
    | rest where "fs ((dir @ CHR ''/'' # n) @ CHR ''/'' # rest) \<noteq> None"
    by (auto simp: child_names_def)
  then show ?thesis
  proof cases
    case 2
    then show ?thesis using assms(1) plain_key_prefix unfolding tidy_fs_def by blast
  qed (use assms(1) in \<open>simp add: tidy_fs_def\<close>)
qed

lemma local_list_contents:
  assumes rd: "readdir_ok readdir" and t: "tidy_fs fs" and k: "plain_key (dir @ CHR ''/'' # k)"
  shows "\<exists>names f. local_list readdir (dir @ ''/'') fs = Ok (map f names) \<and> distinct names \<and>
        (\<forall>n \<in> set names. CHR ''/'' \<notin> set n \<and> plain_key (dir @ CHR ''/'' # n) \<and>
           (case fs (dir @ CHR ''/'' # n) of Some b \<Rightarrow> local_get (f n) fs = Ok b
                                          | None \<Rightarrow> \<exists>e. local_get (f n) fs = Err e)) \<and>
        (\<forall>n. CHR ''/'' \<notin> set n \<and> plain_key (dir @ CHR ''/'' # n) \<and> fs (dir @ CHR ''/'' # n) \<noteq> None \<longrightarrow> n \<in> set names)"
proof -
  let ?f = "\<lambda>n. dir @ ''/'' @ ''/'' @ n"
  obtain path where "key_to_path (dir @ ''/'') = Ok path" "norm_path path = dir"
    using dir_slash_path [OF k] by blast
  then have l: "local_list readdir (dir @ ''/'') fs = Ok (map ?f (readdir dir fs))"
    by (simp add: local_list_def)
  have names: "distinct (readdir dir fs)" "set (readdir dir fs) = child_names dir fs"
    using rd t unfolding readdir_ok_def tidy_fs_def by auto
  have "CHR ''/'' \<notin> set n \<and> plain_key (dir @ CHR ''/'' # n) \<and>
        (case fs (dir @ CHR ''/'' # n) of Some b \<Rightarrow> local_get (?f n) fs = Ok b
                                       | None \<Rightarrow> \<exists>e. local_get (?f n) fs = Err e)"
    if n: "n \<in> child_names dir fs" for n
    using n tidy_child_plain [OF t n] norm_double_slash [OF tidy_child_plain [OF t n]]
    by (auto simp: local_get_def child_names_def split: option.splits)
  moreover have "n \<noteq> []" if "plain_key (dir @ CHR ''/'' # n)" for n
    using that by (auto simp: plain_key_def split_on_append)
  ultimately show ?thesis
    using l names unfolding child_names_def by (intro exI [of _ "readdir dir fs"] exI [of _ ?f]) auto
qed

locale local_directory =
  fixes readdir :: "string \<Rightarrow> local_fs \<Rightarrow> string list" and crc :: "bytes \<Rightarrow> 32 word"
  assumes readdir: "readdir_ok readdir"

sublocale local_directory \<subseteq> listing_store "local_ops crc" "\<lambda>fs :: local_fs. fs" plain_key "local_etag crc"
    "local_list readdir" local_exists tidy_fs
proof unfold_locales
  fix s :: local_fs and dir k :: string and d :: bytes
  show "\<exists>names f. local_list readdir (dir @ ''/'') s = Ok (map f names) \<and> distinct names \<and>
        (\<forall>n \<in> set names. CHR ''/'' \<notin> set n \<and> plain_key (dir @ CHR ''/'' # n) \<and>
           (case s (dir @ CHR ''/'' # n) of Some b \<Rightarrow> op_get (local_ops crc) (f n) s = Ok b
                                         | None \<Rightarrow> \<exists>e. op_get (local_ops crc) (f n) s = Err e)) \<and>
        (\<forall>n. CHR ''/'' \<notin> set n \<and> plain_key (dir @ CHR ''/'' # n) \<and> s (dir @ CHR ''/'' # n) \<noteq> None \<longrightarrow> n \<in> set names)"
    if "tidy_fs s" and "plain_key (dir @ CHR ''/'' # k)"
  proof -
    have "op_get (local_ops crc) = local_get" by (simp add: local_ops_def)
    then show ?thesis by (simp only:) (rule local_list_contents [OF readdir that])
  qed
  show "local_exists k s = Ok True" if "plain_key k" and "s k \<noteq> None"
    using that by (simp add: local_exists_def plain_keyD plain_norm)
  show "tidy_fs (snd (op_put (local_ops crc) k d s))" if "tidy_fs s" and "plain_key k"
    using that by (auto simp: tidy_fs_def local_ops_def local_put_def plain_keyD plain_norm)
qed

context local_directory
begin

lemma local_listing_store:
  "listing_store (local_ops crc) (\<lambda>fs :: local_fs. fs) plain_key (local_etag crc) (local_list readdir) local_exists tidy_fs"
  by unfold_locales

end

text \<open>A directory enumeration that satisfies the assumption: the children in order.\<close>

definition sorted_readdir :: "string \<Rightarrow> local_fs \<Rightarrow> string list" where
  "sorted_readdir dir fs = sorted_list_of_set (child_names dir fs)"

lemma finite_child_names:
  assumes "finite (dom fs)"
  shows "finite (child_names dir fs)"
proof (rule finite_subset)
  let ?g = "\<lambda>p. takeWhile (\<lambda>c. c \<noteq> CHR ''/'') (drop (Suc (length dir)) p)"
  show "finite (?g ` dom fs)" using assms by simp
  show "child_names dir fs \<subseteq> ?g ` dom fs"
  proof
    fix n assume n: "n \<in> child_names dir fs"
    then have slash: "CHR ''/'' \<notin> set n" by (simp add: child_names_def)
    then have "takeWhile (\<lambda>c. c \<noteq> CHR ''/'') n = n" and "takeWhile (\<lambda>c. c \<noteq> CHR ''/'') (n @ CHR ''/'' # rest) = n" for rest
      by (auto simp: takeWhile_eq_all_conv takeWhile_tail)
    then have g: "?g (dir @ CHR ''/'' # n) = n" "\<And>rest. ?g (dir @ CHR ''/'' # n @ CHR ''/'' # rest) = n"
      by simp_all
    from n consider "dir @ CHR ''/'' # n \<in> dom fs" | rest where "dir @ CHR ''/'' # n @ CHR ''/'' # rest \<in> dom fs"
      unfolding child_names_def by blast
    then show "n \<in> ?g ` dom fs"
    proof cases
      case 1
      from imageI [OF this, of ?g] show ?thesis by (simp only: g)
    next
      case 2
      from imageI [OF this, of ?g] show ?thesis by (simp only: g)
    qed
  qed
qed

lemma sorted_readdir_ok: "readdir_ok sorted_readdir"
  by (simp add: readdir_ok_def sorted_readdir_def finite_child_names)

interpretation local_listing: local_directory sorted_readdir crc for crc
  by unfold_locales (rule sorted_readdir_ok)

section \<open>The bandwidth limiter\<close>

record bandwidth_limiter =
  bl_capacity :: nat
  bl_tokens :: nat
  bl_refill_rate :: nat
  bl_last_refill :: nat

definition limiter_new :: "nat \<Rightarrow> nat \<Rightarrow> nat \<Rightarrow> bandwidth_limiter" where
  "limiter_new capacity rate now =
     \<lparr>bl_capacity = capacity, bl_tokens = capacity, bl_refill_rate = rate, bl_last_refill = now\<rparr>"

definition refill_tokens :: "nat \<Rightarrow> bandwidth_limiter \<Rightarrow> bandwidth_limiter" where
  "refill_tokens now bl =
     (let elapsed = now - bl_last_refill bl in
      if elapsed \<ge> 10
      then bl\<lparr>bl_tokens := min (bl_tokens bl + elapsed * bl_refill_rate bl div 1000) (bl_capacity bl),
              bl_last_refill := now\<rparr>
      else bl)"

text \<open>
  \<open>acquire\<close>: \<open>nows\<close> are the clock readings (milliseconds) of the successive turns of the loop,
  which sleeps between them; \<open>None\<close> means that the loop is still waiting after them. The
  compare-exchange is one atomic step.
\<close>

fun acquire :: "nat \<Rightarrow> nat list \<Rightarrow> bandwidth_limiter \<Rightarrow> bandwidth_limiter option" where
  "acquire n nows bl =
     (if bl_tokens bl \<ge> n then Some (bl\<lparr>bl_tokens := bl_tokens bl - n\<rparr>)
      else (case nows of [] \<Rightarrow> None | now # rest \<Rightarrow> acquire n rest (refill_tokens now bl)))"

declare acquire.simps [simp del]

definition limiter_wf :: "bandwidth_limiter \<Rightarrow> bool" where
  "limiter_wf bl \<longleftrightarrow> bl_tokens bl \<le> bl_capacity bl"

lemma refill_capacity [simp]:
  "bl_capacity (refill_tokens now bl) = bl_capacity bl"
  "bl_refill_rate (refill_tokens now bl) = bl_refill_rate bl"
  by (simp_all add: refill_tokens_def Let_def)

lemma refill_wf: "limiter_wf bl \<Longrightarrow> limiter_wf (refill_tokens now bl)"
  by (simp add: limiter_wf_def refill_tokens_def Let_def)

lemma acquire_stuck: "limiter_wf bl \<Longrightarrow> bl_capacity bl < n \<Longrightarrow> acquire n nows bl = None"
proof (induction nows arbitrary: bl)
  case Nil
  then show ?case by (simp add: acquire.simps limiter_wf_def)
next
  case (Cons now nows)
  from Cons.IH [OF refill_wf [OF Cons.prems(1)]] Cons.prems show ?case
    by (simp add: acquire.simps [of n "now # nows"] limiter_wf_def)
qed

lemma acquire_wf:
  assumes "limiter_wf bl" and "acquire n nows bl = Some bl'"
  shows "bl_tokens bl' + n \<le> bl_capacity bl'" and "bl_capacity bl' = bl_capacity bl"
proof -
  have "bl_tokens bl' + n \<le> bl_capacity bl' \<and> bl_capacity bl' = bl_capacity bl"
    using assms
  proof (induction nows arbitrary: bl)
    case Nil
    then show ?case by (auto simp: acquire.simps limiter_wf_def split: if_splits)
  next
    case (Cons now nows)
    show ?case
    proof (cases "n \<le> bl_tokens bl")
      case True
      with Cons.prems show ?thesis by (auto simp: acquire.simps [of n "now # nows"] limiter_wf_def)
    next
      case False
      with Cons.prems have "acquire n nows (refill_tokens now bl) = Some bl'"
        by (simp add: acquire.simps [of n "now # nows"])
      from Cons.IH [OF refill_wf [OF Cons.prems(1)] this] show ?thesis by simp
    qed
  qed
  then show "bl_tokens bl' + n \<le> bl_capacity bl'" "bl_capacity bl' = bl_capacity bl" by simp_all
qed

text \<open>Turns at least 10 ms apart, starting from the last refill.\<close>

fun spaced :: "nat \<Rightarrow> nat list \<Rightarrow> bool" where
  "spaced t [] = True"
| "spaced t (now # nows) = (t + 10 \<le> now \<and> spaced now nows)"

lemma acquire_returns:
  assumes "n \<le> bl_capacity bl" and "100 \<le> bl_refill_rate bl"
    and "spaced (bl_last_refill bl) nows" and "n \<le> bl_tokens bl + length nows"
  shows "\<exists>bl'. acquire n nows bl = Some bl'"
  using assms
proof (induction nows arbitrary: bl)
  case Nil
  then show ?case by (simp add: acquire.simps)
next
  case (Cons now nows)
  show ?case
  proof (cases "n \<le> bl_tokens bl")
    case True
    then show ?thesis by (simp add: acquire.simps)
  next
    case False
    let ?bl = "refill_tokens now bl"
    have el: "10 \<le> now - bl_last_refill bl" using Cons.prems(3) by auto
    then have "10 * 100 \<le> (now - bl_last_refill bl) * bl_refill_rate bl"
      using Cons.prems(2) by (rule mult_le_mono)
    then have "1 \<le> (now - bl_last_refill bl) * bl_refill_rate bl div 1000" by simp
    then have "n \<le> bl_tokens ?bl + length nows"
      using Cons.prems(1,4) el by (auto simp: refill_tokens_def Let_def min_def)
    moreover have "spaced (bl_last_refill ?bl) nows"
      using Cons.prems(3) el by (simp add: refill_tokens_def Let_def)
    ultimately have "\<exists>bl'. acquire n nows ?bl = Some bl'"
      using Cons.prems by (intro Cons.IH) simp_all
    with False show ?thesis by (simp add: acquire.simps [of n "now # nows"])
  qed
qed

section \<open>The upload manager\<close>

datatype storage_type = S3 | Gcs | Azure | Local

record upload_config =
  uc_storage_type :: storage_type
  uc_multipart_threshold :: nat

text \<open>Parameters standing for \<open>crc32fast::hash\<close> and \<open>lz4_flex\<close> compression.\<close>

record upload_libs =
  ul_crc :: "bytes \<Rightarrow> 32 word"
  ul_compress :: "bytes \<Rightarrow> bytes"
  ul_decompress :: "bytes \<Rightarrow> bytes option"

definition compress_segment :: "upload_libs \<Rightarrow> upload_config \<Rightarrow> wal_segment \<Rightarrow> bytes" where
  "compress_segment libs cfg seg =
     (case uc_storage_type cfg of
        Local \<Rightarrow> ws_data seg
      | _ \<Rightarrow> ul_compress libs (ws_data seg))"

definition segment_key :: "topic_partition \<Rightarrow> offset \<Rightarrow> offset \<Rightarrow> string" where
  "segment_key tp st en =
     ''topics/'' @ tp_topic tp @ ''/'' @ show_nat (tp_partition tp) @ ''/'' @
     show_nat st @ ''_'' @ show_nat en @ ''.seg''"

fun chunks :: "nat \<Rightarrow> 'a list \<Rightarrow> 'a list list" where
  "chunks n xs = (if n = 0 \<or> xs = [] then [] else take n xs # chunks n (drop n xs))"

declare chunks.simps [simp del]

text \<open>
  The chunk uploads of \<open>multipart_upload\<close> run concurrently on distinct keys; they are modelled in
  index order, stopping at the first failure.
\<close>

fun put_chunks ::
  "'o object_ops \<Rightarrow> string \<Rightarrow> nat \<Rightarrow> bytes list \<Rightarrow> 'o \<Rightarrow> unit result \<times> 'o" where
  "put_chunks ops key idx [] s = (Ok (), s)"
| "put_chunks ops key idx (c # cs) s =
     (case op_put ops (key @ ''.part'' @ show_nat idx) c s of
        (Inl e, s') \<Rightarrow> (Err e, s')
      | (Inr _, s') \<Rightarrow> put_chunks ops key (idx + 1) cs s')"

definition multipart_upload :: "'o object_ops \<Rightarrow> bytes \<Rightarrow> string \<Rightarrow> 'o \<Rightarrow> string result \<times> 'o" where
  "multipart_upload ops data key s =
     (case put_chunks ops key 0 (chunks (5 * 1024 * 1024) data) s of
        (Inl e, s') \<Rightarrow> (Err e, s')
      | (Inr _, s') \<Rightarrow> (Ok key, s'))"

definition simple_upload :: "'o object_ops \<Rightarrow> bytes \<Rightarrow> string \<Rightarrow> 'o \<Rightarrow> string result \<times> 'o" where
  "simple_upload ops data key s =
     (case op_put ops key data s of (Inl e, s') \<Rightarrow> (Err e, s') | (Inr _, s') \<Rightarrow> (Ok key, s'))"

definition verify_upload :: "'o object_ops \<Rightarrow> string \<Rightarrow> bytes \<Rightarrow> 'o \<Rightarrow> bool result" where
  "verify_upload ops key expected s =
     (case op_get ops key s of Inl e \<Rightarrow> Err e | Inr uploaded \<Rightarrow> Ok (uploaded = expected))"

text \<open>
  \<open>upload_body\<close> is \<open>upload_segment\<close> after its \<open>bandwidth_limiter.acquire\<close>. The boolean that
  \<open>verify_upload\<close> returns is discarded, as in the source: only its error is propagated.
\<close>

definition upload_body ::
  "upload_libs \<Rightarrow> upload_config \<Rightarrow> 'o object_ops \<Rightarrow> wal_segment \<Rightarrow> 'o \<Rightarrow> string result \<times> 'o" where
  "upload_body libs cfg ops seg s =
     (let compressed = compress_segment libs cfg seg;
          data_with_crc = compressed @ le_bytes 4 (unat (ul_crc libs compressed));
          object_key = segment_key (ws_tp seg) (ws_start_offset seg) (ws_end_offset seg);
          is_multipart = length data_with_crc > uc_multipart_threshold cfg
      in if is_multipart then multipart_upload ops data_with_crc object_key s
         else (case simple_upload ops data_with_crc object_key s of
                 (Inl e, s') \<Rightarrow> (Err e, s')
               | (Inr key, s') \<Rightarrow>
                   (case verify_upload ops object_key data_with_crc s' of
                      Inl e \<Rightarrow> (Err e, s')
                    | Inr _ \<Rightarrow> (Ok key, s'))))"

text \<open>
  \<open>upload_segment\<close>, \<open>None\<close> while it still waits for bandwidth after the clock readings \<open>nows\<close>.
\<close>

definition upload_segment ::
  "upload_libs \<Rightarrow> upload_config \<Rightarrow> 'o object_ops \<Rightarrow> nat list \<Rightarrow> wal_segment \<Rightarrow>
   bandwidth_limiter \<times> 'o \<Rightarrow> (string result \<times> bandwidth_limiter \<times> 'o) option" where
  "upload_segment libs cfg ops nows seg = (\<lambda>(bl, s).
     (case acquire (length (ws_data seg)) nows bl of
        None \<Rightarrow> None
      | Some bl' \<Rightarrow> (let (r, s') = upload_body libs cfg ops seg s in Some (r, bl', s'))))"

text \<open>\<open>str::trim_end_matches\<close>.\<close>

function trim_end_matches :: "string \<Rightarrow> string \<Rightarrow> string" where
  "trim_end_matches pat s =
     (if pat \<noteq> [] \<and> suffix pat s then trim_end_matches pat (take (length s - length pat) s) else s)"
  by pat_completeness auto
termination
proof (relation "measure (\<lambda>(pat, s). length s)", goal_cases)
  case (2 pat s)
  then have "0 < length pat" "length pat \<le> length s" by (auto dest: suffix_length_le)
  then have "length s - length pat < length s" by linarith
  then show ?case by simp
qed simp

declare trim_end_matches.simps [simp del]

definition decompress_segment :: "upload_libs \<Rightarrow> upload_config \<Rightarrow> bytes \<Rightarrow> bytes option" where
  "decompress_segment libs cfg valid_data =
     (case uc_storage_type cfg of Local \<Rightarrow> Some valid_data | _ \<Rightarrow> ul_decompress libs valid_data)"

definition download_segment ::
  "upload_libs \<Rightarrow> upload_config \<Rightarrow> 'o object_ops \<Rightarrow> string \<Rightarrow> 'o \<Rightarrow> wal_segment result" where
  "download_segment libs cfg ops object_key s =
     (case op_get ops object_key s of
        Inl e \<Rightarrow> Err e
      | Inr compressed_data \<Rightarrow>
          if length compressed_data < 4 then Err (Storage ''Segment file too small'')
          else
            (let data_len = length compressed_data - 4;
                 stored_crc = of_le_bytes (drop data_len compressed_data);
                 valid_data = take data_len compressed_data
             in if unat (ul_crc libs valid_data) \<noteq> stored_crc
                then Err (Storage ''Segment checksum mismatch'')
                else (case decompress_segment libs cfg valid_data of
                        None \<Rightarrow> Err (Storage ''decompress'')
                      | Some data \<Rightarrow>
                          (let parts = split_on (CHR ''/'') object_key in
                           if length parts < 4 then Err (Storage ''Invalid object key format'')
                           else (case parse_uint u32_max (parts ! 2) of
                                   None \<Rightarrow> Err (Storage ''Invalid partition'')
                                 | Some part \<Rightarrow>
                                     (let offset_parts = split_on (CHR ''_'') (parts ! 3) in
                                      if length offset_parts < 2 then Err (Storage ''Invalid filename format'')
                                      else (case parse_uint u64_max (offset_parts ! 0) of
                                              None \<Rightarrow> Err (Storage ''Invalid start offset'')
                                            | Some start_off \<Rightarrow>
                                                (case parse_uint u64_max
                                                        (trim_end_matches ''.seg'' (offset_parts ! 1)) of
                                                   None \<Rightarrow> Err (Storage ''Invalid end offset'')
                                                 | Some end_off \<Rightarrow>
                                                     Ok \<lparr>ws_start_offset = start_off, ws_end_offset = end_off,
                                                         ws_size_bytes = length data, ws_data = data,
                                                         ws_tp = TopicPartition (parts ! 1) part\<rparr>))))))))"

definition delete_object :: "'o object_ops \<Rightarrow> string \<Rightarrow> 'o \<Rightarrow> unit result \<times> 'o" where
  "delete_object ops key s = op_delete ops key s"


section \<open>Round trip of a segment through the object store\<close>

lemma split_on_none: "c \<notin> set xs \<Longrightarrow> split_on c xs = [xs]"
  by (induction xs) auto

lemma split_on_sep: "c \<notin> set xs \<Longrightarrow> split_on c (xs @ c # ys) = xs # split_on c ys"
  by (induction xs) auto

lemma not_in_show_nat: "\<not> is_digit c \<Longrightarrow> c \<notin> set (show_nat n)"
  using show_nat_digits by blast

lemma trim_end_seg: "trim_end_matches ''.seg'' (show_nat n @ ''.seg'') = show_nat n"
proof -
  have "\<not> suffix ''.seg'' (show_nat n)"
  proof
    assume "suffix ''.seg'' (show_nat n)"
    then have "CHR ''.'' \<in> set (show_nat n)" by (auto simp: suffix_def)
    then show False by (simp add: not_in_show_nat is_digit_def)
  qed
  then show ?thesis
    by (subst trim_end_matches.simps) (simp add: suffix_def trim_end_matches.simps [of _ "show_nat n"])
qed

lemma split_segment_key:
  assumes "CHR ''/'' \<notin> set (tp_topic tp)"
  shows "split_on (CHR ''/'') (segment_key tp st en) =
     [''topics'', tp_topic tp, show_nat (tp_partition tp), show_nat st @ CHR ''_'' # show_nat en @ ''.seg'']"
proof -
  have slash: "CHR ''/'' \<notin> set (show_nat n)" for n by (simp add: not_in_show_nat is_digit_def)
  have "segment_key tp st en =
      ''topics'' @ CHR ''/'' # tp_topic tp @ CHR ''/'' # show_nat (tp_partition tp) @ CHR ''/'' #
      (show_nat st @ CHR ''_'' # show_nat en @ ''.seg'')"
    by (simp add: segment_key_def)
  then show ?thesis using assms slash
    by (simp add: split_on_sep split_on_none)
qed

lemma split_segment_name:
  "split_on (CHR ''_'') (show_nat st @ CHR ''_'' # show_nat en @ ''.seg'') = [show_nat st, show_nat en @ ''.seg'']"
  by (simp add: split_on_sep split_on_none not_in_show_nat is_digit_def)

text \<open>A segment that fits the types of its fields and whose topic has no path separator.\<close>

definition segment_ok :: "wal_segment \<Rightarrow> bool" where
  "segment_ok seg \<longleftrightarrow> CHR ''/'' \<notin> set (tp_topic (ws_tp seg)) \<and>
     tp_partition (ws_tp seg) \<le> u32_max \<and> ws_start_offset seg \<le> u64_max \<and> ws_end_offset seg \<le> u64_max"

definition upload_key :: "wal_segment \<Rightarrow> string" where
  "upload_key seg = segment_key (ws_tp seg) (ws_start_offset seg) (ws_end_offset seg)"

definition uploaded_bytes :: "upload_libs \<Rightarrow> upload_config \<Rightarrow> wal_segment \<Rightarrow> bytes" where
  "uploaded_bytes libs cfg seg =
     (let c = compress_segment libs cfg seg in c @ le_bytes 4 (unat (ul_crc libs c)))"

definition compression_ok :: "upload_libs \<Rightarrow> upload_config \<Rightarrow> bytes \<Rightarrow> bool" where
  "compression_ok libs cfg d \<longleftrightarrow>
     uc_storage_type cfg = Local \<or> ul_decompress libs (ul_compress libs d) = Some d"

lemma u32_le_bytes: "of_le_bytes (le_bytes 4 (unat (c :: 32 word))) = unat c"
proof -
  have "unat c < 2 ^ 32" using unsigned_less [of c, where 'a = nat] by simp
  then show ?thesis by (intro of_le_bytes_le_bytes_id) simp
qed

lemma download_uploaded:
  assumes "op_get ops (upload_key seg) s = Ok (uploaded_bytes libs cfg seg)"
    and "segment_ok seg" and "compression_ok libs cfg (ws_data seg)"
  shows "download_segment libs cfg ops (upload_key seg) s = Ok (seg\<lparr>ws_size_bytes := length (ws_data seg)\<rparr>)"
proof -
  let ?c = "compress_segment libs cfg seg"
  have dec: "decompress_segment libs cfg ?c = Some (ws_data seg)"
    using assms(3)
    by (auto simp: compression_ok_def compress_segment_def decompress_segment_def split: storage_type.splits)
  have parts: "split_on (CHR ''/'') (upload_key seg) =
      [''topics'', tp_topic (ws_tp seg), show_nat (tp_partition (ws_tp seg)),
       show_nat (ws_start_offset seg) @ CHR ''_'' # show_nat (ws_end_offset seg) @ ''.seg'']"
    using assms(2) by (simp add: upload_key_def split_segment_key segment_ok_def)
  show ?thesis
    using assms(2) by (simp add: download_segment_def assms(1) uploaded_bytes_def Let_def u32_le_bytes dec
        parts split_segment_name trim_end_seg segment_ok_def)
qed

context object_store
begin

lemma upload_simple:
  assumes "plain (upload_key seg)" and "length (uploaded_bytes libs cfg seg) \<le> uc_multipart_threshold cfg"
  shows "\<exists>s'. upload_body libs cfg ops seg s = (Ok (upload_key seg), s') \<and>
           (\<forall>j. plain j \<longrightarrow> contents s' j = ((contents s)(upload_key seg \<mapsto> uploaded_bytes libs cfg seg)) j)"
proof -
  obtain s' where s': "op_put ops (upload_key seg) (uploaded_bytes libs cfg seg) s = (Ok (), s')"
    "\<forall>j. plain j \<longrightarrow> contents s' j = ((contents s)(upload_key seg \<mapsto> uploaded_bytes libs cfg seg)) j"
    using put_contents [OF assms(1)] by blast
  then have "op_get ops (upload_key seg) s' = Ok (uploaded_bytes libs cfg seg)"
    using put_then_get(2) [OF assms(1)] by blast
  with s' assms(2) have "upload_body libs cfg ops seg s = (Ok (upload_key seg), s')"
    by (simp add: upload_body_def simple_upload_def verify_upload_def Let_def upload_key_def uploaded_bytes_def)
  with s'(2) show ?thesis by blast
qed

lemma upload_download:
  assumes "plain (upload_key seg)" and "length (uploaded_bytes libs cfg seg) \<le> uc_multipart_threshold cfg"
    and "segment_ok seg" and "compression_ok libs cfg (ws_data seg)"
  shows "\<exists>s'. upload_body libs cfg ops seg s = (Ok (upload_key seg), s') \<and>
           download_segment libs cfg ops (upload_key seg) s' = Ok (seg\<lparr>ws_size_bytes := length (ws_data seg)\<rparr>)"
proof -
  obtain s' where s': "upload_body libs cfg ops seg s = (Ok (upload_key seg), s')"
    "contents s' (upload_key seg) = Some (uploaded_bytes libs cfg seg)"
    using upload_simple [OF assms(1,2), of s] assms(1) by auto
  then have "op_get ops (upload_key seg) s' = Ok (uploaded_bytes libs cfg seg)"
    using assms(1) get_Some by blast
  from s'(1) download_uploaded [OF this assms(3,4)] show ?thesis by blast
qed

lemma put_chunks_contents:
  assumes "\<And>i. plain (key @ ''.part'' @ show_nat i)" and "plain k" and "\<And>i. k \<noteq> key @ ''.part'' @ show_nat i"
  shows "\<exists>s'. put_chunks ops key idx cs s = (Ok (), s') \<and> contents s' k = contents s k"
proof (induction cs arbitrary: idx s)
  case (Cons c cs)
  obtain s1 where s1: "op_put ops (key @ ''.part'' @ show_nat idx) c s = (Ok (), s1)" "contents s1 k = contents s k"
    using put_contents [OF assms(1), of idx c s] assms(2,3) by auto
  with Cons.IH [of "idx + 1" s1] show ?case by simp
qed simp

text \<open>
  A multipart upload reports success, but writes only the \<open>.partN\<close> objects: nothing was stored
  under the key it returns, so a download of that key finds no object.
\<close>

lemma multipart_not_readable:
  assumes "plain (upload_key seg)" and "\<And>i. plain (upload_key seg @ ''.part'' @ show_nat i)"
    and "uc_multipart_threshold cfg < length (uploaded_bytes libs cfg seg)"
    and "contents s (upload_key seg) = None"
  shows "\<exists>s'. upload_body libs cfg ops seg s = (Ok (upload_key seg), s') \<and>
           (\<exists>m. download_segment libs cfg ops (upload_key seg) s' = Err (NotFound m))"
proof -
  let ?key = "upload_key seg"
  obtain s' where s': "put_chunks ops ?key 0 (chunks (5 * 1024 * 1024) (uploaded_bytes libs cfg seg)) s = (Ok (), s')"
    "contents s' ?key = None"
    using put_chunks_contents [OF assms(2) assms(1)] assms(4) by fastforce
  then have "upload_body libs cfg ops seg s = (Ok ?key, s')"
    using assms(3)
    by (simp add: upload_body_def multipart_upload_def Let_def upload_key_def uploaded_bytes_def)
  moreover obtain m where "op_get ops ?key s' = Err (NotFound m)"
    using get_None [OF assms(1) s'(2)] by blast
  ultimately show ?thesis by (simp add: download_segment_def)
qed

end

section \<open>Segment keys are plain keys\<close>

definition plain_topic :: "string \<Rightarrow> bool" where
  "plain_topic t \<longleftrightarrow> t \<noteq> [] \<and> t \<noteq> ''.'' \<and> list_all key_char t \<and> CHR ''/'' \<notin> set t \<and> \<not> sublist ''..'' t"

lemma sublist_pair_sep:
  "y \<noteq> c \<Longrightarrow> sublist [c, c] (a @ y # b) \<longleftrightarrow> sublist [c, c] a \<or> sublist [c, c] b"
proof (induction a)
  case (Cons x a)
  have "prefix [c, c] (x # a @ y # b) \<longleftrightarrow> prefix [c, c] (x # a)"
    using Cons.prems by (cases a) auto
  with Cons show ?case by (simp add: sublist_Cons_right del: Cons_prefix_Cons)
qed (simp add: sublist_Cons_right)

lemma digit_key_char: "is_digit c \<Longrightarrow> key_char c"
  by (simp add: is_digit_def key_char_def less_eq_char_def)

lemma show_nat_key_chars: "list_all key_char (show_nat n)"
  using show_nat_digits digit_key_char by (auto simp: list_all_iff)

lemma no_dots_show_nat: "\<not> sublist ''..'' (show_nat n)"
proof
  assume "sublist ''..'' (show_nat n)"
  then have "CHR ''.'' \<in> set (show_nat n)" by (auto simp: sublist_def)
  then show False by (simp add: not_in_show_nat is_digit_def)
qed

lemma no_dots_dot_show_nat:
  "\<not> sublist ''..'' (show_nat a @ CHR ''.'' # CHR ''s'' # w) \<longleftrightarrow> \<not> sublist ''..'' w"
proof -
  have "sublist ''..'' (xs @ CHR ''.'' # CHR ''s'' # w) \<longleftrightarrow> sublist ''..'' w" if "CHR ''.'' \<notin> set xs" for xs
    using that
  proof (induction xs)
    case (Cons x xs)
    then show ?case by (simp add: sublist_Cons_right)
  qed (simp add: sublist_Cons_right)
  then show ?thesis by (simp add: not_in_show_nat is_digit_def)
qed

lemma key_to_path_plain:
  "list_all key_char k \<Longrightarrow> \<not> sublist ''..'' k \<Longrightarrow> \<not> prefix ''/'' k \<Longrightarrow> k \<noteq> [] \<Longrightarrow> key_to_path k = Ok k"
  by (simp add: key_to_path_def Let_def filter_id_conv list_all_iff)

definition segment_tail :: "offset \<Rightarrow> offset \<Rightarrow> string \<Rightarrow> string" where
  "segment_tail st en w = show_nat st @ CHR ''_'' # show_nat en @ CHR ''.'' # CHR ''s'' # CHR ''e'' # CHR ''g'' # w"

lemma segment_key_tail:
  "segment_key tp st en @ w =
     ''topics'' @ CHR ''/'' # tp_topic tp @ CHR ''/'' # show_nat (tp_partition tp) @ CHR ''/'' # segment_tail st en w"
  by (simp add: segment_key_def segment_tail_def)

lemma plain_segment_key:
  assumes t: "plain_topic (tp_topic tp)" and w: "list_all key_char w" "\<not> sublist ''..'' w" "CHR ''/'' \<notin> set w"
  shows "plain_key (segment_key tp st en @ w)"
proof -
  let ?k = "segment_key tp st en @ w"
  have slash: "CHR ''/'' \<notin> set (show_nat n)" for n by (simp add: not_in_show_nat is_digit_def)
  have dot: "show_nat n \<noteq> ''.''" for n
    using not_in_show_nat [of "CHR ''.''" n] by (auto simp: is_digit_def)
  have "list_all key_char ?k"
    using t w(1) show_nat_key_chars
    by (simp add: segment_key_def plain_topic_def) (simp add: key_char_def)
  moreover have "\<not> sublist ''..'' ?k"
    using t w(2) by (simp add: segment_key_tail segment_tail_def sublist_pair_sep no_dots_show_nat
        no_dots_dot_show_nat plain_topic_def sublist_Cons_right)
  moreover have "\<not> prefix ''/'' ?k" "?k \<noteq> []" by (simp_all add: segment_key_def)
  ultimately have "key_to_path ?k = Ok ?k" by (rule key_to_path_plain)
  moreover have "split_on (CHR ''/'') ?k =
      [''topics'', tp_topic tp, show_nat (tp_partition tp), segment_tail st en w]"
    using t w(3) slash
    by (simp add: segment_key_tail split_on_sep split_on_none plain_topic_def segment_tail_def)
  moreover have "segment_tail st en w \<noteq> ''.''" "segment_tail st en w \<noteq> []"
    by (cases "show_nat st"; auto simp: segment_tail_def)+
  ultimately show ?thesis
    using t dot show_nat_nonempty by (simp add: plain_key_def plain_topic_def)
qed

section \<open>Properties\<close>

text \<open>
  C28. A segment uploaded to the local object store can be downloaded again: when the limiter lets the
  upload through and the object is not above the multipart threshold, \<open>upload_segment\<close> succeeds with
  the segment's key, \<open>download_segment\<close> of that key passes its checksum, parses the partition and
  the offsets back out of the key and returns the segment, and no other object changes.
\<close>

theorem upload_download_roundtrip:
  assumes "plain_topic (tp_topic (ws_tp seg))" and "segment_ok seg"
    and "compression_ok libs cfg (ws_data seg)"
    and "length (uploaded_bytes libs cfg seg) \<le> uc_multipart_threshold cfg"
    and "acquire (length (ws_data seg)) nows bl = Some bl'"
  shows "\<exists>fs'. upload_segment libs cfg (local_ops (ul_crc libs)) nows seg (bl, fs) = Some (Ok (upload_key seg), bl', fs') \<and>
           download_segment libs cfg (local_ops (ul_crc libs)) (upload_key seg) fs' =
             Ok (seg\<lparr>ws_size_bytes := length (ws_data seg)\<rparr>) \<and>
           (\<forall>k. plain_key k \<and> k \<noteq> upload_key seg \<longrightarrow> fs' k = fs k)"
proof -
  have key: "plain_key (upload_key seg)"
    using plain_segment_key [OF assms(1), of "[]"] by (simp add: upload_key_def)
  from local_store.upload_simple [OF key assms(4), of "ul_crc libs" fs]
  obtain fs' where up: "upload_body libs cfg (local_ops (ul_crc libs)) seg fs = (Ok (upload_key seg), fs')"
    and c: "\<forall>j. plain_key j \<longrightarrow> fs' j = (fs(upload_key seg \<mapsto> uploaded_bytes libs cfg seg)) j" by blast
  have "download_segment libs cfg (local_ops (ul_crc libs)) (upload_key seg) fs' =
      Ok (seg\<lparr>ws_size_bytes := length (ws_data seg)\<rparr>)"
    using local_store.get_Some [OF key] c key assms(2,3) by (intro download_uploaded) auto
  moreover have "upload_segment libs cfg (local_ops (ul_crc libs)) nows seg (bl, fs) = Some (Ok (upload_key seg), bl', fs')"
    using assms(5) up by (simp add: upload_segment_def)
  ultimately show ?thesis using c by auto
qed

definition sample_libs :: upload_libs where
  "sample_libs = \<lparr>ul_crc = (\<lambda>bs. of_nat (sum_list (map unat bs))), ul_compress = (\<lambda>bs. bs), ul_decompress = Some\<rparr>"

definition sample_upload :: wal_segment where
  "sample_upload = \<lparr>ws_start_offset = 3, ws_end_offset = 5, ws_size_bytes = 4, ws_data = [1, 2, 3, 4],
                    ws_tp = TopicPartition ''orders'' 7\<rparr>"

theorem upload_download_roundtrip_witness:
  "let cfg = \<lparr>uc_storage_type = S3, uc_multipart_threshold = 100\<rparr>; bl = limiter_new 100 1000 0 in
   plain_topic (tp_topic (ws_tp sample_upload)) \<and> segment_ok sample_upload \<and>
   (\<exists>fs'. upload_segment sample_libs cfg (local_ops (ul_crc sample_libs)) [] sample_upload (bl, Map.empty) =
            Some (Ok ''topics/orders/7/3_5.seg'', bl\<lparr>bl_tokens := 96\<rparr>, fs') \<and>
          download_segment sample_libs cfg (local_ops (ul_crc sample_libs)) ''topics/orders/7/3_5.seg'' fs' = Ok sample_upload)"
proof -
  let ?cfg = "\<lparr>uc_storage_type = S3, uc_multipart_threshold = 100\<rparr>" and ?bl = "limiter_new 100 1000 0"
  have t: "plain_topic (tp_topic (ws_tp sample_upload))"
    by (simp add: plain_topic_def sample_upload_def key_char_def less_eq_char_def sublist_Cons_right)
  have ok: "segment_ok sample_upload" by (simp add: segment_ok_def sample_upload_def)
  have key: "upload_key sample_upload = ''topics/orders/7/3_5.seg''"
    by code_simp
  have aq: "acquire (length (ws_data sample_upload)) [] ?bl = Some (?bl\<lparr>bl_tokens := 96\<rparr>)"
    by (simp add: acquire.simps limiter_new_def sample_upload_def)
  have sz: "sample_upload\<lparr>ws_size_bytes := length (ws_data sample_upload)\<rparr> = sample_upload"
    by (simp add: sample_upload_def)
  have "compression_ok sample_libs ?cfg (ws_data sample_upload)"
    "length (uploaded_bytes sample_libs ?cfg sample_upload) \<le> uc_multipart_threshold ?cfg"
    by (simp_all add: compression_ok_def sample_libs_def uploaded_bytes_def compress_segment_def
        sample_upload_def Let_def length_le_bytes)
  from upload_download_roundtrip [OF t ok this aq, of Map.empty] t ok
  show ?thesis unfolding key sz Let_def by blast
qed

text \<open>
  Two ways in which a large segment never becomes readable in the object store. A segment of more
  bytes than the limiter's capacity (100 MiB in \<open>UploadManagerImpl::new\<close>, less than the default
  WAL segment of 128 MiB) waits forever, whatever the clock readings; and a segment above the
  multipart threshold that gets through is reported as uploaded under its key, although only the
  \<open>.partN\<close> objects were written, so that the download of the reported key finds nothing.
\<close>

theorem large_segment_not_readable:
  assumes "limiter_wf bl" and "plain_topic (tp_topic (ws_tp seg))"
    and "uc_multipart_threshold cfg < length (uploaded_bytes libs cfg seg)" and "fs (upload_key seg) = None"
  shows "(bl_capacity bl < length (ws_data seg) \<longrightarrow>
            upload_segment libs cfg (local_ops (ul_crc libs)) nows seg (bl, fs) = None) \<and>
         (case upload_segment libs cfg (local_ops (ul_crc libs)) nows seg (bl, fs) of
            None \<Rightarrow> True
          | Some (r, bl', fs') \<Rightarrow> r = Ok (upload_key seg) \<and>
              (\<exists>m. download_segment libs cfg (local_ops (ul_crc libs)) (upload_key seg) fs' = Err (NotFound m)))"
proof -
  have key: "plain_key (upload_key seg @ w)" if "list_all key_char w" "\<not> sublist ''..'' w" "CHR ''/'' \<notin> set w" for w
    using plain_segment_key [OF assms(2) that] by (simp add: upload_key_def)
  have parts: "plain_key (upload_key seg @ ''.part'' @ show_nat i)" for i
  proof (rule key)
    show "list_all key_char (''.part'' @ show_nat i)" using show_nat_key_chars by (simp add: key_char_def less_eq_char_def)
    show "\<not> sublist ''..'' (''.part'' @ show_nat i)" by (simp add: sublist_Cons_right no_dots_show_nat)
    show "CHR ''/'' \<notin> set (''.part'' @ show_nat i)" by (simp add: not_in_show_nat is_digit_def)
  qed
  have "plain_key (upload_key seg)" using key [of "[]"] by simp
  from local_store.multipart_not_readable [of seg cfg libs fs "ul_crc libs", OF this parts assms(3,4)]
  show ?thesis using acquire_stuck [OF assms(1)]
    by (auto simp: upload_segment_def split: option.splits)
qed

theorem large_segment_not_readable_witness:
  "let cfg = \<lparr>uc_storage_type = Local, uc_multipart_threshold = 5\<rparr>; bl = limiter_new 3 1000 0 in
   limiter_wf bl \<and> uc_multipart_threshold cfg < length (uploaded_bytes sample_libs cfg sample_upload) \<and>
   upload_segment sample_libs cfg (local_ops (ul_crc sample_libs)) [1000, 2000] sample_upload (bl, Map.empty) = None"
proof -
  let ?cfg = "\<lparr>uc_storage_type = Local, uc_multipart_threshold = 5\<rparr>" and ?bl = "limiter_new 3 1000 0"
  have wf: "limiter_wf ?bl" by (simp add: limiter_wf_def limiter_new_def)
  have t: "plain_topic (tp_topic (ws_tp sample_upload))"
    by (simp add: plain_topic_def sample_upload_def key_char_def less_eq_char_def sublist_Cons_right)
  have big: "uc_multipart_threshold ?cfg < length (uploaded_bytes sample_libs ?cfg sample_upload)"
    by (simp add: sample_libs_def uploaded_bytes_def compress_segment_def sample_upload_def Let_def length_le_bytes)
  have cap: "bl_capacity ?bl < length (ws_data sample_upload)" by (simp add: limiter_new_def sample_upload_def)
  show ?thesis
    using large_segment_not_readable [OF wf t big, of Map.empty "[1000, 2000]"] wf big cap by (simp add: Let_def)
qed



end
