(* ===== verification/Cold_Tier.thy ===== *)
theory Cold_Tier
  imports Cold_Index Object_Storage
begin

text \<open>
  What the storage engine and the compactor share: the \<open>UploadManager\<close> interface
  (\<open>src/storage/traits.rs\<close>) as a record of methods with its contract as a locale, the state of the
  cold tier (index, object store, manifest file), and what it means that the cold tier holds a log.
\<close>

section \<open>The UploadManager interface\<close>

record 'u upload_ops =
  um_upload_segment :: "wal_segment \<Rightarrow> 'u \<Rightarrow> string result \<times> 'u"
  um_download_segment :: "string \<Rightarrow> 'u \<Rightarrow> wal_segment result"
  um_delete_object :: "string \<Rightarrow> 'u \<Rightarrow> unit result \<times> 'u"

definition is_segment_key :: "string \<Rightarrow> bool" where
  "is_segment_key k \<longleftrightarrow> (\<exists>tp st en. plain_topic (tp_topic tp) \<and> k = segment_key tp st en)"

text \<open>
  The contract, for the segments the manager can hold (\<open>fits\<close>): an uploaded segment can be
  downloaded under the key of its range, and an operation on one object leaves the others alone.
\<close>

locale upload_manager =
  fixes um :: "'u upload_ops" and fits :: "wal_segment \<Rightarrow> bool"
  assumes fits_topic: "fits seg \<Longrightarrow> plain_topic (tp_topic (ws_tp seg))"
    and upload_stored: "fits seg \<Longrightarrow>
      \<exists>u'. um_upload_segment um seg u = (Ok (upload_key seg), u') \<and>
           (\<exists>seg'. um_download_segment um (upload_key seg) u' = Ok seg' \<and> ws_data seg' = ws_data seg) \<and>
           (\<forall>k. is_segment_key k \<longrightarrow> k \<noteq> upload_key seg \<longrightarrow>
                um_download_segment um k u' = um_download_segment um k u)"
    and delete_others: "is_segment_key k \<Longrightarrow>
      \<exists>u'. um_delete_object um k u = (Ok (), u') \<and>
           (\<forall>j. is_segment_key j \<longrightarrow> j \<noteq> k \<longrightarrow>
                um_download_segment um j u' = um_download_segment um j u)"
    and delete_gone: "is_segment_key k \<Longrightarrow> \<exists>m. um_download_segment um k (snd (um_delete_object um k u)) = Err (NotFound m)"

text \<open>\<open>UploadManagerImpl\<close> over a store, after the bandwidth limiter.\<close>

definition upload_impl :: "upload_libs \<Rightarrow> upload_config \<Rightarrow> 'o object_ops \<Rightarrow> 'o upload_ops" where
  "upload_impl libs cfg ops =
     \<lparr>um_upload_segment = upload_body libs cfg ops, um_download_segment = download_segment libs cfg ops,
      um_delete_object = delete_object ops\<rparr>"

definition fits_local :: "upload_libs \<Rightarrow> upload_config \<Rightarrow> wal_segment \<Rightarrow> bool" where
  "fits_local libs cfg seg \<longleftrightarrow> plain_topic (tp_topic (ws_tp seg)) \<and> segment_ok seg \<and>
     compression_ok libs cfg (ws_data seg) \<and> length (uploaded_bytes libs cfg seg) \<le> uc_multipart_threshold cfg"

lemma segment_key_plain: "is_segment_key k \<Longrightarrow> plain_key k"
  using plain_segment_key [of _ "[]"] by (auto simp: is_segment_key_def)

lemma is_segment_key_upload: "plain_topic (tp_topic (ws_tp seg)) \<Longrightarrow> is_segment_key (upload_key seg)"
  by (auto simp: is_segment_key_def upload_key_def)

lemma download_same_local:
  "plain_key k \<Longrightarrow> fs' k = fs k \<Longrightarrow>
   download_segment libs cfg (local_ops crc) k fs' = download_segment libs cfg (local_ops crc) k fs"
  by (simp add: download_segment_def local_ops_def local_get_def plain_keyD plain_norm)

interpretation local_upload: upload_manager
  "upload_impl libs cfg (local_ops (ul_crc libs))" "fits_local libs cfg" for libs cfg
proof unfold_locales
  fix seg and fs :: local_fs
  assume fit: "fits_local libs cfg seg"
  then show "plain_topic (tp_topic (ws_tp seg))" by (simp add: fits_local_def)
  then have key: "plain_key (upload_key seg)" using segment_key_plain is_segment_key_upload by blast
  have len: "length (uploaded_bytes libs cfg seg) \<le> uc_multipart_threshold cfg"
    and ok: "segment_ok seg" "compression_ok libs cfg (ws_data seg)"
    using fit by (simp_all add: fits_local_def)
  from local_store.upload_simple [OF key len, of "ul_crc libs" fs] obtain fs' where
    up: "upload_body libs cfg (local_ops (ul_crc libs)) seg fs = (Ok (upload_key seg), fs')"
    and c: "\<forall>j. plain_key j \<longrightarrow> fs' j = (fs(upload_key seg \<mapsto> uploaded_bytes libs cfg seg)) j" by blast
  have "download_segment libs cfg (local_ops (ul_crc libs)) (upload_key seg) fs' =
      Ok (seg\<lparr>ws_size_bytes := length (ws_data seg)\<rparr>)"
    using local_store.get_Some [OF key] c key ok by (intro download_uploaded) auto
  moreover have "download_segment libs cfg (local_ops (ul_crc libs)) k fs' =
      download_segment libs cfg (local_ops (ul_crc libs)) k fs" if "is_segment_key k" "k \<noteq> upload_key seg" for k
    using that c segment_key_plain by (intro download_same_local) auto
  ultimately show "\<exists>u'. um_upload_segment (upload_impl libs cfg (local_ops (ul_crc libs))) seg fs = (Ok (upload_key seg), u') \<and>
      (\<exists>seg'. um_download_segment (upload_impl libs cfg (local_ops (ul_crc libs))) (upload_key seg) u' = Ok seg' \<and>
              ws_data seg' = ws_data seg) \<and>
      (\<forall>k. is_segment_key k \<longrightarrow> k \<noteq> upload_key seg \<longrightarrow>
         um_download_segment (upload_impl libs cfg (local_ops (ul_crc libs))) k u' =
         um_download_segment (upload_impl libs cfg (local_ops (ul_crc libs))) k fs)"
    using up by (auto simp: upload_impl_def)
next
  fix k and fs :: local_fs
  assume k: "is_segment_key k"
  from local_store.delete_contents [OF segment_key_plain [OF k], of "ul_crc libs" fs] obtain fs' where
    "op_delete (local_ops (ul_crc libs)) k fs = (Ok (), fs')" "\<forall>j. plain_key j \<longrightarrow> fs' j = (fs(k := None)) j"
    by blast
  then show "\<exists>u'. um_delete_object (upload_impl libs cfg (local_ops (ul_crc libs))) k fs = (Ok (), u') \<and>
      (\<forall>j. is_segment_key j \<longrightarrow> j \<noteq> k \<longrightarrow>
         um_download_segment (upload_impl libs cfg (local_ops (ul_crc libs))) j u' =
         um_download_segment (upload_impl libs cfg (local_ops (ul_crc libs))) j fs)"
    using segment_key_plain
    by (auto simp: upload_impl_def delete_object_def intro!: exI [of _ fs'] download_same_local)
next
  fix k and fs :: local_fs
  assume k: "is_segment_key k"
  from local_store.delete_contents [OF segment_key_plain [OF k], of "ul_crc libs" fs] obtain fs' where
    "op_delete (local_ops (ul_crc libs)) k fs = (Ok (), fs')" "fs' k = None" using segment_key_plain [OF k] by auto
  then show "\<exists>m. um_download_segment (upload_impl libs cfg (local_ops (ul_crc libs))) k
      (snd (um_delete_object (upload_impl libs cfg (local_ops (ul_crc libs))) k fs)) = Err (NotFound m)"
    using plain_keyD [OF segment_key_plain [OF k]] plain_norm [OF segment_key_plain [OF k]]
    by (auto simp: upload_impl_def delete_object_def download_segment_def local_ops_def local_get_def)
qed

section \<open>The state of the cold tier\<close>

text \<open>
  The part of the broker's storage that tiering and compaction change: the partition index, the object
  store behind the upload manager, and the bytes of the manifest file. \<open>bincode\<close> (for record
  lists and for manifest records) and \<open>crc32fast\<close> are the fields of \<open>store_codec\<close>.
\<close>

record 'u cold_tier =
  ct_index :: partition_index
  ct_objs :: 'u
  ct_manifest :: bytes

record store_codec =
  sc_ser :: "wal_record list \<Rightarrow> bytes"
  sc_de :: "bytes \<Rightarrow> wal_record list option"
  sc_mser :: "manifest_record \<Rightarrow> bytes"
  sc_mde :: "bytes \<Rightarrow> manifest_record option"
  sc_crc :: "bytes \<Rightarrow> 32 word"

text \<open>A log gives every partition the record at each of its offsets.\<close>

type_synonym log = "topic_partition \<Rightarrow> offset \<Rightarrow> wal_record"

definition log_run :: "log \<Rightarrow> topic_partition \<Rightarrow> offset \<Rightarrow> offset \<Rightarrow> wal_record list" where
  "log_run L tp st en = map (L tp) [st..<en]"

definition object_holds ::
  "'u upload_ops \<Rightarrow> store_codec \<Rightarrow> log \<Rightarrow> 'u \<Rightarrow> topic_partition \<Rightarrow> offset \<Rightarrow> offset \<Rightarrow> bool" where
  "object_holds um cod L u tp st en \<longleftrightarrow>
     (\<exists>seg. um_download_segment um (segment_key tp st en) u = Ok seg \<and> sc_de cod (ws_data seg) = Some (log_run L tp st en))"

text \<open>
  The cold tier holds the log: the cold ranges of a partition are non-empty and disjoint, and the
  object of a range decodes to the log's records of exactly that range.
\<close>

definition range_holds ::
  "'u upload_ops \<Rightarrow> store_codec \<Rightarrow> log \<Rightarrow> 'u \<Rightarrow> topic_partition \<Rightarrow> offset \<Rightarrow> object_range \<Rightarrow> bool" where
  "range_holds um cod L u tp s r \<longleftrightarrow> plain_topic (tp_topic tp) \<and> s < or_end_offset r \<and>
     or_object_key r = segment_key tp s (or_end_offset r) \<and> object_holds um cod L u tp s (or_end_offset r)"

definition cold_holds :: "'u upload_ops \<Rightarrow> store_codec \<Rightarrow> log \<Rightarrow> partition_index \<Rightarrow> 'u \<Rightarrow> bool" where
  "cold_holds um cod L idx u \<longleftrightarrow>
     (\<forall>tp. ranges_disjoint or_end_offset (cold_map idx tp)) \<and>
     (\<forall>tp s r. cold_map idx tp s = Some r \<longrightarrow> range_holds um cod L u tp s r)"

definition cold_covers :: "partition_index \<Rightarrow> topic_partition \<Rightarrow> offset \<Rightarrow> bool" where
  "cold_covers idx tp off \<longleftrightarrow> (\<exists>s r. cold_map idx tp s = Some r \<and> s \<le> off \<and> off < or_end_offset r)"

lemma length_log_run [simp]: "length (log_run L tp st en) = en - st"
  by (simp add: log_run_def)

lemma log_run_append: "st \<le> mid \<Longrightarrow> mid \<le> en \<Longrightarrow> log_run L tp st mid @ log_run L tp mid en = log_run L tp st en"
  using upt_add_eq_append [of st mid "en - mid"] by (simp add: log_run_def)

lemma segment_key_inject:
  assumes "plain_topic (tp_topic tp)" and "plain_topic (tp_topic tp')"
  shows "segment_key tp st en = segment_key tp' st' en' \<longleftrightarrow> tp = tp' \<and> st = st' \<and> en = en'"
proof
  assume eq: "segment_key tp st en = segment_key tp' st' en'"
  have "split_on (CHR ''/'') (segment_key tp st en) = split_on (CHR ''/'') (segment_key tp' st' en')"
    by (simp add: eq)
  then have t: "tp_topic tp = tp_topic tp'" "tp_partition tp = tp_partition tp'"
    and f: "show_nat st @ CHR ''_'' # show_nat en @ ''.seg'' = show_nat st' @ CHR ''_'' # show_nat en' @ ''.seg''"
    using assms by (simp_all add: split_segment_key plain_topic_def)
  have "split_on (CHR ''_'') (show_nat st @ CHR ''_'' # show_nat en @ ''.seg'') =
      split_on (CHR ''_'') (show_nat st' @ CHR ''_'' # show_nat en' @ ''.seg'')"
    by (simp only: f)
  then have "st = st'" "en = en'" by (simp_all add: split_segment_name)
  with t show "tp = tp' \<and> st = st' \<and> en = en'" by (simp add: topic_partition.expand)
qed simp

lemma is_segment_keyI: "plain_topic (tp_topic tp) \<Longrightarrow> is_segment_key (segment_key tp st en)"
  by (auto simp: is_segment_key_def)

lemma cold_holds_range:
  "cold_holds um cod L idx u \<Longrightarrow> cold_map idx tp s = Some r \<Longrightarrow> range_holds um cod L u tp s r"
  by (simp add: cold_holds_def)

lemma cold_holds_objs:
  assumes "cold_holds um cod L idx u"
    and "\<And>tp s r. cold_map idx tp s = Some r \<Longrightarrow> plain_topic (tp_topic tp) \<Longrightarrow>
           object_holds um cod L u tp s (or_end_offset r) \<Longrightarrow> object_holds um cod L u' tp s (or_end_offset r)"
  shows "cold_holds um cod L idx u'"
  using assms by (auto simp: cold_holds_def range_holds_def)

context upload_manager
begin

lemma upload_holds:
  assumes "fits seg" and "ws_tp seg = tp" and "ws_start_offset seg = st" and "ws_end_offset seg = en"
    and "sc_de cod (ws_data seg) = Some (log_run L tp st en)"
  shows "\<exists>u'. um_upload_segment um seg u = (Ok (segment_key tp st en), u') \<and> object_holds um cod L u' tp st en \<and>
           (\<forall>tp' s e. plain_topic (tp_topic tp') \<longrightarrow> object_holds um cod L u tp' s e \<longrightarrow> object_holds um cod L u' tp' s e)"
proof -
  have key: "upload_key seg = segment_key tp st en" using assms by (simp add: upload_key_def)
  obtain u' where "um_upload_segment um seg u = (Ok (segment_key tp st en), u') \<and>
      (\<exists>seg'. um_download_segment um (segment_key tp st en) u' = Ok seg' \<and> ws_data seg' = ws_data seg) \<and>
      (\<forall>k. is_segment_key k \<longrightarrow> k \<noteq> segment_key tp st en \<longrightarrow> um_download_segment um k u' = um_download_segment um k u)"
    using upload_stored [OF assms(1), of u] unfolding key ..
  then have u': "um_upload_segment um seg u = (Ok (segment_key tp st en), u')"
      "\<exists>seg'. um_download_segment um (segment_key tp st en) u' = Ok seg' \<and> ws_data seg' = ws_data seg"
      "\<forall>k. is_segment_key k \<longrightarrow> k \<noteq> segment_key tp st en \<longrightarrow> um_download_segment um k u' = um_download_segment um k u"
    by simp_all
  then have new: "object_holds um cod L u' tp st en" using assms(5) by (auto simp: object_holds_def)
  have "object_holds um cod L u' tp' s e" if "plain_topic (tp_topic tp')" "object_holds um cod L u tp' s e" for tp' s e
  proof (cases "segment_key tp' s e = segment_key tp st en")
    case True
    then have "tp' = tp \<and> s = st \<and> e = en"
      using segment_key_inject [OF that(1) fits_topic [OF assms(1)]] assms(2) by simp
    with new show ?thesis by simp
  next
    case False
    with u'(3) that show ?thesis by (simp add: is_segment_keyI object_holds_def)
  qed
  with u'(1) new show ?thesis by blast
qed

lemma delete_holds:
  assumes "plain_topic (tp_topic tp)"
  shows "\<exists>u'. um_delete_object um (segment_key tp st en) u = (Ok (), u') \<and>
           (\<forall>tp' s e. plain_topic (tp_topic tp') \<longrightarrow> (tp', s, e) \<noteq> (tp, st, en) \<longrightarrow>
              object_holds um cod L u tp' s e \<longrightarrow> object_holds um cod L u' tp' s e)"
proof -
  obtain u' where "um_delete_object um (segment_key tp st en) u = (Ok (), u') \<and>
      (\<forall>j. is_segment_key j \<longrightarrow> j \<noteq> segment_key tp st en \<longrightarrow> um_download_segment um j u' = um_download_segment um j u)"
    using delete_others [OF is_segment_keyI [OF assms], of st en u] ..
  then have u': "um_delete_object um (segment_key tp st en) u = (Ok (), u')"
      "\<forall>j. is_segment_key j \<longrightarrow> j \<noteq> segment_key tp st en \<longrightarrow> um_download_segment um j u' = um_download_segment um j u"
    by simp_all
  have "object_holds um cod L u' tp' s e"
    if "plain_topic (tp_topic tp')" "(tp', s, e) \<noteq> (tp, st, en)" "object_holds um cod L u tp' s e" for tp' s e
    using that u'(2) segment_key_inject [OF that(1) assms] by (simp add: is_segment_keyI object_holds_def)
  with u'(1) show ?thesis by blast
qed

end

end
