(* ===== verification/Compaction.thy ===== *)
theory Compaction
  imports Cold_Tier
begin

text \<open>
  \<open>src/storage/compaction.rs\<close>: planning which adjacent small cold segments to merge, and carrying
  a plan out (download and merge the sources, upload the merged segment, log the compaction in the
  manifest, replace the ranges in the index, delete the sources).
\<close>

section \<open>Planning\<close>

record compaction_config =
  cc_enabled :: bool
  cc_small_threshold_bytes :: nat
  cc_target_bytes :: nat
  cc_max_sources :: nat

record compaction_plan =
  cp_tp :: topic_partition
  cp_sources :: "cold_segment list"

text \<open>One turn of the loop of \<open>plan_partition_compaction\<close>, on its three local variables.\<close>

definition plan_step ::
  "compaction_config \<Rightarrow> topic_partition \<Rightarrow> cold_segment \<Rightarrow>
   compaction_plan list \<times> cold_segment list \<times> nat \<Rightarrow> compaction_plan list \<times> cold_segment list \<times> nat" where
  "plan_step config tp seg = (\<lambda>(plans, current_run, current_run_size).
     (let is_small = cs_size_bytes seg < cc_small_threshold_bytes config;
          is_contiguous = (current_run = [] \<or> cs_end_offset (last current_run) = cs_start_offset seg);
          take_run = \<lparr>cp_tp = tp, cp_sources = current_run\<rparr>
      in if \<not> is_small \<or> \<not> is_contiguous
         then (let plans' = (if length current_run \<ge> 2 then plans @ [take_run] else plans)
               in if is_small then (plans', [seg], cs_size_bytes seg) else (plans', [], 0))
         else if current_run_size + cs_size_bytes seg > cc_target_bytes config \<and> length current_run \<ge> 2
         then (plans @ [take_run], [seg], cs_size_bytes seg)
         else (let run' = current_run @ [seg]
               in if length run' \<ge> cc_max_sources config
                  then (plans @ [\<lparr>cp_tp = tp, cp_sources = run'\<rparr>], [], 0)
                  else (plans, run', current_run_size + cs_size_bytes seg))))"

definition plan_partition_compaction ::
  "topic_partition \<Rightarrow> cold_segment list \<Rightarrow> compaction_config \<Rightarrow> compaction_plan list" where
  "plan_partition_compaction tp segments config =
     (let (plans, current_run, _) = fold (plan_step config tp) segments ([], [], 0)
      in if length current_run \<ge> 2 then plans @ [\<lparr>cp_tp = tp, cp_sources = current_run\<rparr>] else plans)"

definition plan_compaction :: "partition_index \<Rightarrow> compaction_config \<Rightarrow> compaction_plan list" where
  "plan_compaction idx config =
     concat (map (\<lambda>tp. plan_partition_compaction tp (get_cold_segments idx tp) config) (get_partitions idx))"

abbreviation contiguous :: "cold_segment list \<Rightarrow> bool" where
  "contiguous \<equiv> successively (\<lambda>a b. cs_end_offset a = cs_start_offset b)"

definition run_ok :: "compaction_config \<Rightarrow> cold_segment list \<Rightarrow> bool" where
  "run_ok config run \<longleftrightarrow> contiguous run \<and>
     (\<forall>s \<in> set run. cs_size_bytes s < cc_small_threshold_bytes config) \<and>
     length run \<le> cc_max_sources config \<and>
     (3 \<le> length run \<longrightarrow> sum_list (map cs_size_bytes run) \<le> cc_target_bytes config)"

definition plan_ok :: "compaction_config \<Rightarrow> topic_partition \<Rightarrow> compaction_plan \<Rightarrow> bool" where
  "plan_ok config tp p \<longleftrightarrow> cp_tp p = tp \<and> 2 \<le> length (cp_sources p) \<and> run_ok config (cp_sources p)"

definition planning_inv ::
  "compaction_config \<Rightarrow> topic_partition \<Rightarrow> cold_segment list \<Rightarrow>
   compaction_plan list \<times> cold_segment list \<times> nat \<Rightarrow> bool" where
  "planning_inv config tp seen = (\<lambda>(plans, run, sz).
     (\<forall>p \<in> set plans. plan_ok config tp p) \<and> run_ok config run \<and>
     length run < cc_max_sources config \<and> sz = sum_list (map cs_size_bytes run) \<and>
     subseq (concat (map cp_sources plans) @ run) seen)"

lemma run_ok_single: "cs_size_bytes s < cc_small_threshold_bytes c \<Longrightarrow> 2 \<le> cc_max_sources c \<Longrightarrow> run_ok c [s]"
  by (simp add: run_ok_def)

lemma run_ok_snoc:
  assumes "run_ok c run" and "length run < cc_max_sources c" and "cs_size_bytes s < cc_small_threshold_bytes c"
    and "run = [] \<or> cs_end_offset (last run) = cs_start_offset s"
    and "2 \<le> length run \<Longrightarrow> sum_list (map cs_size_bytes run) + cs_size_bytes s \<le> cc_target_bytes c"
  shows "run_ok c (run @ [s])"
  using assms by (auto simp: run_ok_def successively_append_iff)

lemma subseq_drop_run: "subseq (a @ b) c \<Longrightarrow> subseq a (c @ d)"
  by (meson subseq_order.trans list_emb_append2 prefix_imp_subseq prefixI subseq_append' subseq_rev_drop_many)

lemma subseq_snoc: "subseq a c \<Longrightarrow> subseq (a @ [x]) (c @ [x])"
  by (simp add: subseq_append)

lemma planning_inv_step:
  assumes "planning_inv config tp seen st" and "2 \<le> cc_max_sources config"
  shows "planning_inv config tp (seen @ [seg]) (plan_step config tp seg st)"
proof -
  obtain plans run sz where st: "st = (plans, run, sz)" by (cases st) auto
  let ?small = "cs_size_bytes seg < cc_small_threshold_bytes config"
  let ?cont = "run = [] \<or> cs_end_offset (last run) = cs_start_offset seg"
  have inv: "\<forall>p \<in> set plans. plan_ok config tp p" "run_ok config run" "length run < cc_max_sources config"
    "sz = sum_list (map cs_size_bytes run)" "subseq (concat (map cp_sources plans) @ run) seen"
    using assms(1) by (simp_all add: planning_inv_def st)
  have drop: "subseq (concat (map cp_sources plans)) seen"
    using inv(5) subseq_drop_run [of _ run seen "[]"] by simp
  then have drop': "subseq (concat (map cp_sources plans)) (seen @ [seg])"
    using subseq_drop_run [of _ "[]" seen "[seg]"] by simp
  have keep': "subseq (concat (map cp_sources plans) @ run) (seen @ [seg])"
    using inv(5) subseq_drop_run [of _ "[]" seen "[seg]"] by simp
  have taken: "plan_ok config tp \<lparr>cp_tp = tp, cp_sources = run\<rparr>" if "2 \<le> length run"
    using inv(2) that by (simp add: plan_ok_def)
  consider (reset) "\<not> ?small \<or> \<not> ?cont" | (full) "?small" "?cont" "sz + cs_size_bytes seg > cc_target_bytes config" "2 \<le> length run"
    | (push) "?small" "?cont" "\<not> (sz + cs_size_bytes seg > cc_target_bytes config \<and> 2 \<le> length run)"
    by blast
  then show ?thesis
  proof cases
    case reset
    then show ?thesis
      using inv assms(2) taken drop' keep' subseq_snoc [OF drop, of seg] subseq_snoc [OF inv(5), of seg]
      by (auto simp: st plan_step_def planning_inv_def Let_def run_ok_single, simp_all add: run_ok_def)
  next
    case full
    then show ?thesis
      using inv assms(2) taken subseq_snoc [OF inv(5), of seg]
      by (simp add: st plan_step_def planning_inv_def Let_def run_ok_single)
  next
    case push
    then have "run_ok config (run @ [seg])" using inv by (intro run_ok_snoc) auto
    with push show ?thesis
      using inv assms(2) subseq_snoc [OF inv(5), of seg]
      by (auto simp: st plan_step_def planning_inv_def Let_def plan_ok_def run_ok_def)
  qed
qed

lemma planning_inv_fold:
  assumes "planning_inv config tp seen st" and "2 \<le> cc_max_sources config"
  shows "planning_inv config tp (seen @ segs) (fold (plan_step config tp) segs st)"
  using assms(1)
proof (induction segs arbitrary: seen st)
  case (Cons seg segs)
  from Cons.IH [OF planning_inv_step [OF Cons.prems assms(2), of seg]] show ?case by simp
qed simp

lemma plans_ok:
  assumes "2 \<le> cc_max_sources config"
  shows "\<forall>p \<in> set (plan_partition_compaction tp segs config). plan_ok config tp p"
    and "subseq (concat (map cp_sources (plan_partition_compaction tp segs config))) segs"
proof -
  obtain plans run sz where st: "fold (plan_step config tp) segs ([], [], 0) = (plans, run, sz)"
    by (cases "fold (plan_step config tp) segs ([], [], 0)") auto
  have "planning_inv config tp [] ([], [], 0)"
    using assms by (simp add: planning_inv_def run_ok_def)
  from planning_inv_fold [OF this assms, of segs] st
  have inv: "planning_inv config tp segs (plans, run, sz)" by simp
  then show "\<forall>p \<in> set (plan_partition_compaction tp segs config). plan_ok config tp p"
    by (auto simp: plan_partition_compaction_def st planning_inv_def plan_ok_def)
  have "subseq (concat (map cp_sources plans)) segs"
    using inv subseq_drop_run [of "concat (map cp_sources plans)" run segs "[]"] by (simp add: planning_inv_def)
  then show "subseq (concat (map cp_sources (plan_partition_compaction tp segs config))) segs"
    using inv by (simp add: plan_partition_compaction_def st planning_inv_def)
qed

text \<open>Two neighbouring small contiguous segments always lead to a plan.\<close>

definition mergeable :: "compaction_config \<Rightarrow> cold_segment \<Rightarrow> cold_segment \<Rightarrow> bool" where
  "mergeable config a b \<longleftrightarrow> cs_size_bytes a < cc_small_threshold_bytes config \<and>
     cs_size_bytes b < cc_small_threshold_bytes config \<and> cs_end_offset a = cs_start_offset b"

definition progress_inv ::
  "compaction_config \<Rightarrow> cold_segment list \<Rightarrow> compaction_plan list \<times> cold_segment list \<times> nat \<Rightarrow> bool" where
  "progress_inv config seen = (\<lambda>(plans, run, sz).
     plans \<noteq> [] \<or> 2 \<le> length run \<or>
     (successively (\<lambda>a b. \<not> mergeable config a b) seen \<and>
      (seen \<noteq> [] \<and> cs_size_bytes (last seen) < cc_small_threshold_bytes config \<longrightarrow>
         run \<noteq> [] \<and> last run = last seen)))"

lemma progress_inv_step:
  assumes "progress_inv config seen st"
  shows "progress_inv config (seen @ [seg]) (plan_step config tp seg st)"
proof -
  obtain plans run sz where st: "st = (plans, run, sz)" by (cases st) auto
  show ?thesis
  proof (cases "plans = [] \<and> \<not> 2 \<le> length run")
    case True
    with assms st show ?thesis
      by (cases run) (auto simp: progress_inv_def plan_step_def Let_def successively_append_iff mergeable_def)
  next
    case False
    with st show ?thesis by (auto simp: progress_inv_def plan_step_def Let_def)
  qed
qed

lemma progress_inv_fold:
  "progress_inv config seen st \<Longrightarrow> progress_inv config (seen @ segs) (fold (plan_step config tp) segs st)"
proof (induction segs arbitrary: seen st)
  case (Cons seg segs)
  from Cons.IH [OF progress_inv_step [OF Cons.prems, of seg tp]] show ?case by simp
qed simp

lemma plans_progress:
  assumes "plan_partition_compaction tp segs config = []"
  shows "successively (\<lambda>a b. \<not> mergeable config a b) segs"
proof -
  have "progress_inv config [] ([], [], 0)" by (simp add: progress_inv_def)
  from progress_inv_fold [OF this, of segs tp] assms show ?thesis
    by (auto simp: progress_inv_def plan_partition_compaction_def split: prod.splits if_splits)
qed

section \<open>Executing a plan\<close>

text \<open>The download loop of \<open>execute_plan\<close>: the next expected offset and the merged records.\<close>

fun merge_sources ::
  "'u upload_ops \<Rightarrow> store_codec \<Rightarrow> 'u \<Rightarrow> cold_segment list \<Rightarrow> offset \<Rightarrow> wal_record list \<Rightarrow>
   (offset \<times> wal_record list) result" where
  "merge_sources um cod u [] expected_next_offset merged_records = Ok (expected_next_offset, merged_records)"
| "merge_sources um cod u (source # sources) expected_next_offset merged_records =
     (case um_download_segment um (cs_object_key source) u of
        Inl e \<Rightarrow> Err e
      | Inr wal_seg \<Rightarrow>
          (case sc_de cod (ws_data wal_seg) of
             None \<Rightarrow> Err (Storage ''Failed to deserialize segment records'')
           | Some recs \<Rightarrow>
               if recs \<noteq> []
               then if wr_offset (hd recs) \<noteq> expected_next_offset
                    then Err (Storage ''Gaps detected during compaction'')
                    else merge_sources um cod u sources (wr_offset (last recs) + 1) (merged_records @ recs)
               else merge_sources um cod u sources expected_next_offset merged_records))"

text \<open>The deletion of the source objects is best effort: errors are ignored.\<close>

definition delete_sources :: "'u upload_ops \<Rightarrow> string list \<Rightarrow> 'u \<Rightarrow> 'u" where
  "delete_sources um keys u = fold (\<lambda>key u. snd (um_delete_object um key u)) keys u"

definition execute_plan ::
  "'u upload_ops \<Rightarrow> store_codec \<Rightarrow> compaction_plan \<Rightarrow> ('u, 'z) cold_tier_scheme \<Rightarrow>
   unit result \<times> ('u, 'z) cold_tier_scheme" where
  "execute_plan um cod plan st =
     (let tp = cp_tp plan; sources = cp_sources plan in
      if length sources < 2 then (Ok (), st)
      else
        (let start_offset = cs_start_offset (hd sources);
             end_offset = cs_end_offset (last sources)
         in case merge_sources um cod (ct_objs st) sources start_offset [] of
              Inl e \<Rightarrow> (Err e, st)
            | Inr (expected_next_offset, merged_records) \<Rightarrow>
                if expected_next_offset \<noteq> end_offset
                then (Err (Storage ''End offset mismatch after merge''), st)
                else
                  (let merged_data = sc_ser cod merged_records;
                       size_bytes = length merged_data;
                       merged_segment = \<lparr>ws_start_offset = start_offset, ws_end_offset = end_offset,
                                         ws_size_bytes = size_bytes, ws_data = merged_data, ws_tp = tp\<rparr>
                   in case um_upload_segment um merged_segment (ct_objs st) of
                        (Inl e, u') \<Rightarrow> (Err e, st\<lparr>ct_objs := u'\<rparr>)
                      | (Inr merged_key, u') \<Rightarrow>
                          (let merged_seg = \<lparr>cs_tp = tp, cs_start_offset = start_offset, cs_end_offset = end_offset,
                                             cs_object_key = merged_key, cs_size_bytes = size_bytes\<rparr>;
                               source_keys = map cs_object_key sources
                           in (Ok (), st\<lparr>
                                ct_manifest := record_compaction (sc_mser cod) (sc_crc cod) merged_seg source_keys (ct_manifest st),
                                ct_index := replace_cold tp start_offset end_offset merged_key size_bytes (ct_index st),
                                ct_objs := delete_sources um source_keys u'\<rparr>)))))"

text \<open>\<open>run_compaction_cycle\<close>: the plans are made first and then executed in order, errors are logged.\<close>

definition run_compaction_cycle ::
  "'u upload_ops \<Rightarrow> store_codec \<Rightarrow> compaction_config \<Rightarrow> ('u, 'z) cold_tier_scheme \<Rightarrow> ('u, 'z) cold_tier_scheme" where
  "run_compaction_cycle um cod config st =
     (if \<not> cc_enabled config then st
      else fold (\<lambda>plan st. snd (execute_plan um cod plan st)) (plan_compaction (ct_index st) config) st)"

section \<open>Compaction keeps the log\<close>

definition log_wf :: "log \<Rightarrow> bool" where
  "log_wf L \<longleftrightarrow> (\<forall>tp off. wr_offset (L tp off) = off \<and> wr_tp (L tp off) = tp)"

text \<open>A plan whose sources are ranges of the index, one after the other.\<close>

definition valid_plan :: "partition_index \<Rightarrow> compaction_plan \<Rightarrow> bool" where
  "valid_plan idx p \<longleftrightarrow> 2 \<le> length (cp_sources p) \<and> contiguous (cp_sources p) \<and>
     (\<forall>src \<in> set (cp_sources p). cs_tp src = cp_tp p \<and> cold_map idx (cp_tp p) (cs_start_offset src) = Some (seg_range src))"

definition plan_start :: "compaction_plan \<Rightarrow> offset" where
  "plan_start p = cs_start_offset (hd (cp_sources p))"

definition plan_end :: "compaction_plan \<Rightarrow> offset" where
  "plan_end p = cs_end_offset (last (cp_sources p))"

definition merged_run :: "log \<Rightarrow> compaction_plan \<Rightarrow> wal_record list" where
  "merged_run L p = log_run L (cp_tp p) (plan_start p) (plan_end p)"

definition merged_segment :: "store_codec \<Rightarrow> log \<Rightarrow> compaction_plan \<Rightarrow> wal_segment" where
  "merged_segment cod L p =
     (let d = sc_ser cod (merged_run L p) in
      \<lparr>ws_start_offset = plan_start p, ws_end_offset = plan_end p, ws_size_bytes = length d, ws_data = d, ws_tp = cp_tp p\<rparr>)"

definition merged_cold :: "store_codec \<Rightarrow> log \<Rightarrow> compaction_plan \<Rightarrow> cold_segment" where
  "merged_cold cod L p =
     \<lparr>cs_tp = cp_tp p, cs_start_offset = plan_start p, cs_end_offset = plan_end p,
      cs_object_key = segment_key (cp_tp p) (plan_start p) (plan_end p),
      cs_size_bytes = ws_size_bytes (merged_segment cod L p)\<rparr>"

lemma log_run_ends:
  assumes "log_wf L" and "st < en"
  shows "log_run L tp st en \<noteq> []" and "wr_offset (hd (log_run L tp st en)) = st"
    and "wr_offset (last (log_run L tp st en)) = en - 1"
  using assms by (simp_all add: log_run_def log_wf_def hd_map last_map)

lemma merge_sources_log:
  assumes "log_wf L" and "contiguous srcs" and "srcs \<noteq> []"
    and "\<forall>src \<in> set srcs. range_holds um cod L u tp (cs_start_offset src) (seg_range src)"
  shows "merge_sources um cod u srcs (cs_start_offset (hd srcs)) acc =
           Ok (cs_end_offset (last srcs), acc @ log_run L tp (cs_start_offset (hd srcs)) (cs_end_offset (last srcs))) \<and>
         cs_start_offset (hd srcs) < cs_end_offset (last srcs)"
  using assms(2-4)
proof (induction srcs arbitrary: acc)
  case (Cons src srcs)
  let ?s = "cs_start_offset src" and ?e = "cs_end_offset src"
  have holds: "range_holds um cod L u tp ?s (seg_range src)" using Cons.prems by simp
  then have lt: "?s < ?e" by (simp add: range_holds_def seg_range_def)
  obtain seg where seg: "um_download_segment um (cs_object_key src) u = Ok seg"
    "sc_de cod (ws_data seg) = Some (log_run L tp ?s ?e)"
    using holds by (auto simp: range_holds_def seg_range_def object_holds_def)
  have step: "merge_sources um cod u (src # srcs) ?s acc = merge_sources um cod u srcs ?e (acc @ log_run L tp ?s ?e)"
    using log_run_ends [OF assms(1) lt, of tp] lt by (simp add: seg)
  show ?case
  proof (cases "srcs = []")
    case True
    with step lt show ?thesis by simp
  next
    case False
    then have next_start: "cs_start_offset (hd srcs) = ?e" and "contiguous srcs"
      using Cons.prems(1) by (auto simp: successively_Cons)
    with Cons.IH [of "acc @ log_run L tp ?s ?e"] Cons.prems False
    have ih: "merge_sources um cod u srcs ?e (acc @ log_run L tp ?s ?e) =
        Ok (cs_end_offset (last srcs), (acc @ log_run L tp ?s ?e) @ log_run L tp ?e (cs_end_offset (last srcs)))"
      and "?e < cs_end_offset (last srcs)" by simp_all
    then show ?thesis using step lt False log_run_append [of ?s ?e "cs_end_offset (last srcs)" L tp] by simp
  qed
qed simp

lemma contiguous_bounds:
  assumes "contiguous srcs" and "\<forall>src \<in> set srcs. cs_start_offset src < cs_end_offset src"
  shows "\<forall>src \<in> set srcs. cs_start_offset (hd srcs) \<le> cs_start_offset src \<and> cs_end_offset src \<le> cs_end_offset (last srcs)"
  using assms
proof (induction srcs)
  case (Cons x srcs)
  show ?case
  proof (cases "srcs = []")
    case False
    then have c: "cs_end_offset x = cs_start_offset (hd srcs)" "contiguous srcs" "hd srcs \<in> set srcs"
      using Cons.prems(1) by (auto simp: successively_Cons)
    have "cs_start_offset x < cs_end_offset x" "cs_start_offset (hd srcs) < cs_end_offset (hd srcs)"
      using Cons.prems(2) c(3) by auto
    moreover have ih: "\<forall>src \<in> set srcs. cs_start_offset (hd srcs) \<le> cs_start_offset src \<and> cs_end_offset src \<le> cs_end_offset (last srcs)"
      using Cons.IH [OF c(2)] Cons.prems(2) by simp
    moreover have "cs_end_offset (hd srcs) \<le> cs_end_offset (last srcs)" using ih c(3) by blast
    ultimately have "cs_start_offset (hd srcs) \<le> cs_end_offset (last srcs)" by linarith
    then show ?thesis using False c(1) ih \<open>cs_start_offset x < cs_end_offset x\<close> by auto
  qed (use Cons.prems in auto)
qed simp

lemma contiguous_covers:
  assumes "contiguous srcs" and "srcs \<noteq> []" and "cs_start_offset (hd srcs) \<le> off" and "off < cs_end_offset (last srcs)"
  shows "\<exists>src \<in> set srcs. cs_start_offset src \<le> off \<and> off < cs_end_offset src"
  using assms
proof (induction srcs)
  case (Cons src srcs)
  show ?case
  proof (cases "off < cs_end_offset src \<or> srcs = []")
    case True
    with Cons.prems show ?thesis by auto
  next
    case False
    with Cons show ?thesis by (auto simp: successively_Cons)
  qed
qed simp

lemma valid_plan_ends:
  assumes "valid_plan idx p" and "cold_holds um cod L idx u" and "log_wf L"
  shows "plan_start p < plan_end p" and "plain_topic (tp_topic (cp_tp p))"
    and "cold_map idx (cp_tp p) (plan_start p) = Some (seg_range (hd (cp_sources p)))"
    and "\<exists>s. cold_map idx (cp_tp p) s = Some (seg_range (last (cp_sources p)))
           \<and> s = cs_start_offset (last (cp_sources p)) \<and> plan_start p \<le> s"
    and "merge_sources um cod u (cp_sources p) (plan_start p) [] = Ok (plan_end p, merged_run L p)"
proof -
  let ?srcs = "cp_sources p"
  have ne: "?srcs \<noteq> []" and cont: "contiguous ?srcs"
    and live: "\<forall>src \<in> set ?srcs. cold_map idx (cp_tp p) (cs_start_offset src) = Some (seg_range src)"
    using assms(1) by (auto simp: valid_plan_def)
  then have holds: "\<forall>src \<in> set ?srcs. range_holds um cod L u (cp_tp p) (cs_start_offset src) (seg_range src)"
    using cold_holds_range [OF assms(2)] by blast
  from merge_sources_log [OF assms(3) cont ne holds, of "[]"]
  show lt: "plan_start p < plan_end p"
    and "merge_sources um cod u ?srcs (plan_start p) [] = Ok (plan_end p, merged_run L p)"
    by (simp_all add: plan_start_def plan_end_def merged_run_def)
  have hd: "hd ?srcs \<in> set ?srcs" and last: "last ?srcs \<in> set ?srcs" using ne by simp_all
  show "plain_topic (tp_topic (cp_tp p))" using holds hd by (auto simp: range_holds_def)
  show "cold_map idx (cp_tp p) (plan_start p) = Some (seg_range (hd ?srcs))"
    using live hd by (simp add: plan_start_def)
  have "plan_start p \<le> cs_start_offset (last ?srcs)"
  proof (rule ccontr)
    assume "\<not> plan_start p \<le> cs_start_offset (last ?srcs)"
    then have "cs_end_offset (last ?srcs) \<le> plan_start p"
      using assms(2) live hd last unfolding cold_holds_def ranges_disjoint_def plan_start_def
      by (metis not_le_imp_less object_range.select_convs(1) seg_range_def)
    with lt show False by (simp add: plan_end_def)
  qed
  then show "\<exists>s. cold_map idx (cp_tp p) s = Some (seg_range (last ?srcs)) \<and> s = cs_start_offset (last ?srcs) \<and> plan_start p \<le> s"
    using live last by simp
qed

lemma disjointD:
  "ranges_disjoint end_of m \<Longrightarrow> m s = Some v \<Longrightarrow> m s' = Some v' \<Longrightarrow> s < s' \<Longrightarrow> end_of v \<le> s'"
  by (simp add: ranges_disjoint_def)

lemma plan_range_bounds:
  assumes "valid_plan idx p" and "cold_holds um cod L idx u" and "log_wf L"
    and "cold_map idx (cp_tp p) s = Some r"
  shows "s < plan_start p \<Longrightarrow> or_end_offset r \<le> plan_start p"
    and "s < plan_end p \<Longrightarrow> or_end_offset r \<le> plan_end p"
proof -
  note ends = valid_plan_ends [OF assms(1-3)]
  have dis: "ranges_disjoint or_end_offset (cold_map idx (cp_tp p))" using assms(2) by (simp add: cold_holds_def)
  show "s < plan_start p \<Longrightarrow> or_end_offset r \<le> plan_start p"
    by (rule disjointD [OF dis assms(4) ends(3)])
  assume s: "s < plan_end p"
  obtain l where l: "cold_map idx (cp_tp p) l = Some (seg_range (last (cp_sources p)))" using ends(4) by blast
  have le: "or_end_offset (seg_range (last (cp_sources p))) = plan_end p" by (simp add: seg_range_def plan_end_def)
  have "l < plan_end p" using cold_holds_range [OF assms(2) l] le by (simp add: range_holds_def)
  consider "s < l" | "s = l" | "l < s" by linarith
  then show "or_end_offset r \<le> plan_end p"
  proof cases
    case 1
    then show ?thesis using disjointD [OF dis assms(4) l] \<open>l < plan_end p\<close> by simp
  next
    case 2
    then show ?thesis using l le assms(4) by simp
  next
    case 3
    then show ?thesis using disjointD [OF dis l assms(4)] le s by simp
  qed
qed

lemma replace_holds:
  fixes sz :: nat
  assumes wf: "index_wf idx" and vp: "valid_plan idx p" and ch: "cold_holds um cod L idx u" and L: "log_wf L"
    and obj: "object_holds um cod L u (cp_tp p) (plan_start p) (plan_end p)"
  defines "idx' \<equiv> replace_cold (cp_tp p) (plan_start p) (plan_end p)
                   (segment_key (cp_tp p) (plan_start p) (plan_end p)) sz idx"
  shows "cold_holds um cod L idx' u"
proof -
  note ends = valid_plan_ends [OF vp ch L] and bounds = plan_range_bounds [OF vp ch L]
  let ?new = "\<lparr>or_end_offset = plan_end p, or_object_key = segment_key (cp_tp p) (plan_start p) (plan_end p), or_size_bytes = sz\<rparr>"
  have m: "cold_map idx' (cp_tp p) =
      (\<lambda>k. if plan_start p \<le> k \<and> k < plan_end p then None else cold_map idx (cp_tp p) k)(plan_start p \<mapsto> ?new)"
    and other: "tp \<noteq> cp_tp p \<Longrightarrow> cold_map idx' tp = cold_map idx tp" for tp
    using wf by (simp_all add: idx'_def index_views)
  have dis: "ranges_disjoint or_end_offset (cold_map idx tp)" for tp using ch by (simp add: cold_holds_def)
  have "ranges_disjoint or_end_offset (cold_map idx' tp)" for tp
  proof (cases "tp = cp_tp p")
    case True
    have "ranges_disjoint or_end_offset (cold_map idx' (cp_tp p))"
      unfolding m ranges_disjoint_def
    proof (intro allI impI)
      fix s v s' v'
      assume s: "((\<lambda>k. if plan_start p \<le> k \<and> k < plan_end p then None else cold_map idx (cp_tp p) k)(plan_start p \<mapsto> ?new)) s = Some v"
        and s': "((\<lambda>k. if plan_start p \<le> k \<and> k < plan_end p then None else cold_map idx (cp_tp p) k)(plan_start p \<mapsto> ?new)) s' = Some v'"
        and lt: "s < s'"
      show "or_end_offset v \<le> s'"
        using s s' lt disjointD [OF dis, of "cp_tp p" s v s' v'] bounds(1) [of s v]
        by (auto split: if_splits)
    qed
    with True show ?thesis by simp
  qed (use dis other in simp)
  moreover have "range_holds um cod L u tp s r" if "cold_map idx' tp s = Some r" for tp s r
    using that m other [of tp] cold_holds_range [OF ch] ends obj
    by (cases "tp = cp_tp p") (auto simp: range_holds_def split: if_splits)
  ultimately show "cold_holds um cod L idx' u" by (simp add: cold_holds_def)
qed

lemma replace_covers:
  fixes sz :: nat
  assumes wf: "index_wf idx" and vp: "valid_plan idx p" and ch: "cold_holds um cod L idx u" and L: "log_wf L"
  defines "idx' \<equiv> replace_cold (cp_tp p) (plan_start p) (plan_end p)
                   (segment_key (cp_tp p) (plan_start p) (plan_end p)) sz idx"
  shows "cold_covers idx' tp off \<longleftrightarrow> cold_covers idx tp off"
proof -
  note ends = valid_plan_ends [OF vp ch L] and bounds = plan_range_bounds [OF vp ch L]
  let ?new = "\<lparr>or_end_offset = plan_end p, or_object_key = segment_key (cp_tp p) (plan_start p) (plan_end p), or_size_bytes = sz\<rparr>"
  have m: "cold_map idx' (cp_tp p) =
      (\<lambda>k. if plan_start p \<le> k \<and> k < plan_end p then None else cold_map idx (cp_tp p) k)(plan_start p \<mapsto> ?new)"
    and other: "tp \<noteq> cp_tp p \<Longrightarrow> cold_map idx' tp = cold_map idx tp" for tp
    using wf by (simp_all add: idx'_def index_views)
  show "cold_covers idx' tp off \<longleftrightarrow> cold_covers idx tp off"
  proof (cases "tp = cp_tp p")
    case False
    then show ?thesis by (simp add: cold_covers_def other)
  next
    case True
    have "cold_covers idx' (cp_tp p) off \<longleftrightarrow> cold_covers idx (cp_tp p) off"
    proof (cases "plan_start p \<le> off \<and> off < plan_end p")
      case True
      then have "cold_covers idx' (cp_tp p) off" unfolding cold_covers_def m by auto
      moreover have "\<exists>src \<in> set (cp_sources p). cs_start_offset src \<le> off \<and> off < cs_end_offset src"
        using vp True by (intro contiguous_covers) (auto simp: valid_plan_def plan_start_def plan_end_def)
      then have "cold_covers idx (cp_tp p) off"
        using vp unfolding cold_covers_def valid_plan_def by (fastforce simp: seg_range_def)
      ultimately show ?thesis by simp
    next
      case False
      have out: "cold_map idx' (cp_tp p) s = cold_map idx (cp_tp p) s" if "\<not> (plan_start p \<le> s \<and> s < plan_end p)" for s
        using that ends(1) by (auto simp: m)
      have away: "\<not> (plan_start p \<le> s \<and> s < plan_end p)" if "cold_map idx (cp_tp p) s = Some r" "s \<le> off" "off < or_end_offset r" for s r
        using that False bounds [OF that(1)] by auto
      have away': "\<not> (plan_start p \<le> s \<and> s < plan_end p)" if "cold_map idx' (cp_tp p) s = Some r" "s \<le> off" "off < or_end_offset r" for s r
        using that False by (auto simp: m split: if_splits)
      show ?thesis unfolding cold_covers_def using out away away' by metis
    qed
    with True show ?thesis by simp
  qed
qed

text \<open>The sources of a valid plan: their keys, and that the merged range replaces them.\<close>

lemma plan_sources:
  assumes wf: "index_wf idx" and vp: "valid_plan idx p" and ch: "cold_holds um cod L idx u" and L: "log_wf L"
    and src: "src \<in> set (cp_sources p)"
  shows "cs_object_key src = segment_key (cp_tp p) (cs_start_offset src) (cs_end_offset src)"
    and "plan_start p \<le> cs_start_offset src" and "cs_start_offset src < cs_end_offset src" and "cs_end_offset src \<le> plan_end p"
    and "cs_end_offset src \<noteq> plan_end p \<or> cs_start_offset src \<noteq> plan_start p"
    and "cold_map (replace_cold (cp_tp p) (plan_start p) (plan_end p) key sz idx) (cp_tp p) (cs_start_offset src) = Some r \<Longrightarrow>
           or_end_offset r \<noteq> cs_end_offset src"
proof -
  note ends = valid_plan_ends [OF vp ch L]
  have sources: "\<forall>src \<in> set (cp_sources p). range_holds um cod L u (cp_tp p) (cs_start_offset src) (seg_range src)"
    using vp cold_holds_range [OF ch] by (auto simp: valid_plan_def)
  then show "cs_object_key src = segment_key (cp_tp p) (cs_start_offset src) (cs_end_offset src)"
    using src by (auto simp: range_holds_def seg_range_def)
  have old: "cold_map idx (cp_tp p) (cs_start_offset src) = Some (seg_range src)"
    using vp src by (simp add: valid_plan_def)
  have b2: "\<forall>x \<in> set (cp_sources p). cs_start_offset x < cs_end_offset x"
    using sources by (auto simp: range_holds_def seg_range_def)
  have "contiguous (cp_sources p)" using vp by (simp add: valid_plan_def)
  note b = contiguous_bounds [OF this b2]
  show in_range: "plan_start p \<le> cs_start_offset src" "cs_start_offset src < cs_end_offset src" "cs_end_offset src \<le> plan_end p"
    using b b2 src by (auto simp: plan_start_def plan_end_def)
  show first: "cs_end_offset src \<noteq> plan_end p \<or> cs_start_offset src \<noteq> plan_start p"
  proof (cases "cs_start_offset src = plan_start p")
    case True
    then have "seg_range src = seg_range (hd (cp_sources p))" using old ends(3) by simp
    then have "cs_end_offset src = cs_end_offset (hd (cp_sources p))" by (simp add: seg_range_def)
    moreover obtain x y zs where xs: "cp_sources p = x # y # zs"
      using vp by (cases "cp_sources p" rule: remdups_adj.cases) (auto simp: valid_plan_def)
    then have "cs_end_offset x = cs_start_offset y" "cs_start_offset y < cs_end_offset y"
      using vp b2 by (simp_all add: valid_plan_def)
    moreover have "cs_end_offset y \<le> plan_end p"
      using b xs by (simp add: plan_end_def)
    ultimately show ?thesis using xs by simp
  qed simp
  show "or_end_offset r \<noteq> cs_end_offset src"
    if "cold_map (replace_cold (cp_tp p) (plan_start p) (plan_end p) key sz idx) (cp_tp p) (cs_start_offset src) = Some r"
    using that first in_range wf by (auto simp: index_views split: if_splits)
qed

context upload_manager
begin

lemma delete_sources_objects:
  assumes "plain_topic (tp_topic tp)" and "object_holds um cod L u tp s e"
    and "\<forall>k \<in> set keys. \<exists>tp' s' e'. plain_topic (tp_topic tp') \<and> k = segment_key tp' s' e' \<and> (tp, s, e) \<noteq> (tp', s', e')"
  shows "object_holds um cod L (delete_sources um keys u) tp s e"
  using assms(2,3)
proof (induction keys arbitrary: u)
  case (Cons k keys)
  obtain tp' s' e' where k: "plain_topic (tp_topic tp')" "k = segment_key tp' s' e'" "(tp, s, e) \<noteq> (tp', s', e')"
    using Cons.prems(2) by auto
  obtain u' where "um_delete_object um k u = (Ok (), u') \<and>
      (\<forall>tp'' s'' e''. plain_topic (tp_topic tp'') \<longrightarrow> (tp'', s'', e'') \<noteq> (tp', s', e') \<longrightarrow>
         object_holds um cod L u tp'' s'' e'' \<longrightarrow> object_holds um cod L u' tp'' s'' e'')"
    using delete_holds [OF k(1), of s' e' u cod L] k(2) by blast
  with assms(1) k(3) Cons show ?case by (simp add: delete_sources_def)
qed (simp add: delete_sources_def)

lemma delete_sources_holds:
  assumes "cold_holds um cod L idx u"
    and "\<forall>k \<in> set keys. \<exists>tp s e. plain_topic (tp_topic tp) \<and> k = segment_key tp s e \<and> (\<forall>r. cold_map idx tp s = Some r \<longrightarrow> or_end_offset r \<noteq> e)"
  shows "cold_holds um cod L idx (delete_sources um keys u)"
proof (rule cold_holds_objs [OF assms(1)])
  fix tp s r
  assume r: "cold_map idx tp s = Some r" "plain_topic (tp_topic tp)" "object_holds um cod L u tp s (or_end_offset r)"
  show "object_holds um cod L (delete_sources um keys u) tp s (or_end_offset r)"
  proof (rule delete_sources_objects [OF r(2,3)], rule ballI)
    fix k assume "k \<in> set keys"
    then obtain tp' s' e' where k: "plain_topic (tp_topic tp')" "k = segment_key tp' s' e'"
      "\<forall>r. cold_map idx tp' s' = Some r \<longrightarrow> or_end_offset r \<noteq> e'" using assms(2) by blast
    then have "(tp, s, or_end_offset r) \<noteq> (tp', s', e')" using r(1) by auto
    with k show "\<exists>tp' s' e'. plain_topic (tp_topic tp') \<and> k = segment_key tp' s' e' \<and> (tp, s, or_end_offset r) \<noteq> (tp', s', e')" by blast
  qed
qed

text \<open>A deleted source is not found any more.\<close>

lemma delete_sources_gone:
  assumes "\<forall>k \<in> set keys. is_segment_key k" and "k \<in> set keys"
  shows "\<exists>m. um_download_segment um k (delete_sources um keys u) = Err (NotFound m)"
  using assms
proof (induction keys arbitrary: u rule: rev_induct)
  case (snoc k' keys)
  let ?u = "delete_sources um keys u"
  obtain u' where u': "um_delete_object um k' ?u = (Ok (), u')"
    "\<forall>j. is_segment_key j \<longrightarrow> j \<noteq> k' \<longrightarrow> um_download_segment um j u' = um_download_segment um j ?u"
    using delete_others [of k' ?u] snoc.prems(1) by auto
  have e: "delete_sources um (keys @ [k']) u = u'" using u'(1) by (simp add: delete_sources_def)
  show ?case
  proof (cases "k = k'")
    case True
    then show ?thesis using delete_gone [of k' ?u] snoc.prems(1) u'(1) by (simp add: e)
  next
    case False
    then show ?thesis using snoc u'(2) by (simp add: e)
  qed
qed simp

lemma execute_plan_holds:
  assumes wf: "index_wf (ct_index st)" and vp: "valid_plan (ct_index st) p"
    and ch: "cold_holds um cod L (ct_index st) (ct_objs st)" and L: "log_wf L"
    and fit: "fits (merged_segment cod L p)" and codec: "sc_de cod (sc_ser cod (merged_run L p)) = Some (merged_run L p)"
  shows "\<exists>u'. execute_plan um cod p st = (Ok (), st\<lparr>
             ct_manifest := append_record (sc_mser cod) (sc_crc cod)
               (Compact (merged_cold cod L p) (map cs_object_key (cp_sources p))) (ct_manifest st),
             ct_index := replace_cold (cp_tp p) (plan_start p) (plan_end p)
               (segment_key (cp_tp p) (plan_start p) (plan_end p)) (ws_size_bytes (merged_segment cod L p)) (ct_index st),
             ct_objs := u'\<rparr>) \<and>
           cold_holds um cod L (replace_cold (cp_tp p) (plan_start p) (plan_end p)
               (segment_key (cp_tp p) (plan_start p) (plan_end p)) (ws_size_bytes (merged_segment cod L p)) (ct_index st)) u' \<and>
           (\<forall>tp s e. plain_topic (tp_topic tp) \<longrightarrow> object_holds um cod L (ct_objs st) tp s e \<longrightarrow>
              \<not> (tp = cp_tp p \<and> plan_start p \<le> s \<and> s < plan_end p) \<longrightarrow> object_holds um cod L u' tp s e)"
proof -
  note ends = valid_plan_ends [OF vp ch L] and srcs = plan_sources [OF wf vp ch L]
  let ?tp = "cp_tp p" and ?st = "plan_start p" and ?en = "plan_end p"
  let ?seg = "merged_segment cod L p" and ?key = "segment_key (cp_tp p) (plan_start p) (plan_end p)"
  let ?keys = "map cs_object_key (cp_sources p)"
  have len: "\<not> length (cp_sources p) < 2" using vp by (simp add: valid_plan_def)
  obtain u' where u': "um_upload_segment um ?seg (ct_objs st) = (Ok ?key, u')" "object_holds um cod L u' ?tp ?st ?en"
    "\<forall>tp' s e. plain_topic (tp_topic tp') \<longrightarrow> object_holds um cod L (ct_objs st) tp' s e \<longrightarrow> object_holds um cod L u' tp' s e"
    using upload_holds [OF fit, of ?tp ?st ?en cod L "ct_objs st"] codec
    by (auto simp: merged_segment_def merged_run_def Let_def)
  let ?idx' = "replace_cold ?tp ?st ?en ?key (ws_size_bytes ?seg) (ct_index st)"
  have "cold_holds um cod L (ct_index st) u'" using u'(3) by (intro cold_holds_objs [OF ch]) blast
  from replace_holds [OF wf vp this L u'(2)] have ch': "cold_holds um cod L ?idx' u'" .
  have "cold_holds um cod L ?idx' (delete_sources um ?keys u')"
  proof (rule delete_sources_holds [OF ch'], rule ballI)
    fix k assume "k \<in> set ?keys"
    then obtain src where src: "src \<in> set (cp_sources p)" "k = cs_object_key src" by auto
    from srcs(1,6) [OF src(1)] src(2) ends(2)
    show "\<exists>tp s e. plain_topic (tp_topic tp) \<and> k = segment_key tp s e \<and> (\<forall>r. cold_map ?idx' tp s = Some r \<longrightarrow> or_end_offset r \<noteq> e)"
      by (intro exI [of _ ?tp] exI [of _ "cs_start_offset src"] exI [of _ "cs_end_offset src"]) blast
  qed
  moreover have "object_holds um cod L (delete_sources um ?keys u') tp s e"
    if o: "plain_topic (tp_topic tp)" "object_holds um cod L (ct_objs st) tp s e" "\<not> (tp = ?tp \<and> ?st \<le> s \<and> s < ?en)" for tp s e
  proof (rule delete_sources_objects [OF o(1)])
    show "object_holds um cod L u' tp s e" using u'(3) o(1,2) by blast
    show "\<forall>k \<in> set ?keys. \<exists>tp' s' e'. plain_topic (tp_topic tp') \<and> k = segment_key tp' s' e' \<and> (tp, s, e) \<noteq> (tp', s', e')"
    proof
      fix k assume "k \<in> set ?keys"
      then obtain src where src: "src \<in> set (cp_sources p)" "k = cs_object_key src" by auto
      have "(tp, s, e) \<noteq> (?tp, cs_start_offset src, cs_end_offset src)"
        using o(3) srcs(2-4) [OF src(1)] by auto
      with srcs(1) [OF src(1)] src(2) ends(2)
      show "\<exists>tp' s' e'. plain_topic (tp_topic tp') \<and> k = segment_key tp' s' e' \<and> (tp, s, e) \<noteq> (tp', s', e')" by blast
    qed
  qed
  moreover have "execute_plan um cod p st = (Ok (), st\<lparr>
      ct_manifest := record_compaction (sc_mser cod) (sc_crc cod)
        \<lparr>cs_tp = ?tp, cs_start_offset = ?st, cs_end_offset = ?en, cs_object_key = ?key, cs_size_bytes = ws_size_bytes ?seg\<rparr>
        ?keys (ct_manifest st),
      ct_index := ?idx', ct_objs := delete_sources um ?keys u'\<rparr>)"
    using len ends(5) u'(1)
    by (simp add: execute_plan_def Let_def plan_start_def [symmetric] plan_end_def [symmetric]
        merged_segment_def merged_run_def)
  ultimately show ?thesis by (auto simp: record_compaction_def merged_cold_def)
qed

end

section \<open>A compaction cycle\<close>

lemma get_cold_segments_range:
  assumes "index_wf idx" and "seg \<in> set (get_cold_segments idx tp)"
  shows "cs_tp seg = tp \<and> cold_map idx tp (cs_start_offset seg) = Some (seg_range seg)"
proof -
  obtain e where e: "map_of (pi_inner idx) tp = Some e"
    using assms(2) by (cases "map_of (pi_inner idx) tp") (auto simp: get_cold_segments_def)
  obtain st rng where seg: "(st, rng) \<in> set (pe_cold e)" "cs_tp seg = tp" "cs_start_offset seg = st" "seg_range seg = rng"
    using assms(2) e by (auto simp: get_cold_segments_def seg_range_def)
  have "entries_of idx tp = e" using e by (simp add: entries_of_def hm_entry_def)
  moreover have "bt_wf (pe_cold (entries_of idx tp))" using assms(1) by (simp add: index_wf_bt)
  ultimately show ?thesis using seg by (simp add: cold_map_def bt_wf_distinct)
qed

lemma distinct_cold_segments: "index_wf idx \<Longrightarrow> distinct (map seg_key (get_cold_segments idx tp))"
proof (cases "map_of (pi_inner idx) tp")
  case (Some e)
  assume "index_wf idx"
  then have "bt_wf (pe_cold (entries_of idx tp))" by (simp add: index_wf_bt)
  moreover have "entries_of idx tp = e" using Some by (simp add: entries_of_def hm_entry_def)
  ultimately have "distinct (map fst (pe_cold e))" by (simp add: bt_wf_distinct)
  then have "distinct (map (Pair tp) (map fst (pe_cold e)))" by (subst distinct_map) (simp add: inj_on_def)
  moreover have "map seg_key (get_cold_segments idx tp) = map (Pair tp) (map fst (pe_cold e))"
    using Some by (simp add: get_cold_segments_def split_beta)
  ultimately show ?thesis by simp
qed (simp add: get_cold_segments_def)

lemma subseq_set: "subseq xs ys \<Longrightarrow> set xs \<subseteq> set ys"
  using list_emb_set [of "(=)" xs ys] by blast

lemma subseq_distinct: "subseq xs ys \<Longrightarrow> distinct ys \<Longrightarrow> distinct xs"
  by (metis subseqs_distinctD set_subseqs_eq mem_Collect_eq)

lemma plan_compaction_valid:
  assumes "index_wf idx" and "2 \<le> cc_max_sources config" and "p \<in> set (plan_compaction idx config)"
  shows "valid_plan idx p"
proof -
  obtain tp where tp: "p \<in> set (plan_partition_compaction tp (get_cold_segments idx tp) config)"
    using assms(3) by (auto simp: plan_compaction_def)
  then have ok: "plan_ok config tp p" using plans_ok(1) [OF assms(2)] by blast
  have "set (cp_sources p) \<subseteq> set (get_cold_segments idx tp)"
    using subseq_set [OF plans_ok(2) [OF assms(2), of tp "get_cold_segments idx tp"]] tp by auto
  then show ?thesis using ok get_cold_segments_range [OF assms(1)]
    by (auto simp: valid_plan_def plan_ok_def run_ok_def)
qed

lemma plan_compaction_distinct:
  assumes "index_wf idx" and "2 \<le> cc_max_sources config"
  shows "distinct (map seg_key (concat (map cp_sources (plan_compaction idx config))))"
proof -
  let ?srcs = "\<lambda>tp. concat (map cp_sources (plan_partition_compaction tp (get_cold_segments idx tp) config))"
  have sub: "subseq (?srcs tp) (get_cold_segments idx tp)" for tp by (rule plans_ok(2) [OF assms(2)])
  have each: "distinct (map seg_key (?srcs tp))" for tp
    using subseq_distinct [OF subseq_map [OF sub] distinct_cold_segments [OF assms(1)]] .
  have own: "fst (seg_key x) = tp" if "x \<in> set (?srcs tp)" for x tp
    using that subseq_set [OF sub, of tp] get_cold_segments_range [OF assms(1), of x tp] by auto
  have all: "distinct tps \<Longrightarrow> distinct (map seg_key (concat (map ?srcs tps)))" for tps
  proof (induction tps)
    case (Cons tp tps)
    have "seg_key x \<noteq> seg_key y" if x: "x \<in> set (?srcs tp)" and y: "y \<in> set (concat (map ?srcs tps))" for x y
    proof -
      from y obtain tp' where tp': "tp' \<in> set tps" "y \<in> set (?srcs tp')" by auto
      then have "tp' \<noteq> tp" using Cons.prems by auto
      with own [OF x] own [OF tp'(2)] show ?thesis by auto
    qed
    then have "set (map seg_key (?srcs tp)) \<inter> set (map seg_key (concat (map ?srcs tps))) = {}"
      by (simp only: set_map) blast
    then show ?case using Cons each [of tp]
      by (simp only: map_append distinct_append concat.simps list.map distinct.simps)
  qed simp
  have "concat (map cp_sources (concat (map f tps))) = concat (map (\<lambda>tp. concat (map cp_sources (f tp))) tps)"
    for f :: "topic_partition \<Rightarrow> compaction_plan list" and tps
    by (induction tps) simp_all
  then have "concat (map cp_sources (plan_compaction idx config)) = concat (map ?srcs (get_partitions idx))"
    by (simp add: plan_compaction_def)
  moreover have "distinct (get_partitions idx)" using assms(1) by (simp add: get_partitions_def index_wf_def)
  ultimately show ?thesis using all by simp
qed

lemma valid_plan_replace:
  assumes wf: "index_wf idx" and p: "valid_plan idx p" and q: "valid_plan idx q"
    and ch: "cold_holds um cod L idx u" and L: "log_wf L"
    and dis: "seg_key ` set (cp_sources p) \<inter> seg_key ` set (cp_sources q) = {}"
  shows "valid_plan (replace_cold (cp_tp p) (plan_start p) (plan_end p) key sz idx) q"
proof -
  have "cold_map (replace_cold (cp_tp p) (plan_start p) (plan_end p) key sz idx) (cp_tp q) (cs_start_offset src) =
      Some (seg_range src)" if src: "src \<in> set (cp_sources q)" for src
  proof (cases "cp_tp q = cp_tp p")
    case False
    then show ?thesis using q src wf by (simp add: index_views valid_plan_def)
  next
    case True
    have live: "cold_map idx (cp_tp p) (cs_start_offset src) = Some (seg_range src)" "cs_tp src = cp_tp p"
      using q src True by (auto simp: valid_plan_def)
    have ne: "cp_sources p \<noteq> []" using p by (auto simp: valid_plan_def)
    have "\<not> (plan_start p \<le> cs_start_offset src \<and> cs_start_offset src < plan_end p)"
    proof
      assume "plan_start p \<le> cs_start_offset src \<and> cs_start_offset src < plan_end p"
      then obtain x where x: "x \<in> set (cp_sources p)" "cs_start_offset x \<le> cs_start_offset src" "cs_start_offset src < cs_end_offset x"
        using contiguous_covers [of "cp_sources p" "cs_start_offset src"] p ne
        by (auto simp: valid_plan_def plan_start_def plan_end_def)
      have "cold_map idx (cp_tp p) (cs_start_offset x) = Some (seg_range x)" "cs_tp x = cp_tp p"
        using p x(1) by (auto simp: valid_plan_def)
      moreover have "ranges_disjoint or_end_offset (cold_map idx (cp_tp p))" using ch by (simp add: cold_holds_def)
      ultimately have "\<not> cs_start_offset x < cs_start_offset src"
        using disjointD live(1) x(3) by (fastforce simp: seg_range_def)
      then have "seg_key x = seg_key src" using x(2) live(2) \<open>cs_tp x = cp_tp p\<close> by simp
      with dis x(1) src show False by blast
    qed
    moreover have "plan_start p < plan_end p" by (rule valid_plan_ends(1) [OF p ch L])
    ultimately show ?thesis using live(1) True wf by (auto simp: index_views)
  qed
  with q show ?thesis by (simp add: valid_plan_def)
qed

lemma cold_end_next: "index_wf idx \<Longrightarrow> cold_map idx tp s = Some r \<Longrightarrow> or_end_offset r \<le> next_offset idx tp"
  using index_wf_entry [of idx tp] unfolding entry_wf_def cold_map_def next_offset_entries by blast

lemma replace_keeps:
  assumes "index_wf idx" and "valid_plan idx p"
  shows "next_offset (replace_cold (cp_tp p) (plan_start p) (plan_end p) key sz idx) tp = next_offset idx tp"
proof -
  have "cold_map idx (cp_tp p) (cs_start_offset (last (cp_sources p))) = Some (seg_range (last (cp_sources p)))"
    using assms(2) last_in_set [of "cp_sources p"] by (fastforce simp: valid_plan_def)
  from cold_end_next [OF assms(1) this] have "plan_end p \<le> next_offset idx (cp_tp p)"
    by (simp add: seg_range_def plan_end_def)
  then show ?thesis by (simp add: index_views)
qed

text \<open>What a cycle needs of a plan: the merged segment can be uploaded and decoded again.\<close>

definition plan_fits ::
  "(wal_segment \<Rightarrow> bool) \<Rightarrow> store_codec \<Rightarrow> log \<Rightarrow> compaction_plan \<Rightarrow> bool" where
  "plan_fits fits cod L p \<longleftrightarrow> fits (merged_segment cod L p) \<and> sc_de cod (sc_ser cod (merged_run L p)) = Some (merged_run L p)"

context upload_manager
begin

lemma execute_plans_hold:
  assumes "index_wf (ct_index st)" and "cold_holds um cod L (ct_index st) (ct_objs st)" and "log_wf L"
    and "\<forall>p \<in> set plans. valid_plan (ct_index st) p \<and> plan_fits fits cod L p"
    and "distinct (map seg_key (concat (map cp_sources plans)))"
  defines "st' \<equiv> fold (\<lambda>p st. snd (execute_plan um cod p st)) plans st"
  shows "index_wf (ct_index st') \<and> cold_holds um cod L (ct_index st') (ct_objs st') \<and>
         (\<forall>tp off. cold_covers (ct_index st') tp off = cold_covers (ct_index st) tp off \<and>
            hot_at (ct_index st') tp = hot_at (ct_index st) tp \<and>
            next_offset (ct_index st') tp = next_offset (ct_index st) tp)"
  unfolding st'_def using assms(1,2,4,5)
proof (induction plans arbitrary: st)
  case Nil
  then show ?case by simp
next
  case (Cons p plans)
  let ?st1 = "snd (execute_plan um cod p st)"
  have p: "valid_plan (ct_index st) p" "fits (merged_segment cod L p)"
    "sc_de cod (sc_ser cod (merged_run L p)) = Some (merged_run L p)"
    using Cons.prems(3) by (auto simp: plan_fits_def)
  from execute_plan_holds [OF Cons.prems(1) p(1) Cons.prems(2) assms(3) p(2,3)]
  have idx1: "ct_index ?st1 = replace_cold (cp_tp p) (plan_start p) (plan_end p)
      (segment_key (cp_tp p) (plan_start p) (plan_end p)) (ws_size_bytes (merged_segment cod L p)) (ct_index st)"
    and ch1: "cold_holds um cod L (ct_index ?st1) (ct_objs ?st1)" by auto
  have wf1: "index_wf (ct_index ?st1)" unfolding idx1 by (rule cold_ops_wf(2) [OF Cons.prems(1)])
  have valid1: "\<forall>q \<in> set plans. valid_plan (ct_index ?st1) q \<and> plan_fits fits cod L q"
  proof
    fix q assume q: "q \<in> set plans"
    have "seg_key ` set (cp_sources p) \<inter> seg_key ` set (cp_sources q) = {}"
      using Cons.prems(4) q by auto
    then have "valid_plan (ct_index ?st1) q" unfolding idx1
      using Cons.prems(3) q by (intro valid_plan_replace [OF Cons.prems(1) p(1) _ Cons.prems(2) assms(3)]) auto
    then show "valid_plan (ct_index ?st1) q \<and> plan_fits fits cod L q" using Cons.prems(3) q by simp
  qed
  have same: "cold_covers (ct_index ?st1) tp off = cold_covers (ct_index st) tp off"
    "hot_at (ct_index ?st1) tp = hot_at (ct_index st) tp" "next_offset (ct_index ?st1) tp = next_offset (ct_index st) tp" for tp off
  proof -
    show "hot_at (ct_index ?st1) tp = hot_at (ct_index st) tp" by (simp add: idx1 index_views)
    show "next_offset (ct_index ?st1) tp = next_offset (ct_index st) tp"
      unfolding idx1 by (rule replace_keeps [OF Cons.prems(1) p(1)])
    show "cold_covers (ct_index ?st1) tp off = cold_covers (ct_index st) tp off"
      unfolding idx1 by (rule replace_covers [OF Cons.prems(1) p(1) Cons.prems(2) assms(3)])
  qed
  have "distinct (map seg_key (concat (map cp_sources plans)))" using Cons.prems(4) by simp
  from Cons.IH [OF wf1 ch1 valid1 this] show ?case unfolding same by simp
qed

end

section \<open>Properties\<close>


definition sample_config :: compaction_config where
  "sample_config = \<lparr>cc_enabled = True, cc_small_threshold_bytes = 20, cc_target_bytes = 25, cc_max_sources = 10\<rparr>"



text \<open>A small log and codec: the encoding of a record list is the list of its offsets.\<close>

definition sample_tp :: topic_partition where
  "sample_tp = TopicPartition ''t'' 0"

definition sample_log :: log where
  "sample_log tp off = sample_record tp off []"

definition sample_codec :: store_codec where
  "sample_codec =
     \<lparr>sc_ser = map (\<lambda>r. of_nat (wr_offset r)), sc_de = (\<lambda>bs. Some (map (\<lambda>b. sample_log sample_tp (unat b)) bs)),
      sc_mser = (\<lambda>r. []), sc_mde = (\<lambda>bs. None), sc_crc = (\<lambda>bs. 0)\<rparr>"

definition sample_upload_config :: upload_config where
  "sample_upload_config = \<lparr>uc_storage_type = Local, uc_multipart_threshold = 100\<rparr>"

lemma sample_log_wf: "log_wf sample_log"
  by (simp add: log_wf_def sample_log_def sample_record_def)

lemma sample_plain_topic: "plain_topic (tp_topic sample_tp)"
  by (simp add: plain_topic_def sample_tp_def key_char_def less_eq_char_def sublist_Cons_right)

lemma sample_codec_ok:
  "en \<le> 256 \<Longrightarrow> sc_de sample_codec (sc_ser sample_codec (log_run sample_log sample_tp st en)) =
     Some (log_run sample_log sample_tp st en)"
  by (auto simp: sample_codec_def log_run_def sample_log_def sample_record_def unat_of_nat)

definition sample_wal_segment :: "offset \<Rightarrow> offset \<Rightarrow> wal_segment" where
  "sample_wal_segment st en =
     (let d = sc_ser sample_codec (log_run sample_log sample_tp st en) in
      \<lparr>ws_start_offset = st, ws_end_offset = en, ws_size_bytes = length d, ws_data = d, ws_tp = sample_tp\<rparr>)"

lemma sample_fits:
  "en \<le> 90 \<Longrightarrow> st \<le> en \<Longrightarrow> fits_local sample_libs sample_upload_config (sample_wal_segment st en)"
  using sample_plain_topic
  by (simp add: fits_local_def sample_wal_segment_def Let_def segment_ok_def compression_ok_def sample_upload_config_def
      uploaded_bytes_def compress_segment_def sample_codec_def)
    (simp add: plain_topic_def sample_tp_def)

abbreviation sample_um :: "local_fs upload_ops" where
  "sample_um \<equiv> upload_impl sample_libs sample_upload_config (local_ops (ul_crc sample_libs))"

lemma sample_upload_holds:
  assumes "st \<le> en" and "en \<le> 90"
  shows "\<exists>u'. object_holds sample_um sample_codec sample_log u' sample_tp st en \<and>
           (\<forall>tp' s e. plain_topic (tp_topic tp') \<longrightarrow> object_holds sample_um sample_codec sample_log u tp' s e \<longrightarrow>
              object_holds sample_um sample_codec sample_log u' tp' s e)"
  using local_upload.upload_holds [OF sample_fits [OF assms(2,1)], of sample_tp st en sample_codec sample_log u]
    sample_codec_ok [of en st] assms
  by (auto simp: sample_wal_segment_def Let_def)

definition sample_cold_index :: partition_index where
  "sample_cold_index =
     insert_cold sample_tp 2 5 (segment_key sample_tp 2 5) 3 (insert_cold sample_tp 0 2 (segment_key sample_tp 0 2) 2 index_new)"

lemma sample_cold_holds:
  assumes "object_holds sample_um sample_codec sample_log fs sample_tp 0 2"
    and "object_holds sample_um sample_codec sample_log fs sample_tp 2 5"
  shows "cold_holds sample_um sample_codec sample_log sample_cold_index fs"
  using assms sample_plain_topic
  by (auto simp: cold_holds_def sample_cold_index_def index_views ranges_disjoint_def range_holds_def split: if_splits)


end
