(* ===== verification/Reservation.thy ===== *)
theory Reservation
  imports Object_Storage
begin

text \<open>
  \<open>src/storage/reservation.rs\<close>: the per-partition epoch reservation that fences stale leaders. A
  reservation is one object; a leader acquires it by conditional writes. \<open>acquire\<close> is given twice:
  as the source has it (\<open>acquire\<close>, uninterrupted), and as a machine whose steps are its single
  object-store requests (\<open>acq_step\<close>), so that the requests of several nodes can interleave. \<open>enc\<close>
  and \<open>dec\<close> stand for \<open>bincode\<close>.
\<close>

section \<open>The reservation object\<close>

record reservation =
  res_magic :: nat
  res_node_id :: string
  res_epoch :: nat
  res_failover :: nat

datatype acquire_outcome = Owned | Fenced nat

abbreviation RESERVATION_MAGIC :: nat where
  "RESERVATION_MAGIC \<equiv> 1380798802"

abbreviation MAX_CAS_RETRIES :: nat where
  "MAX_CAS_RETRIES \<equiv> 3"

definition reservation_key :: "topic_partition \<Rightarrow> string" where
  "reservation_key tp = ''topics/'' @ tp_topic tp @ ''/'' @ show_nat (tp_partition tp) @ ''/_epoch''"

definition encode :: "(reservation \<Rightarrow> bytes) \<Rightarrow> string \<Rightarrow> nat \<Rightarrow> nat \<Rightarrow> bytes" where
  "encode enc node_id epoch failover =
     enc \<lparr>res_magic = RESERVATION_MAGIC, res_node_id = node_id, res_epoch = epoch, res_failover = failover\<rparr>"

definition decode :: "(bytes \<Rightarrow> reservation option) \<Rightarrow> bytes \<Rightarrow> reservation result" where
  "decode dec bs =
     (case dec bs of
        None \<Rightarrow> Err (Storage ''reservation decode'')
      | Some r \<Rightarrow> if res_magic r \<noteq> RESERVATION_MAGIC then Err (Storage ''reservation magic mismatch'') else Ok r)"

section \<open>Acquiring\<close>

text \<open>After the retries are used up: report the epoch that can be seen.\<close>

definition churning :: "'o object_ops \<Rightarrow> (bytes \<Rightarrow> reservation option) \<Rightarrow> string \<Rightarrow> nat \<Rightarrow> 'o \<Rightarrow> acquire_outcome result" where
  "churning ops dec key epoch s =
     Ok (Fenced (case op_get_versioned ops key s of
                   Inr (bs, _) \<Rightarrow> (case decode dec bs of Inr r \<Rightarrow> res_epoch r | Inl _ \<Rightarrow> epoch)
                 | Inl _ \<Rightarrow> epoch))"

fun acquire_loop ::
  "'o object_ops \<Rightarrow> (reservation \<Rightarrow> bytes) \<Rightarrow> (bytes \<Rightarrow> reservation option) \<Rightarrow> string \<Rightarrow> string \<Rightarrow> nat \<Rightarrow>
   nat \<Rightarrow> 'o \<Rightarrow> acquire_outcome result \<times> 'o" where
  "acquire_loop ops enc dec key node_id epoch 0 s = (churning ops dec key epoch s, s)"
| "acquire_loop ops enc dec key node_id epoch (Suc n) s =
     (case op_get_versioned ops key s of
        Inl (NotFound _) \<Rightarrow>
          (case op_put_if ops key (encode enc node_id epoch 0) Create s of
             (Inl e, s') \<Rightarrow> (Err e, s')
           | (Inr (Written _), s') \<Rightarrow> (Ok Owned, s')
           | (Inr PreconditionFailed, s') \<Rightarrow> acquire_loop ops enc dec key node_id epoch n s')
      | Inr (bs, version) \<Rightarrow>
          (case decode dec bs of
             Inl e \<Rightarrow> (Err e, s)
           | Inr current \<Rightarrow>
               if res_epoch current > epoch \<or> (res_epoch current = epoch \<and> res_node_id current \<noteq> node_id)
               then (Ok (Fenced (res_epoch current)), s)
               else if res_epoch current = epoch \<and> res_node_id current = node_id then (Ok Owned, s)
               else (case op_put_if ops key (encode enc node_id epoch (res_failover current + 1)) (Match version) s of
                       (Inl e, s') \<Rightarrow> (Err e, s')
                     | (Inr (Written _), s') \<Rightarrow> (Ok Owned, s')
                     | (Inr PreconditionFailed, s') \<Rightarrow> acquire_loop ops enc dec key node_id epoch n s'))
      | Inl e \<Rightarrow> (Err e, s))"

definition acquire ::
  "'o object_ops \<Rightarrow> (reservation \<Rightarrow> bytes) \<Rightarrow> (bytes \<Rightarrow> reservation option) \<Rightarrow> topic_partition \<Rightarrow> string \<Rightarrow> nat \<Rightarrow>
   'o \<Rightarrow> acquire_outcome result \<times> 'o" where
  "acquire ops enc dec tp node_id epoch = acquire_loop ops enc dec (reservation_key tp) node_id epoch MAX_CAS_RETRIES"

definition verify ::
  "'o object_ops \<Rightarrow> (bytes \<Rightarrow> reservation option) \<Rightarrow> topic_partition \<Rightarrow> string \<Rightarrow> nat \<Rightarrow> 'o \<Rightarrow> bool result" where
  "verify ops dec tp node_id epoch s =
     (case op_get_versioned ops (reservation_key tp) s of
        Inr (bs, _) \<Rightarrow>
          (case decode dec bs of
             Inl e \<Rightarrow> Err e
           | Inr current \<Rightarrow> Ok (res_node_id current = node_id \<and> res_epoch current = epoch))
      | Inl (NotFound _) \<Rightarrow> Ok False
      | Inl e \<Rightarrow> Err e)"

section \<open>Acquiring, one request at a time\<close>

text \<open>
  Where an acquiring node is: about to read with some retries left, about to create, about to replace
  the version it read, or finished.
\<close>

datatype acq_state =
    Reading nat
  | Creating nat
  | Bumping nat reservation object_version
  | Finished "acquire_outcome result"

fun acq_step ::
  "'o object_ops \<Rightarrow> (reservation \<Rightarrow> bytes) \<Rightarrow> (bytes \<Rightarrow> reservation option) \<Rightarrow> string \<Rightarrow> string \<Rightarrow> nat \<Rightarrow>
   acq_state \<Rightarrow> 'o \<Rightarrow> acq_state \<times> 'o" where
  "acq_step ops enc dec key node_id epoch (Reading 0) s = (Finished (churning ops dec key epoch s), s)"
| "acq_step ops enc dec key node_id epoch (Reading (Suc n)) s =
     (case op_get_versioned ops key s of
        Inl (NotFound _) \<Rightarrow> (Creating n, s)
      | Inr (bs, version) \<Rightarrow>
          (case decode dec bs of
             Inl e \<Rightarrow> (Finished (Err e), s)
           | Inr current \<Rightarrow>
               if res_epoch current > epoch \<or> (res_epoch current = epoch \<and> res_node_id current \<noteq> node_id)
               then (Finished (Ok (Fenced (res_epoch current))), s)
               else if res_epoch current = epoch \<and> res_node_id current = node_id then (Finished (Ok Owned), s)
               else (Bumping n current version, s))
      | Inl e \<Rightarrow> (Finished (Err e), s))"
| "acq_step ops enc dec key node_id epoch (Creating n) s =
     (case op_put_if ops key (encode enc node_id epoch 0) Create s of
        (Inl e, s') \<Rightarrow> (Finished (Err e), s')
      | (Inr (Written _), s') \<Rightarrow> (Finished (Ok Owned), s')
      | (Inr PreconditionFailed, s') \<Rightarrow> (Reading n, s'))"
| "acq_step ops enc dec key node_id epoch (Bumping n current version) s =
     (case op_put_if ops key (encode enc node_id epoch (res_failover current + 1)) (Match version) s of
        (Inl e, s') \<Rightarrow> (Finished (Err e), s')
      | (Inr (Written _), s') \<Rightarrow> (Finished (Ok Owned), s')
      | (Inr PreconditionFailed, s') \<Rightarrow> (Reading n, s'))"
| "acq_step ops enc dec key node_id epoch (Finished r) s = (Finished r, s)"

primrec acq_run ::
  "'o object_ops \<Rightarrow> (reservation \<Rightarrow> bytes) \<Rightarrow> (bytes \<Rightarrow> reservation option) \<Rightarrow> string \<Rightarrow> string \<Rightarrow> nat \<Rightarrow>
   nat \<Rightarrow> acq_state \<times> 'o \<Rightarrow> acq_state \<times> 'o" where
  "acq_run ops enc dec key node_id epoch 0 cs = cs"
| "acq_run ops enc dec key node_id epoch (Suc k) cs =
     acq_run ops enc dec key node_id epoch k (acq_step ops enc dec key node_id epoch (fst cs) (snd cs))"

lemma acq_run_Finished [simp]: "acq_run ops enc dec key node e k (Finished r, s) = (Finished r, s)"
  by (induction k) simp_all

text \<open>The machine run alone, for twice the retries and one more step, is the loop of the source.\<close>

lemma acq_run_loop:
  "acq_run ops enc dec key node e (2 * n + 1) (Reading n, s) =
     (Finished (fst (acquire_loop ops enc dec key node e n s)), snd (acquire_loop ops enc dec key node e n s))"
proof (induction n arbitrary: s)
  case (Suc n)
  let ?run = "acq_run ops enc dec key node e"
  show ?case
  proof (cases "op_get_versioned ops key s")
    case (Inl err)
    then show ?thesis using Suc
      by (cases err) (simp_all split: sum.splits prod.splits put_outcome.splits)
  next
    case (Inr v)
    then show ?thesis using Suc
      by (cases v) (auto split: sum.splits prod.splits put_outcome.splits)
  qed
qed simp

section \<open>Nodes competing for a reservation\<close>

text \<open>
  Any number of acquisitions (node and epoch taken from \<open>Q\<close>) run on one reservation object, one
  request at a time in any order. \<open>fx_log\<close> is a history variable: the node and epoch of every
  conditional write that went through.
\<close>

record 'o fencing =
  fx_store :: 'o
  fx_procs :: "nat \<Rightarrow> (string \<times> nat \<times> acq_state) option"
  fx_log :: "(string \<times> nat) list"

fun is_write :: "acq_state \<Rightarrow> acq_state \<Rightarrow> bool" where
  "is_write (Creating n) pc' = (pc' = Finished (Ok Owned))"
| "is_write (Bumping n cur v) pc' = (pc' = Finished (Ok Owned))"
| "is_write _ _ = False"

inductive fencing_step ::
  "'o object_ops \<Rightarrow> (reservation \<Rightarrow> bytes) \<Rightarrow> (bytes \<Rightarrow> reservation option) \<Rightarrow> string \<Rightarrow> (string \<times> nat) set \<Rightarrow>
   'o fencing \<Rightarrow> 'o fencing \<Rightarrow> bool" for ops enc dec key Q where
  begin_acquire: "(node, epoch) \<in> Q \<Longrightarrow> fx_procs st i = None \<Longrightarrow>
     fencing_step ops enc dec key Q st
       (st\<lparr>fx_procs := (fx_procs st)(i \<mapsto> (node, epoch, Reading MAX_CAS_RETRIES))\<rparr>)"
| request: "fx_procs st i = Some (node, epoch, pc) \<Longrightarrow>
     acq_step ops enc dec key node epoch pc (fx_store st) = (pc', s') \<Longrightarrow>
     fencing_step ops enc dec key Q st
       (st\<lparr>fx_store := s', fx_procs := (fx_procs st)(i \<mapsto> (node, epoch, pc')),
           fx_log := fx_log st @ (if is_write pc pc' then [(node, epoch)] else [])\<rparr>)"

text \<open>The step of process \<open>i\<close> as a function, and the start of one.\<close>

definition fencing_move ::
  "'o object_ops \<Rightarrow> (reservation \<Rightarrow> bytes) \<Rightarrow> (bytes \<Rightarrow> reservation option) \<Rightarrow> string \<Rightarrow> nat \<Rightarrow> 'o fencing \<Rightarrow> 'o fencing" where
  "fencing_move ops enc dec key i st =
     (case fx_procs st i of
        None \<Rightarrow> st
      | Some (node, epoch, pc) \<Rightarrow>
          (let (pc', s') = acq_step ops enc dec key node epoch pc (fx_store st) in
           st\<lparr>fx_store := s', fx_procs := (fx_procs st)(i \<mapsto> (node, epoch, pc')),
              fx_log := fx_log st @ (if is_write pc pc' then [(node, epoch)] else [])\<rparr>))"

definition fencing_begin :: "nat \<Rightarrow> string \<Rightarrow> nat \<Rightarrow> 'o fencing \<Rightarrow> 'o fencing" where
  "fencing_begin i node epoch st =
     (if fx_procs st i = None
      then st\<lparr>fx_procs := (fx_procs st)(i \<mapsto> (node, epoch, Reading MAX_CAS_RETRIES))\<rparr> else st)"

lemma fencing_move_steps: "(fencing_step ops enc dec key Q)\<^sup>*\<^sup>* st (fencing_move ops enc dec key i st)"
proof (cases "fx_procs st i")
  case (Some p)
  obtain node epoch pc where p: "p = (node, epoch, pc)" by (cases p)
  obtain pc' s' where "acq_step ops enc dec key node epoch pc (fx_store st) = (pc', s')" by fastforce
  with fencing_step.request [OF Some [unfolded p] this, of Q] show ?thesis
    using Some p by (simp add: fencing_move_def)
qed (simp add: fencing_move_def)

lemma fencing_begin_steps:
  "(node, epoch) \<in> Q \<Longrightarrow> (fencing_step ops enc dec key Q)\<^sup>*\<^sup>* st (fencing_begin i node epoch st)"
  using fencing_step.begin_acquire [of node epoch Q st i ops enc dec key] by (auto simp: fencing_begin_def)

definition fencing_init :: "'o \<Rightarrow> 'o fencing" where
  "fencing_init s = \<lparr>fx_store = s, fx_procs = Map.empty, fx_log = []\<rparr>"

definition fencing_reach ::
  "'o object_ops \<Rightarrow> (reservation \<Rightarrow> bytes) \<Rightarrow> (bytes \<Rightarrow> reservation option) \<Rightarrow> string \<Rightarrow> (string \<times> nat) set \<Rightarrow>
   'o \<Rightarrow> 'o fencing \<Rightarrow> bool" where
  "fencing_reach ops enc dec key Q s0 = (fencing_step ops enc dec key Q)\<^sup>*\<^sup>* (fencing_init s0)"

definition res_of :: "string \<times> nat \<Rightarrow> nat \<Rightarrow> reservation" where
  "res_of ne failover =
     \<lparr>res_magic = RESERVATION_MAGIC, res_node_id = fst ne, res_epoch = snd ne, res_failover = failover\<rparr>"

definition res_set :: "(string \<times> nat) set \<Rightarrow> reservation set" where
  "res_set Q = {res_of ne f | ne f. ne \<in> Q \<and> f < card (snd ` Q)}"

text \<open>
  What the protocol needs of the encoding and of the store's version tags: reservations decode to
  themselves, and the tags of different reservations differ (for the finitely many reservations that
  can occur).
\<close>

definition tags_ok ::
  "(bytes \<Rightarrow> object_version) \<Rightarrow> (reservation \<Rightarrow> bytes) \<Rightarrow> (bytes \<Rightarrow> reservation option) \<Rightarrow> (string \<times> nat) set \<Rightarrow> bool" where
  "tags_ok tag enc dec Q \<longleftrightarrow> finite Q \<and> (\<forall>r \<in> res_set Q. dec (enc r) = Some r) \<and> inj_on (\<lambda>r. tag (enc r)) (res_set Q)"

definition proc_ok ::
  "(bytes \<Rightarrow> object_version) \<Rightarrow> (reservation \<Rightarrow> bytes) \<Rightarrow> (string \<times> nat) set \<Rightarrow> (string \<times> nat) list \<Rightarrow>
   string \<times> nat \<times> acq_state \<Rightarrow> bool" where
  "proc_ok tag enc Q log = (\<lambda>(node, epoch, pc). (node, epoch) \<in> Q \<and>
     (case pc of
        Finished r \<Rightarrow> r = Ok Owned \<longrightarrow> (node, epoch) \<in> set log
      | Bumping n cur v \<Rightarrow> cur \<in> res_set Q \<and> v = tag (enc cur) \<and> res_epoch cur < epoch
      | _ \<Rightarrow> True))"

definition stored_ok :: "(reservation \<Rightarrow> bytes) \<Rightarrow> bytes option \<Rightarrow> (string \<times> nat) list \<Rightarrow> bool" where
  "stored_ok enc obj log \<longleftrightarrow>
     (if log = [] then obj = None else obj = Some (enc (res_of (last log) (length log - 1))))"

definition fencing_inv ::
  "('o \<Rightarrow> string \<rightharpoonup> bytes) \<Rightarrow> (bytes \<Rightarrow> object_version) \<Rightarrow> (reservation \<Rightarrow> bytes) \<Rightarrow> string \<Rightarrow> (string \<times> nat) set \<Rightarrow>
   'o fencing \<Rightarrow> bool" where
  "fencing_inv contents tag enc key Q st \<longleftrightarrow>
     stored_ok enc (contents (fx_store st) key) (fx_log st) \<and>
     sorted_wrt (<) (map snd (fx_log st)) \<and> set (fx_log st) \<subseteq> Q \<and>
     (\<forall>p \<in> ran (fx_procs st). proc_ok tag enc Q (fx_log st) p)"

lemma log_length:
  fixes log :: "(string \<times> nat) list"
  assumes "finite Q" and "sorted_wrt (<) (map snd log)" and "set log \<subseteq> Q"
  shows "length log \<le> card (snd ` Q)"
proof -
  have "distinct (map snd log)" using assms(2) strict_sorted_iff by blast
  then have "length log = card (set (map snd log))" using distinct_card [of "map snd log"] by simp
  also have "\<dots> \<le> card (snd ` Q)" using assms(1,3) by (intro card_mono) auto
  finally show ?thesis .
qed

lemma stored_res:
  assumes "finite Q" and "sorted_wrt (<) (map snd log)" and "set log \<subseteq> Q" and "log \<noteq> []"
  shows "res_of (last log) (length log - 1) \<in> res_set Q"
proof -
  have "length log - 1 < card (snd ` Q)" using log_length [OF assms(1-3)] assms(4) by (cases log) auto
  moreover have "last log \<in> Q" using assms(3,4) by auto
  ultimately show ?thesis unfolding res_set_def by blast
qed

lemma ran_upd: "ran (m(i \<mapsto> x)) \<subseteq> insert x (ran m)"
  by (auto simp: ran_def)

lemma proc_ok_mono: "proc_ok tag enc Q log p \<Longrightarrow> set log \<subseteq> set log' \<Longrightarrow> proc_ok tag enc Q log' p"
  by (auto simp: proc_ok_def split: acq_state.splits)

lemma last_log_max:
  fixes log :: "(string \<times> nat) list"
  assumes "sorted_wrt (<) (map snd log)" and "x \<in> set log"
  shows "snd x \<le> snd (last log)"
proof (cases log rule: rev_cases)
  case (snoc ys y)
  then show ?thesis using assms by (auto simp: sorted_wrt_append)
qed (use assms in simp)

lemma log_unique:
  fixes log :: "(string \<times> nat) list"
  assumes "sorted_wrt (<) (map snd log)" and "(n, e) \<in> set log" and "(m, e) \<in> set log"
  shows "n = m"
proof -
  have "distinct (map snd log)" using assms(1) strict_sorted_iff by blast
  then have "inj_on snd (set log)" by (simp add: distinct_map)
  from inj_onD [OF this _ assms(2,3)] show ?thesis by simp
qed

context object_store
begin

lemma fencing_init_inv: "contents s key = None \<Longrightarrow> fencing_inv contents tag_of enc key Q (fencing_init s)"
  by (simp add: fencing_inv_def fencing_init_def stored_ok_def)

lemma read_stored:
  assumes "plain key" and "tags_ok tag_of enc dec Q" and "fencing_inv contents tag_of enc key Q st" and "fx_log st \<noteq> []"
  defines "r \<equiv> res_of (last (fx_log st)) (length (fx_log st) - 1)"
  shows "op_get_versioned ops key (fx_store st) = Ok (enc r, tag_of (enc r))" and "decode dec (enc r) = Ok r"
    and "r \<in> res_set Q"
proof -
  show r: "r \<in> res_set Q" unfolding r_def
    using assms by (intro stored_res) (auto simp: fencing_inv_def tags_ok_def)
  have "contents (fx_store st) key = Some (enc r)"
    using assms(3,4) by (simp add: fencing_inv_def stored_ok_def r_def)
  then show "op_get_versioned ops key (fx_store st) = Ok (enc r, tag_of (enc r))"
    using get_versioned_contents [OF assms(1), of "fx_store st"] by simp
  show "decode dec (enc r) = Ok r"
    using r assms(2) by (simp add: decode_def tags_ok_def r_def res_of_def)
qed

lemma read_absent:
  assumes "plain key" and "fencing_inv contents tag_of enc key Q st" and "fx_log st = []"
  shows "\<exists>m. op_get_versioned ops key (fx_store st) = Err (NotFound m)"
  using get_versioned_contents [OF assms(1), of "fx_store st"] assms(2,3) by (simp add: fencing_inv_def stored_ok_def)

text \<open>A read changes nothing and leaves the reader in a good state.\<close>

lemma reading_ok:
  assumes "plain key" and "tags_ok tag_of enc dec Q" and "fencing_inv contents tag_of enc key Q st"
    and "(node, epoch) \<in> Q" and "acq_step ops enc dec key node epoch (Reading n) (fx_store st) = (pc', s')"
  shows "s' = fx_store st" and "proc_ok tag_of enc Q (fx_log st) (node, epoch, pc')"
proof -
  have "s' = fx_store st \<and> proc_ok tag_of enc Q (fx_log st) (node, epoch, pc')"
  proof (cases n)
    case 0
    then show ?thesis using assms(4,5) by (auto simp: proc_ok_def churning_def)
  next
    case (Suc k)
    show ?thesis
    proof (cases "fx_log st = []")
      case True
      obtain m where "op_get_versioned ops key (fx_store st) = Err (NotFound m)"
        using read_absent [OF assms(1,3) True] ..
      with assms(4,5) Suc show ?thesis by (auto simp: proc_ok_def)
    next
      case False
      define r where "r = res_of (last (fx_log st)) (length (fx_log st) - 1)"
      note rd = read_stored [OF assms(1,2,3) False, folded r_def]
      have r: "res_node_id r = fst (last (fx_log st))" "res_epoch r = snd (last (fx_log st))"
        by (simp_all add: r_def res_of_def)
      have "last (fx_log st) \<in> set (fx_log st)" using False by simp
      then have mem: "(res_node_id r, res_epoch r) \<in> set (fx_log st)" using r by simp
      show ?thesis using assms(4,5) Suc rd mem
        by (auto simp: proc_ok_def split: if_splits)
    qed
  qed
  then show "s' = fx_store st" "proc_ok tag_of enc Q (fx_log st) (node, epoch, pc')" by simp_all
qed

lemma create_ok:
  assumes "plain key" and "fencing_inv contents tag_of enc key Q st"
    and "acq_step ops enc dec key node epoch (Creating n) (fx_store st) = (pc', s')"
  shows "(pc' = Finished (Ok Owned) \<and> fx_log st = [] \<and> contents s' key = Some (enc (res_of (node, epoch) 0))) \<or>
         (pc' = Reading n \<and> contents s' key = contents (fx_store st) key)"
proof -
  obtain s1 where s1: "op_put_if ops key (encode enc node epoch 0) Create (fx_store st) =
      (Ok (if contents (fx_store st) key = None then Written (tag_of (encode enc node epoch 0)) else PreconditionFailed), s1)"
    "contents s1 key = (if contents (fx_store st) key = None then (contents (fx_store st))(key \<mapsto> encode enc node epoch 0)
       else contents (fx_store st)) key"
    using put_if_create [OF assms(1), of "encode enc node epoch 0" "fx_store st"] assms(1) by blast
  show ?thesis
  proof (cases "contents (fx_store st) key = None")
    case True
    then have "fx_log st = []" using assms(2) by (auto simp: fencing_inv_def stored_ok_def split: if_splits)
    with True s1 assms(3) show ?thesis by (auto simp: encode_def res_of_def)
  next
    case False
    with s1 assms(3) show ?thesis by auto
  qed
qed

lemma bump_ok:
  assumes "plain key" and "tags_ok tag_of enc dec Q" and "fencing_inv contents tag_of enc key Q st"
    and "proc_ok tag_of enc Q (fx_log st) (node, epoch, Bumping n cur v)"
    and "acq_step ops enc dec key node epoch (Bumping n cur v) (fx_store st) = (pc', s')"
  shows "(pc' = Finished (Ok Owned) \<and> fx_log st \<noteq> [] \<and> snd (last (fx_log st)) < epoch \<and>
            contents s' key = Some (enc (res_of (node, epoch) (length (fx_log st))))) \<or>
         (pc' = Reading n \<and> contents s' key = contents (fx_store st) key)"
proof -
  let ?body = "encode enc node epoch (res_failover cur + 1)"
  define ok where "ok = (\<exists>d'. contents (fx_store st) key = Some d' \<and> tag_of d' = tag_of (enc cur))"
  have cur: "cur \<in> res_set Q" "v = tag_of (enc cur)" "res_epoch cur < epoch" using assms(4) by (simp_all add: proc_ok_def)
  obtain s1 where s1: "op_put_if ops key ?body (Match v) (fx_store st) =
      (Ok (if ok then Written (tag_of ?body) else PreconditionFailed), s1)"
    "contents s1 key = (if ok then (contents (fx_store st))(key \<mapsto> ?body) else contents (fx_store st)) key"
    using put_if_match [OF assms(1), of "fx_store st" "enc cur" ?body] assms(1) unfolding Let_def ok_def [symmetric] cur(2)
    by blast
  show ?thesis
  proof (cases ok)
    case False
    with s1 assms(5) show ?thesis by auto
  next
    case True
    define r where "r = res_of (last (fx_log st)) (length (fx_log st) - 1)"
    from True have ne: "fx_log st \<noteq> []" using assms(3) by (auto simp: ok_def fencing_inv_def stored_ok_def)
    then have "contents (fx_store st) key = Some (enc r)"
      using assms(3) by (simp add: fencing_inv_def stored_ok_def r_def)
    with True have "tag_of (enc r) = tag_of (enc cur)" by (simp add: ok_def)
    moreover have "r \<in> res_set Q" using read_stored(3) [OF assms(1-3) ne] by (simp add: r_def)
    ultimately have "r = cur" using assms(2) cur(1) by (auto simp: tags_ok_def dest: inj_onD)
    then have "res_failover cur + 1 = length (fx_log st)" "snd (last (fx_log st)) < epoch"
      using cur(3) ne by (auto simp: r_def res_of_def)
    with True s1 assms(5) ne show ?thesis by (auto simp: encode_def res_of_def)
  qed
qed

lemma fencing_step_inv:
  assumes "plain key" and "tags_ok tag_of enc dec Q" and "fencing_inv contents tag_of enc key Q st"
    and "fencing_step ops enc dec key Q st st'"
  shows "fencing_inv contents tag_of enc key Q st' \<and> (\<exists>new. fx_log st' = fx_log st @ new)"
  using assms(4)
proof cases
  case (begin_acquire node epoch i)
  then have "proc_ok tag_of enc Q (fx_log st) (node, epoch, Reading MAX_CAS_RETRIES)" by (simp add: proc_ok_def)
  moreover have "ran (fx_procs st') \<subseteq> insert (node, epoch, Reading MAX_CAS_RETRIES) (ran (fx_procs st))"
    using begin_acquire(1) ran_upd by simp
  ultimately have "\<forall>p \<in> ran (fx_procs st'). proc_ok tag_of enc Q (fx_log st) p"
    using assms(3) unfolding fencing_inv_def by blast
  then show ?thesis using assms(3) begin_acquire(1) by (simp add: fencing_inv_def)
next
  case (request i node epoch pc pc' s')
  have p: "proc_ok tag_of enc Q (fx_log st) (node, epoch, pc)"
    using assms(3) ranI [of "fx_procs st" i "(node, epoch, pc)"] request(2) by (simp add: fencing_inv_def)
  then have q: "(node, epoch) \<in> Q" by (simp add: proc_ok_def)
  have keep: "fencing_inv contents tag_of enc key Q st' \<and> (\<exists>new. fx_log st' = fx_log st @ new)"
    if "\<not> is_write pc pc'" "contents s' key = contents (fx_store st) key" "proc_ok tag_of enc Q (fx_log st) (node, epoch, pc')"
  proof -
    have "\<forall>p \<in> ran ((fx_procs st)(i \<mapsto> (node, epoch, pc'))). proc_ok tag_of enc Q (fx_log st) p"
      using assms(3) that(3) ran_upd [of "fx_procs st" i "(node, epoch, pc')"] unfolding fencing_inv_def by blast
    with that(1,2) assms(3) request(1) show ?thesis by (simp add: fencing_inv_def)
  qed
  have grow: "fencing_inv contents tag_of enc key Q st' \<and> (\<exists>new. fx_log st' = fx_log st @ new)"
    if "is_write pc pc'" "pc' = Finished (Ok Owned)" "contents s' key = Some (enc (res_of (node, epoch) (length (fx_log st))))"
      "\<forall>x \<in> set (fx_log st). snd x < epoch"
  proof -
    have "proc_ok tag_of enc Q (fx_log st @ [(node, epoch)]) x" if "x \<in> ran ((fx_procs st)(i \<mapsto> (node, epoch, pc')))" for x
    proof (cases "x = (node, epoch, pc')")
      case True
      with \<open>pc' = Finished (Ok Owned)\<close> q show ?thesis by (simp add: proc_ok_def)
    next
      case False
      with that have "x \<in> ran (fx_procs st)" by (auto simp: ran_def split: if_splits)
      then have "proc_ok tag_of enc Q (fx_log st) x" using assms(3) by (simp add: fencing_inv_def)
      then show ?thesis by (rule proc_ok_mono) auto
    qed
    with that assms(3) request(1) q show ?thesis
      by (simp add: fencing_inv_def stored_ok_def sorted_wrt_append)
  qed
  show ?thesis
  proof (cases pc)
    case (Reading n)
    with reading_ok [OF assms(1-3) q] request(3) show ?thesis by (intro keep) auto
  next
    case (Creating n)
    with create_ok [OF assms(1,3)] request(3) grow keep q show ?thesis by (fastforce simp: proc_ok_def)
  next
    case (Bumping n cur v)
    have mx: "\<forall>x \<in> set (fx_log st). snd x \<le> snd (last (fx_log st))"
      using assms(3) last_log_max by (auto simp: fencing_inv_def)
    have "(pc' = Finished (Ok Owned) \<and> fx_log st \<noteq> [] \<and> snd (last (fx_log st)) < epoch \<and>
            contents s' key = Some (enc (res_of (node, epoch) (length (fx_log st))))) \<or>
         (pc' = Reading n \<and> contents s' key = contents (fx_store st) key)"
      using bump_ok [OF assms(1-3)] p request(3) unfolding Bumping by blast
    then show ?thesis
    proof
      assume w: "pc' = Finished (Ok Owned) \<and> fx_log st \<noteq> [] \<and> snd (last (fx_log st)) < epoch \<and>
            contents s' key = Some (enc (res_of (node, epoch) (length (fx_log st))))"
      then have "\<forall>x \<in> set (fx_log st). snd x < epoch" using mx by (auto intro: le_less_trans)
      with w Bumping show ?thesis by (intro grow) simp_all
    next
      assume "pc' = Reading n \<and> contents s' key = contents (fx_store st) key"
      with Bumping q show ?thesis by (intro keep) (simp_all add: proc_ok_def)
    qed
  next
    case (Finished r)
    with request(3) p show ?thesis by (intro keep) auto
  qed
qed

lemma fencing_steps_inv:
  assumes "plain key" and "tags_ok tag_of enc dec Q" and "fencing_inv contents tag_of enc key Q st"
    and "(fencing_step ops enc dec key Q)\<^sup>*\<^sup>* st st'"
  shows "fencing_inv contents tag_of enc key Q st' \<and> (\<exists>new. fx_log st' = fx_log st @ new)"
  using assms(4)
proof induction
  case base
  then show ?case using assms(3) by simp
next
  case (step y z)
  then show ?case using fencing_step_inv [OF assms(1,2)] by fastforce
qed

end

section \<open>Properties\<close>

lemma plain_reservation_key:
  assumes t: "plain_topic (tp_topic tp)"
  shows "plain_key (reservation_key tp)"
proof -
  let ?k = "reservation_key tp"
  have k: "?k = ''topics'' @ CHR ''/'' # tp_topic tp @ CHR ''/'' # show_nat (tp_partition tp) @ CHR ''/'' # ''_epoch''"
    by (simp add: reservation_key_def)
  have slash: "CHR ''/'' \<notin> set (show_nat n)" "show_nat n \<noteq> ''.''" for n
    using not_in_show_nat [of "CHR ''.''" n] not_in_show_nat [of "CHR ''/''" n] by (auto simp: is_digit_def)
  have "list_all key_char ?k"
    using t show_nat_key_chars by (simp add: reservation_key_def plain_topic_def) (simp add: key_char_def less_eq_char_def)
  moreover have "\<not> sublist ''..'' ?k"
    using t by (simp add: k sublist_pair_sep no_dots_show_nat plain_topic_def sublist_Cons_right)
  moreover have "\<not> prefix ''/'' ?k" "?k \<noteq> []" by (simp_all add: k)
  ultimately have "key_to_path ?k = Ok ?k" by (rule key_to_path_plain)
  moreover have "split_on (CHR ''/'') ?k = [''topics'', tp_topic tp, show_nat (tp_partition tp), ''_epoch'']"
    using t slash by (simp add: k split_on_sep split_on_none plain_topic_def)
  ultimately show ?thesis using t slash by (simp add: plain_key_def plain_topic_def)
qed

text \<open>
  The step machine is the source's loop. For every object store (whatever its requests return),
  running the machine alone from its start for seven requests finishes, with exactly the result and
  the store that \<open>acquire\<close> computes; so \<open>acquire\<close> makes at most seven requests.
\<close>

theorem acquire_machine_equivalent:
  "acq_run ops enc dec (reservation_key tp) node epoch 7 (Reading MAX_CAS_RETRIES, s) =
     (Finished (fst (acquire ops enc dec tp node epoch s)), snd (acquire ops enc dec tp node epoch s))"
  using acq_run_loop [of ops enc dec "reservation_key tp" node epoch MAX_CAS_RETRIES s]
  by (simp add: acquire_def)

text \<open>The node that holds a reservation at an epoch, by the outcome it was given.\<close>

definition owns :: "'o fencing \<Rightarrow> nat \<Rightarrow> string \<Rightarrow> nat \<Rightarrow> bool" where
  "owns st i node epoch \<longleftrightarrow> fx_procs st i = Some (node, epoch, Finished (Ok Owned))"

text \<open>
  C8. Split-brain fencing. However the requests of competing nodes interleave on the reservation
  object, two nodes are never both told that they own a partition at the same epoch. If at some moment
  a node that was told so no longer passes \<open>verify\<close> (a newer leader took over), it never passes it
  again, at any later moment.
\<close>

theorem reservation_fences:
  assumes "tags_ok (local_etag crc) enc dec Q" and "plain_topic (tp_topic tp)" and "fs0 (reservation_key tp) = None"
    and "fencing_reach (local_ops crc) enc dec (reservation_key tp) Q fs0 st"
    and "(fencing_step (local_ops crc) enc dec (reservation_key tp) Q)\<^sup>*\<^sup>* st st'"
  shows "(owns st i n e \<and> owns st j m e \<longrightarrow> n = m) \<and>
         (owns st i n e \<and> verify (local_ops crc) dec tp n e (fx_store st) \<noteq> Ok True \<longrightarrow>
            verify (local_ops crc) dec tp n e (fx_store st') = Ok False)"
proof -
  let ?key = "reservation_key tp" and ?inv = "fencing_inv (\<lambda>fs. fs) (local_etag crc) enc (reservation_key tp) Q"
  note plain = plain_reservation_key [OF assms(2)]
  note inv0 = local_store.fencing_init_inv [where s = fs0 and key = ?key and enc = enc and Q = Q and crc = crc, OF assms(3)]
  have inv: "?inv st"
    using local_store.fencing_steps_inv [OF plain assms(1) inv0] assms(4) by (simp add: fencing_reach_def)
  then obtain new where inv': "?inv st'" and log': "fx_log st' = fx_log st @ new"
    using local_store.fencing_steps_inv [OF plain assms(1) inv assms(5)] by blast
  have sorted: "sorted_wrt (<) (map snd (fx_log st))" "sorted_wrt (<) (map snd (fx_log st'))"
    using inv inv' by (simp_all add: fencing_inv_def)
  have logged: "(n, e) \<in> set (fx_log st)" if "owns st i n e" for i n e
    using that inv by (force simp: owns_def fencing_inv_def proc_ok_def ran_def)
  have ver: "verify (local_ops crc) dec tp n e (fx_store st1) = Ok (last (fx_log st1) = (n, e))"
    if "?inv st1" "fx_log st1 \<noteq> []" for st1 n e
    using local_store.read_stored(1,2) [OF plain assms(1) that]
    by (auto simp: verify_def res_of_def prod_eq_iff)
  have "n = m" if "owns st i n e" "owns st j m e"
    using log_unique [OF sorted(1) logged [OF that(1)] logged [OF that(2)]] .
  moreover have "verify (local_ops crc) dec tp n e (fx_store st') = Ok False"
    if own: "owns st i n e" and lost: "verify (local_ops crc) dec tp n e (fx_store st) \<noteq> Ok True"
  proof -
    have mem: "(n, e) \<in> set (fx_log st)" by (rule logged [OF own])
    then have ne: "fx_log st \<noteq> []" "fx_log st' \<noteq> []" using log' by auto
    from lost have nl: "last (fx_log st) \<noteq> (n, e)" by (simp add: ver [OF inv ne(1)])
    have "last (fx_log st') \<noteq> (n, e)"
    proof (cases "new = []")
      case False
      have "snd (n, e) < snd (last new)"
        using sorted(2) mem False unfolding log' by (auto simp: sorted_wrt_append)
      then show ?thesis using False by (auto simp: log')
    qed (use nl log' in simp)
    then show ?thesis by (simp add: ver [OF inv' ne(2)])
  qed
  ultimately show ?thesis by blast
qed

lemma sample_topic: "plain_topic ''t''"
  by (simp add: plain_topic_def key_char_def less_eq_char_def sublist_Cons_right)

definition sample_enc :: "reservation \<Rightarrow> bytes" where
  "sample_enc r = [of_nat (res_epoch r), of_nat (res_failover r)]"

definition sample_dec :: "bytes \<Rightarrow> reservation option" where
  "sample_dec bs = Some (res_of (if bs ! 0 = 5 then ''a'' else ''b'', unat (bs ! 0)) (unat (bs ! 1)))"

definition sample_crc :: "bytes \<Rightarrow> 32 word" where
  "sample_crc bs = of_nat (unat (bs ! 0) * 256 + unat (bs ! 1))"

definition sample_requests :: "(string \<times> nat) set" where
  "sample_requests = {(''a'', 5), (''b'', 6)}"

lemma sample_tags_ok: "tags_ok (local_etag sample_crc) sample_enc sample_dec sample_requests"
proof -
  have "snd ` sample_requests = {5, 6}" by (auto simp: sample_requests_def)
  then have R: "res_set sample_requests = {res_of (''a'', 5) 0, res_of (''a'', 5) 1, res_of (''b'', 6) 0, res_of (''b'', 6) 1}"
    by (auto simp: res_set_def sample_requests_def numeral_2_eq_2 less_Suc_eq)
  show ?thesis unfolding tags_ok_def R
    by (auto simp: inj_on_def local_etag_def hex8_inject sample_crc_def sample_enc_def sample_dec_def res_of_def
        sample_requests_def)
qed

abbreviation sample_move :: "nat \<Rightarrow> local_fs fencing \<Rightarrow> local_fs fencing" where
  "sample_move \<equiv> fencing_move (local_ops sample_crc) sample_enc sample_dec (reservation_key (TopicPartition ''t'' 0))"

definition sample_takeover :: "local_fs fencing" where
  "sample_takeover = sample_move 1 (sample_move 1 (fencing_begin 1 ''b'' 6
     (sample_move 0 (sample_move 0 (fencing_begin 0 ''a'' 5 (fencing_init Map.empty))))))"

lemma sample_takeover_reach:
  "fencing_reach (local_ops sample_crc) sample_enc sample_dec (reservation_key (TopicPartition ''t'' 0)) sample_requests
     Map.empty sample_takeover"
proof -
  have q: "(''a'', 5) \<in> sample_requests" "(''b'', 6) \<in> sample_requests" by (simp_all add: sample_requests_def)
  note steps = rtranclp_trans [OF _ fencing_move_steps] rtranclp_trans [OF _ fencing_begin_steps [OF q(1)]]
    rtranclp_trans [OF _ fencing_begin_steps [OF q(2)]]
  show ?thesis unfolding fencing_reach_def sample_takeover_def by (intro steps rtranclp.rtrancl_refl)
qed

theorem reservation_fences_witness:
  "owns sample_takeover 0 ''a'' 5 \<and> owns sample_takeover 1 ''b'' 6 \<and>
   verify (local_ops sample_crc) sample_dec (TopicPartition ''t'' 0) ''b'' 6 (fx_store sample_takeover) = Ok True \<and>
   verify (local_ops sample_crc) sample_dec (TopicPartition ''t'' 0) ''a'' 5 (fx_store sample_takeover) = Ok False"
proof -
  let ?tp = "TopicPartition ''t'' 0"
  have plain: "plain_key (reservation_key ?tp)" by (rule plain_reservation_key) (simp add: sample_topic)
  note run = sample_takeover_def fencing_move_def fencing_begin_def fencing_init_def local_ops_def local_get_versioned_def
    local_put_if_def plain_keyD [OF plain] plain_norm [OF plain] numeral_3_eq_3 encode_def decode_def sample_enc_def sample_dec_def res_of_def
  have own: "owns sample_takeover 0 ''a'' 5" "owns sample_takeover 1 ''b'' 6"
    by (simp_all add: owns_def run)
  have vb: "verify (local_ops sample_crc) sample_dec ?tp ''b'' 6 (fx_store sample_takeover) = Ok True"
    by (simp add: verify_def run)
  have lost: "verify (local_ops sample_crc) sample_dec ?tp ''a'' 5 (fx_store sample_takeover) \<noteq> Ok True"
    by (simp add: verify_def run)
  have "verify (local_ops sample_crc) sample_dec ?tp ''a'' 5 (fx_store sample_takeover) = Ok False"
    using reservation_fences [OF sample_tags_ok _ _ sample_takeover_reach rtranclp.rtrancl_refl] own(1) lost
    by (simp add: sample_topic)
  with own vb show ?thesis by simp
qed

end
