(* ===== verification/Segmented_Wal.thy ===== *)
theory Segmented_Wal
  imports RMQ_Types "HOL-Library.Sublist"
begin

text \<open>
  \<open>src/storage/wal/segmented.rs\<close>: the segmented write-ahead log, at the level of the bytes of its
  files. The directory is an association list from file names to contents; the fields of the file task
  (base, tail, active segment) and the directory are one record, and each command of the writer thread
  is one function on it. Disk errors and the choice of \<open>O_DIRECT\<close> are not modelled. \<open>ser\<close> and \<open>deser\<close>
  stand for \<open>bincode\<close>; clock readings are arguments.
\<close>

section \<open>Files\<close>

abbreviation (input) HEADER_SIZE :: nat where "HEADER_SIZE \<equiv> 4096"
abbreviation (input) BLOCK_SIZE :: nat where "BLOCK_SIZE \<equiv> 4096"
abbreviation (input) FRAME_LEN_PREFIX :: nat where "FRAME_LEN_PREFIX \<equiv> 8"
abbreviation (input) SEGMENT_MAGIC :: nat where "SEGMENT_MAGIC \<equiv> 1380798791"
abbreviation (input) SEGMENT_VERSION :: nat where "SEGMENT_VERSION \<equiv> 1"

record wal_config =
  wc_fsync_on_write :: bool
  wc_segment_size_bytes :: nat
  wc_upload_interval_ms :: nat

record seg_wal =
  sw_dir :: "(string \<times> bytes) list"
  sw_base :: nat
  sw_tail :: bytes
  sw_active_seq :: nat
  sw_active_size :: nat
  sw_active_start :: nat
  sw_needs_flush :: bool
  sw_total_appends :: nat

text \<open>\<open>segment_path\<close>, relative to the directory: the sequence number padded to 20 digits.\<close>

definition segment_path :: "nat \<Rightarrow> string" where
  "segment_path seq =
     ''wal-'' @ replicate (20 - length (show_nat seq)) (CHR ''0'') @ show_nat seq @ ''.log''"

definition strip_prefix :: "string \<Rightarrow> string \<Rightarrow> string option" where
  "strip_prefix p s = (if prefix p s then Some (drop (length p) s) else None)"

definition strip_suffix :: "string \<Rightarrow> string \<Rightarrow> string option" where
  "strip_suffix p s = (if suffix p s then Some (take (length s - length p) s) else None)"

definition parse_segment_seq :: "string \<Rightarrow> nat option" where
  "parse_segment_seq name =
     Option.bind (strip_prefix ''wal-'' name) (\<lambda>s. Option.bind (strip_suffix ''.log'' s) (parse_uint u64_max))"

definition build_header :: "nat \<Rightarrow> nat \<Rightarrow> bytes" where
  "build_header seq created_ms =
     le_bytes 4 SEGMENT_MAGIC @ le_bytes 2 SEGMENT_VERSION @ replicate 2 0 @ le_bytes 8 seq @ le_bytes 8 created_ms @
     replicate (HEADER_SIZE - 24) 0"

definition round_up_block :: "nat \<Rightarrow> nat" where
  "round_up_block n = (n + (BLOCK_SIZE - 1)) div BLOCK_SIZE * BLOCK_SIZE"

text \<open>\<open>pwrite\<close> of a file: overwrite from an offset, extending the file with zeros if it is shorter.\<close>

definition pwrite :: "nat \<Rightarrow> bytes \<Rightarrow> bytes \<Rightarrow> bytes" where
  "pwrite off data f = take off (f @ replicate (off - length f) 0) @ data @ drop (off + length data) f"

definition write_blocks :: "nat \<Rightarrow> bytes \<Rightarrow> bytes \<Rightarrow> bytes" where
  "write_blocks off data f = pwrite off (data @ replicate (round_up_block (length data) - length data) 0) f"

definition file_at :: "string \<Rightarrow> seg_wal \<Rightarrow> bytes" where
  "file_at name w = (case map_of (sw_dir w) name of Some f \<Rightarrow> f | None \<Rightarrow> [])"

definition open_new_segment :: "nat \<Rightarrow> nat \<Rightarrow> (string \<times> bytes) list \<Rightarrow> (string \<times> bytes) list" where
  "open_new_segment seq now dir = AList.update (segment_path seq) (write_blocks 0 (build_header seq now) []) dir"

definition scan_segment_seqs :: "(string \<times> bytes) list \<Rightarrow> nat list" where
  "scan_segment_seqs dir = sort (List.map_filter (\<lambda>(name, _). parse_segment_seq name) dir)"

text \<open>\<open>SegmentedWal::new\<close> on an existing directory: the old segments stay, a fresh one is active.\<close>

definition wal_new :: "nat \<Rightarrow> (string \<times> bytes) list \<Rightarrow> seg_wal" where
  "wal_new now dir =
     (let existing = scan_segment_seqs dir;
          active_seq_val = (if existing = [] then 0 else Max (set existing) + 1)
      in \<lparr>sw_dir = open_new_segment active_seq_val now dir, sw_base = HEADER_SIZE, sw_tail = [],
          sw_active_seq = active_seq_val, sw_active_size = 0, sw_active_start = now,
          sw_needs_flush = False, sw_total_appends = 0\<rparr>)"

section \<open>Walking the frames of a segment\<close>

function walk_loop :: "bytes \<Rightarrow> nat \<Rightarrow> (nat \<times> bytes) list \<Rightarrow> (nat \<times> bytes) list" where
  "walk_loop buf pos out =
     (if pos + FRAME_LEN_PREFIX \<le> length buf then
        (let body_len = of_le_bytes (take 8 (drop pos buf)) in
         if body_len = 0 then out
         else (let body_start = pos + 8; body_end = body_start + body_len in
               if body_end > length buf then out
               else walk_loop buf body_end (out @ [(body_start, take body_len (drop body_start buf))])))
      else out)"
  by pat_completeness auto
termination
  by (relation "measure (\<lambda>(buf, pos, out). length buf - pos)") auto

declare walk_loop.simps [simp del]

definition walk_frames :: "bytes \<Rightarrow> (nat \<times> bytes) list" where
  "walk_frames buf = walk_loop buf HEADER_SIZE []"

section \<open>The file task\<close>

definition put_active :: "bytes \<Rightarrow> seg_wal \<Rightarrow> seg_wal" where
  "put_active f w = w\<lparr>sw_dir := AList.update (segment_path (sw_active_seq w)) f (sw_dir w)\<rparr>"

definition active_file :: "seg_wal \<Rightarrow> bytes" where
  "active_file w = file_at (segment_path (sw_active_seq w)) w"

definition write_complete_blocks :: "seg_wal \<Rightarrow> seg_wal" where
  "write_complete_blocks w =
     (let full = length (sw_tail w) div BLOCK_SIZE * BLOCK_SIZE in
      if full = 0 then w
      else (put_active (write_blocks (sw_base w) (take full (sw_tail w)) (active_file w)) w)
             \<lparr>sw_base := sw_base w + full, sw_tail := drop full (sw_tail w), sw_needs_flush := True\<rparr>)"

definition wal_flush :: "seg_wal \<Rightarrow> seg_wal" where
  "wal_flush w =
     (let w' = (if sw_tail w \<noteq> [] then put_active (write_blocks (sw_base w) (sw_tail w) (active_file w)) w else w)
      in w'\<lparr>sw_needs_flush := False\<rparr>)"

definition handle_append :: "wal_config \<Rightarrow> bytes \<Rightarrow> seg_wal \<Rightarrow> physical_location \<times> seg_wal" where
  "handle_append cfg framed w =
     (let body_len = (length framed - FRAME_LEN_PREFIX) mod 2 ^ 32;
          body_offset = sw_base w + length (sw_tail w) + FRAME_LEN_PREFIX;
          w1 = write_complete_blocks (w\<lparr>sw_tail := sw_tail w @ framed\<rparr>);
          w2 = (if wc_fsync_on_write cfg then wal_flush w1 else w1\<lparr>sw_needs_flush := True\<rparr>)
      in (\<lparr>wal_segment_seq = sw_active_seq w2, file_offset = body_offset, frame_len = body_len\<rparr>,
          w2\<lparr>sw_active_size := sw_active_size w2 + length framed, sw_total_appends := sw_total_appends w2 + 1\<rparr>))"

definition handle_maybe_seal :: "wal_config \<Rightarrow> nat \<Rightarrow> bool \<Rightarrow> seg_wal \<Rightarrow> nat option \<times> seg_wal" where
  "handle_maybe_seal cfg now force w =
     (let has_data = sw_active_size w > 0;
          should_seal = has_data \<and> (force \<or> sw_active_size w \<ge> wc_segment_size_bytes cfg \<or>
                          now - sw_active_start w \<ge> wc_upload_interval_ms cfg)
      in if \<not> should_seal then (None, w)
         else (let w1 = wal_flush w; sealed_seq = sw_active_seq w1; next_seq = sealed_seq + 1
               in (Some sealed_seq,
                   w1\<lparr>sw_dir := open_new_segment next_seq now (sw_dir w1), sw_active_seq := next_seq,
                      sw_base := HEADER_SIZE, sw_tail := [], sw_active_size := 0, sw_active_start := now\<rparr>)))"

section \<open>The log interface\<close>

definition frame :: "(wal_record \<Rightarrow> bytes) \<Rightarrow> wal_record \<Rightarrow> bytes" where
  "frame ser r = (let body = ser r in le_bytes 8 (length body) @ body)"

definition wal_append :: "(wal_record \<Rightarrow> bytes) \<Rightarrow> wal_config \<Rightarrow> wal_record \<Rightarrow> seg_wal \<Rightarrow> physical_location \<times> seg_wal" where
  "wal_append ser cfg r w = handle_append cfg (frame ser r) w"

definition wal_sync :: "seg_wal \<Rightarrow> seg_wal" where
  "wal_sync w = wal_flush w"

definition wal_read_at :: "nat \<Rightarrow> nat \<Rightarrow> nat \<Rightarrow> seg_wal \<Rightarrow> bytes result \<times> seg_wal" where
  "wal_read_at seq off len w =
     (let w' = wal_sync w in
      (case map_of (sw_dir w') (segment_path seq) of
         None \<Rightarrow> Err (Io ''No such file or directory'')
       | Some f \<Rightarrow> if off + len \<le> length f then Ok (take len (drop off f)) else Err (Io ''unexpected end of file''),
       w'))"

definition sealed_segments :: "seg_wal \<Rightarrow> nat list" where
  "sealed_segments w = filter (\<lambda>s. s \<noteq> sw_active_seq w) (scan_segment_seqs (sw_dir w))"

fun decode_bodies ::
  "(bytes \<Rightarrow> wal_record option) \<Rightarrow> (nat \<times> bytes) list \<Rightarrow> (nat \<times> nat \<times> wal_record) list result" where
  "decode_bodies deser [] = Ok []"
| "decode_bodies deser ((off, body) # rest) =
     (case deser body of
        None \<Rightarrow> Err (Serialization ''bincode'')
      | Some r \<Rightarrow> (case decode_bodies deser rest of Inl e \<Rightarrow> Err e | Inr xs \<Rightarrow> Ok ((off, length body, r) # xs)))"

definition read_segment_records :: "(bytes \<Rightarrow> wal_record option) \<Rightarrow> nat \<Rightarrow> seg_wal \<Rightarrow> wal_record list result" where
  "read_segment_records deser seq w =
     (case map_of (sw_dir w) (segment_path seq) of
        None \<Rightarrow> Err (Io ''No such file or directory'')
      | Some buf \<Rightarrow> (case decode_bodies deser (walk_frames buf) of
                       Inl e \<Rightarrow> Err e
                     | Inr xs \<Rightarrow> Ok (map (\<lambda>(off, len, r). r) xs)))"

definition delete_segment :: "nat \<Rightarrow> seg_wal \<Rightarrow> seg_wal" where
  "delete_segment seq w = w\<lparr>sw_dir := AList.delete (segment_path seq) (sw_dir w)\<rparr>"

fun recover_loop ::
  "(bytes \<Rightarrow> wal_record option) \<Rightarrow> seg_wal \<Rightarrow> nat list \<Rightarrow> (wal_record \<times> physical_location) list result" where
  "recover_loop deser w [] = Ok []"
| "recover_loop deser w (seq # seqs) =
     (if seq = sw_active_seq w then recover_loop deser w seqs
      else (case map_of (sw_dir w) (segment_path seq) of
              None \<Rightarrow> Err (Io ''No such file or directory'')
            | Some buf \<Rightarrow>
                (case decode_bodies deser (walk_frames buf) of
                   Inl e \<Rightarrow> Err e
                 | Inr xs \<Rightarrow>
                     (case recover_loop deser w seqs of
                        Inl e \<Rightarrow> Err e
                      | Inr ys \<Rightarrow>
                          Ok (map (\<lambda>(off, len, r). (r, \<lparr>wal_segment_seq = seq, file_offset = off,
                                                         frame_len = len mod 2 ^ 32\<rparr>)) xs @ ys)))))"

definition recover :: "(bytes \<Rightarrow> wal_record option) \<Rightarrow> seg_wal \<Rightarrow> (wal_record \<times> physical_location) list result" where
  "recover deser w = recover_loop deser w (scan_segment_seqs (sw_dir w))"

definition get_end_offset :: "seg_wal \<Rightarrow> nat" where
  "get_end_offset w = sw_total_appends w"

text \<open>The commands of the writer thread (\<open>FileTask::run\<close>), without their replies.\<close>

datatype wal_command =
    CmdAppend bytes
  | CmdSync
  | CmdMaybeSeal bool nat
  | CmdFlushTick
  | CmdShutdown

fun run_command :: "wal_config \<Rightarrow> wal_command \<Rightarrow> seg_wal \<Rightarrow> seg_wal" where
  "run_command cfg (CmdAppend framed) w = snd (handle_append cfg framed w)"
| "run_command cfg CmdSync w = wal_flush w"
| "run_command cfg (CmdMaybeSeal force now) w = snd (handle_maybe_seal cfg now force w)"
| "run_command cfg CmdFlushTick w = (if sw_needs_flush w then wal_flush w else w)"
| "run_command cfg CmdShutdown w = (if sw_needs_flush w then wal_flush w else w)"

section \<open>File names\<close>

lemma parse_digits_zeros: "parse_digits mx 0 (replicate k (CHR ''0'') @ s) = parse_digits mx 0 s"
  by (induction k) simp_all

lemma parse_padded:
  assumes "n \<le> mx"
  shows "parse_uint mx (replicate k (CHR ''0'') @ show_nat n) = Some n"
proof (cases k)
  case (Suc j)
  have "parse_digits mx 0 (replicate k (CHR ''0'') @ show_nat n) = Some n"
    by (simp only: parse_digits_zeros parse_digits_show_nat [OF assms])
  with Suc show ?thesis by (simp add: parse_uint_def)
qed (use assms in simp)

lemma strip_segment_path:
  "Option.bind (strip_prefix ''wal-'' (segment_path seq)) (strip_suffix ''.log'') =
     Some (replicate (20 - length (show_nat seq)) (CHR ''0'') @ show_nat seq)"
proof -
  let ?d = "replicate (20 - length (show_nat seq)) (CHR ''0'') @ show_nat seq"
  have "segment_path seq = ''wal-'' @ ?d @ ''.log''" by (simp add: segment_path_def)
  then have "strip_prefix ''wal-'' (segment_path seq) = Some (?d @ ''.log'')"
    by (simp add: strip_prefix_def)
  moreover have "suffix ''.log'' (?d @ ''.log'')" by (rule suffixI) simp
  then have "strip_suffix ''.log'' (?d @ ''.log'') = Some ?d" by (simp add: strip_suffix_def)
  ultimately show ?thesis by simp
qed

lemma parse_segment_path: "seq \<le> u64_max \<Longrightarrow> parse_segment_seq (segment_path seq) = Some seq"
  using strip_segment_path [of seq] parse_padded [of seq u64_max]
  by (auto simp: parse_segment_seq_def bind_eq_Some_conv)

lemma segment_path_inject [simp]: "segment_path a = segment_path b \<longleftrightarrow> a = b"
proof
  assume eq: "segment_path a = segment_path b"
  have "Some (replicate (20 - length (show_nat a)) (CHR ''0'') @ show_nat a) =
      Some (replicate (20 - length (show_nat b)) (CHR ''0'') @ show_nat b)"
    using strip_segment_path [of a] strip_segment_path [of b] eq by metis
  then have "parse_uint (max a b) (replicate (20 - length (show_nat a)) (CHR ''0'') @ show_nat a) =
      parse_uint (max a b) (replicate (20 - length (show_nat b)) (CHR ''0'') @ show_nat b)" by simp
  then show "a = b" by (simp add: parse_padded)
qed simp

section \<open>Frames\<close>

abbreviation frames :: "(wal_record \<Rightarrow> bytes) \<Rightarrow> wal_record list \<Rightarrow> bytes" where
  "frames ser rs \<equiv> concat (map (frame ser) rs)"

text \<open>
  What the log needs of the codec for a record: it decodes to itself, and its encoding is not empty
  (an empty body would read as the end of the data) and fits the 64-bit length.
\<close>

definition codec_ok :: "(wal_record \<Rightarrow> bytes) \<Rightarrow> (bytes \<Rightarrow> wal_record option) \<Rightarrow> wal_record \<Rightarrow> bool" where
  "codec_ok ser deser r \<longleftrightarrow> deser (ser r) = Some r \<and> ser r \<noteq> [] \<and> length (ser r) < 2 ^ 64"

fun located :: "(wal_record \<Rightarrow> bytes) \<Rightarrow> nat \<Rightarrow> wal_record list \<Rightarrow> (nat \<times> bytes) list" where
  "located ser pos [] = []"
| "located ser pos (r # rs) = (pos + 8, ser r) # located ser (pos + 8 + length (ser r)) rs"

lemma length_frame [simp]: "length (frame ser r) = 8 + length (ser r)"
  by (simp add: frame_def Let_def)

lemma walk_frame:
  assumes "codec_ok ser deser r"
  shows "walk_loop (pre @ frame ser r @ rest) (length pre) out =
         walk_loop (pre @ frame ser r @ rest) (length (pre @ frame ser r)) (out @ [(length pre + 8, ser r)])"
proof -
  let ?buf = "pre @ frame ser r @ rest"
  have len: "of_le_bytes (le_bytes 8 (length (ser r))) = length (ser r)"
    using assms by (intro of_le_bytes_le_bytes_id) (simp add: codec_ok_def)
  have dr: "drop (length pre) ?buf = le_bytes 8 (length (ser r)) @ ser r @ rest"
    by (simp add: frame_def Let_def)
  have t1: "take 8 (drop (length pre) ?buf) = le_bytes 8 (length (ser r))" by (subst dr) simp
  have t2: "take (length (ser r)) (drop (length pre + 8) ?buf) = ser r"
    by (subst add.commute, subst drop_drop [symmetric], subst dr) simp
  show ?thesis using assms
    by (subst walk_loop.simps) (simp only: Let_def t1 len t2, simp add: codec_ok_def add.assoc)
qed

lemma walk_located:
  assumes "\<forall>r \<in> set rs. codec_ok ser deser r"
  shows "walk_loop (pre @ frames ser rs @ rest) (length pre) out =
         walk_loop (pre @ frames ser rs @ rest) (length (pre @ frames ser rs)) (out @ located ser (length pre) rs)"
  using assms
proof (induction rs arbitrary: pre out)
  case (Cons r rs)
  have "walk_loop (pre @ frame ser r @ frames ser rs @ rest) (length pre) out =
      walk_loop ((pre @ frame ser r) @ frames ser rs @ rest) (length (pre @ frame ser r)) (out @ [(length pre + 8, ser r)])"
    using walk_frame [of ser deser r pre "frames ser rs @ rest" out] Cons.prems by simp
  also have "\<dots> = walk_loop ((pre @ frame ser r) @ frames ser rs @ rest) (length ((pre @ frame ser r) @ frames ser rs))
      ((out @ [(length pre + 8, ser r)]) @ located ser (length (pre @ frame ser r)) rs)"
    using Cons.prems by (intro Cons.IH) simp
  finally show ?case by (simp add: add.assoc)
qed simp

text \<open>Where the walk stops: at zeros, and at a frame of which only a part is there.\<close>

lemma walk_zeros: "walk_loop (pre @ replicate k 0) (length pre) out = out"
proof -
  have "of_le_bytes (replicate n 0) = 0" for n by (rule of_le_bytes_zero) simp
  then show ?thesis by (subst walk_loop.simps) (simp add: Let_def)
qed

lemma walk_torn:
  assumes "codec_ok ser deser r" and "n < length (frame ser r)"
  shows "walk_loop (pre @ take n (frame ser r)) (length pre) out = out"
proof (cases "n < 8")
  case True
  then show ?thesis by (subst walk_loop.simps) simp
next
  case False
  let ?buf = "pre @ take n (frame ser r)"
  have "of_le_bytes (le_bytes 8 (length (ser r))) = length (ser r)"
    using assms(1) by (intro of_le_bytes_le_bytes_id) (simp add: codec_ok_def)
  moreover have "take 8 (drop (length pre) ?buf) = le_bytes 8 (length (ser r))"
    using False by (simp add: frame_def Let_def min_def)
  ultimately have l: "of_le_bytes (take 8 (drop (length pre) ?buf)) = length (ser r)" by simp
  have "length ?buf < length pre + 8 + length (ser r)" using assms(2) by simp
  then show ?thesis by (subst walk_loop.simps) (simp only: Let_def l, simp)
qed

lemma take_frames:
  "\<exists>j n. take m (frames ser rs) = frames ser (take j rs) @ (if j < length rs then take n (frame ser (rs ! j)) else []) \<and>
     j \<le> length rs \<and> (j < length rs \<longrightarrow> n < length (frame ser (rs ! j)))"
proof (induction rs arbitrary: m)
  case (Cons r rs)
  show ?case
  proof (cases "m < length (frame ser r)")
    case True
    then have "take m (frames ser (r # rs)) = take m (frame ser r)" by simp
    with True show ?thesis by (intro exI [of _ 0] exI [of _ m]) simp
  next
    case False
    obtain j n where "take (m - length (frame ser r)) (frames ser rs) =
        frames ser (take j rs) @ (if j < length rs then take n (frame ser (rs ! j)) else [])"
      "j \<le> length rs" "j < length rs \<longrightarrow> n < length (frame ser (rs ! j))"
      using Cons.IH [of "m - length (frame ser r)"] by blast
    with False show ?thesis by (intro exI [of _ "Suc j"] exI [of _ n]) simp
  qed
qed simp

lemma decode_located:
  "\<forall>r \<in> set rs. codec_ok ser deser r \<Longrightarrow>
   \<exists>xs. decode_bodies deser (located ser pos rs) = Ok xs \<and> map (\<lambda>(off, len, r). r) xs = rs \<and>
     map (\<lambda>(off, len, r). (off, len)) xs = map (\<lambda>(off, b). (off, length b)) (located ser pos rs)"
proof (induction rs arbitrary: pos)
  case (Cons r rs)
  obtain xs where "decode_bodies deser (located ser (pos + 8 + length (ser r)) rs) = Ok xs"
    "map (\<lambda>(off, len, r). r) xs = rs"
    "map (\<lambda>(off, len, r). (off, len)) xs = map (\<lambda>(off, b). (off, length b)) (located ser (pos + 8 + length (ser r)) rs)"
    using Cons.IH [of "pos + 8 + length (ser r)"] Cons.prems by auto
  with Cons.prems show ?case by (auto simp: codec_ok_def)
qed simp

section \<open>The active segment\<close>

text \<open>
  The active segment holds the frames of the records \<open>rs\<close>, of which the first \<open>m\<close> were flushed: the
  complete blocks (up to \<open>base\<close>) are in the file, the rest is in the tail, and after \<open>base\<close> the file
  holds either nothing or the zero-padded block of an earlier flush.
\<close>

definition file_form :: "(wal_record \<Rightarrow> bytes) \<Rightarrow> bytes \<Rightarrow> nat \<Rightarrow> bytes \<Rightarrow> wal_record list \<Rightarrow> nat \<Rightarrow> bool" where
  "file_form ser hdr k f rs m \<longleftrightarrow>
     (f = hdr @ take k (frames ser rs) \<and> length (frames ser (take m rs)) \<le> k \<or>
      (\<exists>j pad. j \<le> length rs \<and> m \<le> j \<and> k < length (frames ser (take j rs)) \<and>
         length (frames ser (take j rs)) + pad = k + BLOCK_SIZE \<and> f = hdr @ frames ser (take j rs) @ replicate pad 0))"

definition active_inv :: "(wal_record \<Rightarrow> bytes) \<Rightarrow> seg_wal \<Rightarrow> wal_record list \<Rightarrow> nat \<Rightarrow> bool" where
  "active_inv ser w rs m \<longleftrightarrow> m \<le> length rs \<and> (sw_needs_flush w \<or> m = length rs) \<and>
     (\<exists>hdr k. length hdr = HEADER_SIZE \<and> sw_base w = HEADER_SIZE + k \<and> k \<le> length (frames ser rs) \<and>
        sw_tail w = drop k (frames ser rs) \<and> length (sw_tail w) < BLOCK_SIZE \<and>
        file_form ser hdr k (active_file w) rs m)"

lemma round_up_block_small: "0 < n \<Longrightarrow> n \<le> BLOCK_SIZE \<Longrightarrow> round_up_block n = BLOCK_SIZE"
  by (simp add: round_up_block_def)

lemma round_up_block_full: "round_up_block (n * BLOCK_SIZE) = n * BLOCK_SIZE"
  by (simp add: round_up_block_def)

lemma active_file_put [simp]: "active_file (put_active f w) = f"
  by (simp add: active_file_def file_at_def put_active_def update_conv')

lemma put_active_fields [simp]:
  "sw_base (put_active f w) = sw_base w" "sw_tail (put_active f w) = sw_tail w"
  "sw_active_seq (put_active f w) = sw_active_seq w" "sw_active_size (put_active f w) = sw_active_size w"
  "sw_needs_flush (put_active f w) = sw_needs_flush w" "sw_total_appends (put_active f w) = sw_total_appends w"
  "sw_active_start (put_active f w) = sw_active_start w"
  by (simp_all add: put_active_def)

lemma active_file_upd [simp]:
  "active_file (w\<lparr>sw_base := b\<rparr>) = active_file w" "active_file (w\<lparr>sw_tail := t\<rparr>) = active_file w"
  "active_file (w\<lparr>sw_needs_flush := n\<rparr>) = active_file w" "active_file (w\<lparr>sw_active_size := z\<rparr>) = active_file w"
  "active_file (w\<lparr>sw_total_appends := t'\<rparr>) = active_file w"
  by (simp_all add: active_file_def file_at_def)

text \<open>What the file may hold under the invariant, up to \<open>base\<close> and in length.\<close>

lemma length_frames_take: "length (frames ser (take j rs)) \<le> length (frames ser rs)"
  by (metis append_take_drop_id concat_append map_append length_append le_add1)

lemma length_frames_mono: "m \<le> j \<Longrightarrow> length (frames ser (take m rs)) \<le> length (frames ser (take j rs))"
  using length_frames_take [of ser m "take j rs"] by (simp add: min_def)

lemma active_file_upto_base:
  assumes "length hdr = HEADER_SIZE" and "k \<le> length (frames ser rs)" and "file_form ser hdr k f rs m"
  shows "take (HEADER_SIZE + k) f = hdr @ take k (frames ser rs)" and "length f \<le> HEADER_SIZE + k + BLOCK_SIZE"
    and "HEADER_SIZE + k \<le> length f" and "length (frames ser (take m rs)) \<le> k + BLOCK_SIZE"
proof -
  have "frames ser rs = frames ser (take j rs) @ frames ser (drop j rs)" for j
    by (metis append_take_drop_id concat_append map_append)
  then have pre: "take k (frames ser rs) = take k (frames ser (take j rs))" if "k < length (frames ser (take j rs))" for j
    using that by (metis less_imp_le take_append diff_is_0_eq' take0 append_Nil2)
  show "take (HEADER_SIZE + k) f = hdr @ take k (frames ser rs)"
    using assms pre by (auto simp: min_def file_form_def)
  show "length f \<le> HEADER_SIZE + k + BLOCK_SIZE" "HEADER_SIZE + k \<le> length f"
    using assms by (auto simp: file_form_def)
  show "length (frames ser (take m rs)) \<le> k + BLOCK_SIZE"
    using assms(3) length_frames_mono [of m _ ser rs] unfolding file_form_def by fastforce
qed

lemma pwrite_over:
  assumes "length f \<le> off + length d" and "off \<le> length f"
  shows "pwrite off d f = take off f @ d"
  using assms by (simp add: pwrite_def)

lemma wal_flush_fields [simp]:
  "sw_base (wal_flush w) = sw_base w" "sw_tail (wal_flush w) = sw_tail w"
  "sw_active_seq (wal_flush w) = sw_active_seq w" "sw_active_size (wal_flush w) = sw_active_size w"
  "sw_total_appends (wal_flush w) = sw_total_appends w" "sw_active_start (wal_flush w) = sw_active_start w"
  by (simp_all add: wal_flush_def Let_def)

lemma flush_inv:
  assumes "active_inv ser w rs m"
  shows "active_inv ser (wal_flush w) rs (length rs)"
    and "\<exists>hdr pad. length hdr = HEADER_SIZE \<and> active_file (wal_flush w) = hdr @ frames ser rs @ replicate pad 0"
proof -
  obtain hdr k where hk: "length hdr = HEADER_SIZE" "sw_base w = HEADER_SIZE + k" "k \<le> length (frames ser rs)"
    "sw_tail w = drop k (frames ser rs)" "length (sw_tail w) < BLOCK_SIZE" and f: "file_form ser hdr k (active_file w) rs m"
    using assms unfolding active_inv_def by blast
  note ff = active_file_upto_base [OF hk(1,3) f]
  have "file_form ser hdr k (active_file (wal_flush w)) rs (length rs) \<and>
      (\<exists>pad. active_file (wal_flush w) = hdr @ frames ser rs @ replicate pad 0)"
  proof (cases "sw_tail w = []")
    case True
    then have k: "k = length (frames ser rs)" using hk by simp
    then have "\<not> k < length (frames ser (take j rs))" for j using length_frames_take [of ser j rs] by simp
    then have "active_file w = hdr @ frames ser rs @ replicate 0 0" using f k unfolding file_form_def by simp
    moreover have "active_file (wal_flush w) = active_file w" using True by (simp add: wal_flush_def)
    ultimately show ?thesis using k unfolding file_form_def by (metis append_Nil2 order_refl replicate_0 take_all)
  next
    case False
    let ?pad = "BLOCK_SIZE - length (sw_tail w)"
    have r: "round_up_block (length (sw_tail w)) = BLOCK_SIZE" using False hk(5) by (intro round_up_block_small) auto
    have "active_file (wal_flush w) = hdr @ take k (frames ser rs) @ sw_tail w @ replicate ?pad 0"
      using False ff hk(2,5) r by (simp add: wal_flush_def write_blocks_def pwrite_over)
    then have "active_file (wal_flush w) = hdr @ frames ser (take (length rs) rs) @ replicate ?pad 0"
      using hk(4) by (metis append_assoc append_take_drop_id take_all_iff order_refl)
    moreover have "k < length (frames ser rs)" using False hk(4) by simp
    moreover have "length (frames ser (take (length rs) rs)) + ?pad = k + BLOCK_SIZE" using hk(3-5) by simp
    ultimately show ?thesis unfolding file_form_def by (metis order_refl take_all)
  qed
  then show "active_inv ser (wal_flush w) rs (length rs)"
    and "\<exists>hdr pad. length hdr = HEADER_SIZE \<and> active_file (wal_flush w) = hdr @ frames ser rs @ replicate pad 0"
    using hk unfolding active_inv_def by auto
qed

lemma write_complete_blocks_inv:
  assumes "length hdr = HEADER_SIZE" and "sw_base w = HEADER_SIZE + k" and "k \<le> length D" and "sw_tail w = drop k D"
    and "take (HEADER_SIZE + k) (active_file w) = hdr @ take k D" and "length (active_file w) \<le> HEADER_SIZE + k + BLOCK_SIZE"
    and "HEADER_SIZE + k \<le> length (active_file w)"
  defines "w' \<equiv> write_complete_blocks w"
  shows "\<exists>k'. sw_base w' = HEADER_SIZE + k' \<and> k' \<le> length D \<and> sw_tail w' = drop k' D \<and> length (sw_tail w') < BLOCK_SIZE \<and>
           (if length (sw_tail w) < BLOCK_SIZE then w' = w \<and> k' = k
            else active_file w' = hdr @ take k' D \<and> k + BLOCK_SIZE \<le> k')"
proof (cases "length (sw_tail w) < BLOCK_SIZE")
  case True
  then have "length (sw_tail w) div BLOCK_SIZE * BLOCK_SIZE = 0" by simp
  then have "w' = w" by (simp add: w'_def write_complete_blocks_def)
  with True assms(2-4) show ?thesis by (intro exI [of _ k]) simp
next
  case False
  define full where "full = length (sw_tail w) div BLOCK_SIZE * BLOCK_SIZE"
  have full: "full \<le> length (sw_tail w)" "length (sw_tail w) - full < BLOCK_SIZE" "BLOCK_SIZE \<le> full"
    using False by (simp_all add: full_def minus_div_mult_eq_mod)
  have r: "round_up_block full = full" by (simp add: full_def round_up_block_full)
  have "write_blocks (sw_base w) (take full (sw_tail w)) (active_file w) = hdr @ take k D @ take full (drop k D)"
    using assms(2,4-7) full r by (simp add: write_blocks_def pwrite_over min_def)
  also have "take k D @ take full (drop k D) = take (k + full) D" by (simp add: take_add)
  finally have wr: "write_blocks (sw_base w) (take full (sw_tail w)) (active_file w) = hdr @ take (k + full) D" .
  have w': "w' = (put_active (hdr @ take (k + full) D) w)
      \<lparr>sw_base := sw_base w + full, sw_tail := drop full (sw_tail w), sw_needs_flush := True\<rparr>"
    using full(3) wr by (simp add: w'_def write_complete_blocks_def full_def [symmetric] Let_def)
  have "active_file w' = hdr @ take (k + full) D" by (simp add: w')
  moreover have "sw_base w' = HEADER_SIZE + (k + full)" "sw_tail w' = drop (k + full) D"
    using assms(2,4) by (simp_all add: w' add.commute)
  moreover have "k + full \<le> length D" "length (drop (k + full) D) < BLOCK_SIZE" using full assms(3,4) by auto
  ultimately show ?thesis using False full(3) by (intro exI [of _ "k + full"]) simp
qed

lemma flush_ignores_flag: "wal_flush (w\<lparr>sw_needs_flush := b\<rparr>) = wal_flush w"
  by (simp add: wal_flush_def put_active_def active_file_def file_at_def Let_def)

lemma dirty_append_inv:
  assumes "active_inv ser w rs m"
  shows "active_inv ser ((write_complete_blocks (w\<lparr>sw_tail := sw_tail w @ frame ser r\<rparr>))\<lparr>sw_needs_flush := True\<rparr>) (rs @ [r]) m"
proof -
  obtain hdr k where hk: "length hdr = HEADER_SIZE" "sw_base w = HEADER_SIZE + k" "k \<le> length (frames ser rs)"
    "sw_tail w = drop k (frames ser rs)" "length (sw_tail w) < BLOCK_SIZE" and f: "file_form ser hdr k (active_file w) rs m"
    and m: "m \<le> length rs"
    using assms unfolding active_inv_def by blast
  note ff = active_file_upto_base [OF hk(1,3) f]
  let ?w0 = "w\<lparr>sw_tail := sw_tail w @ frame ser r\<rparr>" and ?D = "frames ser (rs @ [r])"
  let ?w1 = "write_complete_blocks ?w0"
  have D: "?D = frames ser rs @ frame ser r" by simp
  have "\<exists>k'. sw_base ?w1 = HEADER_SIZE + k' \<and> k' \<le> length ?D \<and> sw_tail ?w1 = drop k' ?D \<and> length (sw_tail ?w1) < BLOCK_SIZE \<and>
      (if length (sw_tail ?w0) < BLOCK_SIZE then ?w1 = ?w0 \<and> k' = k
       else active_file ?w1 = hdr @ take k' ?D \<and> k + BLOCK_SIZE \<le> k')"
    using hk ff by (intro write_complete_blocks_inv) (simp_all add: D)
  then obtain k' where k': "sw_base ?w1 = HEADER_SIZE + k'" "k' \<le> length ?D" "sw_tail ?w1 = drop k' ?D"
      "length (sw_tail ?w1) < BLOCK_SIZE"
    and cs: "if length (sw_tail ?w0) < BLOCK_SIZE then ?w1 = ?w0 \<and> k' = k
       else active_file ?w1 = hdr @ take k' ?D \<and> k + BLOCK_SIZE \<le> k'" by blast
  have take: "take j (rs @ [r]) = take j rs" if "j \<le> length rs" for j using that by simp
  have "file_form ser hdr k' (active_file ?w1) (rs @ [r]) m"
  proof (cases "length (sw_tail ?w0) < BLOCK_SIZE")
    case False
    with cs ff(4) show ?thesis unfolding file_form_def take [OF m] by auto
  next
    case True
    with cs have same: "active_file ?w1 = active_file w" "k' = k" by auto
    have "take k ?D = take k (frames ser rs)" using hk(3) by (simp add: D)
    then show ?thesis using f unfolding same file_form_def take [OF m]
      by (metis take length_append_singleton le_SucI)
  qed
  then show ?thesis using hk(1) k' m unfolding active_inv_def by auto
qed

lemma append_inv:
  assumes "active_inv ser w rs m" and "wal_append ser cfg r w = (loc, w')"
  shows "active_inv ser w' (rs @ [r]) (if wc_fsync_on_write cfg then length (rs @ [r]) else m)"
    and "sw_active_seq w' = sw_active_seq w" and "sw_active_size w' = sw_active_size w + length (frame ser r)"
    and "loc = \<lparr>wal_segment_seq = sw_active_seq w, file_offset = HEADER_SIZE + length (frames ser rs) + 8,
               frame_len = length (ser r) mod 2 ^ 32\<rparr>"
proof -
  let ?w1 = "write_complete_blocks (w\<lparr>sw_tail := sw_tail w @ frame ser r\<rparr>)"
  note inv1 = dirty_append_inv [OF assms(1), of r]
  have fields: "sw_active_seq ?w1 = sw_active_seq w" "sw_active_size ?w1 = sw_active_size w"
    by (simp_all add: write_complete_blocks_def Let_def)
  have w': "w' = (let w2 = (if wc_fsync_on_write cfg then wal_flush ?w1 else ?w1\<lparr>sw_needs_flush := True\<rparr>)
      in w2\<lparr>sw_active_size := sw_active_size w2 + length (frame ser r), sw_total_appends := sw_total_appends w2 + 1\<rparr>)"
    using assms(2) by (simp add: wal_append_def handle_append_def Let_def)
  have ext: "active_inv ser (v\<lparr>sw_active_size := z, sw_total_appends := t\<rparr>) xs n = active_inv ser v xs n" for v z t xs n
    by (simp add: active_inv_def)
  show "active_inv ser w' (rs @ [r]) (if wc_fsync_on_write cfg then length (rs @ [r]) else m)"
    using inv1 flush_inv(1) [OF inv1] by (simp add: w' Let_def ext flush_ignores_flag)
  show "sw_active_seq w' = sw_active_seq w" "sw_active_size w' = sw_active_size w + length (frame ser r)"
    using fields by (simp_all add: w' Let_def)
  have "sw_base w + length (sw_tail w) = HEADER_SIZE + length (frames ser rs)"
    using assms(1) by (auto simp: active_inv_def)
  then show "loc = \<lparr>wal_segment_seq = sw_active_seq w, file_offset = HEADER_SIZE + length (frames ser rs) + 8,
               frame_len = length (ser r) mod 2 ^ 32\<rparr>"
    using assms(2) fields by (auto simp: wal_append_def handle_append_def Let_def)
qed

section \<open>The whole log\<close>

text \<open>
  The abstract state of a log: the records of every segment on disk by sequence number, the number
  of the active one, and how many of its records were flushed. \<open>wal_holds\<close> relates it to the bytes. A
  sealed file ends in zeros, or (after a crash) in a frame of which only a part was written.
\<close>

definition sealed_file ::
  "(wal_record \<Rightarrow> bytes) \<Rightarrow> (bytes \<Rightarrow> wal_record option) \<Rightarrow> bytes \<Rightarrow> wal_record list \<Rightarrow> bool" where
  "sealed_file ser deser f rs \<longleftrightarrow>
     (\<exists>hdr rest. length hdr = HEADER_SIZE \<and> f = hdr @ frames ser rs @ rest \<and>
        ((\<exists>pad. rest = replicate pad 0) \<or>
         (\<exists>r n. codec_ok ser deser r \<and> n < length (frame ser r) \<and> rest = take n (frame ser r))))"

definition wal_holds ::
  "(wal_record \<Rightarrow> bytes) \<Rightarrow> (bytes \<Rightarrow> wal_record option) \<Rightarrow> seg_wal \<Rightarrow> (nat \<rightharpoonup> wal_record list) \<Rightarrow> nat \<Rightarrow> nat \<Rightarrow> bool" where
  "wal_holds ser deser w S a m \<longleftrightarrow>
     distinct (map fst (sw_dir w)) \<and> fst ` set (sw_dir w) = segment_path ` dom S \<and>
     sw_active_seq w = a \<and> a \<le> u64_max \<and> (\<forall>s \<in> dom S. s \<le> a) \<and>
     (\<forall>s rs. S s = Some rs \<longrightarrow> (\<forall>r \<in> set rs. codec_ok ser deser r)) \<and>
     (\<forall>s rs. S s = Some rs \<longrightarrow> s \<noteq> a \<longrightarrow> sealed_file ser deser (file_at (segment_path s) w) rs) \<and>
     (\<exists>rs. S a = Some rs \<and> active_inv ser w rs m \<and> sw_active_size w = length (frames ser rs))"

lemma wal_holdsD:
  assumes "wal_holds ser deser w S a m"
  shows "distinct (map fst (sw_dir w))" and "fst ` set (sw_dir w) = segment_path ` dom S"
    and "sw_active_seq w = a" and "a \<le> u64_max" and "s \<in> dom S \<Longrightarrow> s \<le> a"
    and "S s = Some rs \<Longrightarrow> \<forall>r \<in> set rs. codec_ok ser deser r"
    and "S s = Some rs \<Longrightarrow> s \<noteq> a \<Longrightarrow> sealed_file ser deser (file_at (segment_path s) w) rs"
    and "\<exists>rs. S a = Some rs \<and> active_inv ser w rs m \<and> sw_active_size w = length (frames ser rs)"
  using assms unfolding wal_holds_def by blast+

lemma wal_holds_finite: "wal_holds ser deser w S a m \<Longrightarrow> finite (dom S)"
  by (rule finite_subset [of _ "{..a}"]) (auto simp: wal_holds_def)

lemma walk_sealed:
  assumes "\<forall>r \<in> set rs. codec_ok ser deser r" and "sealed_file ser deser f rs"
  shows "walk_frames f = located ser HEADER_SIZE rs"
proof -
  obtain hdr rest where f: "length hdr = HEADER_SIZE" "f = hdr @ frames ser rs @ rest"
    and rest: "(\<exists>pad. rest = replicate pad 0) \<or>
      (\<exists>r n. codec_ok ser deser r \<and> n < length (frame ser r) \<and> rest = take n (frame ser r))"
    using assms(2) unfolding sealed_file_def by blast
  have "walk_loop f HEADER_SIZE [] = walk_loop f (length (hdr @ frames ser rs)) ([] @ located ser HEADER_SIZE rs)"
    using walk_located [OF assms(1), of hdr rest "[]"] f by simp
  also have "\<dots> = located ser HEADER_SIZE rs"
    using rest walk_zeros [of "hdr @ frames ser rs" _ "located ser HEADER_SIZE rs"]
      walk_torn [where pre = "hdr @ frames ser rs" and out = "located ser HEADER_SIZE rs"] f(2) by auto
  finally show ?thesis by (simp add: walk_frames_def)
qed

lemma map_of_file_at:
  assumes "wal_holds ser deser w S a m" and "s \<in> dom S"
  shows "map_of (sw_dir w) (segment_path s) = Some (file_at (segment_path s) w)"
proof -
  have "segment_path s \<in> fst ` set (sw_dir w)" using assms by (auto simp: wal_holds_def)
  then obtain f where "map_of (sw_dir w) (segment_path s) = Some f"
    by (meson map_of_eq_None_iff not_None_eq)
  then show ?thesis by (simp add: file_at_def)
qed

lemma read_segment_holds:
  assumes "wal_holds ser deser w S a m" and "S s = Some rs" and "s \<noteq> a"
  shows "read_segment_records deser s w = Ok rs"
proof -
  have ok: "\<forall>r \<in> set rs. codec_ok ser deser r" and sf: "sealed_file ser deser (file_at (segment_path s) w) rs"
    using assms by (auto simp: wal_holds_def)
  obtain xs where "decode_bodies deser (located ser HEADER_SIZE rs) = Ok xs" "map (\<lambda>(off, len, r). r) xs = rs"
    using decode_located [OF ok, of HEADER_SIZE] by blast
  moreover have "map_of (sw_dir w) (segment_path s) = Some (file_at (segment_path s) w)"
    using map_of_file_at [OF assms(1), of s] assms(2) by auto
  ultimately show ?thesis using walk_sealed [OF ok sf] by (simp add: read_segment_records_def)
qed

lemma map_filter_Some: "(\<And>x. x \<in> set xs \<Longrightarrow> f x = Some (g x)) \<Longrightarrow> List.map_filter f xs = map g xs"
  by (induction xs) (simp_all add: List.map_filter_simps)

lemma scan_holds:
  assumes "wal_holds ser deser w S a m"
  shows "scan_segment_seqs (sw_dir w) = sorted_list_of_set (dom S)"
proof -
  let ?num = "\<lambda>e :: string \<times> bytes. the (parse_segment_seq (fst e))"
  have names: "\<exists>s \<in> dom S. fst e = segment_path s \<and> parse_segment_seq (fst e) = Some s" if "e \<in> set (sw_dir w)" for e
  proof -
    have "fst e \<in> segment_path ` dom S" using that wal_holdsD(2) [OF assms] by blast
    then obtain s where s: "s \<in> dom S" "fst e = segment_path s" by auto
    then have "s \<le> u64_max" using wal_holdsD(4,5) [OF assms] le_trans by blast
    with s show ?thesis by (auto simp: parse_segment_path)
  qed
  then have mf: "List.map_filter (\<lambda>(name, _). parse_segment_seq name) (sw_dir w) = map ?num (sw_dir w)"
    by (intro map_filter_Some) fastforce
  have "set (map ?num (sw_dir w)) = dom S"
  proof
    show "set (map ?num (sw_dir w)) \<subseteq> dom S" using names by fastforce
    show "dom S \<subseteq> set (map ?num (sw_dir w))"
    proof
      fix s assume s: "s \<in> dom S"
      then have "segment_path s \<in> fst ` set (sw_dir w)" using wal_holdsD(2) [OF assms] by blast
      then obtain e where e: "e \<in> set (sw_dir w)" "fst e = segment_path s" by auto
      from names [OF e(1)] e(2) have "?num e = s" by auto
      with e(1) show "s \<in> set (map ?num (sw_dir w))" by force
    qed
  qed
  moreover have "inj_on ?num (set (sw_dir w))"
  proof (rule inj_onI)
    fix x y assume xy: "x \<in> set (sw_dir w)" "y \<in> set (sw_dir w)" "?num x = ?num y"
    from names [OF xy(1)] names [OF xy(2)] xy(3) have "fst x = fst y" by auto
    moreover have "inj_on fst (set (sw_dir w))" using assms by (simp add: wal_holds_def distinct_map)
    ultimately show "x = y" using xy(1,2) by (meson inj_onD)
  qed
  then have "distinct (map ?num (sw_dir w))" using assms by (simp add: wal_holds_def distinct_map)
  ultimately show ?thesis
    using wal_holds_finite [OF assms] unfolding scan_segment_seqs_def mf
    by (intro sorted_distinct_set_unique) simp_all
qed

lemma sealed_segments_holds:
  assumes "wal_holds ser deser w S a m"
  shows "sealed_segments w = sorted_list_of_set (dom S - {a})"
proof -
  have "filter (\<lambda>s. s \<noteq> a) (sorted_list_of_set (dom S)) = sorted_list_of_set (dom S - {a})"
    using wal_holds_finite [OF assms]
    by (intro sorted_distinct_set_unique) (auto simp: sorted_wrt_filter)
  then show ?thesis using scan_holds [OF assms] assms by (simp add: sealed_segments_def wal_holds_def)
qed

lemma file_at_put_active [simp]:
  "s \<noteq> sw_active_seq w \<Longrightarrow> file_at (segment_path s) (put_active f w) = file_at (segment_path s) w"
  by (simp add: file_at_def put_active_def update_conv')

lemma file_at_upd [simp]:
  "file_at n (w\<lparr>sw_base := b\<rparr>) = file_at n w" "file_at n (w\<lparr>sw_tail := t\<rparr>) = file_at n w"
  "file_at n (w\<lparr>sw_needs_flush := c\<rparr>) = file_at n w" "file_at n (w\<lparr>sw_active_size := z\<rparr>) = file_at n w"
  "file_at n (w\<lparr>sw_total_appends := t'\<rparr>) = file_at n w" "file_at n (w\<lparr>sw_active_seq := q\<rparr>) = file_at n w"
  "file_at n (w\<lparr>sw_active_start := u\<rparr>) = file_at n w"
  by (simp_all add: file_at_def)

lemma dir_put_active:
  assumes "wal_holds ser deser w S a m"
  shows "distinct (map fst (sw_dir (put_active f w)))" and "fst ` set (sw_dir (put_active f w)) = segment_path ` dom S"
proof -
  have "a \<in> dom S" using wal_holdsD(8) [OF assms] by auto
  then have "segment_path a \<in> segment_path ` dom S" by blast
  then show "fst ` set (sw_dir (put_active f w)) = segment_path ` dom S"
    using wal_holdsD(2,3) [OF assms] by (simp add: put_active_def keys_update insert_absorb)
  show "distinct (map fst (sw_dir (put_active f w)))"
    using wal_holdsD(1) [OF assms] by (simp add: put_active_def distinct_update)
qed

text \<open>Changing the file and the task's fields for the active segment only.\<close>

lemma wal_holds_active:
  assumes "wal_holds ser deser w S a m" and "sw_dir w' = sw_dir w \<or> (\<exists>f. sw_dir w' = sw_dir (put_active f w))"
    and "sw_active_seq w' = a" and "active_inv ser w' rs m'" and "sw_active_size w' = length (frames ser rs)"
    and "\<forall>r \<in> set rs. codec_ok ser deser r"
  shows "wal_holds ser deser w' (S(a \<mapsto> rs)) a m'"
proof -
  have a: "a \<in> dom S" using wal_holdsD(8) [OF assms(1)] by auto
  then have dom: "dom (S(a \<mapsto> rs)) = dom S" by auto
  have dir: "distinct (map fst (sw_dir w'))" "fst ` set (sw_dir w') = segment_path ` dom (S(a \<mapsto> rs))"
    unfolding dom using assms(2) dir_put_active [OF assms(1)] wal_holdsD(1,2) [OF assms(1)] by metis+
  have "file_at (segment_path s) w' = file_at (segment_path s) w" if "s \<noteq> a" for s
    using assms(2) file_at_put_active [of s w] that wal_holdsD(3) [OF assms(1)] by (auto simp: file_at_def)
  then have "sealed_file ser deser (file_at (segment_path s) w') xs" if "(S(a \<mapsto> rs)) s = Some xs" "s \<noteq> a" for s xs
    using that wal_holdsD(7) [OF assms(1)] by auto
  moreover have "\<forall>r \<in> set xs. codec_ok ser deser r" if "(S(a \<mapsto> rs)) s = Some xs" for s xs
    using that assms(6) wal_holdsD(6) [OF assms(1), of s] by (auto split: if_splits)
  moreover have "\<forall>s \<in> dom (S(a \<mapsto> rs)). s \<le> a" unfolding dom using wal_holdsD(5) [OF assms(1)] by blast
  ultimately show ?thesis
    using dir assms(3-5) wal_holdsD(4) [OF assms(1)] unfolding wal_holds_def by simp
qed

lemma flush_dir: "sw_dir (wal_flush w) = sw_dir w \<or> (\<exists>f. sw_dir (wal_flush w) = sw_dir (put_active f w))"
  by (auto simp: wal_flush_def Let_def)

lemma flush_holds:
  assumes "wal_holds ser deser w S a m" and "S a = Some rs"
  shows "wal_holds ser deser (wal_flush w) S a (length rs)"
proof -
  have rs: "active_inv ser w rs m" "sw_active_size w = length (frames ser rs)"
    using wal_holdsD(8) [OF assms(1)] assms(2) by auto
  have "wal_holds ser deser (wal_flush w) (S(a \<mapsto> rs)) a (length rs)"
    using rs wal_holdsD(3,6) [OF assms(1)] flush_inv(1) [OF rs(1)] flush_dir assms(2)
    by (intro wal_holds_active [OF assms(1)]) simp_all
  moreover have "S(a \<mapsto> rs) = S" using assms(2) by auto
  ultimately show ?thesis by simp
qed

lemma put_active_dir_twice: "sw_dir (put_active f (put_active g w)) = sw_dir (put_active f w)"
  by (simp add: put_active_def)

lemma put_active_dir_cong:
  "sw_dir v = sw_dir w \<Longrightarrow> sw_active_seq v = sw_active_seq w \<Longrightarrow> sw_dir (put_active f v) = sw_dir (put_active f w)"
  by (simp add: put_active_def)

lemma append_holds:
  assumes "wal_holds ser deser w S a m" and "codec_ok ser deser r" and "S a = Some rs"
    and "wal_append ser cfg r w = (loc, w')"
  shows "wal_holds ser deser w' (S(a \<mapsto> rs @ [r])) a (if wc_fsync_on_write cfg then length (rs @ [r]) else m)"
proof -
  have rs: "active_inv ser w rs m" "sw_active_size w = length (frames ser rs)"
    using wal_holdsD(8) [OF assms(1)] assms(3) by auto
  note app = append_inv [OF rs(1) assms(4)]
  let ?w1 = "write_complete_blocks (w\<lparr>sw_tail := sw_tail w @ frame ser r\<rparr>)"
  have d1: "sw_dir ?w1 = sw_dir w \<or> (\<exists>f. sw_dir ?w1 = sw_dir (put_active f w))" and s1: "sw_active_seq ?w1 = sw_active_seq w"
    by (auto simp: write_complete_blocks_def Let_def put_active_def)
  have "sw_dir w' = sw_dir ?w1 \<or> (\<exists>f. sw_dir w' = sw_dir (put_active f ?w1))"
    using assms(4) flush_dir [of ?w1] by (auto simp: wal_append_def handle_append_def Let_def split: if_splits)
  then have "sw_dir w' = sw_dir w \<or> (\<exists>f. sw_dir w' = sw_dir (put_active f w))"
    using d1 s1 by (auto simp: put_active_def)
  then show ?thesis
    using app rs assms(2) wal_holdsD(3,6) [OF assms(1)] assms(3)
    by (intro wal_holds_active [OF assms(1)]) auto
qed

lemma new_segment_inv:
  assumes "sw_dir w = open_new_segment q now dir" and "sw_active_seq w = q" and "sw_base w = HEADER_SIZE" and "sw_tail w = []"
  shows "active_inv ser w [] 0"
proof -
  have "length (build_header q now) = HEADER_SIZE" by (simp add: build_header_def)
  then have "write_blocks 0 (build_header q now) [] = build_header q now"
    by (simp add: write_blocks_def pwrite_def round_up_block_def)
  then have "active_file w = build_header q now"
    using assms by (simp add: active_file_def file_at_def open_new_segment_def update_conv')
  then show ?thesis using assms \<open>length (build_header q now) = HEADER_SIZE\<close>
    unfolding active_inv_def file_form_def by (auto intro!: exI [of _ "build_header q now"])
qed

text \<open>
  Starting a new active segment \<open>a + 1\<close> over a directory in which every older segment is a sealed
  file: used by sealing and by a restart.
\<close>

lemma new_segment_holds:
  assumes "distinct (map fst dir)" and "fst ` set dir = segment_path ` dom S" and "\<forall>s \<in> dom S. s \<le> a" and "Suc a \<le> u64_max"
    and "\<forall>s rs. S s = Some rs \<longrightarrow> (\<forall>r \<in> set rs. codec_ok ser deser r)"
    and "\<forall>s rs f. S s = Some rs \<longrightarrow> map_of dir (segment_path s) = Some f \<longrightarrow> sealed_file ser deser f rs"
    and "sw_dir w = open_new_segment (Suc a) now dir" and "sw_active_seq w = Suc a" and "sw_base w = HEADER_SIZE"
    and "sw_tail w = []" and "sw_active_size w = 0"
  shows "wal_holds ser deser w (S(Suc a \<mapsto> [])) (Suc a) 0"
proof -
  have "sealed_file ser deser (file_at (segment_path s) w) rs" if "(S(Suc a \<mapsto> [])) s = Some rs" "s \<noteq> Suc a" for s rs
  proof -
    have s: "S s = Some rs" using that by simp
    then have "segment_path s \<in> fst ` set dir" using assms(2) by blast
    then obtain f where f: "map_of dir (segment_path s) = Some f" by (meson map_of_eq_None_iff not_None_eq)
    then have "file_at (segment_path s) w = f"
      using that(2) assms(7) by (simp add: file_at_def open_new_segment_def update_conv')
    with s f assms(6) show ?thesis by blast
  qed
  moreover have "\<forall>r \<in> set rs. codec_ok ser deser r" if "(S(Suc a \<mapsto> [])) s = Some rs" for s rs
    using that assms(5) by (cases "s = Suc a") auto
  moreover have "distinct (map fst (sw_dir w))" using assms(1,7) by (simp add: open_new_segment_def distinct_update)
  moreover have "fst ` set (sw_dir w) = segment_path ` dom (S(Suc a \<mapsto> []))"
    using assms(2,7) by (simp add: open_new_segment_def keys_update)
  moreover have "\<forall>s \<in> dom (S(Suc a \<mapsto> [])). s \<le> Suc a" using assms(3) le_SucI by (metis dom_fun_upd insert_iff option.distinct(1) order_refl)
  moreover have "active_inv ser w [] 0" by (rule new_segment_inv [OF assms(7-10)])
  ultimately show ?thesis using assms(4,8,11) unfolding wal_holds_def by simp
qed

lemma flushed_sealed:
  assumes "wal_holds ser deser w S a m" and "S s = Some rs" and "map_of (sw_dir (wal_flush w)) (segment_path s) = Some f"
  shows "sealed_file ser deser f rs"
proof (cases "s = a")
  case True
  have "active_inv ser w rs m" using wal_holdsD(8) [OF assms(1)] assms(2) True by auto
  moreover have "active_file (wal_flush w) = f"
    using assms(3) True wal_holdsD(3) [OF assms(1)] by (simp add: active_file_def file_at_def)
  ultimately obtain hdr pad where "length hdr = HEADER_SIZE" "f = hdr @ frames ser rs @ replicate pad 0"
    using flush_inv(2) by blast
  then show ?thesis unfolding sealed_file_def by blast
next
  case False
  obtain xs where "S a = Some xs" using wal_holdsD(8) [OF assms(1)] by blast
  from wal_holdsD(7) [OF flush_holds [OF assms(1) this] assms(2) False] show ?thesis
    using assms(3) by (simp add: file_at_def)
qed

lemma seal_holds:
  assumes "wal_holds ser deser w S a m" and "Suc a \<le> u64_max" and "handle_maybe_seal cfg now force w = (res, w')"
  shows "case res of None \<Rightarrow> w' = w | Some s \<Rightarrow> s = a \<and> wal_holds ser deser w' (S(Suc a \<mapsto> [])) (Suc a) 0"
    and "force \<Longrightarrow> res = None \<longleftrightarrow> S a = Some []"
proof -
  have "wal_holds ser deser w' (S(Suc a \<mapsto> [])) (Suc a) 0" if "res \<noteq> None"
  proof (rule new_segment_holds)
    obtain xs where "S a = Some xs" using wal_holdsD(8) [OF assms(1)] by blast
    note fl = flush_holds [OF assms(1) this]
    show "distinct (map fst (sw_dir (wal_flush w)))" "fst ` set (sw_dir (wal_flush w)) = segment_path ` dom S"
      by (rule wal_holdsD(1,2) [OF fl])+
    show "\<forall>s \<in> dom S. s \<le> a" using wal_holdsD(5) [OF assms(1)] by blast
    show "\<forall>s rs. S s = Some rs \<longrightarrow> (\<forall>r \<in> set rs. codec_ok ser deser r)" using wal_holdsD(6) [OF assms(1)] by blast
    show "\<forall>s rs f. S s = Some rs \<longrightarrow> map_of (sw_dir (wal_flush w)) (segment_path s) = Some f \<longrightarrow> sealed_file ser deser f rs"
      using flushed_sealed [OF assms(1)] by blast
    show "Suc a \<le> u64_max" by (rule assms(2))
    have a: "sw_active_seq w = a" by (rule wal_holdsD(3) [OF assms(1)])
    show "sw_dir w' = open_new_segment (Suc a) now (sw_dir (wal_flush w))" "sw_active_seq w' = Suc a" "sw_base w' = HEADER_SIZE"
      "sw_tail w' = []" "sw_active_size w' = 0"
      using assms(3) that a by (auto simp: handle_maybe_seal_def Let_def split: if_splits)
  qed
  moreover have "res = None \<Longrightarrow> w' = w" "res \<noteq> None \<Longrightarrow> res = Some a"
    using assms(3) wal_holdsD(3) [OF assms(1)] by (auto simp: handle_maybe_seal_def Let_def split: if_splits)
  ultimately show "case res of None \<Rightarrow> w' = w | Some s \<Rightarrow> s = a \<and> wal_holds ser deser w' (S(Suc a \<mapsto> [])) (Suc a) 0"
    by (cases res) auto
  obtain rs where rs: "S a = Some rs" "sw_active_size w = length (frames ser rs)"
    using wal_holdsD(8) [OF assms(1)] by blast
  have "length (frames ser rs) = 0 \<longleftrightarrow> rs = []" by (cases rs) (simp_all add: frame_def Let_def)
  then show "force \<Longrightarrow> res = None \<longleftrightarrow> S a = Some []"
    using assms(3) rs by (auto simp: handle_maybe_seal_def Let_def split: if_splits)
qed

lemma wal_delete_holds:
  assumes "wal_holds ser deser w S a m" and "s \<noteq> a"
  shows "wal_holds ser deser (delete_segment s w) (S(s := None)) a m"
proof -
  have f: "file_at (segment_path q) (delete_segment s w) = file_at (segment_path q) w" if "q \<noteq> s" for q
    using that by (simp add: file_at_def delete_segment_def delete_conv')
  then have "active_file (delete_segment s w) = active_file w"
    using assms wal_holdsD(3) [OF assms(1)] by (simp add: active_file_def delete_segment_def)
  then have "active_inv ser (delete_segment s w) rs m = active_inv ser w rs m" for rs
    by (simp add: active_inv_def delete_segment_def)
  moreover have "segment_path ` (dom S - {s}) = segment_path ` dom S - {segment_path s}" by auto
  ultimately show ?thesis using f assms unfolding wal_holds_def
    by (auto simp: delete_segment_def keys_delete distinct_delete)
qed

section \<open>Crash and restart\<close>

text \<open>
  A crash loses the task's fields and keeps the directory. What the active file then holds is a prefix
  of its records, with at least the flushed ones, followed by zeros or a torn frame.
\<close>

lemma crash_active:
  assumes "active_inv ser w rs m" and "\<forall>r \<in> set rs. codec_ok ser deser r"
  shows "\<exists>j. m \<le> j \<and> j \<le> length rs \<and> sealed_file ser deser (active_file w) (take j rs)"
proof -
  obtain hdr k where hk: "length hdr = HEADER_SIZE" "k \<le> length (frames ser rs)" "file_form ser hdr k (active_file w) rs m"
    "m \<le> length rs"
    using assms(1) unfolding active_inv_def by blast
  then consider (blocks) "active_file w = hdr @ take k (frames ser rs)" "length (frames ser (take m rs)) \<le> k"
    | (padded) j pad where "j \<le> length rs" "m \<le> j" "active_file w = hdr @ frames ser (take j rs) @ replicate pad 0"
    unfolding file_form_def by blast
  then show ?thesis
  proof cases
    case padded
    then show ?thesis using hk(1) unfolding sealed_file_def by blast
  next
    case blocks
    obtain j n where jn: "take k (frames ser rs) =
        frames ser (take j rs) @ (if j < length rs then take n (frame ser (rs ! j)) else [])"
      "j \<le> length rs" "j < length rs \<longrightarrow> n < length (frame ser (rs ! j))"
      using take_frames by blast
    have "m \<le> j"
    proof (rule ccontr)
      assume "\<not> m \<le> j"
      then have j: "j < m" "j < length rs" using hk(4) by auto
      have "length (frames ser (take (Suc j) rs)) \<le> k"
        using length_frames_mono [of "Suc j" m ser rs] j blocks(2) by simp
      moreover have "length (frames ser (take (Suc j) rs)) = length (frames ser (take j rs)) + length (frame ser (rs ! j))"
        using j(2) by (simp add: take_Suc_conv_app_nth)
      moreover have "k = length (take k (frames ser rs))" using hk(2) by simp
      then have "k = length (frames ser (take j rs)) + n" using jn j(2) by simp
      ultimately show False using jn(3) j(2) by simp
    qed
    moreover have "sealed_file ser deser (active_file w) (take j rs)"
    proof (cases "j < length rs")
      case True
      then have "codec_ok ser deser (rs ! j)" using assms(2) by simp
      moreover have "active_file w = hdr @ frames ser (take j rs) @ take n (frame ser (rs ! j))"
        using True jn(1) blocks(1) by simp
      ultimately show ?thesis using True jn(3) hk(1) unfolding sealed_file_def by blast
    next
      case False
      then show ?thesis using jn(1) hk(1) blocks(1) unfolding sealed_file_def
        by (intro exI [of _ hdr] exI [of _ "[]"]) (simp add: exI [of _ 0])
    qed
    ultimately show ?thesis using jn(2) by blast
  qed
qed

lemma restart_holds:
  assumes "wal_holds ser deser w S a m" and "S a = Some rs" and "Suc a \<le> u64_max"
  shows "\<exists>j. m \<le> j \<and> j \<le> length rs \<and>
           wal_holds ser deser (wal_new now (sw_dir w)) (S(a \<mapsto> take j rs, Suc a \<mapsto> [])) (Suc a) 0"
proof -
  have inv: "active_inv ser w rs m" using wal_holdsD(8) [OF assms(1)] assms(2) by auto
  have ok: "\<forall>r \<in> set rs. codec_ok ser deser r" by (rule wal_holdsD(6) [OF assms(1,2)])
  obtain j where j: "m \<le> j" "j \<le> length rs" "sealed_file ser deser (active_file w) (take j rs)"
    using crash_active [OF inv ok] by blast
  let ?S = "S(a \<mapsto> take j rs)"
  have dom: "dom ?S = dom S" using assms(2) by auto
  have fin: "finite (dom S)" by (rule wal_holds_finite [OF assms(1)])
  have "a \<in> dom S" using assms(2) by auto
  then have "Max (dom S) = a" using fin wal_holdsD(5) [OF assms(1)] by (intro Max_eqI) auto
  then have new: "sw_active_seq (wal_new now (sw_dir w)) = Suc a"
    "sw_dir (wal_new now (sw_dir w)) = open_new_segment (Suc a) now (sw_dir w)"
    using scan_holds [OF assms(1)] fin \<open>a \<in> dom S\<close> by (auto simp: wal_new_def Let_def)
  have "wal_holds ser deser (wal_new now (sw_dir w)) (?S(Suc a \<mapsto> [])) (Suc a) 0"
  proof (rule new_segment_holds)
    show "distinct (map fst (sw_dir w))" by (rule wal_holdsD(1) [OF assms(1)])
    show "fst ` set (sw_dir w) = segment_path ` dom ?S" unfolding dom by (rule wal_holdsD(2) [OF assms(1)])
    show "\<forall>s \<in> dom ?S. s \<le> a" unfolding dom using wal_holdsD(5) [OF assms(1)] by blast
    show "\<forall>s rs'. ?S s = Some rs' \<longrightarrow> (\<forall>r \<in> set rs'. codec_ok ser deser r)"
      using wal_holdsD(6) [OF assms(1)] ok by (auto dest: in_set_takeD split: if_splits)
    show "\<forall>s rs' f. ?S s = Some rs' \<longrightarrow> map_of (sw_dir w) (segment_path s) = Some f \<longrightarrow> sealed_file ser deser f rs'"
    proof (intro allI impI)
      fix s rs' f assume s: "?S s = Some rs'" "map_of (sw_dir w) (segment_path s) = Some f"
      have f: "f = file_at (segment_path s) w" using s(2) by (simp add: file_at_def)
      show "sealed_file ser deser f rs'"
      proof (cases "s = a")
        case True
        then show ?thesis using s j(3) f wal_holdsD(3) [OF assms(1)] by (simp add: active_file_def)
      next
        case False
        then show ?thesis using s f wal_holdsD(7) [OF assms(1)] by simp
      qed
    qed
  qed (use assms(3) new in \<open>simp_all add: wal_new_def Let_def\<close>)
  with j show ?thesis by blast
qed

lemma fresh_holds: "wal_holds ser deser (wal_new now []) [0 \<mapsto> []] 0 0"
proof -
  have new: "sw_dir (wal_new now []) = open_new_segment 0 now []" "sw_active_seq (wal_new now []) = 0"
    by (simp_all add: wal_new_def scan_segment_seqs_def List.map_filter_simps)
  then have "active_inv ser (wal_new now []) [] 0"
    by (intro new_segment_inv) (simp_all add: wal_new_def Let_def)
  with new show ?thesis unfolding wal_holds_def
    by (auto simp: open_new_segment_def wal_new_def Let_def split: if_splits)
qed

text \<open>What \<open>recover\<close> returns: the records of the sealed segments, oldest first.\<close>

lemma recover_loop_holds:
  assumes "wal_holds ser deser w S a m" and "set seqs \<subseteq> dom S"
  shows "\<exists>xs. recover_loop deser w seqs = Ok xs \<and>
           map fst xs = concat (map (\<lambda>s. the (S s)) (filter (\<lambda>s. s \<noteq> a) seqs))"
  using assms(2)
proof (induction seqs)
  case (Cons s seqs)
  obtain ys where ys: "recover_loop deser w seqs = Ok ys"
    "map fst ys = concat (map (\<lambda>s. the (S s)) (filter (\<lambda>s. s \<noteq> a) seqs))"
    using Cons by auto
  show ?case
  proof (cases "s = a")
    case True
    with ys wal_holdsD(3) [OF assms(1)] show ?thesis by simp
  next
    case False
    obtain rs where rs: "S s = Some rs" using Cons.prems by auto
    have ok: "\<forall>r \<in> set rs. codec_ok ser deser r" by (rule wal_holdsD(6) [OF assms(1) rs])
    obtain xs where xs: "decode_bodies deser (located ser HEADER_SIZE rs) = Ok xs" "map (\<lambda>(off, len, r). r) xs = rs"
      using decode_located [OF ok, of HEADER_SIZE] by blast
    have "walk_frames (file_at (segment_path s) w) = located ser HEADER_SIZE rs"
      by (rule walk_sealed [OF ok wal_holdsD(7) [OF assms(1) rs False]])
    moreover have "map_of (sw_dir w) (segment_path s) = Some (file_at (segment_path s) w)"
      using map_of_file_at [OF assms(1), of s] rs by auto
    moreover have "map fst (map (\<lambda>(off, len, r). (r, \<lparr>wal_segment_seq = s, file_offset = off, frame_len = len mod 2 ^ 32\<rparr>)) xs) = rs"
      using xs(2) by (auto simp: comp_def split_beta)
    ultimately show ?thesis using False ys xs(1) rs wal_holdsD(3) [OF assms(1)] by simp
  qed
qed simp

lemma recover_holds:
  assumes "wal_holds ser deser w S a m"
  shows "\<exists>xs. recover deser w = Ok xs \<and> map fst xs = concat (map (\<lambda>s. the (S s)) (sorted_list_of_set (dom S - {a})))"
proof -
  have fin: "finite (dom S)" by (rule wal_holds_finite [OF assms])
  have "filter (\<lambda>s. s \<noteq> a) (sorted_list_of_set (dom S)) = sorted_list_of_set (dom S - {a})"
    using fin by (intro sorted_distinct_set_unique) (auto simp: sorted_wrt_filter)
  then show ?thesis
    using recover_loop_holds [OF assms, of "sorted_list_of_set (dom S)"] fin
    by (simp add: recover_def scan_holds [OF assms])
qed

section \<open>The SegmentedLog interface\<close>

text \<open>
  The trait the storage engine uses, as a record of its methods, and its contract: the log is a map
  from segment numbers to record lists with one active segment. \<open>holds w S a m\<close> says that the state \<open>w\<close>
  represents the segments \<open>S\<close> with \<open>a\<close> active and its first \<open>m\<close> records durable; \<open>reopen\<close> is a restart
  after a crash.
\<close>

record 'w log_ops =
  lg_append :: "wal_record \<Rightarrow> 'w \<Rightarrow> physical_location result \<times> 'w"
  lg_sync :: "'w \<Rightarrow> unit result \<times> 'w"
  lg_seal :: "nat \<Rightarrow> bool \<Rightarrow> 'w \<Rightarrow> nat option result \<times> 'w"
  lg_sealed_segments :: "'w \<Rightarrow> nat list result"
  lg_read_segment_records :: "nat \<Rightarrow> 'w \<Rightarrow> wal_record list result"
  lg_delete_segment :: "nat \<Rightarrow> 'w \<Rightarrow> unit result \<times> 'w"
  lg_recover :: "'w \<Rightarrow> (wal_record \<times> physical_location) list result"
  lg_reopen :: "nat \<Rightarrow> 'w \<Rightarrow> 'w"

type_synonym segments = "nat \<rightharpoonup> wal_record list"

locale segmented_log =
  fixes lg :: "'w log_ops" and holds :: "'w \<Rightarrow> segments \<Rightarrow> nat \<Rightarrow> nat \<Rightarrow> bool"
    and storable :: "wal_record \<Rightarrow> bool" and fsync :: bool
  assumes shape: "holds w S a m \<Longrightarrow> finite (dom S) \<and> a \<in> dom S \<and> (\<forall>s \<in> dom S. s \<le> a) \<and> m \<le> length (the (S a))"
    and append_log: "holds w S a m \<Longrightarrow> storable r \<Longrightarrow>
      \<exists>loc w'. lg_append lg r w = (Ok loc, w') \<and>
        holds w' (S(a \<mapsto> the (S a) @ [r])) a (if fsync then length (the (S a)) + 1 else m)"
    and sync_log: "holds w S a m \<Longrightarrow> \<exists>w'. lg_sync lg w = (Ok (), w') \<and> holds w' S a (length (the (S a)))"
    and seal_log: "holds w S a m \<Longrightarrow> Suc a \<le> u64_max \<Longrightarrow>
      \<exists>res w'. lg_seal lg now force w = (Ok res, w') \<and> (force \<longrightarrow> (res = None \<longleftrightarrow> S a = Some [])) \<and>
        (case res of None \<Rightarrow> holds w' S a m | Some s \<Rightarrow> s = a \<and> holds w' (S(Suc a \<mapsto> [])) (Suc a) 0)"
    and sealed_log: "holds w S a m \<Longrightarrow> lg_sealed_segments lg w = Ok (sorted_list_of_set (dom S - {a}))"
    and read_log: "holds w S a m \<Longrightarrow> S s = Some rs \<Longrightarrow> s \<noteq> a \<Longrightarrow> lg_read_segment_records lg s w = Ok rs"
    and delete_log: "holds w S a m \<Longrightarrow> s \<noteq> a \<Longrightarrow>
      \<exists>w'. lg_delete_segment lg s w = (Ok (), w') \<and> holds w' (S(s := None)) a m"
    and recover_log: "holds w S a m \<Longrightarrow>
      \<exists>xs. lg_recover lg w = Ok xs \<and> map fst xs = concat (map (\<lambda>s. the (S s)) (sorted_list_of_set (dom S - {a})))"
    and reopen_log: "holds w S a m \<Longrightarrow> Suc a \<le> u64_max \<Longrightarrow>
      \<exists>j. m \<le> j \<and> j \<le> length (the (S a)) \<and>
          holds (lg_reopen lg now w) (S(a \<mapsto> take j (the (S a)), Suc a \<mapsto> [])) (Suc a) 0"

definition segmented_ops ::
  "(wal_record \<Rightarrow> bytes) \<Rightarrow> (bytes \<Rightarrow> wal_record option) \<Rightarrow> wal_config \<Rightarrow> seg_wal log_ops" where
  "segmented_ops ser deser cfg =
     \<lparr>lg_append = (\<lambda>r w. let (loc, w') = wal_append ser cfg r w in (Ok loc, w')),
      lg_sync = (\<lambda>w. (Ok (), wal_sync w)),
      lg_seal = (\<lambda>now force w. let (res, w') = handle_maybe_seal cfg now force w in (Ok res, w')),
      lg_sealed_segments = (\<lambda>w. Ok (sealed_segments w)),
      lg_read_segment_records = read_segment_records deser,
      lg_delete_segment = (\<lambda>s w. (Ok (), delete_segment s w)),
      lg_recover = recover deser,
      lg_reopen = (\<lambda>now w. wal_new now (sw_dir w))\<rparr>"

interpretation wal_log: segmented_log
  "segmented_ops ser deser cfg" "wal_holds ser deser" "codec_ok ser deser" "wc_fsync_on_write cfg" for ser deser cfg
proof unfold_locales
  fix w S a m s rs now and force :: bool and r
  assume h: "wal_holds ser deser w S a m"
  obtain xs where xs: "S a = Some xs" "active_inv ser w xs m" using wal_holdsD(8) [OF h] by blast
  show "finite (dom S) \<and> a \<in> dom S \<and> (\<forall>s \<in> dom S. s \<le> a) \<and> m \<le> length (the (S a))"
    using wal_holds_finite [OF h] wal_holdsD(5) [OF h] xs by (auto simp: active_inv_def)
  show "\<exists>w'. lg_sync (segmented_ops ser deser cfg) w = (Ok (), w') \<and> wal_holds ser deser w' S a (length (the (S a)))"
    using flush_holds [OF h xs(1)] xs(1) by (simp add: segmented_ops_def wal_sync_def)
  show "lg_sealed_segments (segmented_ops ser deser cfg) w = Ok (sorted_list_of_set (dom S - {a}))"
    using sealed_segments_holds [OF h] by (simp add: segmented_ops_def)
  show "\<exists>xs. lg_recover (segmented_ops ser deser cfg) w = Ok xs \<and>
      map fst xs = concat (map (\<lambda>s. the (S s)) (sorted_list_of_set (dom S - {a})))"
    using recover_holds [OF h] by (simp add: segmented_ops_def)
  show "\<exists>loc w'. lg_append (segmented_ops ser deser cfg) r w = (Ok loc, w') \<and>
      wal_holds ser deser w' (S(a \<mapsto> the (S a) @ [r])) a (if wc_fsync_on_write cfg then length (the (S a)) + 1 else m)"
    if "codec_ok ser deser r"
  proof -
    obtain loc w' where e: "wal_append ser cfg r w = (loc, w')" by fastforce
    from append_holds [OF h that xs(1) e] xs(1) show ?thesis
      by (simp add: segmented_ops_def e split: if_splits)
  qed
  show "\<exists>res w'. lg_seal (segmented_ops ser deser cfg) now force w = (Ok res, w') \<and>
      (force \<longrightarrow> (res = None \<longleftrightarrow> S a = Some [])) \<and>
      (case res of None \<Rightarrow> wal_holds ser deser w' S a m | Some s \<Rightarrow> s = a \<and> wal_holds ser deser w' (S(Suc a \<mapsto> [])) (Suc a) 0)"
    if room: "Suc a \<le> u64_max"
  proof -
    obtain res w' where e: "handle_maybe_seal cfg now force w = (res, w')" by fastforce
    from seal_holds [OF h room e] h show ?thesis
      by (auto simp: segmented_ops_def e split: option.splits)
  qed
  show "lg_read_segment_records (segmented_ops ser deser cfg) s w = Ok rs" if "S s = Some rs" "s \<noteq> a"
    using read_segment_holds [OF h that] by (simp add: segmented_ops_def)
  show "\<exists>w'. lg_delete_segment (segmented_ops ser deser cfg) s w = (Ok (), w') \<and> wal_holds ser deser w' (S(s := None)) a m"
    if "s \<noteq> a"
    using wal_delete_holds [OF h that] by (simp add: segmented_ops_def)
  show "\<exists>j. m \<le> j \<and> j \<le> length (the (S a)) \<and> wal_holds ser deser (lg_reopen (segmented_ops ser deser cfg) now w)
      (S(a \<mapsto> take j (the (S a)), Suc a \<mapsto> [])) (Suc a) 0"
    if "Suc a \<le> u64_max"
    using restart_holds [OF h xs(1) that, of now] xs(1) by (simp add: segmented_ops_def)
qed

section \<open>Runs of the log\<close>

datatype log_action = LAppend wal_record | LSync | LSeal nat bool

primrec log_do :: "'w log_ops \<Rightarrow> log_action \<Rightarrow> 'w \<Rightarrow> 'w" where
  "log_do lg (LAppend r) w = snd (lg_append lg r w)"
| "log_do lg LSync w = snd (lg_sync lg w)"
| "log_do lg (LSeal now force) w = snd (lg_seal lg now force w)"

primrec appended :: "log_action list \<Rightarrow> wal_record list" where
  "appended [] = []"
| "appended (act # acts) = (case act of LAppend r \<Rightarrow> r # appended acts | _ \<Rightarrow> appended acts)"

definition sealed_records :: "segments \<Rightarrow> nat \<Rightarrow> wal_record list" where
  "sealed_records S a = concat (map (\<lambda>s. the (S s)) (sorted_list_of_set (dom S - {a})))"

definition all_records :: "segments \<Rightarrow> nat \<Rightarrow> wal_record list" where
  "all_records S a = sealed_records S a @ the (S a)"

text \<open>Segments only grow at their ends.\<close>

definition grows :: "segments \<Rightarrow> segments \<Rightarrow> bool" where
  "grows S S' \<longleftrightarrow> (\<forall>s rs. S s = Some rs \<longrightarrow> (\<exists>ys. S' s = Some (rs @ ys)))"

lemma grows_refl [simp]: "grows S S"
  by (simp add: grows_def)

lemma grows_trans: "grows S S' \<Longrightarrow> grows S' S'' \<Longrightarrow> grows S S''"
  unfolding grows_def by (metis append_assoc)

lemma grows_append: "a \<in> dom S \<Longrightarrow> grows S (S(a \<mapsto> the (S a) @ ys))"
  by (auto simp: grows_def)

lemma grows_new: "a \<notin> dom S \<Longrightarrow> grows S (S(a \<mapsto> ys))"
  by (auto simp: grows_def)

lemma appended_append [simp]: "appended (xs @ ys) = appended xs @ appended ys"
  by (induction xs) (simp_all split: log_action.splits)

lemma sealed_records_active: "sealed_records (S(a \<mapsto> rs)) a = sealed_records S a"
proof -
  have "set (sorted_list_of_set (dom S - {a})) \<subseteq> dom S - {a}"
    by (cases "finite (dom S - {a})") auto
  then have "map (\<lambda>s. the ((S(a \<mapsto> rs)) s)) (sorted_list_of_set (dom S - {a})) =
      map (\<lambda>s. the (S s)) (sorted_list_of_set (dom S - {a}))" by auto
  moreover have "dom (S(a \<mapsto> rs)) - {a} = dom S - {a}" by auto
  ultimately show ?thesis by (simp only: sealed_records_def)
qed

lemma sealed_records_new:
  assumes "finite (dom S)" and "a \<in> dom S" and "\<forall>s \<in> dom S. s \<le> a"
  shows "sealed_records (S(Suc a \<mapsto> [])) (Suc a) = all_records S a"
proof -
  have "Suc a \<notin> dom S" using assms(3) Suc_n_not_le_n by blast
  then have d: "dom (S(Suc a \<mapsto> [])) - {Suc a} = dom S" by auto
  have "sorted_list_of_set (dom S) = sorted_list_of_set (dom S - {a}) @ [a]"
    using assms by (intro sorted_distinct_set_unique) (auto simp: sorted_append)
  then have "concat (map (\<lambda>s. the (S s)) (sorted_list_of_set (dom S))) = all_records S a"
    by (simp add: all_records_def sealed_records_def)
  moreover have "map (\<lambda>s. the ((S(Suc a \<mapsto> [])) s)) (sorted_list_of_set (dom S)) = map (\<lambda>s. the (S s)) (sorted_list_of_set (dom S))"
    using \<open>Suc a \<notin> dom S\<close> assms(1) by auto
  ultimately show ?thesis by (simp only: sealed_records_def d)
qed

context segmented_log
begin

text \<open>
  One action appends its record to the sequence of all records, and never makes fewer of them
  durable.
\<close>

lemma log_do_holds:
  assumes h: "holds w S a m" and "Suc a \<le> u64_max" and "\<forall>r \<in> set (appended [act]). storable r"
  shows "\<exists>S' a' m'. holds (log_do lg act w) S' a' m' \<and> a' \<le> Suc a \<and>
           all_records S' a' = all_records S a @ appended [act] \<and>
           length (sealed_records S a) + m \<le> length (sealed_records S' a') + m' \<and>
           (act = LSync \<longrightarrow> length (sealed_records S' a') + m' = length (all_records S' a')) \<and>
           (fsync \<and> m = length (the (S a)) \<longrightarrow> m' = length (the (S' a'))) \<and> grows S S'"
proof (cases act)
  case (LAppend r)
  obtain loc w' where "lg_append lg r w = (Ok loc, w')"
    "holds w' (S(a \<mapsto> the (S a) @ [r])) a (if fsync then length (the (S a)) + 1 else m)"
    using append_log [OF h, of r] assms(3) LAppend by (auto split: if_splits)
  with LAppend shape [OF h] show ?thesis
    by (intro exI [of _ "S(a \<mapsto> the (S a) @ [r])"] exI [of _ a] exI [of _ "if fsync then length (the (S a)) + 1 else m"])
      (auto simp: sealed_records_active all_records_def grows_def)
next
  case LSync
  obtain w' where "lg_sync lg w = (Ok (), w')" "holds w' S a (length (the (S a)))" using sync_log [OF h] by blast
  with LSync shape [OF h] show ?thesis
    by (intro exI [of _ S] exI [of _ a] exI [of _ "length (the (S a))"]) (auto simp: all_records_def)
next
  case (LSeal now force)
  obtain res w' where res: "lg_seal lg now force w = (Ok res, w')"
    "case res of None \<Rightarrow> holds w' S a m | Some s \<Rightarrow> s = a \<and> holds w' (S(Suc a \<mapsto> [])) (Suc a) 0"
    using seal_log [OF h assms(2)] by blast
  show ?thesis
  proof (cases res)
    case None
    with res LSeal show ?thesis by (intro exI [of _ S] exI [of _ a] exI [of _ m]) auto
  next
    case (Some s)
    have "sealed_records (S(Suc a \<mapsto> [])) (Suc a) = all_records S a"
      using shape [OF h] by (intro sealed_records_new) auto
    moreover have "grows S (S(Suc a \<mapsto> []))" using shape [OF h] by (intro grows_new) (meson Suc_n_not_le_n)
    ultimately show ?thesis using Some res LSeal shape [OF h]
      by (intro exI [of _ "S(Suc a \<mapsto> [])"] exI [of _ "Suc a"] exI [of _ 0]) (auto simp: all_records_def)
  qed
qed

lemma log_run_holds:
  assumes "holds w S a m" and "a + length acts \<le> u64_max" and "\<forall>r \<in> set (appended acts). storable r"
  shows "\<exists>S' a' m'. holds (fold (log_do lg) acts w) S' a' m' \<and> a' \<le> a + length acts \<and>
           all_records S' a' = all_records S a @ appended acts \<and>
           length (sealed_records S a) + m \<le> length (sealed_records S' a') + m' \<and>
           (fsync \<and> m = length (the (S a)) \<longrightarrow> m' = length (the (S' a'))) \<and> grows S S'"
  using assms
proof (induction acts arbitrary: w S a m)
  case Nil
  then show ?case by (intro exI [of _ S] exI [of _ a] exI [of _ m]) simp
next
  case (Cons act acts)
  have "\<forall>r \<in> set (appended [act]). storable r" using Cons.prems(3) by (auto split: log_action.splits)
  then obtain S1 a1 m1 where s1: "holds (log_do lg act w) S1 a1 m1" "a1 \<le> Suc a"
    "all_records S1 a1 = all_records S a @ appended [act]"
    "length (sealed_records S a) + m \<le> length (sealed_records S1 a1) + m1"
    "fsync \<and> m = length (the (S a)) \<longrightarrow> m1 = length (the (S1 a1))" "grows S S1"
    using log_do_holds [OF Cons.prems(1), of act] Cons.prems(2) by auto
  have "\<forall>r \<in> set (appended acts). storable r" using Cons.prems(3) by (auto split: log_action.splits)
  then obtain S2 a2 m2 where s2: "holds (fold (log_do lg) acts (log_do lg act w)) S2 a2 m2" "a2 \<le> a1 + length acts"
    "all_records S2 a2 = all_records S1 a1 @ appended acts"
    "length (sealed_records S1 a1) + m1 \<le> length (sealed_records S2 a2) + m2"
    "fsync \<and> m1 = length (the (S1 a1)) \<longrightarrow> m2 = length (the (S2 a2))" "grows S1 S2"
    using Cons.IH [OF s1(1)] s1(2) Cons.prems(2) by auto
  have "all_records S2 a2 = all_records S a @ appended (act # acts)"
    using s1(3) s2(3) by (simp split: log_action.splits)
  moreover have "grows S S2" using s1(6) s2(6) by (rule grows_trans)
  ultimately show ?case using s1 s2 by (intro exI [of _ S2] exI [of _ a2] exI [of _ m2]) auto
qed

lemma reopen_recovers:
  assumes "holds w S a m" and "Suc a \<le> u64_max"
  shows "\<exists>n xs. length (sealed_records S a) + m \<le> n \<and> n \<le> length (all_records S a) \<and>
           lg_recover lg (lg_reopen lg now w) = Ok xs \<and> map fst xs = take n (all_records S a)"
proof -
  obtain j where j: "m \<le> j" "j \<le> length (the (S a))"
    "holds (lg_reopen lg now w) (S(a \<mapsto> take j (the (S a)), Suc a \<mapsto> [])) (Suc a) 0"
    using reopen_log [OF assms] by blast
  let ?S = "S(a \<mapsto> take j (the (S a)))"
  have "sealed_records (?S(Suc a \<mapsto> [])) (Suc a) = all_records ?S a"
    using shape [OF assms(1)] by (intro sealed_records_new) auto
  also have "\<dots> = sealed_records S a @ take j (the (S a))" by (simp add: all_records_def sealed_records_active)
  also have "\<dots> = take (length (sealed_records S a) + j) (all_records S a)" by (simp add: all_records_def)
  finally have "concat (map (\<lambda>s. the ((?S(Suc a \<mapsto> [])) s)) (sorted_list_of_set (dom (?S(Suc a \<mapsto> [])) - {Suc a}))) =
      take (length (sealed_records S a) + j) (all_records S a)" by (simp only: sealed_records_def)
  with recover_log [OF j(3)] j(1,2) show ?thesis
    by (intro exI [of _ "length (sealed_records S a) + j"]) (auto simp: all_records_def)
qed

end

section \<open>Properties\<close>

text \<open>
  C5. Durability of the write-ahead log. Take any sequence of appends, syncs and seals on a new log,
  with a sync somewhere in it, and crash at the end of it: the directory is kept, the unflushed tail is
  lost. Then the restarted log recovers, in order and without error, a prefix of all appended records that
  contains every record appended before the sync; with \<open>fsync_on_write\<close> it recovers all of them.
\<close>

theorem wal_durability:
  assumes "\<forall>r \<in> set (appended (acts @ acts')). codec_ok ser deser r" and "length acts + length acts' + 2 \<le> u64_max"
  shows "let w = fold (log_do (segmented_ops ser deser cfg)) (acts @ LSync # acts') (wal_new t0 []) in
         \<exists>n xs. length (appended acts) \<le> n \<and> n \<le> length (appended (acts @ acts')) \<and>
           (wc_fsync_on_write cfg \<longrightarrow> n = length (appended (acts @ acts'))) \<and>
           recover deser (wal_new now (sw_dir w)) = Ok xs \<and> map fst xs = take n (appended (acts @ acts'))"
proof -
  let ?lg = "segmented_ops ser deser cfg"
  have start: "all_records [0 \<mapsto> []] 0 = []" "length (the ([0 \<mapsto> []] 0)) = 0"
    by (simp_all add: all_records_def sealed_records_def)
  have ok: "\<forall>r \<in> set (appended acts). codec_ok ser deser r" "\<forall>r \<in> set (appended acts'). codec_ok ser deser r"
    and len: "length acts \<le> u64_max" using assms by auto
  obtain S1 a1 m1 where s1: "wal_holds ser deser (fold (log_do ?lg) acts (wal_new t0 [])) S1 a1 m1" "a1 \<le> length acts"
    "all_records S1 a1 = appended acts" "wc_fsync_on_write cfg \<longrightarrow> m1 = length (the (S1 a1))"
    using wal_log.log_run_holds [OF fresh_holds [of ser deser t0] _ ok(1), of cfg] len start by auto
  have len1: "Suc a1 \<le> u64_max" using s1(2) assms(2) by linarith
  let ?w1 = "log_do ?lg LSync (fold (log_do ?lg) acts (wal_new t0 []))"
  obtain S2 a2 m2 where s2: "wal_holds ser deser ?w1 S2 a2 m2" "a2 \<le> Suc a1" "all_records S2 a2 = all_records S1 a1 @ appended [LSync]"
    "LSync = LSync \<longrightarrow> length (sealed_records S2 a2) + m2 = length (all_records S2 a2)"
    "wc_fsync_on_write cfg \<and> m1 = length (the (S1 a1)) \<longrightarrow> m2 = length (the (S2 a2))"
    using wal_log.log_do_holds [OF s1(1) len1, of LSync cfg] by (fastforce del: impI)
  have len2: "a2 + length acts' \<le> u64_max" using s1(2) s2(2) assms(2) by linarith
  let ?w = "fold (log_do ?lg) acts' ?w1"
  obtain S3 a3 m3 where s3: "wal_holds ser deser ?w S3 a3 m3" "a3 \<le> a2 + length acts'"
    "all_records S3 a3 = all_records S2 a2 @ appended acts'"
    "length (sealed_records S2 a2) + m2 \<le> length (sealed_records S3 a3) + m3"
    "wc_fsync_on_write cfg \<and> m2 = length (the (S2 a2)) \<longrightarrow> m3 = length (the (S3 a3))"
    using wal_log.log_run_holds [OF s2(1) len2 ok(2), of cfg] by (elim exE conjE) (rule that, assumption+)
  have "Suc a3 \<le> u64_max" using s1(2) s2(2) s3(2) assms(2) by linarith
  from wal_log.reopen_recovers [OF s3(1) this, of cfg now] obtain n xs where
    n: "length (sealed_records S3 a3) + m3 \<le> n" "n \<le> length (all_records S3 a3)"
      "recover deser (wal_new now (sw_dir ?w)) = Ok xs" "map fst xs = take n (all_records S3 a3)"
    by (auto simp: segmented_ops_def)
  have all: "all_records S3 a3 = appended (acts @ acts')" using s3(3) s2(3) s1(3) by simp
  have "length (appended acts) \<le> n" using n(1) s3(4) s2(3,4) s1(3) by simp
  moreover have "n = length (appended (acts @ acts'))" if "wc_fsync_on_write cfg"
    using that n(1,2) s1(4) s2(5) s3(5) arg_cong [OF all, of length] by (simp add: all_records_def)
  moreover have "fold (log_do ?lg) (acts @ LSync # acts') (wal_new t0 []) = ?w" by simp
  ultimately show ?thesis using n all unfolding Let_def by (metis (no_types, lifting))
qed

definition wal_sample :: "nat \<Rightarrow> wal_record" where
  "wal_sample off = \<lparr>wr_tp = TopicPartition ''t'' 0, wr_offset = off,
     wr_record = \<lparr>rec_key = None, rec_value = [1, 2], rec_headers = [], rec_timestamp = 0\<rparr>, wr_crc32 = 0\<rparr>"

definition wal_sample_ser :: "wal_record \<Rightarrow> bytes" where
  "wal_sample_ser r = [of_nat (wr_offset r), 9]"

definition wal_sample_de :: "bytes \<Rightarrow> wal_record option" where
  "wal_sample_de b = (if length b = 2 \<and> b ! 1 = 9 then Some (wal_sample (unat (b ! 0))) else None)"

lemma wal_sample_ok:
  assumes "off < 256"
  shows "codec_ok wal_sample_ser wal_sample_de (wal_sample off)"
proof -
  have "unat (of_nat off :: 8 word) = off" using assms by (simp add: unat_of_nat)
  then show ?thesis by (simp add: codec_ok_def wal_sample_ser_def wal_sample_de_def wal_sample_def)
qed

definition wal_sample_config :: wal_config where
  "wal_sample_config = \<lparr>wc_fsync_on_write = False, wc_segment_size_bytes = 64, wc_upload_interval_ms = 1000\<rparr>"

theorem wal_durability_witness:
  "let w = fold (log_do (segmented_ops wal_sample_ser wal_sample_de wal_sample_config))
             ([LAppend (wal_sample 3), LSeal 5 True, LAppend (wal_sample 4)] @ LSync # [LAppend (wal_sample 5)]) (wal_new 0 []) in
   \<exists>n xs. 2 \<le> n \<and> n \<le> 3 \<and> recover wal_sample_de (wal_new 9 (sw_dir w)) = Ok xs \<and>
     map fst xs = take n [wal_sample 3, wal_sample 4, wal_sample 5]"
proof -
  let ?a = "[LAppend (wal_sample 3), LSeal 5 True, LAppend (wal_sample 4)]" and ?b = "[LAppend (wal_sample 5)]"
  have ok: "\<forall>r \<in> set (appended (?a @ ?b)). codec_ok wal_sample_ser wal_sample_de r" by (simp add: wal_sample_ok)
  have len: "length ?a + length ?b + 2 \<le> u64_max" by simp
  have ap: "appended ?a = [wal_sample 3, wal_sample 4]" "appended (?a @ ?b) = [wal_sample 3, wal_sample 4, wal_sample 5]"
    by simp_all
  define w where "w = fold (log_do (segmented_ops wal_sample_ser wal_sample_de wal_sample_config)) (?a @ LSync # ?b) (wal_new 0 [])"
  from wal_durability [OF ok len, of wal_sample_config 0 9] obtain n xs where
    "length [wal_sample 3, wal_sample 4] \<le> n" "n \<le> length [wal_sample 3, wal_sample 4, wal_sample 5]"
    "recover wal_sample_de (wal_new 9 (sw_dir w)) = Ok xs" "map fst xs = take n [wal_sample 3, wal_sample 4, wal_sample 5]"
    unfolding Let_def ap w_def [symmetric] by (elim exE conjE) (rule that)
  then show ?thesis unfolding Let_def w_def [symmetric] by (intro exI [of _ n] exI [of _ xs]) simp
qed

lemma flushed_file:
  assumes "wal_holds ser deser w S a (length (the (S a)))" and "S s = Some rs"
  shows "\<exists>hdr rest. length hdr = HEADER_SIZE \<and> file_at (segment_path s) w = hdr @ frames ser rs @ rest"
proof (cases "s = a")
  case True
  obtain hdr k where "length hdr = HEADER_SIZE" "file_form ser hdr k (active_file w) rs (length rs)"
    using wal_holdsD(8) [OF assms(1)] assms(2) True unfolding active_inv_def by auto
  moreover from this have "\<exists>rest. active_file w = hdr @ frames ser rs @ rest"
    unfolding file_form_def by auto
  ultimately show ?thesis using True wal_holdsD(3) [OF assms(1)] by (auto simp: active_file_def)
next
  case False
  from wal_holdsD(7) [OF assms False] show ?thesis unfolding sealed_file_def by blast
qed

lemma read_at_holds:
  assumes h: "wal_holds ser deser w S a m" and s: "S s = Some rs" and i: "i < length rs"
  shows "fst (wal_read_at s (HEADER_SIZE + length (frames ser (take i rs)) + 8) (length (ser (rs ! i))) w) = Ok (ser (rs ! i))"
proof -
  obtain xs where xs: "S a = Some xs" using wal_holdsD(8) [OF h] by blast
  have h': "wal_holds ser deser (wal_flush w) S a (length (the (S a)))" using flush_holds [OF h xs] xs by simp
  obtain hdr rest where f: "length hdr = HEADER_SIZE" "file_at (segment_path s) (wal_flush w) = hdr @ frames ser rs @ rest"
    using flushed_file [OF h' s] by blast
  have "rs = take i rs @ rs ! i # drop (Suc i) rs" using i by (rule id_take_nth_drop)
  then have "frames ser rs = frames ser (take i rs) @ frame ser (rs ! i) @ frames ser (drop (Suc i) rs)"
    by (metis concat.simps(2) concat_append list.simps(9) map_append)
  with f have "file_at (segment_path s) (wal_flush w) =
      (hdr @ frames ser (take i rs) @ le_bytes 8 (length (ser (rs ! i)))) @ ser (rs ! i) @ frames ser (drop (Suc i) rs) @ rest"
    by (simp add: frame_def Let_def)
  moreover have "length (hdr @ frames ser (take i rs) @ le_bytes 8 (length (ser (rs ! i)))) =
      HEADER_SIZE + length (frames ser (take i rs)) + 8" using f(1) by simp
  moreover have "map_of (sw_dir (wal_flush w)) (segment_path s) = Some (file_at (segment_path s) (wal_flush w))"
    using map_of_file_at [OF h'] s by blast
  ultimately show ?thesis by (simp add: wal_read_at_def wal_sync_def Let_def)
qed

text \<open>
  C30. Physical locations stay readable. The location that an append returns (segment number, byte
  offset of the body and its length) reads back exactly the encoded record, however many appends, syncs,
  block writes and seals happen before the append and between the append and the read.
\<close>

theorem wal_location_readable:
  assumes "\<forall>r' \<in> set (appended (acts @ LAppend r # acts')). codec_ok ser deser r'" and "length (ser r) < 2 ^ 32"
    and "length acts + length acts' + 2 \<le> u64_max"
  shows "let lg = segmented_ops ser deser cfg; w = fold (log_do lg) acts (wal_new t0 []);
             (loc, w') = wal_append ser cfg r w
         in fst (wal_read_at (wal_segment_seq loc) (file_offset loc) (frame_len loc) (fold (log_do lg) acts' w')) = Ok (ser r)"
proof -
  let ?lg = "segmented_ops ser deser cfg" and ?w = "fold (log_do (segmented_ops ser deser cfg)) acts (wal_new t0 [])"
  have ok: "\<forall>r \<in> set (appended acts). codec_ok ser deser r" "codec_ok ser deser r" "\<forall>r \<in> set (appended acts'). codec_ok ser deser r"
    and len: "0 + length acts \<le> u64_max" using assms by auto
  obtain S1 a1 m1 where s1: "wal_holds ser deser ?w S1 a1 m1" "a1 \<le> 0 + length acts"
    using wal_log.log_run_holds [OF fresh_holds [of ser deser t0] len ok(1), of cfg] by blast
  obtain rs where rs: "S1 a1 = Some rs" "active_inv ser ?w rs m1" using wal_holdsD(8) [OF s1(1)] by blast
  obtain loc w' where app: "wal_append ser cfg r ?w = (loc, w')" by fastforce
  note h = append_holds [OF s1(1) ok(2) rs(1) app] and loc = append_inv(4) [OF rs(2) app]
  have len2: "a1 + length acts' \<le> u64_max" using s1(2) assms(3) by linarith
  obtain S2 a2 m2 where s2: "wal_holds ser deser (fold (log_do ?lg) acts' w') S2 a2 m2" "grows (S1(a1 \<mapsto> rs @ [r])) S2"
    using wal_log.log_run_holds [OF h len2 ok(3), of cfg] by blast
  obtain ys where ys: "S2 a1 = Some ((rs @ [r]) @ ys)" using s2(2) unfolding grows_def by (metis fun_upd_same)
  have "fst (wal_read_at a1 (HEADER_SIZE + length (frames ser rs) + 8) (length (ser r)) (fold (log_do ?lg) acts' w')) = Ok (ser r)"
    using read_at_holds [OF s2(1) ys, of "length rs"] by simp
  then show ?thesis using app loc assms(2) wal_holdsD(3) [OF s1(1)] by (simp add: Let_def)
qed

theorem wal_location_readable_witness:
  "let lg = segmented_ops wal_sample_ser wal_sample_de wal_sample_config;
       w = fold (log_do lg) [LAppend (wal_sample 3), LSync] (wal_new 0 []);
       (loc, w') = wal_append wal_sample_ser wal_sample_config (wal_sample 4) w
   in fst (wal_read_at (wal_segment_seq loc) (file_offset loc) (frame_len loc)
        (fold (log_do lg) [LSeal 5 True, LAppend (wal_sample 5)] w')) = Ok [4, 9]"
proof -
  let ?a = "[LAppend (wal_sample 3), LSync]" and ?r = "wal_sample 4" and ?b = "[LSeal 5 True, LAppend (wal_sample 5)]"
  have ok: "\<forall>r \<in> set (appended (?a @ LAppend ?r # ?b)). codec_ok wal_sample_ser wal_sample_de r" by (simp add: wal_sample_ok)
  have len: "length (wal_sample_ser ?r) < 2 ^ 32" "length ?a + length ?b + 2 \<le> u64_max" by (simp_all add: wal_sample_ser_def)
  have ser: "wal_sample_ser ?r = [4, 9]" by (simp add: wal_sample_ser_def wal_sample_def)
  from wal_location_readable [OF ok len, of wal_sample_config 0, unfolded ser] show ?thesis .
qed

lemma walk_torn_over_zeros:
  assumes ok: "\<forall>r \<in> set rs. codec_ok ser deser r" "codec_ok ser deser r" and hdr: "length hdr = HEADER_SIZE"
    and n: "n \<le> length (ser r)" "length (ser r) \<le> n + pad"
  shows "walk_frames (hdr @ frames ser rs @ le_bytes 8 (length (ser r)) @ take n (ser r) @ replicate pad 0) =
         located ser HEADER_SIZE rs @
           [(HEADER_SIZE + length (frames ser rs) + 8, take n (ser r) @ replicate (length (ser r) - n) 0)]"
proof -
  let ?b = "take n (ser r) @ replicate (length (ser r) - n) 0" and ?pre = "hdr @ frames ser rs"
  let ?rest = "replicate (pad - (length (ser r) - n)) 0 :: bytes"
  have pad: "replicate pad 0 = replicate (length (ser r) - n) 0 @ ?rest"
    using n by (simp add: replicate_add [symmetric])
  have bl: "length ?b = length (ser r)" using n by simp
  have fr: "frame (\<lambda>_. ?b) r = le_bytes 8 (length (ser r)) @ ?b" using bl by (simp add: frame_def Let_def)
  have cb: "codec_ok (\<lambda>_. ?b) (\<lambda>_. Some r) r" using ok(2) bl by (auto simp: codec_ok_def)
  have buf: "hdr @ frames ser rs @ le_bytes 8 (length (ser r)) @ take n (ser r) @ replicate pad 0 = ?pre @ frame (\<lambda>_. ?b) r @ ?rest"
    by (simp only: fr pad append_assoc)
  have "walk_loop (?pre @ frame (\<lambda>_. ?b) r @ ?rest) HEADER_SIZE [] =
      walk_loop (?pre @ frame (\<lambda>_. ?b) r @ ?rest) (length ?pre) (located ser HEADER_SIZE rs)"
    using walk_located [OF ok(1), of hdr "frame (\<lambda>_. ?b) r @ ?rest" "[]"] hdr by simp
  also have "\<dots> = walk_loop ((?pre @ frame (\<lambda>_. ?b) r) @ ?rest) (length (?pre @ frame (\<lambda>_. ?b) r))
      (located ser HEADER_SIZE rs @ [(length ?pre + 8, ?b)])"
    using walk_frame [OF cb, of ?pre ?rest] by simp
  also have "\<dots> = located ser HEADER_SIZE rs @ [(length ?pre + 8, ?b)]" by (rule walk_zeros)
  finally show ?thesis using hdr by (simp add: walk_frames_def buf)
qed

lemma decode_bodies_fail:
  assumes "\<forall>r \<in> set rs. codec_ok ser deser r" and "deser b = None"
  shows "decode_bodies deser (located ser pos rs @ [(off, b)]) = Err (Serialization ''bincode'')"
  using assms(1) by (induction rs arbitrary: pos) (auto simp: assms(2) codec_ok_def)

lemma recover_single_fail:
  assumes "decode_bodies deser (walk_frames f) = Err e"
  shows "recover deser (wal_new now [(segment_path 0, f)]) = Err e"
proof -
  have "scan_segment_seqs [(segment_path 0, f)] = [0]"
    by (simp add: scan_segment_seqs_def map_filter_simps parse_segment_path)
  then have new: "wal_new now [(segment_path 0, f)] = \<lparr>sw_dir = open_new_segment (Suc 0) now [(segment_path 0, f)], sw_base = HEADER_SIZE,
      sw_tail = [], sw_active_seq = Suc 0, sw_active_size = 0, sw_active_start = now, sw_needs_flush = False, sw_total_appends = 0\<rparr>"
    by (simp add: wal_new_def Let_def)
  have dir: "open_new_segment (Suc 0) now [(segment_path 0, f)] = [(segment_path 0, f), (segment_path (Suc 0), write_blocks 0 (build_header (Suc 0) now) [])]"
    by (simp add: open_new_segment_def)
  have "scan_segment_seqs (open_new_segment (Suc 0) now [(segment_path 0, f)]) = [0, Suc 0]"
    by (simp add: dir scan_segment_seqs_def map_filter_simps parse_segment_path)
  then show ?thesis unfolding recover_def new by (simp add: dir assms)
qed

text \<open>
  Frames carry no checksum, and a torn write is not always recognised. The records \<open>rs\<close> were synced,
  so their last block is padded with zeros; appending \<open>r\<close> rewrites that block, and the crash leaves the
  first bytes of the new block over the old one. If the cut is inside the body of \<open>r\<close>, the frame looks
  complete: recovery passes a body that was never appended to bincode, and where bincode rejects it the
  whole recovery fails, the synced records included.
\<close>

theorem torn_rewrite_blocks_recovery:
  assumes "\<forall>r' \<in> set rs. codec_ok ser deser r'" and "codec_ok ser deser r" and "length hdr = HEADER_SIZE"
    and "n < length (ser r)" and "length (frame ser r) \<le> pad"
    and "deser (take n (ser r) @ replicate (length (ser r) - n) 0) = None"
  shows "let old = hdr @ frames ser rs @ replicate pad 0;
             new = hdr @ frames ser (rs @ [r]) @ replicate (pad - length (frame ser r)) 0;
             cut = length (hdr @ frames ser rs) + 8 + n
         in walk_frames old = located ser HEADER_SIZE rs \<and> walk_frames new = located ser HEADER_SIZE (rs @ [r]) \<and>
            recover deser (wal_new now [(segment_path 0, take cut new @ drop cut old)]) = Err (Serialization ''bincode'')"
proof -
  let ?old = "hdr @ frames ser rs @ replicate pad 0"
    and ?new = "hdr @ frames ser (rs @ [r]) @ replicate (pad - length (frame ser r)) 0"
    and ?cut = "length (hdr @ frames ser rs) + 8 + n"
  have sealed: "sealed_file ser deser ?old rs" "sealed_file ser deser ?new (rs @ [r])"
    using assms(3) by (auto simp: sealed_file_def)
  have torn: "take ?cut ?new @ drop ?cut ?old =
      hdr @ frames ser rs @ le_bytes 8 (length (ser r)) @ take n (ser r) @ replicate (pad - (8 + n)) 0"
    using assms(4) by (simp add: frame_def Let_def)
  have walk: "walk_frames (take ?cut ?new @ drop ?cut ?old) = located ser HEADER_SIZE rs @
      [(HEADER_SIZE + length (frames ser rs) + 8, take n (ser r) @ replicate (length (ser r) - n) 0)]"
    unfolding torn using assms by (intro walk_torn_over_zeros) auto
  have "recover deser (wal_new now [(segment_path 0, take ?cut ?new @ drop ?cut ?old)]) = Err (Serialization ''bincode'')"
    by (rule recover_single_fail) (simp only: walk decode_bodies_fail [OF assms(1,6)])
  with walk_sealed [OF assms(1) sealed(1)] walk_sealed [OF _ sealed(2)] assms(1,2) show ?thesis
    unfolding Let_def by simp
qed

theorem torn_rewrite_blocks_recovery_witness:
  "recover wal_sample_de (wal_new 0 [(segment_path 0,
     take (HEADER_SIZE + 19) (replicate HEADER_SIZE 0 @ frames wal_sample_ser [wal_sample 3, wal_sample 4] @ replicate 10 0) @
     drop (HEADER_SIZE + 19) (replicate HEADER_SIZE 0 @ frames wal_sample_ser [wal_sample 3] @ replicate 20 0))]) =
   Err (Serialization ''bincode'')"
proof -
  have pre: "\<forall>r' \<in> set [wal_sample 3]. codec_ok wal_sample_ser wal_sample_de r'" "codec_ok wal_sample_ser wal_sample_de (wal_sample 4)"
    "length (replicate HEADER_SIZE 0 :: bytes) = HEADER_SIZE" "1 < length (wal_sample_ser (wal_sample 4))"
    "length (frame wal_sample_ser (wal_sample 4)) \<le> 20"
    "wal_sample_de (take 1 (wal_sample_ser (wal_sample 4)) @ replicate (length (wal_sample_ser (wal_sample 4)) - 1) 0) = None"
    by (simp_all add: wal_sample_ok) (simp_all add: wal_sample_ser_def wal_sample_de_def)
  have len: "length (replicate HEADER_SIZE (0 :: 8 word) @ frames wal_sample_ser [wal_sample 3]) + 8 + 1 = HEADER_SIZE + 19"
    "20 - length (frame wal_sample_ser (wal_sample 4)) = 10"
    by (simp_all add: wal_sample_ser_def)
  have app: "[wal_sample 3] @ [wal_sample 4] = [wal_sample 3, wal_sample 4]" by simp
  from torn_rewrite_blocks_recovery [OF pre, of 0, unfolded Let_def len app] show ?thesis by blast
qed

end
