(* ===== verification/Lru_Cache.thy ===== *)
theory Lru_Cache
  imports RMQ_Types
begin

text \<open>
  \<open>src/storage/cache.rs\<close>: the \<open>Cache\<close> interface of \<open>storage/traits.rs\<close> as a record of methods with its
  contract as a locale, the sharded \<open>LruCache\<close>, which implements it, and the two-level
  \<open>CacheManager\<close>. The hash function of the standard library and the clock readings are arguments.
  \<open>MokaCacheAdapter\<close> only forwards to the moka library and is not modelled.
\<close>

section \<open>The Cache interface\<close>

record 'c cache_ops =
  ch_get :: "nat \<Rightarrow> string \<Rightarrow> 'c \<Rightarrow> bytes option result \<times> 'c"
  ch_put :: "nat \<Rightarrow> string \<Rightarrow> bytes \<Rightarrow> 'c \<Rightarrow> unit result \<times> 'c"
  ch_remove :: "string \<Rightarrow> 'c \<Rightarrow> unit result \<times> 'c"
  ch_clear :: "'c \<Rightarrow> unit result \<times> 'c"
  ch_size :: "'c \<Rightarrow> nat result"

text \<open>
  The contract: a cache may forget, but it returns only what was put last. \<open>view\<close> is what it holds.
\<close>

locale cache =
  fixes ch :: "'c cache_ops" and view :: "'c \<Rightarrow> string \<rightharpoonup> bytes" and inv :: "'c \<Rightarrow> bool"
  assumes get_view: "inv c \<Longrightarrow> \<exists>c'. ch_get ch now k c = (Ok (view c k), c') \<and> view c' = view c \<and> inv c'"
    and put_view: "inv c \<Longrightarrow> \<exists>c'. ch_put ch now k v c = (Ok (), c') \<and> view c' \<subseteq>\<^sub>m (view c)(k \<mapsto> v) \<and> inv c'"
    and remove_view: "inv c \<Longrightarrow> \<exists>c'. ch_remove ch k c = (Ok (), c') \<and> view c' = (view c)(k := None) \<and> inv c'"
    and clear_view: "inv c \<Longrightarrow> \<exists>c'. ch_clear ch c = (Ok (), c') \<and> view c' = Map.empty \<and> inv c'"

datatype cache_call = CGet nat string | CPut nat string bytes | CRemove string | CClear

primrec cache_do :: "'c cache_ops \<Rightarrow> cache_call \<Rightarrow> 'c \<Rightarrow> 'c" where
  "cache_do ch (CGet now k) c = snd (ch_get ch now k c)"
| "cache_do ch (CPut now k v) c = snd (ch_put ch now k v c)"
| "cache_do ch (CRemove k) c = snd (ch_remove ch k c)"
| "cache_do ch CClear c = snd (ch_clear ch c)"

text \<open>The map that the calls would build with unlimited space.\<close>

primrec last_put :: "cache_call \<Rightarrow> (string \<rightharpoonup> bytes) \<Rightarrow> (string \<rightharpoonup> bytes)" where
  "last_put (CGet now k) m = m"
| "last_put (CPut now k v) m = m(k \<mapsto> v)"
| "last_put (CRemove k) m = m(k := None)"
| "last_put CClear m = Map.empty"

context cache
begin

lemma cache_do_view:
  assumes "inv c" and "view c \<subseteq>\<^sub>m m"
  shows "inv (cache_do ch call c) \<and> view (cache_do ch call c) \<subseteq>\<^sub>m last_put call m"
proof (cases call)
  case (CGet now k)
  then show ?thesis using get_view [OF assms(1), of now k] assms(2) by auto
next
  case (CPut now k v)
  obtain c' where "ch_put ch now k v c = (Ok (), c')" "view c' \<subseteq>\<^sub>m (view c)(k \<mapsto> v)" "inv c'"
    using put_view [OF assms(1)] by blast
  moreover have "(view c)(k \<mapsto> v) \<subseteq>\<^sub>m m(k \<mapsto> v)" using assms(2) by (auto simp: map_le_def)
  ultimately show ?thesis using CPut by (auto intro: map_le_trans)
next
  case (CRemove k)
  then show ?thesis using remove_view [OF assms(1), of k] assms(2) by (auto simp: map_le_def dom_def)
next
  case CClear
  then show ?thesis using clear_view [OF assms(1)] by auto
qed

lemma cache_run_view:
  assumes "inv c" and "view c \<subseteq>\<^sub>m m"
  shows "inv (fold (cache_do ch) calls c) \<and> view (fold (cache_do ch) calls c) \<subseteq>\<^sub>m fold last_put calls m"
  using assms
proof (induction calls arbitrary: c m)
  case (Cons call calls)
  then show ?case using cache_do_view [OF Cons.prems, of call] by (metis fold_simps(2))
qed simp

lemma cache_run_get:
  assumes "inv c" and "view c = Map.empty" and "fst (ch_get ch now k (fold (cache_do ch) calls c)) = Ok (Some v)"
  shows "fold last_put calls Map.empty k = Some v"
proof -
  have r: "inv (fold (cache_do ch) calls c)" "view (fold (cache_do ch) calls c) \<subseteq>\<^sub>m fold last_put calls Map.empty"
    using cache_run_view [of c Map.empty calls] assms(1,2) by auto
  then have "view (fold (cache_do ch) calls c) k = Some v"
    using get_view [OF r(1), of now k] assms(3) by auto
  with r(2) show ?thesis unfolding map_le_def by (metis domI)
qed

end

section \<open>The LRU cache\<close>

record cache_entry =
  ce_data :: bytes
  ce_last_accessed :: nat
  ce_access_count :: nat

record lru_shard =
  sh_entries :: "(string \<times> cache_entry) list"
  sh_order :: "string list"
  sh_current_size :: nat
  sh_max_size_bytes :: nat

record lru_cache =
  lc_shards :: "lru_shard list"
  lc_shard_count :: nat

definition shard_new :: "nat \<Rightarrow> lru_shard" where
  "shard_new mx = \<lparr>sh_entries = [], sh_order = [], sh_current_size = 0, sh_max_size_bytes = mx\<rparr>"

abbreviation (input) SHARD_COUNT :: nat where
  "SHARD_COUNT \<equiv> 16"

definition lru_new :: "nat \<Rightarrow> lru_cache" where
  "lru_new max_size_bytes =
     \<lparr>lc_shards = map (\<lambda>_. shard_new (max_size_bytes div SHARD_COUNT)) [0..<SHARD_COUNT], lc_shard_count = SHARD_COUNT\<rparr>"

text \<open>The loop of \<open>evict_if_needed\<close>: pop keys from the front of the order until the new entry fits.\<close>

fun evict_loop ::
  "nat \<Rightarrow> nat \<Rightarrow> string list \<Rightarrow> (string \<times> cache_entry) list \<Rightarrow> nat \<Rightarrow>
   string list \<times> (string \<times> cache_entry) list \<times> nat" where
  "evict_loop mx sz [] entries cur = ([], entries, cur)"
| "evict_loop mx sz (k # ks) entries cur =
     (if cur + sz > mx then
        (case map_of entries k of
           Some e \<Rightarrow> evict_loop mx sz ks (AList.delete k entries) (cur - length (ce_data e))
         | None \<Rightarrow> evict_loop mx sz ks entries cur)
      else (k # ks, entries, cur))"

definition evict_if_needed :: "nat \<Rightarrow> lru_shard \<Rightarrow> lru_shard" where
  "evict_if_needed new_entry_size sh =
     (let (order, entries, cur) = evict_loop (sh_max_size_bytes sh) new_entry_size (sh_order sh) (sh_entries sh) (sh_current_size sh)
      in sh\<lparr>sh_order := order, sh_entries := entries, sh_current_size := cur\<rparr>)"

definition shard_index :: "(string \<Rightarrow> nat) \<Rightarrow> string \<Rightarrow> lru_cache \<Rightarrow> nat" where
  "shard_index hash key c = hash key mod lc_shard_count c"

definition get_shard :: "(string \<Rightarrow> nat) \<Rightarrow> string \<Rightarrow> lru_cache \<Rightarrow> lru_shard" where
  "get_shard hash key c = lc_shards c ! shard_index hash key c"

definition put_shard :: "(string \<Rightarrow> nat) \<Rightarrow> string \<Rightarrow> lru_shard \<Rightarrow> lru_cache \<Rightarrow> lru_cache" where
  "put_shard hash key sh c = c\<lparr>lc_shards := (lc_shards c)[shard_index hash key c := sh]\<rparr>"

definition shard_get :: "nat \<Rightarrow> string \<Rightarrow> lru_shard \<Rightarrow> bytes option \<times> lru_shard" where
  "shard_get now key sh =
     (case map_of (sh_entries sh) key of
        Some entry \<Rightarrow>
          (Some (ce_data entry),
           sh\<lparr>sh_entries := AList.update key (entry\<lparr>ce_last_accessed := now, ce_access_count := ce_access_count entry + 1\<rparr>) (sh_entries sh),
              sh_order := remove1 key (sh_order sh) @ [key]\<rparr>)
      | None \<Rightarrow> (None, sh))"

definition shard_put :: "nat \<Rightarrow> string \<Rightarrow> bytes \<Rightarrow> lru_shard \<Rightarrow> lru_shard" where
  "shard_put now key value sh =
     (let entry_size = length value;
          sh1 = evict_if_needed entry_size sh;
          sh2 = (case map_of (sh_entries sh1) key of
                   Some old_entry \<Rightarrow> sh1\<lparr>sh_current_size := sh_current_size sh1 - length (ce_data old_entry)\<rparr>
                 | None \<Rightarrow> sh1\<lparr>sh_order := sh_order sh1 @ [key]\<rparr>);
          entry = \<lparr>ce_data = value, ce_last_accessed = now, ce_access_count = 1\<rparr>
      in sh2\<lparr>sh_current_size := sh_current_size sh2 + entry_size, sh_entries := AList.update key entry (sh_entries sh2)\<rparr>)"

definition shard_remove :: "string \<Rightarrow> lru_shard \<Rightarrow> lru_shard" where
  "shard_remove key sh =
     (case map_of (sh_entries sh) key of
        Some entry \<Rightarrow> sh\<lparr>sh_entries := AList.delete key (sh_entries sh), sh_current_size := sh_current_size sh - length (ce_data entry)\<rparr>
      | None \<Rightarrow> sh)"

definition shard_clear :: "lru_shard \<Rightarrow> lru_shard" where
  "shard_clear sh = sh\<lparr>sh_entries := [], sh_order := [], sh_current_size := 0\<rparr>"

definition lru_get :: "(string \<Rightarrow> nat) \<Rightarrow> nat \<Rightarrow> string \<Rightarrow> lru_cache \<Rightarrow> bytes option result \<times> lru_cache" where
  "lru_get hash now key c =
     (let (v, sh) = shard_get now key (get_shard hash key c) in (Ok v, put_shard hash key sh c))"

definition lru_put :: "(string \<Rightarrow> nat) \<Rightarrow> nat \<Rightarrow> string \<Rightarrow> bytes \<Rightarrow> lru_cache \<Rightarrow> unit result \<times> lru_cache" where
  "lru_put hash now key value c =
     (Ok (), put_shard hash key (shard_put now key value (get_shard hash key c)) c)"

definition lru_remove :: "(string \<Rightarrow> nat) \<Rightarrow> string \<Rightarrow> lru_cache \<Rightarrow> unit result \<times> lru_cache" where
  "lru_remove hash key c = (Ok (), put_shard hash key (shard_remove key (get_shard hash key c)) c)"

definition lru_clear :: "lru_cache \<Rightarrow> unit result \<times> lru_cache" where
  "lru_clear c = (Ok (), c\<lparr>lc_shards := map shard_clear (lc_shards c)\<rparr>)"

definition lru_size :: "lru_cache \<Rightarrow> nat result" where
  "lru_size c = Ok (sum_list (map (\<lambda>sh. length (sh_entries sh)) (lc_shards c)))"

definition lru_ops :: "(string \<Rightarrow> nat) \<Rightarrow> lru_cache cache_ops" where
  "lru_ops hash = \<lparr>ch_get = lru_get hash, ch_put = lru_put hash, ch_remove = lru_remove hash, ch_clear = lru_clear, ch_size = lru_size\<rparr>"

section \<open>The shards account for their contents\<close>

text \<open>
  The counter of a shard is the total length of its entries, every entry can be found by the
  eviction, and the budget is kept unless a single entry is larger than it.
\<close>

definition entry_bytes :: "(string \<times> cache_entry) list \<Rightarrow> nat" where
  "entry_bytes es = weight (\<lambda>e. length (ce_data e)) es"

definition shard_wf :: "lru_shard \<Rightarrow> bool" where
  "shard_wf sh \<longleftrightarrow> distinct (map fst (sh_entries sh)) \<and> fst ` set (sh_entries sh) \<subseteq> set (sh_order sh) \<and>
     sh_current_size sh = entry_bytes (sh_entries sh)"

definition shard_bounded :: "lru_shard \<Rightarrow> bool" where
  "shard_bounded sh \<longleftrightarrow> sh_current_size sh \<le> sh_max_size_bytes sh \<or> length (sh_entries sh) \<le> 1"

definition shard_view :: "lru_shard \<Rightarrow> string \<rightharpoonup> bytes" where
  "shard_view sh k = map_option ce_data (map_of (sh_entries sh) k)"

lemma entry_bytes_delete:
  "distinct (map fst es) \<Longrightarrow> map_of es k = Some e \<Longrightarrow> entry_bytes (AList.delete k es) = entry_bytes es - length (ce_data e)"
  using weight_delete [of es "\<lambda>e. length (ce_data e)" k] by (simp add: entry_bytes_def)

lemma entry_bytes_update:
  "distinct (map fst es) \<Longrightarrow> entry_bytes (AList.update k e es) =
     entry_bytes es - (case map_of es k of None \<Rightarrow> 0 | Some x \<Rightarrow> length (ce_data x)) + length (ce_data e) \<and>
     (case map_of es k of None \<Rightarrow> 0 | Some x \<Rightarrow> length (ce_data x)) \<le> entry_bytes es"
  using weight_update [of es "\<lambda>e. length (ce_data e)" k e] weight_delete [of es "\<lambda>e. length (ce_data e)" k]
  by (auto simp: entry_bytes_def split: option.splits)

lemma evict_loop_spec:
  assumes "distinct (map fst es)" and "fst ` set es \<subseteq> set order" and "cur = entry_bytes es"
    and "evict_loop mx sz order es cur = (order', es', cur')"
  shows "distinct (map fst es') \<and> fst ` set es' \<subseteq> set order' \<and> cur' = entry_bytes es' \<and>
    map_of es' \<subseteq>\<^sub>m map_of es \<and> (cur' + sz \<le> mx \<or> es' = [])"
  using assms
proof (induction mx sz order es cur rule: evict_loop.induct)
  case (2 mx sz k ks es cur)
  consider (keep) "\<not> cur + sz > mx" | (gone) "cur + sz > mx" "map_of es k = None"
    | (found) e where "cur + sz > mx" "map_of es k = Some e" by (cases "map_of es k") auto
  then show ?case
  proof cases
    case gone
    then have "k \<notin> fst ` set es" by (simp add: map_of_eq_None_iff)
    then have "fst ` set es \<subseteq> set ks" using 2(4) by auto
    with gone 2(3,5,6) have "distinct (map fst es') \<and> fst ` set es' \<subseteq> set order' \<and> cur' = entry_bytes es' \<and>
        map_of es' \<subseteq>\<^sub>m map_of es \<and> (cur' + sz \<le> mx \<or> es' = [])"
      by (intro 2(1)) simp_all
    then show ?thesis .
  next
    case found
    let ?es = "AList.delete k es"
    have keys: "fst ` set ?es \<subseteq> set ks" using 2(4) by (auto simp: keys_delete)
    have "map_of ?es \<subseteq>\<^sub>m map_of es" by (auto simp: map_le_def delete_conv')
    then show ?thesis using 2(2) [OF found] found 2(3-6) keys
      by (auto simp: entry_bytes_delete distinct_delete intro: map_le_trans)
  qed (use 2 in auto)
qed auto

lemma evict_wf:
  assumes "shard_wf sh"
  shows "shard_wf (evict_if_needed sz sh)" and "shard_view (evict_if_needed sz sh) \<subseteq>\<^sub>m shard_view sh"
    and "sh_current_size (evict_if_needed sz sh) + sz \<le> sh_max_size_bytes sh \<or> sh_entries (evict_if_needed sz sh) = []"
    and "sh_max_size_bytes (evict_if_needed sz sh) = sh_max_size_bytes sh"
proof -
  obtain order es cur where e:
    "evict_loop (sh_max_size_bytes sh) sz (sh_order sh) (sh_entries sh) (sh_current_size sh) = (order, es, cur)"
    by (metis prod_cases3)
  have s: "distinct (map fst es)" "fst ` set es \<subseteq> set order" "cur = entry_bytes es"
    "map_of es \<subseteq>\<^sub>m map_of (sh_entries sh)" "cur + sz \<le> sh_max_size_bytes sh \<or> es = []"
    using evict_loop_spec [OF _ _ _ e] assms by (auto simp: shard_wf_def)
  have ev: "evict_if_needed sz sh = sh\<lparr>sh_order := order, sh_entries := es, sh_current_size := cur\<rparr>"
    by (simp add: evict_if_needed_def e)
  show "shard_wf (evict_if_needed sz sh)" using s(1-3) by (simp add: ev shard_wf_def)
  show "shard_view (evict_if_needed sz sh) \<subseteq>\<^sub>m shard_view sh"
    using s(4) by (auto simp: ev map_le_def shard_view_def dom_def)
  show "sh_current_size (evict_if_needed sz sh) + sz \<le> sh_max_size_bytes sh \<or> sh_entries (evict_if_needed sz sh) = []"
    "sh_max_size_bytes (evict_if_needed sz sh) = sh_max_size_bytes sh"
    using s(5) by (simp_all add: ev)
qed

lemma shard_put_wf:
  assumes "shard_wf sh"
  shows "shard_wf (shard_put now k v sh)" and "shard_view (shard_put now k v sh) \<subseteq>\<^sub>m (shard_view sh)(k \<mapsto> v)"
    and "shard_bounded (shard_put now k v sh)"
    and "sh_max_size_bytes (shard_put now k v sh) = sh_max_size_bytes sh"
proof -
  let ?sh = "evict_if_needed (length v) sh"
  let ?e = "\<lparr>ce_data = v, ce_last_accessed = now, ce_access_count = 1\<rparr>"
  let ?old = "case map_of (sh_entries ?sh) k of None \<Rightarrow> 0 | Some x \<Rightarrow> length (ce_data x)"
  note ev = evict_wf [OF assms, of "length v"]
  have put: "sh_entries (shard_put now k v sh) = AList.update k ?e (sh_entries ?sh)"
    "sh_current_size (shard_put now k v sh) = sh_current_size ?sh - ?old + length v"
    "set (sh_order (shard_put now k v sh)) \<supseteq> set (sh_order ?sh) \<union> (if map_of (sh_entries ?sh) k = None then {k} else {})"
    "sh_max_size_bytes (shard_put now k v sh) = sh_max_size_bytes ?sh"
    by (auto simp: shard_put_def Let_def split: option.splits)
  have d: "distinct (map fst (sh_entries ?sh))" and c: "sh_current_size ?sh = entry_bytes (sh_entries ?sh)"
    and o: "fst ` set (sh_entries ?sh) \<subseteq> set (sh_order ?sh)"
    using ev(1) by (simp_all add: shard_wf_def)
  have "map_of (sh_entries ?sh) k \<noteq> None \<Longrightarrow> k \<in> set (sh_order ?sh)"
    using o by (auto simp: map_of_eq_None_iff)
  then have "fst ` set (sh_entries (shard_put now k v sh)) \<subseteq> set (sh_order (shard_put now k v sh))"
    using o put(3) by (auto simp: put(1) keys_update split: if_splits)
  then show "shard_wf (shard_put now k v sh)"
    using entry_bytes_update [OF d, of k ?e] d by (simp add: shard_wf_def put(1,2) c distinct_update)
  show "shard_view (shard_put now k v sh) \<subseteq>\<^sub>m (shard_view sh)(k \<mapsto> v)"
    using ev(2) by (auto simp: map_le_def shard_view_def put(1) update_conv' dom_def)
  show "sh_max_size_bytes (shard_put now k v sh) = sh_max_size_bytes sh" by (simp add: put(4) ev(4))
  show "shard_bounded (shard_put now k v sh)"
    using ev(3,4) by (auto simp: shard_bounded_def put)
qed

lemma remove1_covers: "set order - {k} \<subseteq> set (remove1 k order)"
  by (induction order) auto

lemma shard_get_wf:
  assumes "shard_wf sh" and "shard_get now k sh = (v, sh')"
  shows "v = shard_view sh k" and "shard_view sh' = shard_view sh" and "shard_wf sh'"
    and "shard_bounded sh \<Longrightarrow> shard_bounded sh'" and "sh_max_size_bytes sh' = sh_max_size_bytes sh"
proof -
  show "v = shard_view sh k" "sh_max_size_bytes sh' = sh_max_size_bytes sh"
    using assms(2) by (auto simp: shard_get_def shard_view_def split: option.splits)
  show "shard_view sh' = shard_view sh"
    using assms(2) by (auto simp: shard_get_def shard_view_def update_conv' fun_eq_iff split: option.splits)
  show "shard_wf sh'"
  proof (cases "map_of (sh_entries sh) k")
    case None
    with assms show ?thesis by (simp add: shard_get_def)
  next
    case (Some x)
    then have "k \<in> fst ` set (sh_entries sh)" by (metis domI dom_map_of_conv_image_fst)
    then have "fst ` set (AList.update k e (sh_entries sh)) \<subseteq> set (remove1 k (sh_order sh) @ [k])" for e
      unfolding keys_update using assms(1) remove1_covers [of "sh_order sh" k] by (auto simp: shard_wf_def)
    moreover have "sh' = sh\<lparr>sh_entries := AList.update k (x\<lparr>ce_last_accessed := now, ce_access_count := ce_access_count x + 1\<rparr>) (sh_entries sh),
        sh_order := remove1 k (sh_order sh) @ [k]\<rparr>" using assms(2) Some by (simp add: shard_get_def)
    ultimately show ?thesis using assms(1) Some
        entry_bytes_update [of "sh_entries sh" k "x\<lparr>ce_last_accessed := now, ce_access_count := ce_access_count x + 1\<rparr>"]
      by (simp add: shard_wf_def distinct_update del: set_append)
  qed
  show "shard_bounded sh \<Longrightarrow> shard_bounded sh'"
    using assms(2) by (auto simp: shard_get_def shard_bounded_def rev_image_eqI length_update_same split: option.splits dest: map_of_SomeD)
qed

lemma shard_remove_wf:
  assumes "shard_wf sh"
  shows "shard_view (shard_remove k sh) = (shard_view sh)(k := None)" and "shard_wf (shard_remove k sh)"
    and "shard_bounded sh \<Longrightarrow> shard_bounded (shard_remove k sh)"
    and "sh_max_size_bytes (shard_remove k sh) = sh_max_size_bytes sh"
  using assms
  by (auto simp: shard_remove_def shard_view_def shard_wf_def shard_bounded_def delete_conv' fun_eq_iff
      entry_bytes_delete distinct_delete keys_delete split: option.splits
      intro: le_trans [OF length_delete_le] diff_le_self [THEN le_trans])

section \<open>The LRU cache is a cache\<close>

definition lru_wf :: "lru_cache \<Rightarrow> bool" where
  "lru_wf c \<longleftrightarrow> 0 < lc_shard_count c \<and> length (lc_shards c) = lc_shard_count c \<and> list_all shard_wf (lc_shards c)"

definition lru_view :: "(string \<Rightarrow> nat) \<Rightarrow> lru_cache \<Rightarrow> string \<rightharpoonup> bytes" where
  "lru_view hash c k = shard_view (get_shard hash k c) k"

lemma lru_wf_shard: "lru_wf c \<Longrightarrow> shard_wf (get_shard hash k c)"
  by (simp add: lru_wf_def get_shard_def shard_index_def list_all_length)

lemma lru_wf_put_shard: "lru_wf c \<Longrightarrow> shard_wf sh \<Longrightarrow> lru_wf (put_shard hash k sh c)"
  by (auto simp: lru_wf_def put_shard_def list_all_iff dest: set_update_subset_insert [THEN subsetD])

lemma get_put_shard:
  "lru_wf c \<Longrightarrow> get_shard hash k' (put_shard hash k sh c) =
     (if shard_index hash k' c = shard_index hash k c then sh else get_shard hash k' c)"
  by (auto simp: lru_wf_def get_shard_def put_shard_def shard_index_def)

lemma lru_view_put:
  "lru_wf c \<Longrightarrow> lru_view hash (put_shard hash k sh c) k' =
     (if shard_index hash k' c = shard_index hash k c then shard_view sh k' else lru_view hash c k')"
  by (simp add: lru_view_def get_put_shard)

lemma lru_view_same:
  "shard_index hash k' c = shard_index hash k c \<Longrightarrow> lru_view hash c k' = shard_view (get_shard hash k c) k'"
  by (simp add: lru_view_def get_shard_def)

lemma lru_view_put_shard:
  assumes "lru_wf c" and "shard_view sh \<subseteq>\<^sub>m (shard_view (get_shard hash k c))(k := v)"
  shows "lru_view hash (put_shard hash k sh c) \<subseteq>\<^sub>m (lru_view hash c)(k := v)"
  unfolding map_le_def
proof
  fix a assume a: "a \<in> dom (lru_view hash (put_shard hash k sh c))"
  show "lru_view hash (put_shard hash k sh c) a = ((lru_view hash c)(k := v)) a"
  proof (cases "shard_index hash a c = shard_index hash k c")
    case True
    then have "a \<in> dom (shard_view sh)" using a by (simp add: lru_view_put [OF assms(1)] dom_def)
    then have "shard_view sh a = ((shard_view (get_shard hash k c))(k := v)) a" using assms(2) unfolding map_le_def by blast
    then show ?thesis using True by (simp add: lru_view_put [OF assms(1)] lru_view_same [OF True])
  next
    case False
    then show ?thesis by (auto simp: lru_view_put [OF assms(1)])
  qed
qed

lemma lru_view_put_eq:
  assumes "lru_wf c" and "shard_view sh = (shard_view (get_shard hash k c))(k := v)"
  shows "lru_view hash (put_shard hash k sh c) = (lru_view hash c)(k := v)"
proof
  fix a
  show "lru_view hash (put_shard hash k sh c) a = ((lru_view hash c)(k := v)) a"
    using assms(2) lru_view_same [of hash a c k] by (auto simp: lru_view_put [OF assms(1)])
qed

interpretation lru: cache "lru_ops hash" "lru_view hash" lru_wf for hash
proof unfold_locales
  fix c now k v assume wf: "lru_wf c"
  note sh = lru_wf_shard [OF wf, of hash k]
  obtain r sh' where g: "shard_get now k (get_shard hash k c) = (r, sh')" by fastforce
  have "lru_view hash (put_shard hash k sh' c) = lru_view hash c"
    using lru_view_put_eq [OF wf, of sh' hash k "lru_view hash c k"] shard_get_wf(2) [OF sh g] by (auto simp: lru_view_def fun_eq_iff)
  moreover have "r = lru_view hash c k" using shard_get_wf(1) [OF sh g] by (simp add: lru_view_def)
  ultimately show "\<exists>c'. ch_get (lru_ops hash) now k c = (Ok (lru_view hash c k), c') \<and>
      lru_view hash c' = lru_view hash c \<and> lru_wf c'"
    using lru_wf_put_shard [OF wf shard_get_wf(3) [OF sh g]] by (simp add: lru_ops_def lru_get_def g)
  show "\<exists>c'. ch_put (lru_ops hash) now k v c = (Ok (), c') \<and> lru_view hash c' \<subseteq>\<^sub>m (lru_view hash c)(k \<mapsto> v) \<and> lru_wf c'"
    using lru_view_put_shard [OF wf shard_put_wf(2) [OF sh]] lru_wf_put_shard [OF wf shard_put_wf(1) [OF sh]]
    by (simp add: lru_ops_def lru_put_def)
  have "lru_view hash (put_shard hash k (shard_remove k (get_shard hash k c)) c) = (lru_view hash c)(k := None)"
    by (rule lru_view_put_eq [OF wf shard_remove_wf(1) [OF sh]])
  then show "\<exists>c'. ch_remove (lru_ops hash) k c = (Ok (), c') \<and> lru_view hash c' = (lru_view hash c)(k := None) \<and> lru_wf c'"
    using lru_wf_put_shard [OF wf shard_remove_wf(2) [OF sh]] by (simp add: lru_ops_def lru_remove_def)
  show "\<exists>c'. ch_clear (lru_ops hash) c = (Ok (), c') \<and> lru_view hash c' = Map.empty \<and> lru_wf c'"
    using wf by (auto simp: lru_ops_def lru_clear_def lru_wf_def lru_view_def get_shard_def shard_index_def shard_view_def
        shard_clear_def shard_wf_def entry_bytes_def list_all_iff)
qed

lemma lru_new_wf [simp]: "lru_wf (lru_new mx)"
  by (simp add: lru_wf_def lru_new_def shard_new_def shard_wf_def entry_bytes_def list_all_iff)

lemma lru_new_view [simp]: "lru_view hash (lru_new mx) = Map.empty"
  by (auto simp: lru_view_def lru_new_def get_shard_def shard_index_def shard_view_def shard_new_def fun_eq_iff)

text \<open>The budget, for every shard.\<close>

definition lru_bounded :: "nat \<Rightarrow> lru_cache \<Rightarrow> bool" where
  "lru_bounded mx c \<longleftrightarrow> list_all (\<lambda>sh. shard_bounded sh \<and> sh_max_size_bytes sh = mx) (lc_shards c)"

lemma lru_do_bounded:
  assumes "lru_wf c" and "lru_bounded mx c"
  shows "lru_bounded mx (cache_do (lru_ops hash) call c)"
proof -
  have old: "shard_bounded (get_shard hash k c) \<and> sh_max_size_bytes (get_shard hash k c) = mx" for k
    using assms by (simp add: lru_bounded_def lru_wf_def get_shard_def shard_index_def list_all_length)
  have put: "lru_bounded mx (put_shard hash k sh c)" if "shard_bounded sh" "sh_max_size_bytes sh = mx" for k sh
    using assms(2) that by (auto simp: lru_bounded_def put_shard_def list_all_iff dest: set_update_subset_insert [THEN subsetD])
  show ?thesis
  proof (cases call)
    case (CGet now k)
    obtain r sh' where g: "shard_get now k (get_shard hash k c) = (r, sh')" by fastforce
    note w = shard_get_wf(4,5) [OF lru_wf_shard [OF assms(1)] g]
    show ?thesis using put [of sh' k] w old [of k] by (simp add: CGet lru_ops_def lru_get_def g)
  next
    case (CPut now k v)
    note w = shard_put_wf(3,4) [OF lru_wf_shard [OF assms(1), of hash k], of now k v]
    show ?thesis using put [of "shard_put now k v (get_shard hash k c)" k] w old [of k] by (simp add: CPut lru_ops_def lru_put_def)
  next
    case (CRemove k)
    note w = shard_remove_wf(3,4) [OF lru_wf_shard [OF assms(1), of hash k], of k]
    show ?thesis using put [of "shard_remove k (get_shard hash k c)" k] w old [of k] by (simp add: CRemove lru_ops_def lru_remove_def)
  next
    case CClear
    then show ?thesis using assms(2) by (simp add: lru_ops_def lru_clear_def lru_bounded_def list_all_iff shard_clear_def shard_bounded_def)
  qed
qed

lemma lru_run_bounded:
  assumes "lru_wf c" and "lru_bounded mx c"
  shows "lru_bounded mx (fold (cache_do (lru_ops hash)) calls c)"
  using assms
proof (induction calls arbitrary: c)
  case (Cons call calls)
  have "lru_wf (cache_do (lru_ops hash) call c)" using lru.cache_do_view [OF Cons.prems(1) map_le_refl] by simp
  with lru_do_bounded [OF Cons.prems] show ?case by (simp add: Cons.IH)
qed simp

section \<open>The cache manager\<close>

record ('w, 'r) cache_manager =
  cm_write_cache :: 'w
  cm_read_cache :: 'r

definition serve_read ::
  "'w cache_ops \<Rightarrow> 'r cache_ops \<Rightarrow> nat \<Rightarrow> string \<Rightarrow> ('w, 'r) cache_manager \<Rightarrow> bytes option result \<times> ('w, 'r) cache_manager" where
  "serve_read wch rch now key m =
     (case ch_get wch now key (cm_write_cache m) of
        (Inl e, w) \<Rightarrow> (Err e, m\<lparr>cm_write_cache := w\<rparr>)
      | (Inr (Some data), w) \<Rightarrow> (Ok (Some data), m\<lparr>cm_write_cache := w\<rparr>)
      | (Inr None, w) \<Rightarrow>
          (case ch_get rch now key (cm_read_cache m) of
             (Inl e, r) \<Rightarrow> (Err e, m\<lparr>cm_write_cache := w, cm_read_cache := r\<rparr>)
           | (Inr v, r) \<Rightarrow> (Ok v, m\<lparr>cm_write_cache := w, cm_read_cache := r\<rparr>)))"

definition cache_write :: "'w cache_ops \<Rightarrow> nat \<Rightarrow> string \<Rightarrow> bytes \<Rightarrow> ('w, 'r) cache_manager \<Rightarrow> unit result \<times> ('w, 'r) cache_manager" where
  "cache_write wch now key data m = (let (res, w) = ch_put wch now key data (cm_write_cache m) in (res, m\<lparr>cm_write_cache := w\<rparr>))"

definition cache_read :: "'r cache_ops \<Rightarrow> nat \<Rightarrow> string \<Rightarrow> bytes \<Rightarrow> ('w, 'r) cache_manager \<Rightarrow> unit result \<times> ('w, 'r) cache_manager" where
  "cache_read rch now key data m = (let (res, r) = ch_put rch now key data (cm_read_cache m) in (res, m\<lparr>cm_read_cache := r\<rparr>))"

section \<open>Properties\<close>

text \<open>
  C31. The LRU cache never returns a stale value and keeps its budget. After any sequence of gets, puts,
  removals and clears on a new cache, a lookup finds nothing or the value of the last put of that key
  that was not removed since; in every shard the size counter is the total length of the entries, and it
  is within the shard's budget unless the shard holds a single entry.
\<close>

theorem lru_cache_correct:
  "let c = fold (cache_do (lru_ops hash)) calls (lru_new mx) in
         fst (lru_get hash now k c) \<in> {Ok None, Ok (fold last_put calls Map.empty k)} \<and>
         list_all (\<lambda>sh. sh_current_size sh = entry_bytes (sh_entries sh) \<and>
           (sh_current_size sh \<le> mx div 16 \<or> length (sh_entries sh) \<le> 1)) (lc_shards c)"
proof -
  define c where "c = fold (cache_do (lru_ops hash)) calls (lru_new mx)"
  have wf: "lru_wf c" "lru_view hash c \<subseteq>\<^sub>m fold last_put calls Map.empty"
    using lru.cache_run_view [of "lru_new mx" hash Map.empty calls] by (simp_all add: c_def)
  obtain c' where g: "lru_get hash now k c = (Ok (lru_view hash c k), c')"
    using lru.get_view [OF wf(1), of hash now k] by (auto simp: lru_ops_def)
  have "lru_view hash c k = None \<or> lru_view hash c k = fold last_put calls Map.empty k"
    using wf(2) by (cases "lru_view hash c k") (auto simp: map_le_def dom_def)
  then have "fst (lru_get hash now k c) \<in> {Ok None, Ok (fold last_put calls Map.empty k)}" by (auto simp: g)
  moreover have "lru_bounded (mx div 16) (lru_new mx)"
    by (simp add: lru_bounded_def lru_new_def shard_new_def shard_bounded_def list_all_iff)
  then have "lru_bounded (mx div 16) c" unfolding c_def by (intro lru_run_bounded) simp_all
  ultimately show ?thesis using wf(1) unfolding Let_def c_def [symmetric]
    by (auto simp: lru_bounded_def lru_wf_def list_all_iff shard_wf_def shard_bounded_def)
qed

lemma put_remove_round:
  assumes "sh_entries sh = []" and "sh_current_size sh = 0" and "length v \<le> sh_max_size_bytes sh"
  shows "shard_remove k (shard_put now k v sh) = sh\<lparr>sh_order := sh_order sh @ [k]\<rparr>"
proof -
  have "evict_loop (sh_max_size_bytes sh) (length v) (sh_order sh) [] 0 = (sh_order sh, [], 0)"
    using assms(3) by (cases "sh_order sh") simp_all
  then have "evict_if_needed (length v) sh = sh" using assms(1,2) by (simp add: evict_if_needed_def)
  then show ?thesis using assms(1,2) by (simp add: shard_put_def shard_remove_def Let_def)
qed

text \<open>
  \<open>remove\<close> leaves the key in the eviction order. After \<open>n\<close> rounds of putting and removing one key that fits the
  budget, the shard holds no entry and counts no bytes, but its order queue holds the key \<open>n\<close> times.
\<close>

theorem removed_keys_pile_up:
  assumes "length v \<le> mx"
  shows "((\<lambda>sh. shard_remove k (shard_put now k v sh)) ^^ n) (shard_new mx) =
         \<lparr>sh_entries = [], sh_order = replicate n k, sh_current_size = 0, sh_max_size_bytes = mx\<rparr>"
proof (induction n)
  case (Suc n)
  then show ?case using assms by (simp add: put_remove_round replicate_append_same)
qed (simp add: shard_new_def)

theorem removed_keys_pile_up_witness:
  "((\<lambda>sh. shard_remove ''k'' (shard_put 7 ''k'' [1, 2] sh)) ^^ 1000) (shard_new 64) =
   \<lparr>sh_entries = [], sh_order = replicate 1000 ''k'', sh_current_size = 0, sh_max_size_bytes = 64\<rparr>"
  by (rule removed_keys_pile_up) simp

end
