(* ===== verification/Partition_Store.thy ===== *)
theory Partition_Store
  imports Compaction Reservation Segmented_Wal Lru_Cache
begin

text \<open>
  \<open>src/storage/partition_store.rs\<close>: the storage engine that owns the write-ahead log, the index with
  the hot tier, the cold-index manifest, the upload manager and the read cache. Its collaborators are
  trait objects: here records of methods (\<open>log_ops\<close>, \<open>upload_ops\<close>, \<open>cache_ops\<close>) gathered in \<open>store_deps\<close>,
  so every operation is generic in them.

  The tiering loop is given twice: as the source has it (\<open>tier_segment\<close>, \<open>tier_once\<close>) and as a machine
  (\<open>tier_step\<close>) that performs one effect at a time, for the theory \<open>Tiered_Storage\<close> to interleave it with
  appends, reads, compactions and crashes.
\<close>

section \<open>Leadership\<close>

record leadership_state =
  ls_node_id :: string
  ls_epochs :: "(topic_partition \<times> nat) list"

definition leadership_new :: "string \<Rightarrow> leadership_state" where
  "leadership_new node_id = \<lparr>ls_node_id = node_id, ls_epochs = []\<rparr>"

definition leadership_set :: "topic_partition \<Rightarrow> nat \<Rightarrow> bool \<Rightarrow> leadership_state \<Rightarrow> leadership_state" where
  "leadership_set tp epoch is_leader ls =
     (if is_leader then ls\<lparr>ls_epochs := AList.update tp epoch (ls_epochs ls)\<rparr>
      else ls\<lparr>ls_epochs := AList.delete tp (ls_epochs ls)\<rparr>)"

definition current_epoch :: "leadership_state \<Rightarrow> topic_partition \<Rightarrow> nat option" where
  "current_epoch ls tp = map_of (ls_epochs ls) tp"

section \<open>The store\<close>

text \<open>
  \<open>sd_record_size\<close> is \<open>size_of::<WalRecord>()\<close>; \<open>sd_iter\<close> is the order in which the hash map of partition
  groups is iterated; \<open>sd_reservation\<close> is the reservation service, present together with an epoch source
  when fencing is on.
\<close>

record ('u, 'w, 'c, 'o) store_deps =
  sd_log :: "'w log_ops"
  sd_um :: "'u upload_ops"
  sd_cache :: "'c cache_ops"
  sd_codec :: store_codec
  sd_record_size :: nat
  sd_hot_cache_max_bytes :: nat
  sd_iter :: "(topic_partition \<times> wal_record list) list \<Rightarrow> (topic_partition \<times> wal_record list) list"
  sd_reservation :: "('o object_ops \<times> (bytes \<Rightarrow> reservation option)) option"

record ('u, 'w, 'c) partition_store = "'u cold_tier" +
  ps_wal :: 'w
  ps_cache :: 'c

definition mem_size :: "nat \<Rightarrow> wal_record \<Rightarrow> nat" where
  "mem_size record_size record =
     (let r = wr_record record;
          key = (case rec_key r of None \<Rightarrow> 0 | Some k \<Rightarrow> length k);
          headers = sum_list (map (\<lambda>h. length (hd_key h) + length (hd_value h)) (rec_headers r))
      in (record_size + length (rec_value r) + key + headers) mod 2 ^ 32)"

definition reindex_hot :: "nat \<Rightarrow> wal_record list \<Rightarrow> partition_index \<Rightarrow> partition_index" where
  "reindex_hot record_size records idx =
     fold (\<lambda>record. insert_hot (wr_tp record) (wr_offset record) record (mem_size record_size record)) records idx"

text \<open>
  \<open>new_with_fencing\<close>: cold ranges from the manifest, garbage collection of the orphan objects (best
  effort), hot records from the log. The store is usable when the result is \<open>Ok\<close>.
\<close>

definition store_new ::
  "('u, 'w, 'c, 'o) store_deps \<Rightarrow> 'w \<Rightarrow> 'u \<Rightarrow> 'c \<Rightarrow> bytes \<Rightarrow> unit result \<times> ('u, 'w, 'c) partition_store" where
  "store_new d wal objs ch manifest =
     (let (load_result, manifest') = load (sc_mde (sd_codec d)) (sc_crc (sd_codec d)) manifest;
          index = restore_cold (lr_live load_result) index_new;
          objs' = delete_sources (sd_um d) (lr_orphan_object_keys load_result) objs;
          st = \<lparr>ct_index = index, ct_objs = objs', ct_manifest = manifest', ps_wal = wal, ps_cache = ch\<rparr>
      in case lg_recover (sd_log d) wal of
           Inl e \<Rightarrow> (Err e, st)
         | Inr recovered \<Rightarrow> (Ok (), st\<lparr>ct_index := reindex_hot (sd_record_size d) (map fst recovered) index\<rparr>))"

definition soft_limit :: "('u, 'w, 'c, 'o) store_deps \<Rightarrow> nat" where
  "soft_limit d = (if sd_hot_cache_max_bytes d = 0 then u64_max else sd_hot_cache_max_bytes d div 5 * 4)"

text \<open>
  The waiting loop of \<open>await_capacity\<close>, given the sizes of the hot tier that its tests observe: whether
  one of them lets the append through.
\<close>

fun await_capacity :: "nat \<Rightarrow> nat \<Rightarrow> u64 list \<Rightarrow> bool" where
  "await_capacity mx incoming [] = (mx = 0 \<or> incoming \<ge> mx)"
| "await_capacity mx incoming (hb # later) =
     (if mx = 0 \<or> incoming \<ge> mx then True
      else if unat hb + incoming > mx then await_capacity mx incoming later else True)"

text \<open>\<open>append\<close> after its wait; the flag says that the tiering task was woken.\<close>

definition store_append ::
  "('u, 'w, 'c, 'o) store_deps \<Rightarrow> wal_record \<Rightarrow> ('u, 'w, 'c) partition_store \<Rightarrow>
   physical_location result \<times> bool \<times> ('u, 'w, 'c) partition_store" where
  "store_append d record st =
     (let tp = wr_tp record; offset = wr_offset record;
          st1 = st\<lparr>ct_index := insert_hot tp offset record (mem_size (sd_record_size d) record) (ct_index st)\<rparr>
      in case lg_append (sd_log d) record (ps_wal st1) of
           (Inr loc, w) \<Rightarrow> (Ok loc, unat (hot_bytes (ct_index st1)) \<ge> soft_limit d, st1\<lparr>ps_wal := w\<rparr>)
         | (Inl e, w) \<Rightarrow> (Err e, False, st1\<lparr>ps_wal := w, ct_index := remove_hot tp offset (ct_index st1)\<rparr>))"

definition store_next_offset :: "('u, 'w, 'c) partition_store \<Rightarrow> topic_partition \<Rightarrow> offset" where
  "store_next_offset st tp = next_offset (ct_index st) tp"

definition store_sync ::
  "('u, 'w, 'c, 'o) store_deps \<Rightarrow> ('u, 'w, 'c) partition_store \<Rightarrow> unit result \<times> ('u, 'w, 'c) partition_store" where
  "store_sync d st = (let (res, w) = lg_sync (sd_log d) (ps_wal st) in (res, st\<lparr>ps_wal := w\<rparr>))"

section \<open>Reading\<close>

text \<open>The loop that cuts the decoded records to about \<open>max_bytes\<close>, at least one record.\<close>

fun take_budget :: "nat \<Rightarrow> nat \<Rightarrow> wal_record list \<Rightarrow> wal_record list \<Rightarrow> nat \<Rightarrow> wal_record list" where
  "take_budget record_size max_bytes [] out bytes_acc = out"
| "take_budget record_size max_bytes (record # rest) out bytes_acc =
     (let sz = mem_size record_size record in
      if out \<noteq> [] \<and> bytes_acc + sz > max_bytes then out
      else take_budget record_size max_bytes rest (out @ [record]) (bytes_acc + sz))"

definition cache_key :: "topic_partition \<Rightarrow> offset \<Rightarrow> string" where
  "cache_key tp offset = show_tp tp @ '':'' @ show_nat offset"

text \<open>
  One round of the loop of \<open>read\<close>: \<open>None\<close> means that the object was not found and the loop goes on. \<open>later\<close>
  is what other tasks do to the store between the planning and the download.
\<close>

definition read_attempt ::
  "('u, 'w, 'c, 'o) store_deps \<Rightarrow> (('u, 'w, 'c) partition_store \<Rightarrow> ('u, 'w, 'c) partition_store) \<Rightarrow> bool \<Rightarrow> nat \<Rightarrow>
   topic_partition \<Rightarrow> offset \<Rightarrow> nat \<Rightarrow> ('u, 'w, 'c) partition_store \<Rightarrow>
   wal_record list result option \<times> ('u, 'w, 'c) partition_store" where
  "read_attempt d later allow_retry now tp offset max_bytes st0 =
     (case read_plan (ct_index st0) tp offset max_bytes of
        Hot records \<Rightarrow> (Some (Ok records), st0)
      | Empty \<Rightarrow> (Some (Ok []), st0)
      | Cold object_key _ _ \<Rightarrow>
          (let st = later st0; key = cache_key tp offset in
           case ch_get (sd_cache d) now key (ps_cache st) of
             (Inl e, c) \<Rightarrow> (Some (Err e), st\<lparr>ps_cache := c\<rparr>)
           | (Inr cached, c) \<Rightarrow>
               (case Option.bind cached (sc_de (sd_codec d)) of
                  Some records \<Rightarrow> (Some (Ok records), st\<lparr>ps_cache := c\<rparr>)
                | None \<Rightarrow>
                    (case um_download_segment (sd_um d) object_key (ct_objs st) of
                       Inr segment \<Rightarrow>
                         (case sc_de (sd_codec d) (ws_data segment) of
                            None \<Rightarrow> (Some (Err (Storage ''failed to decode cold segment'')), st\<lparr>ps_cache := c\<rparr>)
                          | Some all \<Rightarrow>
                              (let out = take_budget (sd_record_size d) max_bytes (filter (\<lambda>r. wr_offset r \<ge> offset) all) [] 0;
                                   (_, c') = ch_put (sd_cache d) now key (sc_ser (sd_codec d) out) c
                               in (Some (Ok out), st\<lparr>ps_cache := c'\<rparr>)))
                     | Inl (NotFound e) \<Rightarrow>
                         if allow_retry
                         then (let (_, c') = ch_remove (sd_cache d) key c in (None, st\<lparr>ps_cache := c'\<rparr>))
                         else (Some (Err (NotFound e)), st\<lparr>ps_cache := c\<rparr>)
                     | Inl e \<Rightarrow> (Some (Err e), st\<lparr>ps_cache := c\<rparr>)))))"

text \<open>\<open>read\<close>: a second round, planned anew, after a miss; \<open>later1\<close> and \<open>later2\<close> are the interferences.\<close>

definition store_read ::
  "('u, 'w, 'c, 'o) store_deps \<Rightarrow> (('u, 'w, 'c) partition_store \<Rightarrow> ('u, 'w, 'c) partition_store) \<Rightarrow>
   (('u, 'w, 'c) partition_store \<Rightarrow> ('u, 'w, 'c) partition_store) \<Rightarrow> nat \<Rightarrow>
   topic_partition \<Rightarrow> offset \<Rightarrow> nat \<Rightarrow> ('u, 'w, 'c) partition_store \<Rightarrow> wal_record list result \<times> ('u, 'w, 'c) partition_store" where
  "store_read d later1 later2 now tp offset max_bytes st =
     (case read_attempt d later1 True now tp offset max_bytes st of
        (Some res, st') \<Rightarrow> (res, st')
      | (None, st') \<Rightarrow>
          (case read_attempt d later2 False now tp offset max_bytes st' of
             (Some res, st'') \<Rightarrow> (res, st'')
           | (None, st'') \<Rightarrow> (Ok [], st'')))"

section \<open>Tiering\<close>

text \<open>
  A fence check sees this node's leadership table and the contents of the reservation store at that
  moment, which other nodes change. A group is checked before and after its upload.
\<close>

datatype fence_check = PreUpload | PostUpload

type_synonym 'o fence_view = "leadership_state \<times> 'o"

definition may_tier :: "('o object_ops \<times> (bytes \<Rightarrow> reservation option)) option \<Rightarrow> topic_partition \<Rightarrow> 'o fence_view \<Rightarrow> bool result" where
  "may_tier reservation tp v =
     (case reservation of
        Some (ops, dec) \<Rightarrow>
          (case current_epoch (fst v) tp of
             Some epoch \<Rightarrow> verify ops dec tp (ls_node_id (fst v)) epoch (snd v)
           | None \<Rightarrow> Ok False)
      | None \<Rightarrow> Ok True)"

definition group_records :: "wal_record list \<Rightarrow> (topic_partition \<times> wal_record list) list" where
  "group_records records =
     fold (\<lambda>record groups. AList.update (wr_tp record) (hm_entry [] groups (wr_tp record) @ [record]) groups) records []"

definition group_segment :: "store_codec \<Rightarrow> topic_partition \<Rightarrow> wal_record list \<Rightarrow> wal_segment" where
  "group_segment cod tp recs =
     (let data = sc_ser cod recs in
      \<lparr>ws_start_offset = wr_offset (hd recs), ws_end_offset = wr_offset (last recs) + 1, ws_size_bytes = length data,
       ws_data = data, ws_tp = tp\<rparr>)"

text \<open>The commit of an uploaded group: the manifest first, then the index.\<close>

definition tier_register ::
  "store_codec \<Rightarrow> wal_segment \<Rightarrow> string \<Rightarrow> ('u, 'w, 'c) partition_store \<Rightarrow> ('u, 'w, 'c) partition_store" where
  "tier_register cod seg key st =
     st\<lparr>ct_manifest := register (sc_mser cod) (sc_crc cod) (ws_tp seg) (ws_start_offset seg) (ws_end_offset seg) key
                         (ws_size_bytes seg) (ct_manifest st)\<rparr>"

definition tier_flip :: "wal_segment \<Rightarrow> string \<Rightarrow> ('u, 'w, 'c) partition_store \<Rightarrow> ('u, 'w, 'c) partition_store" where
  "tier_flip seg key st =
     st\<lparr>ct_index := flip_to_cold (ws_tp seg) (ws_start_offset seg) (ws_end_offset seg) key (ws_size_bytes seg) (ct_index st)\<rparr>"

fun tier_groups ::
  "('u, 'w, 'c, 'o) store_deps \<Rightarrow> (topic_partition \<Rightarrow> fence_check \<Rightarrow> 'o fence_view) \<Rightarrow>
   (topic_partition \<times> wal_record list) list \<Rightarrow> bool \<Rightarrow> ('u, 'w, 'c) partition_store \<Rightarrow> bool result \<times> ('u, 'w, 'c) partition_store" where
  "tier_groups d obs [] fenced_any st = (Ok fenced_any, st)"
| "tier_groups d obs ((tp, recs) # groups) fenced_any st =
     (case may_tier (sd_reservation d) tp (obs tp PreUpload) of
        Inl e \<Rightarrow> (Err e, st)
      | Inr False \<Rightarrow> tier_groups d obs groups True st
      | Inr True \<Rightarrow>
          (let segment = group_segment (sd_codec d) tp recs in
           case um_upload_segment (sd_um d) segment (ct_objs st) of
             (Inl e, u) \<Rightarrow> (Err e, st\<lparr>ct_objs := u\<rparr>)
           | (Inr object_key, u) \<Rightarrow>
               (let st1 = st\<lparr>ct_objs := u\<rparr> in
                case may_tier (sd_reservation d) tp (obs tp PostUpload) of
                  Inl e \<Rightarrow> (Err e, st1)
                | Inr False \<Rightarrow> tier_groups d obs groups True st1
                | Inr True \<Rightarrow>
                    tier_groups d obs groups fenced_any (tier_flip segment object_key (tier_register (sd_codec d) segment object_key st1)))))"

definition tier_segment ::
  "('u, 'w, 'c, 'o) store_deps \<Rightarrow> (topic_partition \<Rightarrow> fence_check \<Rightarrow> 'o fence_view) \<Rightarrow> nat \<Rightarrow>
   ('u, 'w, 'c) partition_store \<Rightarrow> unit result \<times> ('u, 'w, 'c) partition_store" where
  "tier_segment d obs seq st =
     (case lg_read_segment_records (sd_log d) seq (ps_wal st) of
        Inl e \<Rightarrow> (Err e, st)
      | Inr records \<Rightarrow>
          if records = []
          then (let (res, w) = lg_delete_segment (sd_log d) seq (ps_wal st) in (res, st\<lparr>ps_wal := w\<rparr>))
          else (case tier_groups d obs (sd_iter d (group_records records)) False st of
                  (Inl e, st') \<Rightarrow> (Err e, st')
                | (Inr True, st') \<Rightarrow> (Ok (), st')
                | (Inr False, st') \<Rightarrow>
                    (let (res, w) = lg_delete_segment (sd_log d) seq (ps_wal st') in (res, st'\<lparr>ps_wal := w\<rparr>))))"

fun tier_segments ::
  "('u, 'w, 'c, 'o) store_deps \<Rightarrow> (nat \<Rightarrow> topic_partition \<Rightarrow> fence_check \<Rightarrow> 'o fence_view) \<Rightarrow> nat list \<Rightarrow>
   ('u, 'w, 'c) partition_store \<Rightarrow> unit result \<times> ('u, 'w, 'c) partition_store" where
  "tier_segments d obs [] st = (Ok (), st)"
| "tier_segments d obs (seq # seqs) st =
     (case tier_segment d (obs seq) seq st of
        (Inl e, st') \<Rightarrow> (Err e, st')
      | (Inr _, st') \<Rightarrow> tier_segments d obs seqs st')"

definition tier_once ::
  "('u, 'w, 'c, 'o) store_deps \<Rightarrow> (nat \<Rightarrow> topic_partition \<Rightarrow> fence_check \<Rightarrow> 'o fence_view) \<Rightarrow> nat \<Rightarrow> bool \<Rightarrow>
   ('u, 'w, 'c) partition_store \<Rightarrow> unit result \<times> ('u, 'w, 'c) partition_store" where
  "tier_once d obs now force_seal st =
     (case lg_seal (sd_log d) now force_seal (ps_wal st) of
        (Inl e, w) \<Rightarrow> (Err e, st\<lparr>ps_wal := w\<rparr>)
      | (Inr _, w) \<Rightarrow>
          (let st1 = st\<lparr>ps_wal := w\<rparr> in
           case lg_sealed_segments (sd_log d) (ps_wal st1) of
             Inl e \<Rightarrow> (Err e, st1)
           | Inr seqs \<Rightarrow> tier_segments d obs seqs st1))"

text \<open>One turn of the loop of \<open>spawn_tiering_task\<close>: force a seal under memory pressure.\<close>

definition tiering_turn ::
  "('u, 'w, 'c, 'o) store_deps \<Rightarrow> (nat \<Rightarrow> topic_partition \<Rightarrow> fence_check \<Rightarrow> 'o fence_view) \<Rightarrow> nat \<Rightarrow>
   ('u, 'w, 'c) partition_store \<Rightarrow> ('u, 'w, 'c) partition_store" where
  "tiering_turn d obs now st =
     snd (tier_once d obs now (unat (hot_bytes (ct_index st)) \<ge> soft_limit d) st)"

section \<open>Tiering, one effect at a time\<close>

datatype tier_pc =
    TIdle
  | TSegments "nat list"
  | TGroups nat "(topic_partition \<times> wal_record list) list" bool "nat list"
  | TUploaded nat wal_segment string "(topic_partition \<times> wal_record list) list" bool "nat list"
  | TRegistered nat wal_segment string "(topic_partition \<times> wal_record list) list" bool "nat list"
  | TFinished "unit result"

fun tier_step ::
  "('u, 'w, 'c, 'o) store_deps \<Rightarrow> (nat \<Rightarrow> topic_partition \<Rightarrow> fence_check \<Rightarrow> 'o fence_view) \<Rightarrow>
   tier_pc \<times> ('u, 'w, 'c) partition_store \<Rightarrow> tier_pc \<times> ('u, 'w, 'c) partition_store" where
  "tier_step d obs (TIdle, st) = (TIdle, st)"
| "tier_step d obs (TFinished r, st) = (TFinished r, st)"
| "tier_step d obs (TSegments [], st) = (TFinished (Ok ()), st)"
| "tier_step d obs (TSegments (seq # seqs), st) =
     (case lg_read_segment_records (sd_log d) seq (ps_wal st) of
        Inl e \<Rightarrow> (TFinished (Err e), st)
      | Inr records \<Rightarrow> (TGroups seq (if records = [] then [] else sd_iter d (group_records records)) False seqs, st))"
| "tier_step d obs (TGroups seq [] True seqs, st) = (TSegments seqs, st)"
| "tier_step d obs (TGroups seq [] False seqs, st) =
     (let (res, w) = lg_delete_segment (sd_log d) seq (ps_wal st)
      in (case res of Inl e \<Rightarrow> TFinished (Err e) | Inr _ \<Rightarrow> TSegments seqs, st\<lparr>ps_wal := w\<rparr>))"
| "tier_step d obs (TGroups seq ((tp, recs) # groups) fenced seqs, st) =
     (case may_tier (sd_reservation d) tp (obs seq tp PreUpload) of
        Inl e \<Rightarrow> (TFinished (Err e), st)
      | Inr False \<Rightarrow> (TGroups seq groups True seqs, st)
      | Inr True \<Rightarrow>
          (let segment = group_segment (sd_codec d) tp recs in
           case um_upload_segment (sd_um d) segment (ct_objs st) of
             (Inl e, u) \<Rightarrow> (TFinished (Err e), st\<lparr>ct_objs := u\<rparr>)
           | (Inr key, u) \<Rightarrow> (TUploaded seq segment key groups fenced seqs, st\<lparr>ct_objs := u\<rparr>)))"
| "tier_step d obs (TUploaded seq segment key groups fenced seqs, st) =
     (case may_tier (sd_reservation d) (ws_tp segment) (obs seq (ws_tp segment) PostUpload) of
        Inl e \<Rightarrow> (TFinished (Err e), st)
      | Inr False \<Rightarrow> (TGroups seq groups True seqs, st)
      | Inr True \<Rightarrow> (TRegistered seq segment key groups fenced seqs, tier_register (sd_codec d) segment key st))"
| "tier_step d obs (TRegistered seq segment key groups fenced seqs, st) =
     (TGroups seq groups fenced seqs, tier_flip segment key st)"

text \<open>The machine run alone is the source's loop.\<close>

lemma group_segment_tp [simp]: "ws_tp (group_segment cod tp recs) = tp"
  by (simp add: group_segment_def Let_def)

definition runs_to :: "('a \<Rightarrow> 'a) \<Rightarrow> 'a \<Rightarrow> 'a \<Rightarrow> bool" where
  "runs_to f x y \<longleftrightarrow> (\<exists>k. (f ^^ k) x = y)"

lemma runs_to_refl [simp]: "runs_to f x x"
  unfolding runs_to_def by (rule exI [of _ 0]) simp

lemma runs_to_step: "runs_to f (f x) y \<Longrightarrow> runs_to f x y"
  unfolding runs_to_def by (metis comp_apply funpow_Suc_right)

lemma runs_to_trans: "runs_to f x y \<Longrightarrow> runs_to f y z \<Longrightarrow> runs_to f x z"
  unfolding runs_to_def by (metis comp_apply funpow_add)

lemma tier_machine_groups:
  "runs_to (tier_step d obs) (TGroups seq groups fenced seqs, st)
     (case tier_groups d (obs seq) groups fenced st of
        (Inl e, st') \<Rightarrow> (TFinished (Err e), st')
      | (Inr fenced', st') \<Rightarrow> (TGroups seq [] fenced' seqs, st'))"
proof (induction groups arbitrary: fenced st)
  case (Cons g groups)
  obtain tp recs where g: "g = (tp, recs)" by (cases g)
  consider (fail) e where "may_tier (sd_reservation d) tp (obs seq tp PreUpload) = Inl e"
    | (no) "may_tier (sd_reservation d) tp (obs seq tp PreUpload) = Inr False"
    | (yes) "may_tier (sd_reservation d) tp (obs seq tp PreUpload) = Inr True"
    by (cases "may_tier (sd_reservation d) tp (obs seq tp PreUpload)") auto
  then show ?case
  proof cases
    case fail
    then show ?thesis by - (rule runs_to_step, simp add: g)
  next
    case no
    then show ?thesis using Cons.IH [of True st] by - (rule runs_to_step, simp add: g)
  next
    case yes
    let ?seg = "group_segment (sd_codec d) tp recs"
    obtain res u where up: "um_upload_segment (sd_um d) ?seg (ct_objs st) = (res, u)" by fastforce
    show ?thesis
    proof (cases res)
      case (Inl e)
      then show ?thesis using yes up by - (rule runs_to_step, simp add: g Let_def)
    next
      case (Inr key)
      let ?st1 = "st\<lparr>ct_objs := u\<rparr>"
      have step: "tier_step d obs (TGroups seq (g # groups) fenced seqs, st) = (TUploaded seq ?seg key groups fenced seqs, ?st1)"
        using yes up Inr by (simp add: g Let_def)
      consider (fail) e where "may_tier (sd_reservation d) tp (obs seq tp PostUpload) = Inl e"
        | (no) "may_tier (sd_reservation d) tp (obs seq tp PostUpload) = Inr False"
        | (yes2) "may_tier (sd_reservation d) tp (obs seq tp PostUpload) = Inr True"
        by (cases "may_tier (sd_reservation d) tp (obs seq tp PostUpload)") auto
      then show ?thesis
      proof cases
        case fail
        then show ?thesis using yes up Inr by - (rule runs_to_step, subst step, rule runs_to_step, simp add: g Let_def)
      next
        case no
        have "runs_to (tier_step d obs) (TUploaded seq ?seg key groups fenced seqs, ?st1)
            (case tier_groups d (obs seq) groups True ?st1 of
               (Inl e, st') \<Rightarrow> (TFinished (Err e), st') | (Inr fenced', st') \<Rightarrow> (TGroups seq [] fenced' seqs, st'))"
          using Cons.IH [of True ?st1] no by - (rule runs_to_step, simp add: g)
        then show ?thesis using yes up Inr no
          by - (rule runs_to_step, subst step, simp add: g Let_def)
      next
        case yes2
        let ?st2 = "tier_flip ?seg key (tier_register (sd_codec d) ?seg key ?st1)"
        have "runs_to (tier_step d obs) (TUploaded seq ?seg key groups fenced seqs, ?st1)
            (case tier_groups d (obs seq) groups fenced ?st2 of
               (Inl e, st') \<Rightarrow> (TFinished (Err e), st') | (Inr fenced', st') \<Rightarrow> (TGroups seq [] fenced' seqs, st'))"
          using Cons.IH [of fenced ?st2] yes2
          by - (rule runs_to_step, simp, rule runs_to_step, simp)
        then show ?thesis using yes up Inr yes2
          by - (rule runs_to_step, subst step, simp add: g Let_def)
      qed
    qed
  qed
qed simp

lemma tier_machine_segments:
  "runs_to (tier_step d obs) (TSegments seqs, st)
     (case tier_segments d obs seqs st of (res, st') \<Rightarrow> (TFinished res, st'))"
proof (induction seqs arbitrary: st)
  case Nil
  show ?case by (rule runs_to_step) simp
next
  case (Cons seq seqs)
  show ?case
  proof (cases "lg_read_segment_records (sd_log d) seq (ps_wal st)")
    case (Inl e)
    then show ?thesis by - (rule runs_to_step, simp add: tier_segment_def)
  next
    case (Inr records)
    let ?gs = "if records = [] then [] else sd_iter d (group_records records)"
    obtain r st' where gs: "tier_groups d (obs seq) ?gs False st = (r, st')" by fastforce
    have start: "runs_to (tier_step d obs) (TSegments (seq # seqs), st)
        (case (r, st') of (Inl e, st') \<Rightarrow> (TFinished (Err e), st') | (Inr fenced', st') \<Rightarrow> (TGroups seq [] fenced' seqs, st'))"
      using tier_machine_groups [of d obs seq ?gs False seqs st] unfolding gs
      by - (rule runs_to_step, simp add: Inr)
    obtain res w where del: "lg_delete_segment (sd_log d) seq (ps_wal st') = (res, w)" by fastforce
    have empty: "records = [] \<Longrightarrow> r = Ok False \<and> st' = st" using gs by simp
    consider (fail) e where "r = Inl e" | (fenced) "r = Inr True" | (all) "r = Inr False" by (cases r) auto
    then show ?thesis
    proof cases
      case fail
      with start gs empty Inr show ?thesis by (simp add: tier_segment_def split: if_splits)
    next
      case fenced
      with gs empty Inr have "tier_segment d (obs seq) seq st = (Ok (), st')" by (auto simp: tier_segment_def split: if_splits)
      with fenced show ?thesis using Cons.IH [of st']
        by - (rule runs_to_trans [OF start], simp, rule runs_to_step, simp)
    next
      case all
      with gs empty Inr del have "tier_segment d (obs seq) seq st = (res, st'\<lparr>ps_wal := w\<rparr>)"
        by (auto simp: tier_segment_def split: if_splits)
      with all del show ?thesis using Cons.IH [of "st'\<lparr>ps_wal := w\<rparr>"]
        by - (rule runs_to_trans [OF start], simp, rule runs_to_step, simp split: sum.splits)
    qed
  qed
qed

text \<open>
  The tiering machine is the tiering loop. Run without interference, the machine that performs one
  upload, one manifest append, one flip or one deletion per step reaches, for every list of segments,
  every sequence of fence observations and every store, exactly the result and the state that the source's loop over the
  segments ends with, on success and on every error path.
\<close>

theorem tier_machine_equivalent:
  "\<exists>k. (tier_step d obs ^^ k) (TSegments seqs, st) =
     (case tier_segments d obs seqs st of (res, st') \<Rightarrow> (TFinished res, st'))"
  using tier_machine_segments [of d obs seqs st] by (simp add: runs_to_def)

end
