(* ===== verification/Tiered_Storage.thy ===== *)
theory Tiered_Storage
  imports Partition_Store
begin

text \<open>
  The storage engine as a whole: appends, syncs, reads, the tiering machine, compactions and crashes of
  \<open>Partition_Store\<close> in any order. The state carries two history variables, the records appended per
  partition and how many of them were synced; the invariant says where each of them is.
\<close>

section \<open>The system\<close>

record ('u, 'w, 'c) system =
  sy_store :: "('u, 'w, 'c) partition_store"
  sy_tier :: tier_pc
  sy_hist :: "topic_partition \<Rightarrow> wal_record list"
  sy_durable :: "topic_partition \<Rightarrow> nat"

text \<open>The history as a log: past its end, blank records at the right place.\<close>

definition blank_record :: "topic_partition \<Rightarrow> offset \<Rightarrow> wal_record" where
  "blank_record tp off = \<lparr>wr_tp = tp, wr_offset = off,
     wr_record = \<lparr>rec_key = None, rec_value = [], rec_headers = [], rec_timestamp = 0\<rparr>, wr_crc32 = 0\<rparr>"

definition log_of :: "(topic_partition \<Rightarrow> wal_record list) \<Rightarrow> log" where
  "log_of H tp off = (if off < length (H tp) then H tp ! off else blank_record tp off)"

text \<open>
  What the engine relies on when it uploads: the next group fits the upload manager, the next manifest
  record can be encoded.
\<close>

definition tier_fits :: "('u, 'w, 'c, 'o) store_deps \<Rightarrow> (wal_segment \<Rightarrow> bool) \<Rightarrow> tier_pc \<Rightarrow> bool" where
  "tier_fits d fits pc =
     (case pc of
        TGroups seq ((tp, recs) # groups) fenced seqs \<Rightarrow> fits (group_segment (sd_codec d) tp recs)
      | TUploaded seq seg key groups fenced seqs \<Rightarrow>
          encodable (sc_mser (sd_codec d)) (sc_mde (sd_codec d))
            (Register \<lparr>cs_tp = ws_tp seg, cs_start_offset = ws_start_offset seg, cs_end_offset = ws_end_offset seg,
                       cs_object_key = key, cs_size_bytes = ws_size_bytes seg\<rparr>)
      | _ \<Rightarrow> True)"

text \<open>No record of the merged range is in a sealed segment of the write-ahead log any more.\<close>

definition wal_free :: "('u, 'w, 'c, 'o) store_deps \<Rightarrow> 'w \<Rightarrow> compaction_plan \<Rightarrow> bool" where
  "wal_free d w p =
     (case lg_sealed_segments (sd_log d) w of
        Inl e \<Rightarrow> False
      | Inr seqs \<Rightarrow>
          list_all (\<lambda>seq. case lg_read_segment_records (sd_log d) seq w of
                            Inl e \<Rightarrow> False
                          | Inr rs \<Rightarrow> list_all (\<lambda>r. \<not> (wr_tp r = cp_tp p \<and> plan_start p \<le> wr_offset r \<and> wr_offset r < plan_end p)) rs)
            seqs)"

inductive system_step ::
  "('u, 'w, 'c, 'o) store_deps \<Rightarrow> (wal_segment \<Rightarrow> bool) \<Rightarrow> (wal_record \<Rightarrow> bool) \<Rightarrow> 'c \<Rightarrow>
   ('u, 'w, 'c) system \<Rightarrow> ('u, 'w, 'c) system \<Rightarrow> bool" for d fits good c0 where
  sys_append:
    "good r \<Longrightarrow> wr_offset r = length (sy_hist sys (wr_tp r)) \<Longrightarrow> store_append d r (sy_store sys) = (Ok loc, wake, st') \<Longrightarrow>
     system_step d fits good c0 sys
       (sys\<lparr>sy_store := st', sy_hist := (sy_hist sys)(wr_tp r := sy_hist sys (wr_tp r) @ [r])\<rparr>)"
| sys_sync:
    "store_sync d (sy_store sys) = (Ok (), st') \<Longrightarrow>
     system_step d fits good c0 sys (sys\<lparr>sy_store := st', sy_durable := (\<lambda>tp. length (sy_hist sys tp))\<rparr>)"
| sys_read:
    "store_read d id id now tp off max_bytes (sy_store sys) = (res, st') \<Longrightarrow>
     system_step d fits good c0 sys (sys\<lparr>sy_store := st'\<rparr>)"
| sys_seal:
    "sy_tier sys = TIdle \<or> sy_tier sys = TFinished res0 \<Longrightarrow> lg_seal (sd_log d) now force (ps_wal (sy_store sys)) = (Ok res, w) \<Longrightarrow>
     lg_sealed_segments (sd_log d) w = Ok seqs \<Longrightarrow>
     system_step d fits good c0 sys (sys\<lparr>sy_store := (sy_store sys)\<lparr>ps_wal := w\<rparr>, sy_tier := TSegments seqs\<rparr>)"
| sys_tier:
    "tier_fits d fits (sy_tier sys) \<Longrightarrow> tier_step d obs (sy_tier sys, sy_store sys) = (pc', st') \<Longrightarrow>
     system_step d fits good c0 sys (sys\<lparr>sy_store := st', sy_tier := pc'\<rparr>)"
| sys_compact:
    "valid_plan (ct_index (sy_store sys)) p \<Longrightarrow> plan_fits fits (sd_codec d) (log_of (sy_hist sys)) p \<Longrightarrow>
     encodable (sc_mser (sd_codec d)) (sc_mde (sd_codec d))
       (Compact (merged_cold (sd_codec d) (log_of (sy_hist sys)) p) (map cs_object_key (cp_sources p))) \<Longrightarrow>
     wal_free d (ps_wal (sy_store sys)) p \<Longrightarrow> execute_plan (sd_um d) (sd_codec d) p (sy_store sys) = (Ok (), st') \<Longrightarrow>
     system_step d fits good c0 sys (sys\<lparr>sy_store := st'\<rparr>)"
| sys_crash:
    "store_new d (lg_reopen (sd_log d) now (ps_wal (sy_store sys))) (ct_objs (sy_store sys)) c0 (ct_manifest (sy_store sys)) = (Ok (), st') \<Longrightarrow>
     system_step d fits good c0 sys
       \<lparr>sy_store = st', sy_tier = TIdle, sy_hist = (\<lambda>tp. take (next_offset (ct_index st') tp) (sy_hist sys tp)),
        sy_durable = sy_durable sys\<rparr>"

text \<open>States after \<open>n\<close> steps of a new store.\<close>

inductive system_reach ::
  "('u, 'w, 'c, 'o) store_deps \<Rightarrow> (wal_segment \<Rightarrow> bool) \<Rightarrow> (wal_record \<Rightarrow> bool) \<Rightarrow> 'c \<Rightarrow> ('u, 'w, 'c) system \<Rightarrow>
   nat \<Rightarrow> ('u, 'w, 'c) system \<Rightarrow> bool" for d fits good c0 init where
  reach_init: "system_reach d fits good c0 init 0 init"
| reach_step: "system_reach d fits good c0 init n sys \<Longrightarrow> system_step d fits good c0 sys sys' \<Longrightarrow>
     system_reach d fits good c0 init (Suc n) sys'"

section \<open>The invariant\<close>

definition seg_recs :: "segments \<Rightarrow> nat \<Rightarrow> topic_partition \<Rightarrow> wal_record list" where
  "seg_recs S s tp = filter (\<lambda>r. wr_tp r = tp) (the (S s))"

text \<open>
  Every log segment holds, per partition, a run \<open>[lo, hi)\<close> of offsets, later segments later offsets;
  the run of the active one ends at the end of the log.
\<close>

definition wal_ranges ::
  "log \<Rightarrow> (topic_partition \<Rightarrow> nat) \<Rightarrow> segments \<Rightarrow> nat \<Rightarrow> (nat \<Rightarrow> topic_partition \<Rightarrow> nat) \<Rightarrow> (nat \<Rightarrow> topic_partition \<Rightarrow> nat) \<Rightarrow> bool" where
  "wal_ranges L N S a lo hi \<longleftrightarrow>
     (\<forall>s \<in> dom S. \<forall>tp. lo s tp \<le> hi s tp \<and> seg_recs S s tp = log_run L tp (lo s tp) (hi s tp)) \<and>
     (\<forall>s \<in> dom S. \<forall>s' \<in> dom S. s < s' \<longrightarrow> (\<forall>tp. hi s tp \<le> lo s' tp)) \<and> (\<forall>tp. hi a tp = N tp)"

definition hot_backed ::
  "log \<Rightarrow> segments \<Rightarrow> (nat \<Rightarrow> topic_partition \<Rightarrow> nat) \<Rightarrow> (nat \<Rightarrow> topic_partition \<Rightarrow> nat) \<Rightarrow> partition_index \<Rightarrow> bool" where
  "hot_backed L S lo hi idx \<longleftrightarrow>
     (\<forall>tp off e. hot_at idx tp off = Some e \<longrightarrow> he_record e = L tp off \<and> (\<exists>s \<in> dom S. lo s tp \<le> off \<and> off < hi s tp))"

definition covered :: "(topic_partition \<Rightarrow> nat) \<Rightarrow> partition_index \<Rightarrow> bool" where
  "covered N idx \<longleftrightarrow>
     (\<forall>tp. next_offset idx tp = N tp \<and> (\<forall>off < N tp. hot_at idx tp off \<noteq> None \<or> cold_covers idx tp off))"

type_synonym cold_view = "topic_partition \<Rightarrow> offset \<Rightarrow> object_range option"

text \<open>A cold range that meets the run of a segment is exactly that run, and the segment is sealed.\<close>

definition whole ::
  "segments \<Rightarrow> nat \<Rightarrow> (nat \<Rightarrow> topic_partition \<Rightarrow> nat) \<Rightarrow> (nat \<Rightarrow> topic_partition \<Rightarrow> nat) \<Rightarrow> cold_view \<Rightarrow> bool" where
  "whole S a lo hi cm \<longleftrightarrow>
     (\<forall>s \<in> dom S. \<forall>tp c r. cm tp c = Some r \<longrightarrow> c < hi s tp \<longrightarrow> lo s tp < or_end_offset r \<longrightarrow> lo s tp < hi s tp \<longrightarrow>
        s \<noteq> a \<and> c = lo s tp \<and> or_end_offset r = hi s tp)"

definition manifest_ok :: "store_codec \<Rightarrow> manifest_record list \<Rightarrow> bytes \<Rightarrow> cold_view \<Rightarrow> bool" where
  "manifest_ok cod ms bs cm \<longleftrightarrow> bs = manifest_frames (sc_mser cod) (sc_crc cod) ms \<and>
     (\<forall>m \<in> set ms. encodable (sc_mser cod) (sc_mde cod) m) \<and>
     (\<forall>tp s. cm tp s = map_option seg_range (live_map (fold live_step ms []) tp s))"

primrec compact_sources :: "manifest_record \<Rightarrow> string list" where
  "compact_sources (Register seg) = []"
| "compact_sources (Compact m sources) = sources"

text \<open>
  An orphan object belongs to a range that lies inside a larger live one and meets no run of the log, so
  that it is not live and cannot become live again.
\<close>

definition subsumed :: "(offset \<Rightarrow> object_range option) \<Rightarrow> offset \<Rightarrow> offset \<Rightarrow> bool" where
  "subsumed m c e \<longleftrightarrow> (\<exists>c' r. m c' = Some r \<and> c' \<le> c \<and> e \<le> or_end_offset r \<and> (c' < c \<or> e < or_end_offset r))"

definition orphans_ok ::
  "(topic_partition \<Rightarrow> nat) \<Rightarrow> segments \<Rightarrow> (nat \<Rightarrow> topic_partition \<Rightarrow> nat) \<Rightarrow> (nat \<Rightarrow> topic_partition \<Rightarrow> nat) \<Rightarrow> cold_view \<Rightarrow>
   string list \<Rightarrow> bool" where
  "orphans_ok N S lo hi cm keys \<longleftrightarrow>
     (\<forall>k \<in> set keys. \<exists>tp c e. k = segment_key tp c e \<and> plain_topic (tp_topic tp) \<and> c < e \<and> e \<le> N tp \<and>
        (\<forall>s \<in> dom S. lo s tp < hi s tp \<longrightarrow> hi s tp \<le> c \<or> e \<le> lo s tp) \<and>
        subsumed (cm tp) c e)"

text \<open>The cold map that the manifest describes: between registration and flip it is one range ahead.\<close>

definition pending :: "tier_pc \<Rightarrow> cold_view \<Rightarrow> cold_view" where
  "pending pc cm =
     (case pc of
        TRegistered seq seg key groups fenced seqs \<Rightarrow>
          cm(ws_tp seg := (cm (ws_tp seg))(ws_start_offset seg \<mapsto>
            \<lparr>or_end_offset = ws_end_offset seg, or_object_key = key, or_size_bytes = ws_size_bytes seg\<rparr>))
      | _ \<Rightarrow> cm)"

definition seqs_ok :: "segments \<Rightarrow> nat \<Rightarrow> nat list \<Rightarrow> bool" where
  "seqs_ok S a seqs \<longleftrightarrow> distinct seqs \<and> set seqs \<subseteq> dom S - {a}"

definition groups_ok ::
  "segments \<Rightarrow> (nat \<Rightarrow> topic_partition \<Rightarrow> nat) \<Rightarrow> (nat \<Rightarrow> topic_partition \<Rightarrow> nat) \<Rightarrow> partition_index \<Rightarrow>
   nat \<Rightarrow> (topic_partition \<times> wal_record list) list \<Rightarrow> bool \<Rightarrow> bool" where
  "groups_ok S lo hi idx seq groups fenced \<longleftrightarrow>
     distinct (map fst groups) \<and> (\<forall>(tp, recs) \<in> set groups. recs = seg_recs S seq tp \<and> recs \<noteq> []) \<and>
     (\<not> fenced \<longrightarrow> (\<forall>tp off. tp \<notin> fst ` set groups \<longrightarrow> lo seq tp \<le> off \<longrightarrow> off < hi seq tp \<longrightarrow> hot_at idx tp off = None))"

text \<open>An uploaded group: its object holds the run of its partition in the segment.\<close>

definition upload_ok ::
  "('u, 'w, 'c, 'o) store_deps \<Rightarrow> log \<Rightarrow> segments \<Rightarrow> (nat \<Rightarrow> topic_partition \<Rightarrow> nat) \<Rightarrow> (nat \<Rightarrow> topic_partition \<Rightarrow> nat) \<Rightarrow>
   ('u, 'w, 'c) partition_store \<Rightarrow> nat \<Rightarrow> wal_segment \<Rightarrow> string \<Rightarrow> (topic_partition \<times> wal_record list) list \<Rightarrow> bool \<Rightarrow> bool" where
  "upload_ok d L S lo hi st seq seg key groups fenced \<longleftrightarrow>
     seg = group_segment (sd_codec d) (ws_tp seg) (seg_recs S seq (ws_tp seg)) \<and>
     groups_ok S lo hi (ct_index st) seq ((ws_tp seg, seg_recs S seq (ws_tp seg)) # groups) fenced \<and>
     key = segment_key (ws_tp seg) (lo seq (ws_tp seg)) (hi seq (ws_tp seg)) \<and>
     object_holds (sd_um d) (sd_codec d) L (ct_objs st) (ws_tp seg) (lo seq (ws_tp seg)) (hi seq (ws_tp seg))"

definition tier_ok ::
  "('u, 'w, 'c, 'o) store_deps \<Rightarrow> log \<Rightarrow> segments \<Rightarrow> nat \<Rightarrow> (nat \<Rightarrow> topic_partition \<Rightarrow> nat) \<Rightarrow> (nat \<Rightarrow> topic_partition \<Rightarrow> nat) \<Rightarrow>
   ('u, 'w, 'c) partition_store \<Rightarrow> tier_pc \<Rightarrow> bool" where
  "tier_ok d L S a lo hi st pc =
     (case pc of
        TIdle \<Rightarrow> True
      | TFinished r \<Rightarrow> True
      | TSegments seqs \<Rightarrow> seqs_ok S a seqs
      | TGroups seq groups fenced seqs \<Rightarrow> seqs_ok S a (seq # seqs) \<and> groups_ok S lo hi (ct_index st) seq groups fenced
      | TUploaded seq seg key groups fenced seqs \<Rightarrow> seqs_ok S a (seq # seqs) \<and> upload_ok d L S lo hi st seq seg key groups fenced
      | TRegistered seq seg key groups fenced seqs \<Rightarrow> seqs_ok S a (seq # seqs) \<and> upload_ok d L S lo hi st seq seg key groups fenced)"

definition cache_ok ::
  "store_codec \<Rightarrow> log \<Rightarrow> (topic_partition \<Rightarrow> nat) \<Rightarrow> (string \<rightharpoonup> bytes) \<Rightarrow> bool" where
  "cache_ok cod L N v \<longleftrightarrow>
     (\<forall>tp off bs. v (cache_key tp off) = Some bs \<longrightarrow>
        (\<exists>n > 0. off + n \<le> N tp \<and> sc_de cod bs = Some (log_run L tp off (off + n))))"

definition durable_ok :: "(topic_partition \<Rightarrow> nat) \<Rightarrow> segments \<Rightarrow> nat \<Rightarrow> nat \<Rightarrow> (nat \<Rightarrow> topic_partition \<Rightarrow> nat) \<Rightarrow> bool" where
  "durable_ok D S a m lo \<longleftrightarrow> (\<forall>tp. D tp \<le> lo a tp + length (filter (\<lambda>r. wr_tp r = tp) (take m (the (S a)))))"

text \<open>What the codec must do for the records that are appended, and the iteration order for the groups.\<close>

definition deps_ok :: "('u, 'w, 'c, 'o) store_deps \<Rightarrow> (wal_record \<Rightarrow> bool) \<Rightarrow> (wal_record \<Rightarrow> bool) \<Rightarrow> bool" where
  "deps_ok d storable good \<longleftrightarrow>
     (\<forall>rs. (\<forall>r \<in> set rs. good r) \<longrightarrow> sc_de (sd_codec d) (sc_ser (sd_codec d) rs) = Some rs) \<and>
     (\<forall>r. good r \<longrightarrow> storable r \<and> plain_topic (tp_topic (wr_tp r))) \<and> (\<forall>gs. mset (sd_iter d gs) = mset gs)"

text \<open>The invariant, with the abstract state of the log and the manifest records made explicit.\<close>

definition log_good :: "(wal_record \<Rightarrow> bool) \<Rightarrow> log \<Rightarrow> (topic_partition \<Rightarrow> nat) \<Rightarrow> bool" where
  "log_good good L N \<longleftrightarrow> log_wf L \<and> (\<forall>tp. \<forall>off < N tp. good (L tp off))"

section \<open>Facts about the parts of the invariant\<close>

lemma log_run_eq_Nil [simp]: "log_run L tp st en = [] \<longleftrightarrow> en \<le> st"
  by (auto simp: log_run_def)

lemma set_log_run: "set (log_run L tp st en) = L tp ` {st..<en}"
  by (simp add: log_run_def)

lemma log_run_cong: "(\<And>off. st \<le> off \<Longrightarrow> off < en \<Longrightarrow> L tp off = L' tp off) \<Longrightarrow> log_run L tp st en = log_run L' tp st en"
  by (simp add: log_run_def)

lemma log_run_snoc: "st \<le> en \<Longrightarrow> log_run L tp st (Suc en) = log_run L tp st en @ [L tp en]"
  by (simp add: log_run_def)

lemma take_log_run: "n \<le> en - st \<Longrightarrow> take n (log_run L tp st en) = log_run L tp st (st + n)"
  by (cases "st \<le> en") (auto simp: log_run_def take_map take_upt)

lemma filter_log_run: "log_wf L \<Longrightarrow> st \<le> off \<Longrightarrow> filter (\<lambda>r. off \<le> wr_offset r) (log_run L tp st en) = log_run L tp off en"
proof (induction en)
  case (Suc en)
  show ?case
  proof (cases "st \<le> en")
    case True
    then show ?thesis using Suc by (cases "off \<le> en") (auto simp: log_run_snoc log_wf_def log_run_def)
  next
    case False
    with Suc.prems show ?thesis by (simp add: log_run_def)
  qed
qed (simp add: log_run_def)

lemma wal_rangesD:
  assumes "wal_ranges L N S a lo hi" and "s \<in> dom S"
  shows "lo s tp \<le> hi s tp" and "seg_recs S s tp = log_run L tp (lo s tp) (hi s tp)"
    and "s' \<in> dom S \<Longrightarrow> s < s' \<Longrightarrow> hi s tp \<le> lo s' tp" and "hi a tp = N tp"
  using assms by (auto simp: wal_ranges_def)

lemma wholeD:
  assumes "whole S a lo hi cm" and "s \<in> dom S" and "cm tp c = Some r" and "c < hi s tp" and "lo s tp < or_end_offset r" and "lo s tp < hi s tp"
  shows "s \<noteq> a" and "c = lo s tp" and "or_end_offset r = hi s tp"
  using assms unfolding whole_def by blast+

lemma coveredD: "covered N idx \<Longrightarrow> next_offset idx tp = N tp"
  "covered N idx \<Longrightarrow> off < N tp \<Longrightarrow> hot_at idx tp off \<noteq> None \<or> cold_covers idx tp off"
  by (auto simp: covered_def)

lemma hot_backedD:
  assumes "hot_backed L S lo hi idx" and "hot_at idx tp off = Some e"
  shows "he_record e = L tp off" and "\<exists>s \<in> dom S. lo s tp \<le> off \<and> off < hi s tp"
  using assms unfolding hot_backed_def by blast+

lemma cold_end_le: "index_wf idx \<Longrightarrow> cold_map idx tp c = Some r \<Longrightarrow> or_end_offset r \<le> next_offset idx tp"
  using index_wf_entry [of idx tp] by (simp add: entry_wf_def cold_map_def next_offset_entries)

lemma hot_lt: "index_wf idx \<Longrightarrow> hot_at idx tp off = Some e \<Longrightarrow> off < next_offset idx tp"
  using index_wf_entry [of idx tp] by (simp add: entry_wf_def hot_at_def next_offset_entries)

lemma cold_range_pos: "cold_holds um cod L idx u \<Longrightarrow> cold_map idx tp c = Some r \<Longrightarrow> c < or_end_offset r"
  using cold_holds_range [of um cod L idx u tp c r] by (simp add: range_holds_def)

lemma cold_covers_cong: "(\<And>tp. cold_map idx tp = cold_map idx' tp) \<Longrightarrow> cold_covers idx tp off = cold_covers idx' tp off"
  by (simp add: cold_covers_def)

lemma cold_holds_cong: "(\<And>tp. cold_map idx' tp = cold_map idx tp) \<Longrightarrow> cold_holds um cod L idx u \<Longrightarrow> cold_holds um cod L idx' u"
  by (simp add: cold_holds_def)

lemma object_holds_cong:
  "(\<And>off. st \<le> off \<Longrightarrow> off < en \<Longrightarrow> L tp off = L' tp off) \<Longrightarrow> object_holds um cod L u tp st en = object_holds um cod L' u tp st en"
  using log_run_cong [of st en L tp L'] by (simp add: object_holds_def)

text \<open>The groups of a segment.\<close>

lemma fold_group_records:
  "distinct (map fst gs) \<Longrightarrow>
   distinct (map fst (fold (\<lambda>r gs. AList.update (wr_tp r) (hm_entry [] gs (wr_tp r) @ [r]) gs) rs gs)) \<and>
   hm_entry [] (fold (\<lambda>r gs. AList.update (wr_tp r) (hm_entry [] gs (wr_tp r) @ [r]) gs) rs gs) tp =
     hm_entry [] gs tp @ filter (\<lambda>r. wr_tp r = tp) rs \<and>
   fst ` set (fold (\<lambda>r gs. AList.update (wr_tp r) (hm_entry [] gs (wr_tp r) @ [r]) gs) rs gs) = fst ` set gs \<union> wr_tp ` set rs"
  by (induction rs arbitrary: gs) (auto simp: distinct_update keys_update)

lemma group_records_spec:
  "distinct (map fst (group_records rs))" "fst ` set (group_records rs) = wr_tp ` set rs"
  "(tp, recs) \<in> set (group_records rs) \<Longrightarrow> recs = filter (\<lambda>r. wr_tp r = tp) rs \<and> recs \<noteq> []"
proof -
  note f = fold_group_records [of "[]" rs]
  show d: "distinct (map fst (group_records rs))" and k: "fst ` set (group_records rs) = wr_tp ` set rs"
    using f by (simp_all add: group_records_def)
  assume m: "(tp, recs) \<in> set (group_records rs)"
  then have "map_of (group_records rs) tp = Some recs" using d by simp
  then have "recs = filter (\<lambda>r. wr_tp r = tp) rs" using f [of tp] by (simp add: group_records_def hm_entry_def)
  moreover have "tp \<in> wr_tp ` set rs" using m k by force
  ultimately show "recs = filter (\<lambda>r. wr_tp r = tp) rs \<and> recs \<noteq> []" by (auto simp: filter_empty_conv)
qed

lemma permuted_groups:
  assumes "mset gs' = mset gs"
  shows "distinct (map fst gs') = distinct (map fst gs)" and "set gs' = set gs"
proof -
  show "set gs' = set gs" using assms by (rule mset_eq_setD)
  have "mset (map fst gs') = mset (map fst gs)" using assms by simp
  then show "distinct (map fst gs') = distinct (map fst gs)" by (rule mset_eq_imp_distinct_iff)
qed

lemma snd_fold_records: "snd (fold_records ms live orphans) = orphans @ concat (map compact_sources ms)"
  by (induction ms live orphans rule: fold_records.induct) (simp_all add: Let_def)

lemma orphans_fold_manifest: "lr_orphan_object_keys (fold_manifest ms) = concat (map compact_sources ms)"
  using snd_fold_records [of ms "[]" "[]"] by (simp add: fold_manifest_def split_beta Let_def)

lemma cache_key_inject: "cache_key tp off = cache_key tp' off' \<longleftrightarrow> tp = tp' \<and> off = off'"
proof
  assume "cache_key tp off = cache_key tp' off'"
  then have "show_tp tp @ CHR '':'' # show_nat off = show_tp tp' @ CHR '':'' # show_nat off'"
    by (simp add: cache_key_def)
  moreover have "CHR '':'' \<notin> set (show_nat n)" for n using show_nat_digits [of n] by (auto simp: is_digit_def)
  ultimately show "tp = tp' \<and> off = off'"
    using append_sep_eq_right [of "show_tp tp" "CHR '':''" "show_nat off"] show_tp_inject show_nat_inject by metis
qed simp

section \<open>The storage engine over its interfaces\<close>

text \<open>
  The engine's three collaborators, each by its contract. The lemmas below are proved once for every
  log, upload manager and cache that satisfy them.
\<close>

locale tiered_storage =
  log: segmented_log "sd_log d" holds storable fsync + um: upload_manager "sd_um d" fits + ch: cache "sd_cache d" view cinv
  for d :: "('u, 'w, 'c, 'o) store_deps" and holds :: "'w \<Rightarrow> segments \<Rightarrow> nat \<Rightarrow> nat \<Rightarrow> bool" and storable fsync fits
    and view :: "'c \<Rightarrow> string \<rightharpoonup> bytes" and cinv :: "'c \<Rightarrow> bool"

text \<open>The parts of the state in the log \<open>L\<close> of length \<open>N\<close>: the volatile index, the durable stores.\<close>

definition store_inv ::
  "('u, 'w, 'c, 'o) store_deps \<Rightarrow> (wal_record \<Rightarrow> bool) \<Rightarrow> log \<Rightarrow> (topic_partition \<Rightarrow> nat) \<Rightarrow> segments \<Rightarrow> nat \<Rightarrow>
   (nat \<Rightarrow> topic_partition \<Rightarrow> nat) \<Rightarrow> (nat \<Rightarrow> topic_partition \<Rightarrow> nat) \<Rightarrow> manifest_record list \<Rightarrow> tier_pc \<Rightarrow>
   ('u, 'w, 'c) partition_store \<Rightarrow> bool" where
  "store_inv d good L N S a lo hi ms pc st \<longleftrightarrow>
     log_good good L N \<and> wal_ranges L N S a lo hi \<and> index_wf (ct_index st) \<and>
     cold_holds (sd_um d) (sd_codec d) L (ct_index st) (ct_objs st) \<and> covered N (ct_index st) \<and>
     hot_backed L S lo hi (ct_index st) \<and> whole S a lo hi (cold_map (ct_index st)) \<and>
     manifest_ok (sd_codec d) ms (ct_manifest st) (pending pc (cold_map (ct_index st))) \<and>
     orphans_ok N S lo hi (pending pc (cold_map (ct_index st))) (concat (map compact_sources ms)) \<and>
     tier_ok d L S a lo hi st pc"

lemma store_invD:
  assumes "store_inv d good L N S a lo hi ms pc st"
  shows "log_good good L N" and "wal_ranges L N S a lo hi" and "index_wf (ct_index st)"
    and "cold_holds (sd_um d) (sd_codec d) L (ct_index st) (ct_objs st)" and "covered N (ct_index st)"
    and "hot_backed L S lo hi (ct_index st)" and "whole S a lo hi (cold_map (ct_index st))"
    and "manifest_ok (sd_codec d) ms (ct_manifest st) (pending pc (cold_map (ct_index st)))"
    and "orphans_ok N S lo hi (pending pc (cold_map (ct_index st))) (concat (map compact_sources ms))"
    and "tier_ok d L S a lo hi st pc"
  using assms unfolding store_inv_def by blast+

definition system_inv ::
  "('u, 'w, 'c, 'o) store_deps \<Rightarrow> ('w \<Rightarrow> segments \<Rightarrow> nat \<Rightarrow> nat \<Rightarrow> bool) \<Rightarrow> ('c \<Rightarrow> string \<rightharpoonup> bytes) \<Rightarrow> ('c \<Rightarrow> bool) \<Rightarrow> (wal_record \<Rightarrow> bool) \<Rightarrow>
   nat \<Rightarrow> ('u, 'w, 'c) system \<Rightarrow> bool" where
  "system_inv d holds view cinv good n sys \<longleftrightarrow>
     (\<exists>S a m lo hi ms. a \<le> n \<and> holds (ps_wal (sy_store sys)) S a m \<and>
        store_inv d good (log_of (sy_hist sys)) (\<lambda>tp. length (sy_hist sys tp)) S a lo hi ms (sy_tier sys) (sy_store sys) \<and>
        durable_ok (sy_durable sys) S a m lo \<and>
        cinv (ps_cache (sy_store sys)) \<and>
        cache_ok (sd_codec d) (log_of (sy_hist sys)) (\<lambda>tp. length (sy_hist sys tp)) (view (ps_cache (sy_store sys))))"

section \<open>Appending\<close>

lemma seg_recs_upd: "seg_recs (S(a \<mapsto> rs)) s tp = (if s = a then filter (\<lambda>r. wr_tp r = tp) rs else seg_recs S s tp)"
  by (simp add: seg_recs_def)

lemma groups_ok_cong:
  assumes "groups_ok S lo hi idx seq groups fenced" and "\<And>tp. seg_recs S' seq tp = seg_recs S seq tp"
    and "\<And>tp. lo' seq tp = lo seq tp" and "\<And>tp. hi' seq tp = hi seq tp"
    and "\<And>tp off. lo seq tp \<le> off \<Longrightarrow> off < hi seq tp \<Longrightarrow> hot_at idx tp off = None \<Longrightarrow> hot_at idx' tp off = None"
  shows "groups_ok S' lo' hi' idx' seq groups fenced"
  using assms unfolding groups_ok_def by auto

lemma tier_ok_cong:
  assumes "tier_ok d L S a lo hi st pc"
    and "\<And>seq. seq \<in> dom S - {a} \<Longrightarrow> seq \<in> dom S' - {a'}"
    and "\<And>seq tp. seq \<in> dom S - {a} \<Longrightarrow> seg_recs S' seq tp = seg_recs S seq tp \<and> lo' seq tp = lo seq tp \<and> hi' seq tp = hi seq tp"
    and "\<And>seq tp off. seq \<in> dom S - {a} \<Longrightarrow> lo seq tp \<le> off \<Longrightarrow> off < hi seq tp \<Longrightarrow> hot_at (ct_index st) tp off = None \<Longrightarrow>
           hot_at (ct_index st') tp off = None"
    and "\<And>seq tp. seq \<in> dom S - {a} \<Longrightarrow> lo seq tp < hi seq tp \<Longrightarrow> plain_topic (tp_topic tp) \<Longrightarrow>
           object_holds (sd_um d) (sd_codec d) L (ct_objs st) tp (lo seq tp) (hi seq tp) \<Longrightarrow>
           object_holds (sd_um d) (sd_codec d) L' (ct_objs st') tp (lo seq tp) (hi seq tp)"
    and "\<And>seq tp. seq \<in> dom S - {a} \<Longrightarrow> seg_recs S seq tp \<noteq> [] \<Longrightarrow> lo seq tp < hi seq tp \<and> plain_topic (tp_topic tp)"
  shows "tier_ok d L' S' a' lo' hi' st' pc"
proof -
  have seqs: "seqs_ok S a xs \<Longrightarrow> seqs_ok S' a' xs" for xs using assms(2) unfolding seqs_ok_def by blast
  have grp: "groups_ok S' lo' hi' (ct_index st') seq gs f"
    if "seqs_ok S a (seq # xs)" "groups_ok S lo hi (ct_index st) seq gs f" for seq xs gs f
  proof -
    have "seq \<in> dom S - {a}" using that(1) by (simp add: seqs_ok_def)
    then show ?thesis using assms(3,4) by (intro groups_ok_cong [OF that(2)]) auto
  qed
  have upl: "upload_ok d L' S' lo' hi' st' seq seg key gs f"
    if "seqs_ok S a (seq # xs)" "upload_ok d L S lo hi st seq seg key gs f" for seq xs seg key gs f
  proof -
    let ?tp = "ws_tp seg"
    have g: "groups_ok S lo hi (ct_index st) seq ((?tp, seg_recs S seq ?tp) # gs) f"
      and o: "object_holds (sd_um d) (sd_codec d) L (ct_objs st) ?tp (lo seq ?tp) (hi seq ?tp)"
      using that(2) by (simp_all add: upload_ok_def)
    have seq: "seq \<in> dom S - {a}" "seg_recs S seq ?tp \<noteq> []" using that(1) g by (auto simp: seqs_ok_def groups_ok_def)
    then have "object_holds (sd_um d) (sd_codec d) L' (ct_objs st') ?tp (lo seq ?tp) (hi seq ?tp)"
      using assms(5) [OF seq(1) _ _ o] assms(6) [OF seq] by simp
    with that(2) grp [OF that(1) g] assms(3) [OF seq(1), of ?tp] show ?thesis
      by (auto simp: upload_ok_def)
  qed
  from assms(1) seqs grp upl show ?thesis by (cases pc) (auto simp: tier_ok_def)
qed

lemma run_nonempty:
  assumes "wal_ranges L N S a lo hi" and "s \<in> dom S" and "seg_recs S s tp \<noteq> []"
  shows "lo s tp < hi s tp"
  using wal_rangesD(2) [OF assms(1,2), of tp] assms(3) by simp

lemma run_bound:
  assumes "wal_ranges L N S a lo hi" and "a \<in> dom S" and "\<forall>s \<in> dom S. s \<le> a" and "s \<in> dom S"
  shows "hi s tp \<le> N tp" and "s \<noteq> a \<Longrightarrow> hi s tp \<le> lo a tp"
proof -
  show "s \<noteq> a \<Longrightarrow> hi s tp \<le> lo a tp" using wal_rangesD(3) [OF assms(1,4,2)] assms(3,4) by (simp add: order.strict_iff_order)
  then show "hi s tp \<le> N tp" using wal_rangesD(1,4) [OF assms(1,2), of tp] by (cases "s = a") auto
qed

text \<open>The topics of the records in the log are plain.\<close>

lemma run_plain:
  assumes "wal_ranges L N S a lo hi" and "a \<in> dom S" and "\<forall>s \<in> dom S. s \<le> a" and "s \<in> dom S" and "seg_recs S s tp \<noteq> []"
    and "log_good good L N" and "\<And>r. good r \<Longrightarrow> plain_topic (tp_topic (wr_tp r))"
  shows "lo s tp < hi s tp \<and> plain_topic (tp_topic tp)"
proof
  show lt: "lo s tp < hi s tp" by (rule run_nonempty [OF assms(1,4,5)])
  then have "good (L tp (lo s tp))" using assms(6) run_bound(1) [OF assms(1-4), of tp] unfolding log_good_def by (meson less_le_trans)
  then show "plain_topic (tp_topic tp)" using assms(6,7) by (metis log_good_def log_wf_def)
qed

lemma wal_rangesI:
  assumes "\<And>s tp. s \<in> dom S \<Longrightarrow> lo s tp \<le> hi s tp" and "\<And>s tp. s \<in> dom S \<Longrightarrow> seg_recs S s tp = log_run L tp (lo s tp) (hi s tp)"
    and "\<And>s s' tp. s \<in> dom S \<Longrightarrow> s' \<in> dom S \<Longrightarrow> s < s' \<Longrightarrow> hi s tp \<le> lo s' tp" and "\<And>tp. hi a tp = N tp"
  shows "wal_ranges L N S a lo hi"
  using assms by (simp add: wal_ranges_def)

lemma wal_ranges_append:
  assumes R: "wal_ranges L N S a lo hi" and a: "S a = Some rs" and top: "\<forall>s \<in> dom S. s \<le> a" and "log_wf L"
  shows "wal_ranges L (N(tp := Suc (N tp))) (S(a \<mapsto> rs @ [L tp (N tp)])) a lo (hi(a := (hi a)(tp := Suc (N tp))))"
proof (rule wal_rangesI)
  have ad: "a \<in> dom S" using a by blast
  note Ra = wal_rangesD [OF R ad]
  fix s tp' assume s: "s \<in> dom (S(a \<mapsto> rs @ [L tp (N tp)]))"
  then have sd: "s \<in> dom S" using ad by (auto split: if_splits)
  show "lo s tp' \<le> (hi(a := (hi a)(tp := Suc (N tp)))) s tp'"
    using wal_rangesD(1) [OF R sd, of tp'] Ra(1,4) [of tp'] by auto
  have "seg_recs (S(a \<mapsto> rs @ [L tp (N tp)])) a tp' = log_run L tp' (lo a tp') (if tp' = tp then Suc (N tp) else hi a tp')"
    using Ra(1,2,4) [of tp'] a \<open>log_wf L\<close> by (auto simp: seg_recs_def log_wf_def log_run_snoc)
  then show "seg_recs (S(a \<mapsto> rs @ [L tp (N tp)])) s tp' = log_run L tp' (lo s tp') ((hi(a := (hi a)(tp := Suc (N tp)))) s tp')"
    using wal_rangesD(2) [OF R sd, of tp'] by (auto simp: seg_recs_upd)
  fix s' assume s': "s' \<in> dom (S(a \<mapsto> rs @ [L tp (N tp)]))" "s < s'"
  then have "s' \<in> dom S" using ad by (auto split: if_splits)
  moreover from this have "s \<noteq> a" using top s'(2) by (metis leD)
  ultimately show "(hi(a := (hi a)(tp := Suc (N tp)))) s tp' \<le> lo s' tp'"
    using wal_rangesD(3) [OF R sd, of s' tp'] s'(2) by simp
next
  show "(hi(a := (hi a)(tp := Suc (N tp)))) a tp' = (N(tp := Suc (N tp))) tp'" for tp'
    using R by (auto simp: wal_ranges_def)
qed

lemma covered_append:
  assumes "covered N idx"
  shows "covered (N(tp := Suc (N tp))) (insert_hot tp (N tp) r sz idx)"
  using assms by (auto simp: covered_def index_views less_Suc_eq cold_covers_def)

lemma hot_backed_append:
  assumes "hot_backed L S lo hi idx" and "S a = Some rs" and "hi a tp = N tp" and "lo a tp \<le> N tp"
  shows "hot_backed L (S(a \<mapsto> rs')) lo (hi(a := (hi a)(tp := Suc (N tp)))) (insert_hot tp (N tp) (L tp (N tp)) sz idx)"
  unfolding hot_backed_def
proof (intro allI impI)
  fix tp' off e
  assume h: "hot_at (insert_hot tp (N tp) (L tp (N tp)) sz idx) tp' off = Some e"
  show "he_record e = L tp' off \<and>
      (\<exists>s \<in> dom (S(a \<mapsto> rs')). lo s tp' \<le> off \<and> off < (hi(a := (hi a)(tp := Suc (N tp)))) s tp')"
  proof (cases "tp' = tp \<and> off = N tp")
    case True
    then show ?thesis using h assms(4) by (auto simp: index_views)
  next
    case False
    then have "hot_at idx tp' off = Some e" using h by (auto simp: index_views split: if_splits)
    from hot_backedD [OF assms(1) this] obtain s where "he_record e = L tp' off" "s \<in> dom S" "lo s tp' \<le> off" "off < hi s tp'"
      by blast
    then show ?thesis using assms(3) by (intro conjI bexI [of _ s]) auto
  qed
qed

lemma whole_append:
  assumes "whole S a lo hi cm" and "a \<in> dom S" and "hi a tp = N tp" and "\<And>c r. cm tp c = Some r \<Longrightarrow> c < or_end_offset r \<and> or_end_offset r \<le> N tp"
  shows "whole (S(a \<mapsto> rs')) a lo (hi(a := (hi a)(tp := Suc (N tp)))) cm"
  unfolding whole_def
proof (intro ballI allI impI)
  fix s tp' c r
  assume s: "s \<in> dom (S(a \<mapsto> rs'))" and c: "cm tp' c = Some r" and m: "c < (hi(a := (hi a)(tp := Suc (N tp)))) s tp'"
    "lo s tp' < or_end_offset r" "lo s tp' < (hi(a := (hi a)(tp := Suc (N tp)))) s tp'"
  have sd: "s \<in> dom S" using s assms(2) by (auto split: if_splits)
  show "s \<noteq> a \<and> c = lo s tp' \<and> or_end_offset r = (hi(a := (hi a)(tp := Suc (N tp)))) s tp'"
  proof (cases "s = a \<and> tp' = tp")
    case True
    then have "c < or_end_offset r" "or_end_offset r \<le> N tp" using assms(4) c by auto
    then have "c < hi a tp" "lo a tp < hi a tp" using True m(2) assms(3) by auto
    with wholeD(1) [OF assms(1) sd c] True m(2) show ?thesis by auto
  next
    case False
    then have "(hi(a := (hi a)(tp := Suc (N tp)))) s tp' = hi s tp'" by auto
    with wholeD [OF assms(1) sd c] m show ?thesis by auto
  qed
qed

lemma orphans_ok_weaken:
  assumes "orphans_ok N S lo hi cm keys"
    and "\<And>tp c e. plain_topic (tp_topic tp) \<Longrightarrow> c < e \<Longrightarrow> e \<le> N tp \<Longrightarrow> \<forall>s \<in> dom S. lo s tp < hi s tp \<longrightarrow> hi s tp \<le> c \<or> e \<le> lo s tp \<Longrightarrow>
           subsumed (cm tp) c e \<Longrightarrow>
           e \<le> N' tp \<and> (\<forall>s \<in> dom S'. lo' s tp < hi' s tp \<longrightarrow> hi' s tp \<le> c \<or> e \<le> lo' s tp) \<and> subsumed (cm' tp) c e"
  shows "orphans_ok N' S' lo' hi' cm' keys"
  unfolding orphans_ok_def
proof
  fix k assume "k \<in> set keys"
  then obtain tp c e where k: "k = segment_key tp c e" "plain_topic (tp_topic tp)" "c < e" "e \<le> N tp"
    "\<forall>s \<in> dom S. lo s tp < hi s tp \<longrightarrow> hi s tp \<le> c \<or> e \<le> lo s tp" "subsumed (cm tp) c e"
    using assms(1) unfolding orphans_ok_def by blast
  with assms(2) [OF k(2-6)] show "\<exists>tp c e. k = segment_key tp c e \<and> plain_topic (tp_topic tp) \<and> c < e \<and> e \<le> N' tp \<and>
      (\<forall>s \<in> dom S'. lo' s tp < hi' s tp \<longrightarrow> hi' s tp \<le> c \<or> e \<le> lo' s tp) \<and> subsumed (cm' tp) c e"
    by (intro exI [of _ tp] exI [of _ c] exI [of _ e]) simp
qed

lemma orphans_ok_append:
  assumes "orphans_ok N S lo hi cm keys" and "a \<in> dom S" and "hi a tp = N tp" and "lo a tp \<le> N tp"
  shows "orphans_ok (N(tp := Suc (N tp))) (S(a \<mapsto> rs')) lo (hi(a := (hi a)(tp := Suc (N tp)))) cm keys"
proof (rule orphans_ok_weaken [OF assms(1)])
  fix tp' c e
  assume k: "c < e" "e \<le> N tp'" "\<forall>s \<in> dom S. lo s tp' < hi s tp' \<longrightarrow> hi s tp' \<le> c \<or> e \<le> lo s tp'" "subsumed (cm tp') c e"
  have "(hi(a := (hi a)(tp := Suc (N tp)))) s tp' \<le> c \<or> e \<le> lo s tp'"
    if s: "s \<in> dom (S(a \<mapsto> rs'))" "lo s tp' < (hi(a := (hi a)(tp := Suc (N tp)))) s tp'" for s
  proof (cases "s = a \<and> tp' = tp")
    case True
    then show ?thesis using k(1,2) bspec [OF k(3) assms(2)] assms(3,4) by (cases "lo a tp < N tp") auto
  next
    case False
    then show ?thesis using k(3) s assms(2) by (auto split: if_splits)
  qed
  with k show "e \<le> (N(tp := Suc (N tp))) tp' \<and> (\<forall>s \<in> dom (S(a \<mapsto> rs')). lo s tp' < (hi(a := (hi a)(tp := Suc (N tp)))) s tp' \<longrightarrow>
      (hi(a := (hi a)(tp := Suc (N tp)))) s tp' \<le> c \<or> e \<le> lo s tp') \<and> subsumed (cm tp') c e"
    by auto
qed

lemma store_inv_append:
  assumes inv: "store_inv d good L N S a lo hi ms pc st" and a: "S a = Some rs" and top: "\<forall>s \<in> dom S. s \<le> a"
    and "good (L tp (N tp))" and plain: "\<And>r. good r \<Longrightarrow> plain_topic (tp_topic (wr_tp r))"
  shows "store_inv d good L (N(tp := Suc (N tp))) (S(a \<mapsto> rs @ [L tp (N tp)])) a lo (hi(a := (hi a)(tp := Suc (N tp)))) ms pc
           (st\<lparr>ct_index := insert_hot tp (N tp) (L tp (N tp)) sz (ct_index st), ps_wal := w\<rparr>)"
proof -
  note I = store_invD [OF inv]
  let ?N = "N(tp := Suc (N tp))" and ?S = "S(a \<mapsto> rs @ [L tp (N tp)])" and ?hi = "hi(a := (hi a)(tp := Suc (N tp)))"
  let ?idx = "insert_hot tp (N tp) (L tp (N tp)) sz (ct_index st)"
  have ad: "a \<in> dom S" using a by blast
  have wf: "log_wf L" using I(1) by (simp add: log_good_def)
  have act: "hi a tp' = N tp'" "lo a tp' \<le> N tp'" for tp' using wal_rangesD(1,4) [OF I(2) ad, of tp'] by simp_all
  have cm: "cold_map ?idx = cold_map (ct_index st)" by (simp add: index_views fun_eq_iff)
  have cold: "c < or_end_offset r \<and> or_end_offset r \<le> N tp'" if "cold_map (ct_index st) tp' c = Some r" for tp' c r
    using cold_range_pos [OF I(4) that] cold_end_le [OF I(3) that] coveredD(1) [OF I(5)] by simp
  have "log_good good L ?N" using I(1) assms(4) by (auto simp: log_good_def less_Suc_eq)
  moreover have "cold_holds (sd_um d) (sd_codec d) L ?idx (ct_objs st)"
    using I(4) by (rule cold_holds_cong [rotated]) (simp add: cm)
  moreover have "tier_ok d L ?S a lo ?hi (st\<lparr>ct_index := ?idx, ps_wal := w\<rparr>) pc"
  proof (rule tier_ok_cong [OF I(10)])
    fix seq tp' off assume seq: "seq \<in> dom S - {a}"
    then show "seq \<in> dom ?S - {a}" by auto
    show "seg_recs ?S seq tp' = seg_recs S seq tp' \<and> lo seq tp' = lo seq tp' \<and> ?hi seq tp' = hi seq tp'"
      using seq by (simp add: seg_recs_upd)
    assume "lo seq tp' \<le> off" "off < hi seq tp'" "hot_at (ct_index st) tp' off = None"
    moreover from this have "off < N tp'" using run_bound(1) [OF I(2) ad top, of seq tp'] seq by auto
    ultimately show "hot_at (ct_index (st\<lparr>ct_index := ?idx, ps_wal := w\<rparr>)) tp' off = None"
      by (auto simp: index_views)
  next
    fix seq tp' assume "seq \<in> dom S - {a}" "seg_recs S seq tp' \<noteq> []"
    then show "lo seq tp' < hi seq tp' \<and> plain_topic (tp_topic tp')"
      using run_plain [OF I(2) ad top _ _ I(1) plain] by blast
  qed simp
  moreover have "hot_backed L ?S lo ?hi ?idx"
    by (rule hot_backed_append [OF I(6)]) (simp_all add: a act)
  moreover have "whole ?S a lo ?hi (cold_map (ct_index st))"
    by (rule whole_append [OF I(7) ad]) (simp_all add: act cold)
  moreover have "orphans_ok ?N ?S lo ?hi (pending pc (cold_map (ct_index st))) (concat (map compact_sources ms))"
    by (rule orphans_ok_append [OF I(9) ad]) (simp_all add: act)
  ultimately show ?thesis
    using I(8) cm wal_ranges_append [OF I(2) a top wf, of tp] covered_append [OF I(5)] insert_hot_wf [OF I(3)]
    unfolding store_inv_def by simp
qed

section \<open>Sealing\<close>

lemma wal_ranges_seal:
  assumes R: "wal_ranges L N S a lo hi" and ad: "a \<in> dom S" and top: "\<forall>s \<in> dom S. s \<le> a"
  shows "wal_ranges L N (S(Suc a \<mapsto> [])) (Suc a) (lo(Suc a := N)) (hi(Suc a := N))"
proof (rule wal_rangesI)
  have fresh: "Suc a \<notin> dom S" using top Suc_n_not_le_n by blast
  fix s tp assume s: "s \<in> dom (S(Suc a \<mapsto> []))"
  show "(lo(Suc a := N)) s tp \<le> (hi(Suc a := N)) s tp"
    using s wal_rangesD(1) [OF R, of s tp] by (auto split: if_splits)
  show "seg_recs (S(Suc a \<mapsto> [])) s tp = log_run L tp ((lo(Suc a := N)) s tp) ((hi(Suc a := N)) s tp)"
    using s wal_rangesD(2) [OF R, of s tp] by (auto simp: seg_recs_upd log_run_def split: if_splits)
  fix s' assume s': "s' \<in> dom (S(Suc a \<mapsto> []))" "s < s'"
  then have "s' \<le> Suc a" using top by (auto split: if_splits simp: le_Suc_eq)
  with s'(2) have "s \<noteq> Suc a" by simp
  then have sd: "s \<in> dom S" using s by (auto split: if_splits)
  show "(hi(Suc a := N)) s tp \<le> (lo(Suc a := N)) s' tp"
    using \<open>s \<noteq> Suc a\<close> s' run_bound(1) [OF R ad top sd] wal_rangesD(3) [OF R sd, of s'] by (auto split: if_splits)
qed simp

lemma store_inv_seal:
  assumes inv: "store_inv d good L N S a lo hi ms pc st" and ad: "a \<in> dom S" and top: "\<forall>s \<in> dom S. s \<le> a"
    and pc: "pc = TIdle \<or> pc = TFinished res" and seqs: "seqs_ok (S(Suc a \<mapsto> [])) (Suc a) seqs"
  shows "store_inv d good L N (S(Suc a \<mapsto> [])) (Suc a) (lo(Suc a := N)) (hi(Suc a := N)) ms (TSegments seqs) (st\<lparr>ps_wal := w\<rparr>)"
proof -
  note I = store_invD [OF inv]
  have fresh: "Suc a \<notin> dom S" using top Suc_n_not_le_n by blast
  have old: "s \<noteq> Suc a \<and> s \<in> dom (S(Suc a \<mapsto> []))" if "s \<in> dom S" for s using that fresh by auto
  have "hot_backed L (S(Suc a \<mapsto> [])) (lo(Suc a := N)) (hi(Suc a := N)) (ct_index st)"
    using I(6) unfolding hot_backed_def by (metis (no_types, lifting) fun_upd_apply old)
  moreover have "whole (S(Suc a \<mapsto> [])) (Suc a) (lo(Suc a := N)) (hi(Suc a := N)) (cold_map (ct_index st))"
    using I(7) unfolding whole_def by (auto split: if_splits)
  moreover have "orphans_ok N (S(Suc a \<mapsto> [])) (lo(Suc a := N)) (hi(Suc a := N)) (pending pc (cold_map (ct_index st))) (concat (map compact_sources ms))"
    by (rule orphans_ok_weaken [OF I(9)]) (auto split: if_splits)
  moreover have "pending pc cm = cm" "pending (TSegments seqs) cm = cm" for cm using pc by (auto simp: pending_def)
  ultimately show ?thesis using I wal_ranges_seal [OF I(2) ad top] seqs
    unfolding store_inv_def by (simp add: tier_ok_def)
qed

section \<open>Tiering\<close>

lemma store_inv_pc:
  assumes "store_inv d good L N S a lo hi ms pc st" and "pending pc' (cold_map (ct_index st)) = pending pc (cold_map (ct_index st))"
    and "tier_ok d L S a lo hi st pc'"
  shows "store_inv d good L N S a lo hi ms pc' st"
  using assms unfolding store_inv_def by simp

lemma seqs_ok_Cons: "seqs_ok S a (seq # seqs) \<longleftrightarrow> seq \<in> dom S \<and> seq \<noteq> a \<and> seq \<notin> set seqs \<and> seqs_ok S a seqs"
  by (auto simp: seqs_ok_def)

lemma groups_ok_start:
  assumes "wal_ranges L N S a lo hi" and "seq \<in> dom S" and "\<And>gs :: (topic_partition \<times> wal_record list) list. mset (iter gs) = mset gs"
  shows "groups_ok S lo hi idx seq (if the (S seq) = [] then [] else iter (group_records (the (S seq)))) False"
proof -
  let ?rs = "the (S seq)" and ?gs = "if the (S seq) = [] then [] else iter (group_records (the (S seq)))"
  have set: "set ?gs = set (group_records ?rs)" and d: "distinct (map fst ?gs)"
    using permuted_groups [OF assms(3), of "group_records ?rs"] group_records_spec(1) [of ?rs] by (auto simp: group_records_def)
  have "hot_at idx tp off = None" if "tp \<notin> fst ` set ?gs" "lo seq tp \<le> off" "off < hi seq tp" for tp off
  proof -
    have "seg_recs S seq tp = []" using that(1) group_records_spec(2) [of ?rs] unfolding set by (auto simp: seg_recs_def filter_empty_conv)
    then show ?thesis using wal_rangesD(2) [OF assms(1,2), of tp] that(2,3) by simp
  qed
  moreover have "\<forall>(tp, recs) \<in> set ?gs. recs = seg_recs S seq tp \<and> recs \<noteq> []"
    using group_records_spec(3) [of _ _ ?rs] unfolding set by (auto simp: seg_recs_def)
  ultimately show ?thesis using d unfolding groups_ok_def by blast
qed

lemma wal_ranges_delete:
  "wal_ranges L N S a lo hi \<Longrightarrow> s \<noteq> a \<Longrightarrow> wal_ranges L N (S(s := None)) a lo hi"
  unfolding wal_ranges_def by (auto simp: seg_recs_def)

lemma store_inv_delete:
  assumes inv: "store_inv d good L N S a lo hi ms (TGroups seq [] False seqs) st"
  shows "store_inv d good L N (S(seq := None)) a lo hi ms (TSegments seqs) (st\<lparr>ps_wal := w\<rparr>)"
proof -
  note I = store_invD [OF inv]
  have t: "seqs_ok S a (seq # seqs)" "groups_ok S lo hi (ct_index st) seq [] False" using I(10) by (simp_all add: tier_ok_def)
  have gone: "hot_at (ct_index st) tp off = None" if "lo seq tp \<le> off" "off < hi seq tp" for tp off
    using t(2) that by (simp add: groups_ok_def)
  have "hot_backed L (S(seq := None)) lo hi (ct_index st)"
    unfolding hot_backed_def
  proof (intro allI impI)
    fix tp off e assume h: "hot_at (ct_index st) tp off = Some e"
    from hot_backedD [OF I(6) h] obtain s where s: "he_record e = L tp off" "s \<in> dom S" "lo s tp \<le> off" "off < hi s tp" by blast
    with gone [of tp off] h have "s \<noteq> seq" by auto
    with s show "he_record e = L tp off \<and> (\<exists>s \<in> dom (S(seq := None)). lo s tp \<le> off \<and> off < hi s tp)" by auto
  qed
  moreover have "whole (S(seq := None)) a lo hi (cold_map (ct_index st))" using I(7) unfolding whole_def by auto
  moreover have "orphans_ok N (S(seq := None)) lo hi (cold_map (ct_index st)) (concat (map compact_sources ms))"
    by (rule orphans_ok_weaken [OF I(9)]) (auto simp: pending_def)
  moreover have "seqs_ok (S(seq := None)) a seqs" using t(1) by (auto simp: seqs_ok_def)
  moreover have "wal_ranges L N (S(seq := None)) a lo hi"
    using t(1) by (intro wal_ranges_delete [OF I(2)]) (simp add: seqs_ok_Cons)
  ultimately show ?thesis using I unfolding store_inv_def by (simp add: tier_ok_def pending_def)
qed

lemma store_inv_objs:
  assumes inv: "store_inv d good L N S a lo hi ms pc st" and ad: "a \<in> dom S" and top: "\<forall>s \<in> dom S. s \<le> a"
    and plain: "\<And>r. good r \<Longrightarrow> plain_topic (tp_topic (wr_tp r))"
    and keep: "\<And>tp s e. plain_topic (tp_topic tp) \<Longrightarrow> object_holds (sd_um d) (sd_codec d) L (ct_objs st) tp s e \<Longrightarrow>
      object_holds (sd_um d) (sd_codec d) L u tp s e"
  shows "store_inv d good L N S a lo hi ms pc (st\<lparr>ct_objs := u\<rparr>)"
proof -
  note I = store_invD [OF inv]
  have "tier_ok d L S a lo hi (st\<lparr>ct_objs := u\<rparr>) pc"
    using run_plain [OF I(2) ad top _ _ I(1) plain] keep by (intro tier_ok_cong [OF I(10)]) (simp_all, blast)
  moreover have "cold_holds (sd_um d) (sd_codec d) L (ct_index st) u"
    using keep by (intro cold_holds_objs [OF I(4)]) blast
  ultimately show ?thesis using I unfolding store_inv_def by simp
qed

lemma group_segment_run:
  assumes "log_wf L" and "st < en"
  shows "ws_start_offset (group_segment cod tp (log_run L tp st en)) = st"
    and "ws_end_offset (group_segment cod tp (log_run L tp st en)) = en"
  using log_run_ends [OF assms, of tp] assms(2) by (simp_all add: group_segment_def Let_def)

lemma group_head:
  assumes inv: "store_inv d good L N S a lo hi ms pc st" and ad: "a \<in> dom S" and top: "\<forall>s \<in> dom S. s \<le> a"
    and ok: "deps_ok d storable good" and s: "seqs_ok S a (seq # seqs)" and g: "groups_ok S lo hi idx seq ((tp, recs) # gs) f"
  shows "recs = log_run L tp (lo seq tp) (hi seq tp)" and "lo seq tp < hi seq tp" and "plain_topic (tp_topic tp)"
    and "sc_de (sd_codec d) (sc_ser (sd_codec d) recs) = Some recs" and "hi seq tp \<le> N tp"
    and "ws_start_offset (group_segment (sd_codec d) tp recs) = lo seq tp"
    and "ws_end_offset (group_segment (sd_codec d) tp recs) = hi seq tp"
proof -
  note I = store_invD [OF inv]
  have seq: "seq \<in> dom S" "seg_recs S seq tp \<noteq> []" and r: "recs = seg_recs S seq tp" using s g by (auto simp: seqs_ok_def groups_ok_def)
  show recs: "recs = log_run L tp (lo seq tp) (hi seq tp)" using wal_rangesD(2) [OF I(2) seq(1)] r by simp
  have plain: "\<And>r. good r \<Longrightarrow> plain_topic (tp_topic (wr_tp r))" using ok by (simp add: deps_ok_def)
  show lt: "lo seq tp < hi seq tp" and "plain_topic (tp_topic tp)" using run_plain [OF I(2) ad top seq I(1) plain] by auto
  show hi: "hi seq tp \<le> N tp" by (rule run_bound(1) [OF I(2) ad top seq(1)])
  have "\<forall>r \<in> set recs. good r" using I(1) hi by (auto simp: recs set_log_run log_good_def)
  then show "sc_de (sd_codec d) (sc_ser (sd_codec d) recs) = Some recs" using ok by (simp add: deps_ok_def)
  have "log_wf L" using I(1) by (simp add: log_good_def)
  then show "ws_start_offset (group_segment (sd_codec d) tp recs) = lo seq tp" "ws_end_offset (group_segment (sd_codec d) tp recs) = hi seq tp"
    using group_segment_run [OF _ lt] recs by simp_all
qed

text \<open>The post-upload check passed: the range goes into the manifest.\<close>

lemma store_inv_register:
  assumes inv: "store_inv d good L N S a lo hi ms (TUploaded seq seg key gs f seqs) st"
    and fit: "tier_fits d fits (TUploaded seq seg key gs f seqs)"
    and ad: "a \<in> dom S" and top: "\<forall>s \<in> dom S. s \<le> a" and ok: "deps_ok d storable good"
  shows "\<exists>m. store_inv d good L N S a lo hi (ms @ [m]) (TRegistered seq seg key gs f seqs) (tier_register (sd_codec d) seg key st)"
proof -
  note I = store_invD [OF inv]
  have t: "seqs_ok S a (seq # seqs)" "upload_ok d L S lo hi st seq seg key gs f" using I(10) by (simp_all add: tier_ok_def)
  let ?tp = "ws_tp seg"
  let ?seg = "\<lparr>cs_tp = ws_tp seg, cs_start_offset = ws_start_offset seg, cs_end_offset = ws_end_offset seg,
                       cs_object_key = key, cs_size_bytes = ws_size_bytes seg\<rparr>"
  note h = group_head [OF inv ad top ok t(1), of "ct_index st" ?tp "seg_recs S seq ?tp" gs f]
  have g: "groups_ok S lo hi (ct_index st) seq ((?tp, seg_recs S seq ?tp) # gs) f" and
    seg: "seg = group_segment (sd_codec d) ?tp (seg_recs S seq ?tp)" using t(2) by (simp_all add: upload_ok_def)
  have ends: "ws_start_offset seg = lo seq ?tp" "ws_end_offset seg = hi seq ?tp" using h(6,7) [OF g] seg by simp_all
  have p0: "pending (TUploaded seq seg key gs f seqs) cm = cm" for cm by (simp add: pending_def)
  have man: "manifest_ok (sd_codec d) (ms @ [Register ?seg]) (register (sc_mser (sd_codec d)) (sc_crc (sd_codec d)) (ws_tp seg)
      (ws_start_offset seg) (ws_end_offset seg) key (ws_size_bytes seg) (ct_manifest st))
      (pending (TRegistered seq seg key gs f seqs) (cold_map (ct_index st)))"
    using I(8) fit unfolding manifest_ok_def p0
    by (simp add: register_def append_record_def tier_fits_def live_map_register pending_def seg_range_def fun_eq_iff)
  have "orphans_ok N S lo hi (pending (TRegistered seq seg key gs f seqs) (cold_map (ct_index st))) (concat (map compact_sources ms))"
  proof (rule orphans_ok_weaken [OF I(9)])
    fix tp c e
    assume o: "e \<le> N tp" "\<forall>s \<in> dom S. lo s tp < hi s tp \<longrightarrow> hi s tp \<le> c \<or> e \<le> lo s tp"
      "subsumed (pending (TUploaded seq seg key gs f seqs) (cold_map (ct_index st)) tp) c e"
    obtain c' r where r: "cold_map (ct_index st) tp c' = Some r" "c' \<le> c" "e \<le> or_end_offset r" "c' < c \<or> e < or_end_offset r"
      using o(3) by (auto simp: subsumed_def p0)
    have "seq \<in> dom S" using t(1) by (simp add: seqs_ok_def)
    then have "or_end_offset r = hi seq ?tp" if "tp = ?tp" "c' = lo seq ?tp"
      using wholeD(3) [OF I(7) _ r(1)] that h(2) [OF g] cold_range_pos [OF I(4) r(1)] by simp
    with r have "subsumed (pending (TRegistered seq seg key gs f seqs) (cold_map (ct_index st)) tp) c e"
      unfolding subsumed_def pending_def by (intro exI [of _ c']) (auto simp: ends)
    with o show "e \<le> N tp \<and> (\<forall>s \<in> dom S. lo s tp < hi s tp \<longrightarrow> hi s tp \<le> c \<or> e \<le> lo s tp) \<and>
        subsumed (pending (TRegistered seq seg key gs f seqs) (cold_map (ct_index st)) tp) c e" by blast
  qed
  with man I t show ?thesis
    by (intro exI [of _ "Register ?seg"]) (simp add: store_inv_def tier_register_def tier_ok_def upload_ok_def)
qed

lemma cold_holds_flip:
  assumes ch: "cold_holds um cod L idx u" and st: "st < en" and pl: "plain_topic (tp_topic tp)" and obj: "object_holds um cod L u tp st en"
    and meet: "\<And>c r. cold_map idx tp c = Some r \<Longrightarrow> c < en \<Longrightarrow> st < or_end_offset r \<Longrightarrow> c = st"
    and idx': "\<And>tp'. cold_map idx' tp' = (if tp' = tp then (cold_map idx tp)(st \<mapsto>
        \<lparr>or_end_offset = en, or_object_key = segment_key tp st en, or_size_bytes = sz\<rparr>) else cold_map idx tp')"
  shows "cold_holds um cod L idx' u"
proof -
  have dis: "ranges_disjoint or_end_offset (cold_map idx tp')" for tp' using ch by (simp add: cold_holds_def)
  have "ranges_disjoint or_end_offset (cold_map idx' tp')" for tp'
  proof (cases "tp' = tp")
    case True
    have up: "en \<le> s'" if "cold_map idx tp s' = Some v'" "st < s'" for s' v'
      using meet [OF that(1)] that(2) cold_range_pos [OF ch that(1)] by (cases "s' < en") auto
    have down: "or_end_offset v \<le> st" if "cold_map idx tp s = Some v" "s < st" for s v
      using meet [OF that(1)] that(2) st by (cases "st < or_end_offset v") auto
    show ?thesis unfolding ranges_disjoint_def
    proof (intro allI impI)
      fix s v s' v' assume h: "cold_map idx' tp' s = Some v" "cold_map idx' tp' s' = Some v'" "s < s'"
      consider "s = st" | "s' = st" "s \<noteq> st" | "s \<noteq> st" "s' \<noteq> st" by blast
      then show "or_end_offset v \<le> s'"
      proof cases
        case 1
        then show ?thesis using h True up by (auto simp: idx')
      next
        case 2
        then show ?thesis using h True down by (simp add: idx')
      next
        case 3
        then show ?thesis using h True dis [of tp] unfolding ranges_disjoint_def by (simp add: idx')
      qed
    qed
  next
    case False
    then show ?thesis using dis [of tp'] by (simp add: idx')
  qed
  moreover have "range_holds um cod L u tp' s r" if "cold_map idx' tp' s = Some r" for tp' s r
    using that cold_holds_range [OF ch, of tp' s r] st pl obj
    by (auto simp: idx' range_holds_def split: if_splits)
  ultimately show ?thesis by (simp add: cold_holds_def)
qed

lemma store_inv_flip:
  assumes inv: "store_inv d good L N S a lo hi ms (TRegistered seq seg key gs f seqs) st"
    and ad: "a \<in> dom S" and top: "\<forall>s \<in> dom S. s \<le> a" and ok: "deps_ok d storable good"
  shows "store_inv d good L N S a lo hi ms (TGroups seq gs f seqs) (tier_flip seg key st)"
proof -
  note I = store_invD [OF inv]
  have t: "seqs_ok S a (seq # seqs)" "upload_ok d L S lo hi st seq seg key gs f" using I(10) by (simp_all add: tier_ok_def)
  let ?tp = "ws_tp seg" and ?lo = "lo seq (ws_tp seg)" and ?hi = "hi seq (ws_tp seg)"
  note h = group_head [OF inv ad top ok t(1), of "ct_index st" ?tp "seg_recs S seq ?tp" gs f]
  have g: "groups_ok S lo hi (ct_index st) seq ((?tp, seg_recs S seq ?tp) # gs) f" and
    seg: "seg = group_segment (sd_codec d) ?tp (seg_recs S seq ?tp)" and key: "key = segment_key ?tp ?lo ?hi"
    and obj: "object_holds (sd_um d) (sd_codec d) L (ct_objs st) ?tp ?lo ?hi" using t(2) by (simp_all add: upload_ok_def)
  have ends: "ws_start_offset seg = ?lo" "ws_end_offset seg = ?hi" using h(6,7) [OF g] seg by simp_all
  have sd: "seq \<in> dom S" "seq \<noteq> a" using t(1) by (simp_all add: seqs_ok_def)
  let ?idx = "flip_to_cold ?tp ?lo ?hi key (ws_size_bytes seg) (ct_index st)"
  have cm: "cold_map ?idx tp' = (if tp' = ?tp then (cold_map (ct_index st) ?tp)(?lo \<mapsto>
      \<lparr>or_end_offset = ?hi, or_object_key = segment_key ?tp ?lo ?hi, or_size_bytes = ws_size_bytes seg\<rparr>) else cold_map (ct_index st) tp')" for tp'
    by (simp add: index_views key)
  have meet: "c = ?lo" "or_end_offset r = ?hi" if "cold_map (ct_index st) ?tp c = Some r" "c < ?hi" "?lo < or_end_offset r" for c r
    using wholeD(2,3) [OF I(7) sd(1) that h(2) [OF g]] by simp_all
  have pend: "pending (TRegistered seq seg key gs f seqs) (cold_map (ct_index st)) = cold_map ?idx"
    by (simp add: pending_def fun_eq_iff index_views ends)
  have hot: "hot_at ?idx tp' off = (if tp' = ?tp \<and> ?lo \<le> off \<and> off < ?hi then None else hot_at (ct_index st) tp' off)" for tp' off
    using I(3) by (simp add: index_views)
  have cov: "cold_covers ?idx tp' off" if "cold_covers (ct_index st) tp' off \<or> (tp' = ?tp \<and> ?lo \<le> off \<and> off < ?hi)" for tp' off
  proof -
    from that consider "tp' = ?tp" "?lo \<le> off" "off < ?hi"
      | c r where "cold_map (ct_index st) tp' c = Some r" "c \<le> off" "off < or_end_offset r" "\<not> (tp' = ?tp \<and> ?lo \<le> off \<and> off < ?hi)"
      by (auto simp: cold_covers_def)
    then show ?thesis
    proof cases
      case 1
      then show ?thesis unfolding cold_covers_def cm by (intro exI [of _ ?lo]) simp
    next
      case (2 c r)
      have "\<not> (tp' = ?tp \<and> c = ?lo)"
      proof
        assume eq: "tp' = ?tp \<and> c = ?lo"
        then have "or_end_offset r = ?hi" using meet(2) 2(1) h(2) [OF g] cold_range_pos [OF I(4) 2(1)] by simp
        with 2 eq show False by simp
      qed
      with 2 show ?thesis unfolding cold_covers_def cm by (intro exI [of _ c]) auto
    qed
  qed
  have "covered N ?idx"
    unfolding covered_def
  proof (intro allI conjI impI)
    fix tp' off
    show "next_offset ?idx tp' = N tp'" using coveredD(1) [OF I(5)] h(5) [OF g] by (simp add: index_views max_absorb1)
    assume "off < N tp'"
    with coveredD(2) [OF I(5) this] show "hot_at ?idx tp' off \<noteq> None \<or> cold_covers ?idx tp' off" by (auto simp: hot cov)
  qed
  moreover have "hot_backed L S lo hi ?idx" using I(6) unfolding hot_backed_def by (simp add: hot)
  moreover have "whole S a lo hi (cold_map ?idx)"
    unfolding whole_def
  proof (intro ballI allI impI)
    fix s tp' c r
    assume w: "s \<in> dom S" "cold_map ?idx tp' c = Some r" "c < hi s tp'" "lo s tp' < or_end_offset r" "lo s tp' < hi s tp'"
    show "s \<noteq> a \<and> c = lo s tp' \<and> or_end_offset r = hi s tp'"
    proof (cases "tp' = ?tp \<and> c = ?lo")
      case True
      then have r: "or_end_offset r = ?hi" using w(2) by (auto simp: cm)
      have "s = seq" using wal_rangesD(3) [OF I(2) sd(1) w(1), of ?tp] wal_rangesD(3) [OF I(2) w(1) sd(1), of ?tp] True r w(3,4)
        by (cases s seq rule: linorder_cases) auto
      with True r sd(2) show ?thesis by simp
    next
      case False
      then have "cold_map (ct_index st) tp' c = Some r" using w(2) by (auto simp: cm split: if_splits)
      with wholeD [OF I(7) w(1) this w(3-5)] show ?thesis by simp
    qed
  qed
  moreover have "cold_holds (sd_um d) (sd_codec d) L ?idx (ct_objs st)"
    by (rule cold_holds_flip [OF I(4) h(2,3) [OF g] obj meet(1) cm])
  moreover have "groups_ok S lo hi ?idx seq gs f"
  proof -
    have "hot_at ?idx tp' off = None" if "\<not> f" "tp' \<notin> fst ` set gs" "lo seq tp' \<le> off" "off < hi seq tp'" for tp' off
      using g that by (cases "tp' = ?tp") (simp_all add: groups_ok_def hot)
    then show ?thesis using g unfolding groups_ok_def by simp
  qed
  moreover have "index_wf ?idx" by (rule flip_to_cold_wf [OF I(3)])
  moreover have "pending (TGroups seq gs f seqs) (cold_map ?idx) = cold_map ?idx" by (simp add: pending_def)
  ultimately show ?thesis using I(1,2,8,9) t(1) unfolding store_inv_def pend
    by (simp add: tier_flip_def ends tier_ok_def)
qed

text \<open>One step of the tiering machine.\<close>

context tiered_storage
begin

lemma store_inv_upload:
  assumes inv: "store_inv d good L N S a lo hi ms (TGroups seq ((tp, recs) # gs) f seqs) st"
    and fit: "fits (group_segment (sd_codec d) tp recs)"
    and ad: "a \<in> dom S" and top: "\<forall>s \<in> dom S. s \<le> a" and ok: "deps_ok d storable good"
  shows "\<exists>key u. um_upload_segment (sd_um d) (group_segment (sd_codec d) tp recs) (ct_objs st) = (Ok key, u) \<and>
    store_inv d good L N S a lo hi ms (TUploaded seq (group_segment (sd_codec d) tp recs) key gs f seqs) (st\<lparr>ct_objs := u\<rparr>)"
proof -
  note I = store_invD [OF inv]
  have t: "seqs_ok S a (seq # seqs)" and g: "groups_ok S lo hi (ct_index st) seq ((tp, recs) # gs) f" using I(10) by (simp_all add: tier_ok_def)
  note h = group_head [OF inv ad top ok t g]
  let ?seg = "group_segment (sd_codec d) tp recs"
  have "sc_de (sd_codec d) (ws_data ?seg) = Some (log_run L tp (lo seq tp) (hi seq tp))"
    using h(1,4) by (simp add: group_segment_def Let_def)
  from um.upload_holds [OF fit group_segment_tp h(6,7) this, of "ct_objs st"] obtain u where
    u: "um_upload_segment (sd_um d) ?seg (ct_objs st) = (Ok (segment_key tp (lo seq tp) (hi seq tp)), u)"
    "object_holds (sd_um d) (sd_codec d) L u tp (lo seq tp) (hi seq tp)"
    "\<forall>tp' s e. plain_topic (tp_topic tp') \<longrightarrow> object_holds (sd_um d) (sd_codec d) L (ct_objs st) tp' s e \<longrightarrow> object_holds (sd_um d) (sd_codec d) L u tp' s e"
    by blast
  have plain: "\<And>r. good r \<Longrightarrow> plain_topic (tp_topic (wr_tp r))" using ok by (simp add: deps_ok_def)
  have inv1: "store_inv d good L N S a lo hi ms (TGroups seq ((tp, recs) # gs) f seqs) (st\<lparr>ct_objs := u\<rparr>)"
    by (rule store_inv_objs [OF inv ad top plain]) (simp_all add: u(3))
  have "recs = seg_recs S seq tp" using g by (simp add: groups_ok_def)
  then have "upload_ok d L S lo hi (st\<lparr>ct_objs := u\<rparr>) seq ?seg (segment_key tp (lo seq tp) (hi seq tp)) gs f"
    using g u(2) by (simp add: upload_ok_def)
  then have "store_inv d good L N S a lo hi ms (TUploaded seq ?seg (segment_key tp (lo seq tp) (hi seq tp)) gs f seqs) (st\<lparr>ct_objs := u\<rparr>)"
    using t by (intro store_inv_pc [OF inv1]) (simp_all add: pending_def tier_ok_def)
  with u(1) show ?thesis by blast
qed

lemma tier_step_inv:
  assumes w: "holds (ps_wal st) S a m" and inv: "store_inv d good L N S a lo hi ms pc st" and fit: "tier_fits d fits pc"
    and ok: "deps_ok d storable good" and step: "tier_step d obs (pc, st) = (pc', st')"
  shows "\<exists>S' ms'. holds (ps_wal st') S' a m \<and> S' a = S a \<and> store_inv d good L N S' a lo hi ms' pc' st' \<and> ps_cache st' = ps_cache st"
proof -
  note I = store_invD [OF inv]
  have ad: "a \<in> dom S" and top: "\<forall>s \<in> dom S. s \<le> a" using log.shape [OF w] by auto
  have stay: ?thesis if "st' = st" "pending pc' (cold_map (ct_index st)) = pending pc (cold_map (ct_index st))" "tier_ok d L S a lo hi st pc'"
    using store_inv_pc [OF inv that(2,3)] w that(1) by blast
  show ?thesis
  proof (cases pc)
    case TIdle
    then show ?thesis using step I(10) by (intro stay) auto
  next
    case (TFinished r)
    then show ?thesis using step I(10) by (intro stay) auto
  next
    case (TSegments seqs)
    show ?thesis
    proof (cases seqs)
      case Nil
      then show ?thesis using TSegments step by (intro stay) (auto simp: pending_def tier_ok_def)
    next
      case (Cons seq rest)
      have so: "seqs_ok S a (seq # rest)" using I(10) TSegments Cons by (simp add: tier_ok_def)
      then obtain rs where rs: "S seq = Some rs" "seq \<noteq> a" by (auto simp: seqs_ok_def)
      have "tier_step d obs (pc, st) = (TGroups seq (if rs = [] then [] else sd_iter d (group_records rs)) False rest, st)"
        using log.read_log [OF w rs] TSegments Cons by simp
      moreover have "groups_ok S lo hi (ct_index st) seq (if rs = [] then [] else sd_iter d (group_records rs)) False"
        using groups_ok_start [OF I(2) domI [where m = S, OF rs(1)], of "sd_iter d" "ct_index st"] rs(1) ok
        by (cases "rs = []") (simp_all add: deps_ok_def)
      ultimately show ?thesis using step so TSegments by (intro stay) (auto simp: pending_def tier_ok_def)
    qed
  next
    case (TGroups seq groups f seqs)
    have t: "seqs_ok S a (seq # seqs)" "groups_ok S lo hi (ct_index st) seq groups f" using I(10) TGroups by (simp_all add: tier_ok_def)
    show ?thesis
    proof (cases groups)
      case Nil
      show ?thesis
      proof (cases f)
        case True
        then show ?thesis using TGroups Nil step t(1) by (intro stay) (auto simp: pending_def tier_ok_def seqs_ok_def)
      next
        case False
        have "seq \<noteq> a" using t(1) by (simp add: seqs_ok_def)
        from log.delete_log [OF w this] obtain w' where w': "lg_delete_segment (sd_log d) seq (ps_wal st) = (Ok (), w')" "holds w' (S(seq := None)) a m"
          by blast
        then have "pc' = TSegments seqs" "st' = st\<lparr>ps_wal := w'\<rparr>" using step TGroups Nil False by simp_all
        moreover have "store_inv d good L N (S(seq := None)) a lo hi ms (TSegments seqs) (st\<lparr>ps_wal := w'\<rparr>)"
          using inv TGroups Nil False by (intro store_inv_delete) simp
        ultimately show ?thesis using w'(2) \<open>seq \<noteq> a\<close> by (intro exI [of _ "S(seq := None)"] exI [of _ ms]) simp
      qed
    next
      case (Cons g gs)
      obtain tp recs where g: "g = (tp, recs)" by (cases g)
      have gt: "groups_ok S lo hi (ct_index st) seq gs True" using t(2) Cons g by (auto simp: groups_ok_def)
      consider (fail) e where "may_tier (sd_reservation d) tp (obs seq tp PreUpload) = Inl e"
        | (no) "may_tier (sd_reservation d) tp (obs seq tp PreUpload) = Inr False"
        | (yes) "may_tier (sd_reservation d) tp (obs seq tp PreUpload) = Inr True"
        by (cases "may_tier (sd_reservation d) tp (obs seq tp PreUpload)") auto
      then show ?thesis
      proof cases
        case fail
        then show ?thesis using step TGroups Cons g by (intro stay) (auto simp: pending_def tier_ok_def)
      next
        case no
        then show ?thesis using step TGroups Cons g t(1) gt by (intro stay) (auto simp: pending_def tier_ok_def)
      next
        case yes
        have "fits (group_segment (sd_codec d) tp recs)" using fit TGroups Cons g by (simp add: tier_fits_def)
        from store_inv_upload [OF _ this ad top ok, of L N lo hi ms seq gs f seqs st] inv TGroups Cons g obtain key u where
          "um_upload_segment (sd_um d) (group_segment (sd_codec d) tp recs) (ct_objs st) = (Ok key, u)"
          "store_inv d good L N S a lo hi ms (TUploaded seq (group_segment (sd_codec d) tp recs) key gs f seqs) (st\<lparr>ct_objs := u\<rparr>)"
          by blast
        then show ?thesis using step TGroups Cons g yes w by (auto simp: Let_def)
      qed
    qed
  next
    case (TUploaded seq seg key gs f seqs)
    have t: "seqs_ok S a (seq # seqs)" "groups_ok S lo hi (ct_index st) seq gs True"
      using I(10) TUploaded by (auto simp: tier_ok_def upload_ok_def groups_ok_def)
    consider (fail) e where "may_tier (sd_reservation d) (ws_tp seg) (obs seq (ws_tp seg) PostUpload) = Inl e"
      | (no) "may_tier (sd_reservation d) (ws_tp seg) (obs seq (ws_tp seg) PostUpload) = Inr False"
      | (yes) "may_tier (sd_reservation d) (ws_tp seg) (obs seq (ws_tp seg) PostUpload) = Inr True"
      by (cases "may_tier (sd_reservation d) (ws_tp seg) (obs seq (ws_tp seg) PostUpload)") auto
    then show ?thesis
    proof cases
      case fail
      then show ?thesis using step TUploaded by (intro stay) (auto simp: pending_def tier_ok_def)
    next
      case no
      then show ?thesis using step TUploaded t by (intro stay) (auto simp: pending_def tier_ok_def)
    next
      case yes
      from store_inv_register [OF _ _ ad top ok, of L N lo hi ms seq seg key gs f seqs st fits] inv fit TUploaded obtain m' where
        "store_inv d good L N S a lo hi (ms @ [m']) (TRegistered seq seg key gs f seqs) (tier_register (sd_codec d) seg key st)" by blast
      moreover have "ps_wal (tier_register (sd_codec d) seg key st) = ps_wal st" "ps_cache (tier_register (sd_codec d) seg key st) = ps_cache st"
        by (simp_all add: tier_register_def)
      ultimately show ?thesis using step TUploaded yes w by auto
    qed
  next
    case (TRegistered seq seg key gs f seqs)
    have "store_inv d good L N S a lo hi ms (TGroups seq gs f seqs) (tier_flip seg key st)"
      using inv TRegistered by (intro store_inv_flip [OF _ ad top ok]) simp
    moreover have "ps_wal (tier_flip seg key st) = ps_wal st" "ps_cache (tier_flip seg key st) = ps_cache st"
      by (simp_all add: tier_flip_def)
    ultimately show ?thesis using step TRegistered w by auto
  qed
qed

end

section \<open>Compaction\<close>

lemma run_avoids:
  assumes "\<And>off. l \<le> off \<Longrightarrow> off < h \<Longrightarrow> \<not> (s \<le> off \<and> off < e)" and "l < h" and "s < e"
  shows "h \<le> s \<or> e \<le> (l :: nat)"
  using assms(1) [of l] assms(1) [of s] assms(2,3) by linarith

definition compacted :: "compaction_plan \<Rightarrow> object_range \<Rightarrow> cold_view \<Rightarrow> cold_view" where
  "compacted p v cm = cm(cp_tp p :=
     (\<lambda>k. if plan_start p \<le> k \<and> k < plan_end p then None else cm (cp_tp p) k)(plan_start p \<mapsto> v))"

lemma compacted_subsumed:
  assumes "subsumed (cm tp) c e" and "or_end_offset v = plan_end p" and "plan_start p < plan_end p"
    and "\<And>c' r. cm (cp_tp p) c' = Some r \<Longrightarrow> plan_start p \<le> c' \<Longrightarrow> c' < plan_end p \<Longrightarrow> or_end_offset r \<le> plan_end p"
  shows "subsumed (compacted p v cm tp) c e"
proof -
  obtain c' r where r: "cm tp c' = Some r" "c' \<le> c" "e \<le> or_end_offset r" "c' < c \<or> e < or_end_offset r"
    using assms(1) by (auto simp: subsumed_def)
  show ?thesis
  proof (cases "tp = cp_tp p \<and> plan_start p \<le> c' \<and> c' < plan_end p")
    case True
    with assms(4) [of c' r] r have "or_end_offset r \<le> plan_end p" by simp
    with True r assms(2) show ?thesis unfolding subsumed_def compacted_def
      by (intro exI [of _ "plan_start p"] exI [of _ v]) auto
  next
    case False
    then have "compacted p v cm tp c' = Some r" using r(1) assms(3) by (auto simp: compacted_def)
    with r show ?thesis unfolding subsumed_def by blast
  qed
qed

lemma manifest_ok_compact:
  assumes "manifest_ok cod ms bs cm" and "encodable (sc_mser cod) (sc_mde cod) (Compact (merged_cold cod L p) srcs)"
  shows "manifest_ok cod (ms @ [Compact (merged_cold cod L p) srcs])
           (append_record (sc_mser cod) (sc_crc cod) (Compact (merged_cold cod L p) srcs) bs)
           (compacted p (seg_range (merged_cold cod L p)) cm)"
proof -
  have "live_wf (fold live_step ms [])" by (rule live_steps_wf) simp
  then show ?thesis using assms unfolding manifest_ok_def
    by (simp add: append_record_def live_map_compact compacted_def merged_cold_def)
qed

lemma pending_compacted:
  assumes "\<And>seq seg key gs f seqs. pc = TRegistered seq seg key gs f seqs \<Longrightarrow> ws_tp seg = cp_tp p \<Longrightarrow>
      ws_start_offset seg < plan_start p \<or> plan_end p \<le> ws_start_offset seg" and "plan_start p < plan_end p"
  shows "pending pc (compacted p v cm) = compacted p v (pending pc cm)"
proof (cases pc)
  case (TRegistered seq seg key gs f seqs)
  then show ?thesis using assms(1) [OF TRegistered] assms(2) by (auto simp: pending_def compacted_def fun_eq_iff)
qed (simp_all add: pending_def)

lemma whole_compacted:
  assumes "whole S a lo hi cm" and "or_end_offset v = plan_end p" and "plan_start p < plan_end p"
    and "\<And>s. s \<in> dom S \<Longrightarrow> lo s (cp_tp p) < hi s (cp_tp p) \<Longrightarrow> hi s (cp_tp p) \<le> plan_start p \<or> plan_end p \<le> lo s (cp_tp p)"
  shows "whole S a lo hi (compacted p v cm)"
  unfolding whole_def
proof (intro ballI allI impI)
  fix s tp c r
  assume h: "s \<in> dom S" "compacted p v cm tp c = Some r" "c < hi s tp" "lo s tp < or_end_offset r" "lo s tp < hi s tp"
  have "\<not> (tp = cp_tp p \<and> c = plan_start p)"
  proof
    assume eq: "tp = cp_tp p \<and> c = plan_start p"
    then have "r = v" using h(2) by (simp add: compacted_def)
    with eq assms(2) assms(4) [OF h(1)] h(3-5) show False by auto
  qed
  then have "cm tp c = Some r" using h(2) by (auto simp: compacted_def split: if_splits)
  with wholeD [OF assms(1) h(1) this h(3-5)] show "s \<noteq> a \<and> c = lo s tp \<and> or_end_offset r = hi s tp" by simp
qed

context tiered_storage
begin

lemma wal_free_runs:
  assumes w: "holds (ps_wal st) S a m" and inv: "store_inv d good L N S a lo hi ms pc st"
    and vp: "valid_plan (ct_index st) p" and free: "wal_free d (ps_wal st) p" and s: "s \<in> dom S" and ne: "lo s (cp_tp p) < hi s (cp_tp p)"
  shows "hi s (cp_tp p) \<le> plan_start p \<or> plan_end p \<le> lo s (cp_tp p)"
proof -
  note I = store_invD [OF inv]
  have wf: "log_wf L" using I(1) by (simp add: log_good_def)
  have ad: "a \<in> dom S" using log.shape [OF w] by simp
  note ends = valid_plan_ends [OF vp I(4) wf] and srcs = plan_sources [OF I(3) vp I(4) wf]
  show ?thesis
  proof (cases "s = a")
    case True
    obtain c where c: "cold_map (ct_index st) (cp_tp p) c = Some (seg_range (last (cp_sources p)))" using ends(4) by blast
    have e: "or_end_offset (seg_range (last (cp_sources p))) = plan_end p" by (simp add: seg_range_def plan_end_def)
    have "c < plan_end p" using cold_range_pos [OF I(4) c] e by simp
    moreover have "plan_end p \<le> N (cp_tp p)" using cold_end_le [OF I(3) c] coveredD(1) [OF I(5)] e by simp
    ultimately have "c < hi a (cp_tp p)" using wal_rangesD(4) [OF I(2) ad] by simp
    then have "\<not> lo a (cp_tp p) < plan_end p" using wholeD(1) [OF I(7) ad c] e ne True by auto
    then show ?thesis using True by simp
  next
    case False
    obtain rs where rs: "S s = Some rs" using s by blast
    have "lg_sealed_segments (sd_log d) (ps_wal st) = Ok (sorted_list_of_set (dom S - {a}))" by (rule log.sealed_log [OF w])
    moreover have "s \<in> set (sorted_list_of_set (dom S - {a}))" using log.shape [OF w] s False by simp
    ultimately have none: "list_all (\<lambda>r. \<not> (wr_tp r = cp_tp p \<and> plan_start p \<le> wr_offset r \<and> wr_offset r < plan_end p)) rs"
      using free log.read_log [OF w rs False] by (auto simp: wal_free_def list_all_iff split: sum.splits)
    show ?thesis
    proof (rule run_avoids [OF _ ne ends(1)])
      fix off assume off: "lo s (cp_tp p) \<le> off" "off < hi s (cp_tp p)"
      then have "L (cp_tp p) off \<in> set (seg_recs S s (cp_tp p))" using wal_rangesD(2) [OF I(2) s] by (simp add: set_log_run)
      then have "L (cp_tp p) off \<in> set rs" using rs by (simp add: seg_recs_def)
      then show "\<not> (plan_start p \<le> off \<and> off < plan_end p)" using none wf by (auto simp: list_all_iff log_wf_def)
    qed
  qed
qed

lemma store_inv_compact:
  assumes w: "holds (ps_wal st) S a m" and inv: "store_inv d good L N S a lo hi ms pc st"
    and vp: "valid_plan (ct_index st) p" and fit: "plan_fits fits (sd_codec d) L p"
    and enc: "encodable (sc_mser (sd_codec d)) (sc_mde (sd_codec d)) (Compact (merged_cold (sd_codec d) L p) (map cs_object_key (cp_sources p)))"
    and free: "wal_free d (ps_wal st) p" and ok: "deps_ok d storable good"
    and ex: "execute_plan (sd_um d) (sd_codec d) p st = (Ok (), st')"
  shows "\<exists>m. store_inv d good L N S a lo hi (ms @ [m]) pc st' \<and> ps_wal st' = ps_wal st \<and> ps_cache st' = ps_cache st"
proof -
  note I = store_invD [OF inv]
  have wf: "log_wf L" using I(1) by (simp add: log_good_def)
  have ad: "a \<in> dom S" and top: "\<forall>s \<in> dom S. s \<le> a" using log.shape [OF w] by auto
  note ends = valid_plan_ends [OF vp I(4) wf] and srcs = plan_sources [OF I(3) vp I(4) wf]
    and bounds = plan_range_bounds [OF vp I(4) wf] and free_runs = wal_free_runs [OF w inv vp free]
  have plain: "\<And>r. good r \<Longrightarrow> plain_topic (tp_topic (wr_tp r))" using ok by (simp add: deps_ok_def)
  let ?tp = "cp_tp p" and ?s = "plan_start p" and ?e = "plan_end p" and ?cm = "cold_map (ct_index st)"
  let ?key = "segment_key (cp_tp p) (plan_start p) (plan_end p)" and ?sz = "ws_size_bytes (merged_segment (sd_codec d) L p)"
  let ?idx = "replace_cold ?tp ?s ?e ?key ?sz (ct_index st)" and ?m = "Compact (merged_cold (sd_codec d) L p) (map cs_object_key (cp_sources p))"
  let ?v = "seg_range (merged_cold (sd_codec d) L p)"
  from um.execute_plan_holds [OF I(3) vp I(4) wf] fit ex obtain u where
    st': "st' = st\<lparr>ct_manifest := append_record (sc_mser (sd_codec d)) (sc_crc (sd_codec d)) ?m (ct_manifest st), ct_index := ?idx, ct_objs := u\<rparr>"
    and ch: "cold_holds (sd_um d) (sd_codec d) L ?idx u"
    and keep: "\<And>tp s e. plain_topic (tp_topic tp) \<Longrightarrow> object_holds (sd_um d) (sd_codec d) L (ct_objs st) tp s e \<Longrightarrow>
        \<not> (tp = ?tp \<and> ?s \<le> s \<and> s < ?e) \<Longrightarrow> object_holds (sd_um d) (sd_codec d) L u tp s e"
    unfolding plan_fits_def by auto
  have v: "or_end_offset ?v = ?e" by (simp add: seg_range_def merged_cold_def)
  have cm: "cold_map ?idx = compacted p ?v ?cm"
    using I(3) by (auto simp: index_views compacted_def seg_range_def merged_cold_def fun_eq_iff)
  have reg: "ws_start_offset seg < ?s \<or> ?e \<le> ws_start_offset seg"
    "ws_end_offset seg \<le> ?s \<or> ?e \<le> ws_start_offset seg" "ws_start_offset seg < ws_end_offset seg"
    if pc: "pc = TRegistered seq seg key gs f seqs" and tp: "ws_tp seg = ?tp" for seq seg key gs f seqs
  proof -
    have t: "seqs_ok S a (seq # seqs)" "upload_ok d L S lo hi st seq seg key gs f" using I(10) pc by (simp_all add: tier_ok_def)
    note h = group_head [OF inv ad top ok t(1), of "ct_index st" ?tp "seg_recs S seq ?tp" gs f]
    have g: "groups_ok S lo hi (ct_index st) seq ((?tp, seg_recs S seq ?tp) # gs) f" and
      seg: "seg = group_segment (sd_codec d) ?tp (seg_recs S seq ?tp)" using t(2) tp by (simp_all add: upload_ok_def)
    have e: "ws_start_offset seg = lo seq ?tp" "ws_end_offset seg = hi seq ?tp" using h(6,7) [OF g] seg by simp_all
    have "seq \<in> dom S" using t(1) by (simp add: seqs_ok_def)
    from free_runs [OF this h(2) [OF g]] h(2) [OF g] ends(1) show "ws_start_offset seg < ?s \<or> ?e \<le> ws_start_offset seg"
      "ws_end_offset seg \<le> ?s \<or> ?e \<le> ws_start_offset seg" "ws_start_offset seg < ws_end_offset seg" by (auto simp: e)
  qed
  have pend: "pending pc (compacted p ?v ?cm) = compacted p ?v (pending pc ?cm)"
    by (rule pending_compacted [OF reg(1) ends(1)])
  have inside: "or_end_offset r \<le> ?e" if "pending pc ?cm ?tp c = Some r" "?s \<le> c" "c < ?e" for c r
    using that bounds(2) reg(1) by (cases pc) (auto simp: pending_def split: if_splits)
  have eN: "?e \<le> N ?tp"
  proof -
    obtain c where "?cm ?tp c = Some (seg_range (last (cp_sources p)))" using ends(4) by blast
    from cold_end_le [OF I(3) this] show ?thesis using coveredD(1) [OF I(5)] by (simp add: seg_range_def plan_end_def)
  qed
  have old: "orphans_ok N S lo hi (compacted p ?v (pending pc ?cm)) (concat (map compact_sources ms))"
    by (rule orphans_ok_weaken [OF I(9)]) (auto intro: compacted_subsumed [OF _ v ends(1) inside])
  have new: "orphans_ok N S lo hi (compacted p ?v (pending pc ?cm)) (map cs_object_key (cp_sources p))"
    unfolding orphans_ok_def
  proof
    fix k assume "k \<in> set (map cs_object_key (cp_sources p))"
    then obtain src where src: "src \<in> set (cp_sources p)" "k = cs_object_key src" by auto
    note q = srcs(1-5) [OF src(1)]
    have "subsumed (compacted p ?v (pending pc ?cm) ?tp) (cs_start_offset src) (cs_end_offset src)"
      unfolding subsumed_def compacted_def using q(2-5) v by (intro exI [of _ ?s] exI [of _ ?v]) auto
    moreover have "hi s ?tp \<le> cs_start_offset src \<or> cs_end_offset src \<le> lo s ?tp" if "s \<in> dom S" "lo s ?tp < hi s ?tp" for s
      using free_runs [OF that] q(2,4) by linarith
    ultimately show "\<exists>tp c e. k = segment_key tp c e \<and> plain_topic (tp_topic tp) \<and> c < e \<and> e \<le> N tp \<and>
        (\<forall>s \<in> dom S. lo s tp < hi s tp \<longrightarrow> hi s tp \<le> c \<or> e \<le> lo s tp) \<and> subsumed (compacted p ?v (pending pc ?cm) tp) c e"
      using src(2) q ends(2) eN by (intro exI [of _ ?tp] exI [of _ "cs_start_offset src"] exI [of _ "cs_end_offset src"]) simp
  qed
  have "tier_ok d L S a lo hi st' pc"
  proof (rule tier_ok_cong [OF I(10)])
    fix seq tp assume seq: "seq \<in> dom S - {a}" and ne: "lo seq tp < hi seq tp" and pl: "plain_topic (tp_topic tp)"
      and obj: "object_holds (sd_um d) (sd_codec d) L (ct_objs st) tp (lo seq tp) (hi seq tp)"
    have "\<not> (tp = ?tp \<and> ?s \<le> lo seq tp \<and> lo seq tp < ?e)" using free_runs [of seq] seq ne by auto
    from keep [OF pl obj this] show "object_holds (sd_um d) (sd_codec d) L (ct_objs st') tp (lo seq tp) (hi seq tp)" by (simp add: st')
  next
    fix seq tp assume "seq \<in> dom S - {a}" "seg_recs S seq tp \<noteq> []"
    then show "lo seq tp < hi seq tp \<and> plain_topic (tp_topic tp)" using run_plain [OF I(2) ad top _ _ I(1) plain] by blast
  qed (simp_all add: st' index_views)
  moreover have "covered N ?idx"
    using I(5) replace_covers [OF I(3) vp I(4) wf] replace_keeps [OF I(3) vp] by (simp add: covered_def index_views)
  moreover have "hot_backed L S lo hi ?idx" using I(6) by (simp add: hot_backed_def index_views)
  moreover have "whole S a lo hi (compacted p ?v ?cm)" by (rule whole_compacted [OF I(7) v ends(1) free_runs])
  moreover have "orphans_ok N S lo hi (compacted p ?v (pending pc ?cm)) (concat (map compact_sources (ms @ [?m])))"
    using old new by (auto simp: orphans_ok_def)
  ultimately have "store_inv d good L N S a lo hi (ms @ [?m]) pc st'"
    using I(1,2) ch cold_ops_wf(2) [OF I(3)] manifest_ok_compact [OF I(8) enc] pend
    unfolding store_inv_def st' by (simp add: cm)
  then show ?thesis by (auto simp: st')
qed

end

end
