(* ===== verification/Tiered_Recovery.thy ===== *)
theory Tiered_Recovery
  imports Tiered_Storage
begin

text \<open>
  Restart after a crash, and reading, over the invariant of \<open>Tiered_Storage\<close>; then the invariant of the
  whole system, and what it gives for the engine as deployed: segmented log, upload manager over local
  files, sharded cache.
\<close>

section \<open>The invariant depends on the log up to its end only\<close>

lemma store_inv_log_cong:
  assumes inv: "store_inv d good L N S a lo hi ms pc st" and ad: "a \<in> dom S" and top: "\<forall>s \<in> dom S. s \<le> a"
    and same: "\<And>tp off. off < N tp \<Longrightarrow> L tp off = L' tp off" and "log_wf L'"
    and plain: "\<And>r. good r \<Longrightarrow> plain_topic (tp_topic (wr_tp r))"
  shows "store_inv d good L' N S a lo hi ms pc st"
proof -
  note I = store_invD [OF inv]
  note hi = run_bound(1) [OF I(2) ad top]
  have run: "log_run L tp s e = log_run L' tp s e" if "e \<le> N tp" for tp s e
    using that by (intro log_run_cong same) simp
  have obj: "object_holds (sd_um d) (sd_codec d) L u tp s e = object_holds (sd_um d) (sd_codec d) L' u tp s e" if "e \<le> N tp" for u tp s e
    using that by (intro object_holds_cong same) simp
  have "log_good good L' N" using I(1) same \<open>log_wf L'\<close> by (simp add: log_good_def)
  moreover have "wal_ranges L' N S a lo hi"
    using I(2) run hi by (simp add: wal_ranges_def)
  moreover have "cold_holds (sd_um d) (sd_codec d) L' (ct_index st) (ct_objs st)"
    using I(4) cold_end_le [OF I(3)] coveredD(1) [OF I(5)] obj by (simp add: cold_holds_def range_holds_def)
  moreover have "hot_backed L' S lo hi (ct_index st)"
    using I(6) hot_lt [OF I(3)] coveredD(1) [OF I(5)] same by (simp add: hot_backed_def)
  moreover have "tier_ok d L' S a lo hi st pc"
  proof (rule tier_ok_cong [OF I(10)])
    fix seq tp assume "seq \<in> dom S - {a}" "seg_recs S seq tp \<noteq> []"
    then show "lo seq tp < hi seq tp \<and> plain_topic (tp_topic tp)" using run_plain [OF I(2) ad top _ _ I(1) plain] by blast
  qed (use obj hi in auto)
  ultimately show ?thesis using I unfolding store_inv_def by simp
qed

section \<open>Recovery\<close>

lemma next_offset_restore:
  "next_offset (restore_cold segs idx) tp \<le> b \<longleftrightarrow>
     next_offset idx tp \<le> b \<and> (\<forall>seg \<in> set segs. cs_tp seg = tp \<longrightarrow> cs_end_offset seg \<le> b)"
  by (induction segs arbitrary: idx) (auto simp: restore_cold_def index_views)

lemma restore_cold_wf: "index_wf idx \<Longrightarrow> index_wf (restore_cold segs idx)"
  by (induction segs arbitrary: idx) (simp_all add: restore_cold_def cold_ops_wf)

lemma hot_at_restore: "hot_at (restore_cold segs idx) tp = hot_at idx tp"
  by (induction segs arbitrary: idx) (simp_all add: restore_cold_def index_views)

lemma next_offset_reindex:
  "next_offset (reindex_hot rs recs idx) tp \<le> b \<longleftrightarrow>
     next_offset idx tp \<le> b \<and> (\<forall>r \<in> set recs. wr_tp r = tp \<longrightarrow> wr_offset r < b)"
  by (induction recs arbitrary: idx) (auto simp: reindex_hot_def index_views)

lemma reindex_hot_wf: "index_wf idx \<Longrightarrow> index_wf (reindex_hot rs recs idx)"
  by (induction recs arbitrary: idx) (simp_all add: reindex_hot_def insert_hot_wf)

lemma cold_map_reindex: "cold_map (reindex_hot rs recs idx) tp = cold_map idx tp"
  by (induction recs arbitrary: idx) (simp_all add: reindex_hot_def index_views)

lemma hot_at_reindex:
  "hot_at (reindex_hot rs recs idx) tp off = Some e \<Longrightarrow>
     hot_at idx tp off = Some e \<or> (\<exists>r \<in> set recs. wr_tp r = tp \<and> wr_offset r = off \<and> he_record e = r)"
proof (induction recs arbitrary: idx)
  case (Cons r recs)
  have "reindex_hot rs (r # recs) idx = reindex_hot rs recs (insert_hot (wr_tp r) (wr_offset r) r (mem_size rs r) idx)"
    by (simp add: reindex_hot_def)
  with Cons.IH [of "insert_hot (wr_tp r) (wr_offset r) r (mem_size rs r) idx"] Cons.prems show ?case
    by (auto simp: index_views split: if_splits)
qed (simp add: reindex_hot_def)

lemma hot_at_reindex_mem:
  "r \<in> set recs \<or> hot_at idx (wr_tp r) (wr_offset r) \<noteq> None \<Longrightarrow> hot_at (reindex_hot rs recs idx) (wr_tp r) (wr_offset r) \<noteq> None"
proof (induction recs arbitrary: idx)
  case (Cons r' recs)
  have "reindex_hot rs (r' # recs) idx = reindex_hot rs recs (insert_hot (wr_tp r') (wr_offset r') r' (mem_size rs r') idx)"
    by (simp add: reindex_hot_def)
  moreover have "r \<in> set recs \<or> hot_at (insert_hot (wr_tp r') (wr_offset r') r' (mem_size rs r') idx) (wr_tp r) (wr_offset r) \<noteq> None"
    using Cons.prems by (auto simp: index_views)
  ultimately show ?case using Cons.IH by metis
qed (simp add: reindex_hot_def)

text \<open>The part of the log that survives: of the active segment, a prefix.\<close>

lemma filter_take_run:
  assumes "filter P xs = log_run L tp l h" and "l \<le> h"
  shows "filter P (take j xs) = log_run L tp l (l + length (filter P (take j xs)))" and "l + length (filter P (take j xs)) \<le> h"
proof -
  have "filter P xs = filter P (take j xs) @ filter P (drop j xs)" by (metis append_take_drop_id filter_append)
  then have t: "filter P (take j xs) = take (length (filter P (take j xs))) (log_run L tp l h)"
    using assms(1) by (metis append_eq_conv_conj)
  have "length (filter P (take j xs)) \<le> length (log_run L tp l h)" using t by (metis length_take min.cobounded1)
  then have le: "length (filter P (take j xs)) \<le> h - l" by (simp add: log_run_def)
  then show "l + length (filter P (take j xs)) \<le> h" using assms(2) by simp
  show "filter P (take j xs) = log_run L tp l (l + length (filter P (take j xs)))"
    using t take_log_run [OF le, of L tp] by simp
qed

definition surviving :: "segments \<Rightarrow> nat \<Rightarrow> (nat \<Rightarrow> topic_partition \<Rightarrow> nat) \<Rightarrow> nat \<Rightarrow> topic_partition \<Rightarrow> nat" where
  "surviving S a lo j tp = lo a tp + length (filter (\<lambda>r. wr_tp r = tp) (take j (the (S a))))"

lemma wal_ranges_truncate:
  assumes R: "wal_ranges L N S a lo hi" and ad: "a \<in> dom S" and top: "\<forall>s \<in> dom S. s \<le> a"
  shows "wal_ranges L (surviving S a lo j) (S(a \<mapsto> take j (the (S a)))) a lo (hi(a := surviving S a lo j))"
    and "surviving S a lo j tp \<le> N tp" and "lo a tp \<le> surviving S a lo j tp"
proof -
  have run: "filter (\<lambda>r. wr_tp r = tp) (the (S a)) = log_run L tp (lo a tp) (hi a tp)" "lo a tp \<le> hi a tp" for tp
    using wal_rangesD(1,2) [OF R ad, of tp] by (simp_all add: seg_recs_def)
  note cut = filter_take_run [OF run, of _ j]
  show "surviving S a lo j tp \<le> N tp" using cut(2) [of tp] wal_rangesD(4) [OF R ad, of tp] by (simp add: surviving_def)
  show "lo a tp \<le> surviving S a lo j tp" by (simp add: surviving_def)
  show "wal_ranges L (surviving S a lo j) (S(a \<mapsto> take j (the (S a)))) a lo (hi(a := surviving S a lo j))"
  proof (rule wal_rangesI)
    fix s tp assume "s \<in> dom (S(a \<mapsto> take j (the (S a))))"
    then have sd: "s \<in> dom S" using ad by (auto split: if_splits)
    show "lo s tp \<le> (hi(a := surviving S a lo j)) s tp" using wal_rangesD(1) [OF R sd, of tp] by (simp add: surviving_def)
    show "seg_recs (S(a \<mapsto> take j (the (S a)))) s tp = log_run L tp (lo s tp) ((hi(a := surviving S a lo j)) s tp)"
      using cut(1) [of tp] wal_rangesD(2) [OF R sd, of tp] by (simp add: seg_recs_upd surviving_def)
    fix s' assume s': "s' \<in> dom (S(a \<mapsto> take j (the (S a))))" "s < s'"
    then have s'd: "s' \<in> dom S" using ad by (auto split: if_splits)
    with top s'(2) have "s \<noteq> a" by (metis leD)
    with s'd show "(hi(a := surviving S a lo j)) s tp \<le> lo s' tp"
      using wal_rangesD(3) [OF R sd, of s' tp] s'(2) by simp
  qed simp
qed

lemma recovered_records:
  assumes R: "wal_ranges L N S a lo hi" and "log_wf L" and "finite (dom S)"
  shows "r \<in> set (concat (map (\<lambda>s. the (S s)) (sorted_list_of_set (dom S - {a})))) \<longleftrightarrow>
    r = L (wr_tp r) (wr_offset r) \<and> (\<exists>s \<in> dom S - {a}. lo s (wr_tp r) \<le> wr_offset r \<and> wr_offset r < hi s (wr_tp r))"
proof -
  have run: "r \<in> set (the (S s)) \<longleftrightarrow> r = L (wr_tp r) (wr_offset r) \<and> lo s (wr_tp r) \<le> wr_offset r \<and> wr_offset r < hi s (wr_tp r)"
    if "s \<in> dom S" for s
  proof -
    have "r \<in> set (the (S s)) \<longleftrightarrow> r \<in> set (seg_recs S s (wr_tp r))" by (simp add: seg_recs_def)
    also have "\<dots> \<longleftrightarrow> r \<in> L (wr_tp r) ` {lo s (wr_tp r)..<hi s (wr_tp r)}"
      using wal_rangesD(2) [OF R that, of "wr_tp r"] by (simp add: set_log_run)
    also have "\<dots> \<longleftrightarrow> r = L (wr_tp r) (wr_offset r) \<and> lo s (wr_tp r) \<le> wr_offset r \<and> wr_offset r < hi s (wr_tp r)"
    proof
      assume "r \<in> L (wr_tp r) ` {lo s (wr_tp r)..<hi s (wr_tp r)}"
      then obtain off where off: "r = L (wr_tp r) off" "lo s (wr_tp r) \<le> off" "off < hi s (wr_tp r)" by auto
      moreover have "wr_offset r = off" using \<open>log_wf L\<close> off(1) unfolding log_wf_def by metis
      ultimately show "r = L (wr_tp r) (wr_offset r) \<and> lo s (wr_tp r) \<le> wr_offset r \<and> wr_offset r < hi s (wr_tp r)" by simp
    qed auto
    finally show ?thesis .
  qed
  have "r \<in> set (concat (map (\<lambda>s. the (S s)) (sorted_list_of_set (dom S - {a})))) \<longleftrightarrow> (\<exists>s \<in> dom S - {a}. r \<in> set (the (S s)))"
    using \<open>finite (dom S)\<close> by simp
  also have "\<dots> \<longleftrightarrow> (\<exists>s \<in> dom S - {a}. r = L (wr_tp r) (wr_offset r) \<and> lo s (wr_tp r) \<le> wr_offset r \<and> wr_offset r < hi s (wr_tp r))"
    using run by (intro bex_cong) auto
  finally show ?thesis by blast
qed

text \<open>The cold ranges end before the active segment begins.\<close>

lemma cold_before_active:
  assumes inv: "store_inv d good L N S a lo hi ms pc st" and ad: "a \<in> dom S" and c: "cold_map (ct_index st) tp c = Some r"
  shows "or_end_offset r \<le> lo a tp"
proof (rule ccontr)
  note I = store_invD [OF inv]
  assume gt: "\<not> or_end_offset r \<le> lo a tp"
  have le: "c < or_end_offset r" "or_end_offset r \<le> hi a tp"
    using cold_range_pos [OF I(4) c] cold_end_le [OF I(3) c] coveredD(1) [OF I(5)] wal_rangesD(4) [OF I(2) ad] by simp_all
  with gt wholeD(1) [OF I(7) ad c] show False by simp
qed

text \<open>The rebuilt index, over the surviving part of the log.\<close>

lemma rebuilt_index:
  assumes inv: "store_inv d good L N S a lo hi ms pc st" and ad: "a \<in> dom S" and top: "\<forall>s \<in> dom S. s \<le> a" and fin: "finite (dom S)"
    and idle: "pending pc (cold_map (ct_index st)) = cold_map (ct_index st)"
    and S1: "S1 = S(a \<mapsto> take j (the (S a)), Suc a \<mapsto> [])" and N1: "N1 = surviving S a lo j"
    and lo1: "lo1 = lo(Suc a := N1)" and hi1: "hi1 = hi(a := N1, Suc a := N1)"
    and idx: "idx = reindex_hot rsz (concat (map (\<lambda>s. the (S1 s)) (sorted_list_of_set (dom S1 - {Suc a}))))
                      (restore_cold (lr_live (fold_manifest ms)) index_new)"
  shows "wal_ranges L N1 S1 (Suc a) lo1 hi1" and "index_wf idx" and "cold_map idx = cold_map (ct_index st)"
    and "covered N1 idx" and "hot_backed L S1 lo1 hi1 idx" and "whole S1 (Suc a) lo1 hi1 (cold_map idx)"
proof -
  note I = store_invD [OF inv]
  have wf: "log_wf L" using I(1) by (simp add: log_good_def)
  let ?Sa = "S(a \<mapsto> take j (the (S a)))"
  note cut = wal_ranges_truncate [OF I(2) ad top, where j = j]
  show R: "wal_ranges L N1 S1 (Suc a) lo1 hi1"
    using wal_ranges_seal [OF cut(1)] ad top unfolding S1 N1 lo1 hi1 by simp
  have fin1: "finite (dom S1)" using fin by (simp add: S1)
  note recs = recovered_records [OF R wf fin1]
  have fresh: "Suc a \<notin> dom S" using top Suc_n_not_le_n by blast
  have doms: "dom S1 - {Suc a} = dom S" using ad fresh by (auto simp: S1)
  have low: "lo1 s tp = lo s tp" if "s \<in> dom S" for s tp using that fresh by (auto simp: lo1)
  have high: "hi1 s tp = (if s = a then N1 tp else hi s tp)" if "s \<in> dom S" for s tp using that fresh by (auto simp: hi1)
  show wfi: "index_wf idx" unfolding idx by (intro reindex_hot_wf restore_cold_wf) simp
  show cm: "cold_map idx = cold_map (ct_index st)"
    using I(8) by (simp add: idx idle cold_map_reindex cold_map_restore_manifest manifest_ok_def fun_eq_iff)
  have le1: "hi1 s tp \<le> N1 tp" if "s \<in> dom S" for s tp
    using that run_bound(2) [OF I(2) ad top that, of tp] cut(3) [of tp] by (auto simp: high N1)
  show "hot_backed L S1 lo1 hi1 idx"
    unfolding hot_backed_def
  proof (intro allI impI)
    fix tp off e assume "hot_at idx tp off = Some e"
    from hot_at_reindex [OF this [unfolded idx]] obtain r where
      r: "r \<in> set (concat (map (\<lambda>s. the (S1 s)) (sorted_list_of_set (dom S1 - {Suc a}))))" "wr_tp r = tp" "wr_offset r = off" "he_record e = r"
      by (auto simp: hot_at_restore index_views)
    from r(2-4) iffD1 [OF recs r(1)] show "he_record e = L tp off \<and> (\<exists>s \<in> dom S1. lo1 s tp \<le> off \<and> off < hi1 s tp)" by auto
  qed
  have hot: "hot_at idx tp off \<noteq> None" if "s \<in> dom S" "lo s tp \<le> off" "off < hi1 s tp" for s tp off
  proof -
    have "wr_tp (L tp off) = tp" "wr_offset (L tp off) = off" using wf by (simp_all add: log_wf_def)
    moreover have "L tp off \<in> set (concat (map (\<lambda>s. the (S1 s)) (sorted_list_of_set (dom S1 - {Suc a}))))"
      using that low calculation by (subst recs) (auto simp: doms)
    ultimately show ?thesis using hot_at_reindex_mem [of "L tp off"] unfolding idx by metis
  qed
  have cov: "hot_at idx tp off \<noteq> None \<or> cold_covers idx tp off" if off: "off < N1 tp" for tp off
  proof -
    have "off < N tp" using off cut(2) [of tp] by (simp add: N1)
    from coveredD(2) [OF I(5) this] show ?thesis
    proof
      assume "hot_at (ct_index st) tp off \<noteq> None"
      then obtain e where "hot_at (ct_index st) tp off = Some e" by blast
      from hot_backedD(2) [OF I(6) this] obtain s where s: "s \<in> dom S" "lo s tp \<le> off" "off < hi s tp" by blast
      with hot [OF s(1,2)] off show ?thesis by (auto simp: high)
    qed (simp add: cold_covers_def cm)
  qed
  have "next_offset idx tp \<le> N1 tp" for tp
    unfolding idx next_offset_reindex next_offset_restore
  proof (intro conjI ballI impI)
    fix seg assume seg: "seg \<in> set (lr_live (fold_manifest ms))" "cs_tp seg = tp"
    then have "cold_map (ct_index st) tp (cs_start_offset seg) = Some (seg_range seg)"
      using I(8) idle by (simp add: set_lr_live manifest_ok_def)
    from cold_before_active [OF inv ad this] show "cs_end_offset seg \<le> N1 tp" using cut(3) [of tp] by (simp add: seg_range_def N1)
  next
    fix r assume "r \<in> set (concat (map (\<lambda>s. the (S1 s)) (sorted_list_of_set (dom S1 - {Suc a}))))" "wr_tp r = tp"
    then show "wr_offset r < N1 tp" using le1 unfolding recs unfolding doms by (auto intro: less_le_trans)
  qed (simp add: index_views)
  moreover have "N1 tp \<le> next_offset idx tp" for tp
  proof (rule ccontr)
    assume "\<not> N1 tp \<le> next_offset idx tp"
    then have "next_offset idx tp < N1 tp" by simp
    from cov [OF this] show False
      using hot_lt [OF wfi] cold_end_le [OF wfi, of tp] by (fastforce simp: cold_covers_def)
  qed
  ultimately show "covered N1 idx" using cov by (simp add: covered_def order_antisym)
  show "whole S1 (Suc a) lo1 hi1 (cold_map idx)"
    unfolding whole_def cm
  proof (intro ballI allI impI)
    fix s tp c r
    assume h: "s \<in> dom S1" "cold_map (ct_index st) tp c = Some r" "c < hi1 s tp" "lo1 s tp < or_end_offset r" "lo1 s tp < hi1 s tp"
    have ne: "s \<noteq> Suc a" using h(5) by (auto simp: lo1 hi1)
    then have sd: "s \<in> dom S" using h(1) doms by blast
    have "s \<noteq> a" using cold_before_active [OF inv ad h(2)] h(4) low [OF sd, of tp] by auto
    then show "s \<noteq> Suc a \<and> c = lo1 s tp \<and> or_end_offset r = hi1 s tp"
      using wholeD [OF I(7) sd h(2)] h(3-5) ne low [OF sd, of tp] high [OF sd, of tp] by simp
  qed
qed

text \<open>Orphans are not live, so collecting them is safe.\<close>

lemma subsumed_not_live:
  assumes "ranges_disjoint or_end_offset m" and "subsumed m c e" and "c < e" and "m c = Some r"
  shows "or_end_offset r \<noteq> e"
proof
  assume e: "or_end_offset r = e"
  obtain c' r' where r': "m c' = Some r'" "c' \<le> c" "e \<le> or_end_offset r'" "c' < c \<or> e < or_end_offset r'"
    using assms(2) by (auto simp: subsumed_def)
  show False
  proof (cases "c' = c")
    case True
    then show ?thesis using r' assms(4) e by auto
  next
    case False
    then have "or_end_offset r' \<le> c" using disjointD [OF assms(1) r'(1) assms(4)] r'(2) by simp
    with r'(3) assms(3) show ?thesis by simp
  qed
qed

text \<open>Between registration and flip the durable stores are those of the state after the flip.\<close>

lemma settle:
  assumes inv: "store_inv d good L N S a lo hi ms pc st" and ad: "a \<in> dom S" and top: "\<forall>s \<in> dom S. s \<le> a" and ok: "deps_ok d storable good"
  obtains pc' st' where "store_inv d good L N S a lo hi ms pc' st'" and "pending pc' (cold_map (ct_index st')) = cold_map (ct_index st')"
    and "ps_wal st' = ps_wal st" and "ct_objs st' = ct_objs st" and "ct_manifest st' = ct_manifest st"
proof (cases "\<exists>seq seg key gs f seqs. pc = TRegistered seq seg key gs f seqs")
  case True
  then obtain seq seg key gs f seqs where "pc = TRegistered seq seg key gs f seqs" by blast
  with store_inv_flip [OF _ ad top ok, of L N lo hi ms seq seg key gs f seqs st] inv show thesis
    by (intro that [of "TGroups seq gs f seqs" "tier_flip seg key st"]) (simp_all add: pending_def tier_flip_def)
next
  case False
  then have "pending pc cm = cm" for cm by (cases pc) (simp_all add: pending_def)
  with inv show thesis by (intro that [of pc st]) simp_all
qed

context tiered_storage
begin

lemma restart_settled:
  assumes w: "holds (ps_wal st) S a m" and inv: "store_inv d good L N S a lo hi ms pc st"
    and idle: "pending pc (cold_map (ct_index st)) = cold_map (ct_index st)" and room: "Suc a \<le> u64_max"
  shows "\<exists>j S1 lo1 hi1 st'. m \<le> j \<and> store_new d (lg_reopen (sd_log d) now (ps_wal st)) (ct_objs st) c0 (ct_manifest st) = (Ok (), st') \<and>
    holds (ps_wal st') S1 (Suc a) 0 \<and> lo1 (Suc a) = surviving S a lo j \<and> ps_cache st' = c0 \<and>
    store_inv d good L (surviving S a lo j) S1 (Suc a) lo1 hi1 ms TIdle st'"
proof -
  note I = store_invD [OF inv]
  have fin: "finite (dom S)" and ad: "a \<in> dom S" and top: "\<forall>s \<in> dom S. s \<le> a" using log.shape [OF w] by auto
  obtain j where j: "m \<le> j" "holds (lg_reopen (sd_log d) now (ps_wal st)) (S(a \<mapsto> take j (the (S a)), Suc a \<mapsto> [])) (Suc a) 0"
    using log.reopen_log [OF w room] by blast
  define S1 where "S1 = S(a \<mapsto> take j (the (S a)), Suc a \<mapsto> [])"
  define N1 where "N1 = surviving S a lo j"
  define lo1 where "lo1 = lo(Suc a := N1)"
  define hi1 where "hi1 = hi(a := N1, Suc a := N1)"
  obtain xs where xs: "lg_recover (sd_log d) (lg_reopen (sd_log d) now (ps_wal st)) = Ok xs"
    "map fst xs = concat (map (\<lambda>s. the (S1 s)) (sorted_list_of_set (dom S1 - {Suc a})))"
    using log.recover_log [OF j(2)] unfolding S1_def by blast
  define idx where "idx = reindex_hot (sd_record_size d) (concat (map (\<lambda>s. the (S1 s)) (sorted_list_of_set (dom S1 - {Suc a}))))
                            (restore_cold (lr_live (fold_manifest ms)) index_new)"
  note B = rebuilt_index [OF inv ad top fin idle S1_def N1_def lo1_def hi1_def idx_def]
  let ?orphans = "concat (map compact_sources ms)"
  let ?objs = "delete_sources (sd_um d) ?orphans (ct_objs st)"
  let ?st = "\<lparr>ct_index = idx, ct_objs = ?objs, ct_manifest = ct_manifest st, ps_wal = lg_reopen (sd_log d) now (ps_wal st), ps_cache = c0\<rparr>"
  have "load (sc_mde (sd_codec d)) (sc_crc (sd_codec d)) (ct_manifest st) = (fold_manifest ms, ct_manifest st)"
    using I(8) load_frames [of ms] by (simp add: manifest_ok_def)
  then have new: "store_new d (lg_reopen (sd_log d) now (ps_wal st)) (ct_objs st) c0 (ct_manifest st) = (Ok (), ?st)"
    using xs by (simp add: store_new_def orphans_fold_manifest idx_def)
  have orph: "orphans_ok N S lo hi (cold_map idx) ?orphans" using I(9) idle B(3) by simp
  have cold: "cold_holds (sd_um d) (sd_codec d) L idx (ct_objs st)"
    using I(4) by (rule cold_holds_cong [rotated]) (simp add: B(3))
  have "cold_holds (sd_um d) (sd_codec d) L idx ?objs"
  proof (rule um.delete_sources_holds [OF cold], rule ballI)
    fix k assume "k \<in> set ?orphans"
    then obtain tp c e where k: "k = segment_key tp c e" "plain_topic (tp_topic tp)" "c < e" "subsumed (cold_map idx tp) c e"
      using orph unfolding orphans_ok_def by blast
    have "ranges_disjoint or_end_offset (cold_map idx tp)" using cold by (simp add: cold_holds_def)
    from subsumed_not_live [OF this k(4,3)] k(1,2)
    show "\<exists>tp s e. plain_topic (tp_topic tp) \<and> k = segment_key tp s e \<and> (\<forall>r. cold_map idx tp s = Some r \<longrightarrow> or_end_offset r \<noteq> e)"
      by blast
  qed
  moreover have "orphans_ok N1 S1 lo1 hi1 (cold_map idx) ?orphans"
  proof (rule orphans_ok_weaken [OF orph])
    fix tp c e
    assume h: "\<forall>s \<in> dom S. lo s tp < hi s tp \<longrightarrow> hi s tp \<le> c \<or> e \<le> lo s tp" "subsumed (cold_map idx tp) c e"
    obtain c' r where "cold_map idx tp c' = Some r" "e \<le> or_end_offset r" using h(2) by (auto simp: subsumed_def)
    then have e: "e \<le> lo a tp" using cold_before_active [OF inv ad] B(3) by (metis order.trans)
    moreover have "lo a tp \<le> N1 tp" by (simp add: N1_def surviving_def)
    ultimately show "e \<le> N1 tp \<and> (\<forall>s \<in> dom S1. lo1 s tp < hi1 s tp \<longrightarrow> hi1 s tp \<le> c \<or> e \<le> lo1 s tp) \<and> subsumed (cold_map idx tp) c e"
      using h by (auto simp: S1_def lo1_def hi1_def split: if_splits)
  qed
  moreover have "log_good good L N1"
    using I(1) wal_ranges_truncate(2) [OF I(2) ad top] unfolding log_good_def N1_def by (meson less_le_trans)
  moreover have "manifest_ok (sd_codec d) ms (ct_manifest st) (cold_map idx)" using I(8) idle B(3) by simp
  ultimately have "store_inv d good L N1 S1 (Suc a) lo1 hi1 ms TIdle ?st"
    using B by (simp add: store_inv_def pending_def tier_ok_def)
  then show ?thesis using j new unfolding S1_def [symmetric] N1_def [symmetric]
    by (intro exI [of _ j] exI [of _ S1] exI [of _ lo1] exI [of _ hi1] exI [of _ ?st]) (simp add: lo1_def N1_def)
qed

lemma restart_inv:
  assumes w: "holds (ps_wal st) S a m" and inv: "store_inv d good L N S a lo hi ms pc st"
    and ok: "deps_ok d storable good" and room: "Suc a \<le> u64_max"
  shows "\<exists>j S1 lo1 hi1 st'. m \<le> j \<and> store_new d (lg_reopen (sd_log d) now (ps_wal st)) (ct_objs st) c0 (ct_manifest st) = (Ok (), st') \<and>
    holds (ps_wal st') S1 (Suc a) 0 \<and> lo1 (Suc a) = surviving S a lo j \<and> ps_cache st' = c0 \<and>
    store_inv d good L (surviving S a lo j) S1 (Suc a) lo1 hi1 ms TIdle st'"
proof -
  have "a \<in> dom S" and "\<forall>s \<in> dom S. s \<le> a" using log.shape [OF w] by auto
  from settle [OF inv this ok] obtain pc' st' where st': "store_inv d good L N S a lo hi ms pc' st'"
    "pending pc' (cold_map (ct_index st')) = cold_map (ct_index st')"
    "ps_wal st' = ps_wal st" "ct_objs st' = ct_objs st" "ct_manifest st' = ct_manifest st" by blast
  from restart_settled [OF _ st'(1,2) room] w show ?thesis by (simp add: st'(3-5))
qed

end

section \<open>Reading\<close>

lemma take_budget_prefix: "\<exists>k. take_budget rsz mb rs out b = out @ take k rs \<and> (out = [] \<longrightarrow> rs \<noteq> [] \<longrightarrow> 0 < k) \<and> k \<le> length rs"
proof (induction rsz mb rs out b rule: take_budget.induct)
  case (2 rsz mb r rest out b)
  show ?case
  proof (cases "out \<noteq> [] \<and> b + mem_size rsz r > mb")
    case True
    then show ?thesis by (intro exI [of _ 0]) simp
  next
    case False
    with 2 [OF refl] obtain k where "take_budget rsz mb rest (out @ [r]) (b + mem_size rsz r) = (out @ [r]) @ take k rest" "k \<le> length rest"
      by auto
    with False show ?thesis by (intro exI [of _ "Suc k"]) (auto simp: Let_def)
  qed
qed simp

lemma cache_ok_submap:
  assumes "cache_ok cod L N v" and "v' \<subseteq>\<^sub>m v"
  shows "cache_ok cod L N v'"
proof -
  have "v k = Some bs" if "v' k = Some bs" for k bs using assms(2) that by (auto simp: map_le_def dom_def)
  with assms(1) show ?thesis by (simp add: cache_ok_def)
qed

lemma cache_ok_put:
  assumes "cache_ok cod L N v" and "0 < n" and "off + n \<le> N tp" and "sc_de cod bs = Some (log_run L tp off (off + n))"
  shows "cache_ok cod L N (v(cache_key tp off \<mapsto> bs))"
  unfolding cache_ok_def
proof (intro allI impI)
  fix tp' off' bs' assume h: "(v(cache_key tp off \<mapsto> bs)) (cache_key tp' off') = Some bs'"
  show "\<exists>n>0. off' + n \<le> N tp' \<and> sc_de cod bs' = Some (log_run L tp' off' (off' + n))"
  proof (cases "tp' = tp \<and> off' = off")
    case True
    then show ?thesis using h assms(2-4) by auto
  next
    case False
    then have "v (cache_key tp' off') = Some bs'" using h by (auto simp: cache_key_inject split: if_splits)
    then show ?thesis using assms(1) by (simp add: cache_ok_def)
  qed
qed

text \<open>A run of hot records is a run of the log.\<close>

lemma run_records_log:
  assumes "hot_backed L S lo hi idx" and "\<forall>i<n. hot_at idx tp (off + i) \<noteq> None"
  shows "run_records (hot_at idx tp) off n = log_run L tp off (off + n)"
proof -
  have "he_record (the (hot_at idx tp (off + i))) = L tp (off + i)" if "i < n" for i
    using assms hot_backedD(1) [OF assms(1), of tp "off + i"] that by auto
  then have "run_records (hot_at idx tp) off n = map (\<lambda>i. L tp (off + i)) [0..<n]"
    unfolding run_records_def by (intro map_cong) auto
  also have "\<dots> = log_run L tp off (off + n)" by (simp add: log_run_def list_eq_iff_nth_eq)
  finally show ?thesis .
qed

context tiered_storage
begin

lemma cold_attempt:
  assumes plan: "read_plan (ct_index st) tp off mb = Cold key s e" and later: "later st = st1" and lg: "log_good good L N"
    and codec: "\<And>rs. \<forall>r \<in> set rs. good r \<Longrightarrow> sc_de (sd_codec d) (sc_ser (sd_codec d) rs) = Some rs"
    and ci: "cinv (ps_cache st1)" and co: "cache_ok (sd_codec d) L N (view (ps_cache st1))"
    and r: "s \<le> off" "off < e" "e \<le> N tp"
    and obj: "view (ps_cache st1) (cache_key tp off) = None \<Longrightarrow>
      \<exists>seg. um_download_segment (sd_um d) key (ct_objs st1) = Ok seg \<and> sc_de (sd_codec d) (ws_data seg) = Some (log_run L tp s e)"
  shows "\<exists>n c. 0 < n \<and> off + n \<le> N tp \<and>
    read_attempt d later retry now tp off mb st = (Some (Ok (log_run L tp off (off + n))), st1\<lparr>ps_cache := c\<rparr>) \<and>
    cinv c \<and> cache_ok (sd_codec d) L N (view c)"
proof -
  let ?key = "cache_key tp off"
  have wf: "log_wf L" and gd: "\<And>off. off < N tp \<Longrightarrow> good (L tp off)" using lg by (auto simp: log_good_def)
  obtain c1 where c1: "ch_get (sd_cache d) now ?key (ps_cache st1) = (Ok (view (ps_cache st1) ?key), c1)" "view c1 = view (ps_cache st1)" "cinv c1"
    using ch.get_view [OF ci] by blast
  show ?thesis
  proof (cases "view (ps_cache st1) ?key")
    case (Some bs)
    with co obtain n where "n > 0" "off + n \<le> N tp" "sc_de (sd_codec d) bs = Some (log_run L tp off (off + n))"
      unfolding cache_ok_def by blast
    with Some plan later c1 co show ?thesis
      by (intro exI [of _ n] exI [of _ c1]) (simp add: read_attempt_def Let_def)
  next
    case None
    obtain seg where seg: "um_download_segment (sd_um d) key (ct_objs st1) = Ok seg"
      "sc_de (sd_codec d) (ws_data seg) = Some (log_run L tp s e)" using obj [OF None] by blast
    have filt: "filter (\<lambda>r. off \<le> wr_offset r) (log_run L tp s e) = log_run L tp off e" by (rule filter_log_run [OF wf r(1)])
    obtain k where k: "take_budget (sd_record_size d) mb (log_run L tp off e) [] 0 = take k (log_run L tp off e)" "0 < k" "k \<le> e - off"
      using take_budget_prefix [of "sd_record_size d" mb "log_run L tp off e" "[]" 0] r(2) by auto
    let ?out = "log_run L tp off (off + k)"
    have le: "off + k \<le> N tp" using k(3) r(2,3) by linarith
    have "\<forall>r \<in> set ?out. good r" using gd le by (auto simp: set_log_run)
    then have de: "sc_de (sd_codec d) (sc_ser (sd_codec d) ?out) = Some ?out" by (rule codec)
    obtain c2 where c2: "ch_put (sd_cache d) now ?key (sc_ser (sd_codec d) ?out) c1 = (Ok (), c2)"
      "view c2 \<subseteq>\<^sub>m (view c1)(?key \<mapsto> sc_ser (sd_codec d) ?out)" "cinv c2" using ch.put_view [OF c1(3)] by blast
    have "cache_ok (sd_codec d) L N (view c2)"
      using c2(2) by (rule cache_ok_submap [OF cache_ok_put [OF co k(2) le de, unfolded c1(2) [symmetric]]])
    then show ?thesis using None plan later c1 c2 seg filt k le take_log_run [OF k(3), of L tp]
      by (intro exI [of _ k] exI [of _ c2]) (simp add: read_attempt_def Let_def)
  qed
qed

lemma attempt_cold:
  assumes wf: "index_wf (ct_index st)" and ch: "cold_holds (sd_um d) (sd_codec d) L (ct_index st) (ct_objs st)"
    and N: "\<And>tp. next_offset (ct_index st) tp = N tp" and lg: "log_good good L N"
    and codec: "\<And>rs. \<forall>r \<in> set rs. good r \<Longrightarrow> sc_de (sd_codec d) (sc_ser (sd_codec d) rs) = Some rs"
    and ci: "cinv (ps_cache st)" and co: "cache_ok (sd_codec d) L N (view (ps_cache st))"
    and hot: "hot_at (ct_index st) tp off = None" and cov: "cold_covers (ct_index st) tp off"
  shows "\<exists>n c. 0 < n \<and> off + n \<le> N tp \<and> read_attempt d id retry now tp off mb st = (Some (Ok (log_run L tp off (off + n))), st\<lparr>ps_cache := c\<rparr>) \<and>
    cinv c \<and> cache_ok (sd_codec d) L N (view c)"
proof -
  obtain s r where r: "cold_map (ct_index st) tp s = Some r" "s \<le> off" "off < or_end_offset r" using cov by (auto simp: cold_covers_def)
  have "ranges_disjoint or_end_offset (cold_map (ct_index st) tp)" using ch by (simp add: cold_holds_def)
  note plan = read_plan_cold [OF wf this hot r, of mb]
  have eN: "or_end_offset r \<le> N tp" using cold_end_le [OF wf r(1)] N by simp
  have "\<exists>seg. um_download_segment (sd_um d) (or_object_key r) (ct_objs st) = Ok seg \<and>
      sc_de (sd_codec d) (ws_data seg) = Some (log_run L tp s (or_end_offset r))"
    using cold_holds_range [OF ch r(1)] by (auto simp: range_holds_def object_holds_def)
  then show ?thesis by (intro cold_attempt [OF plan _ lg codec ci co r(2,3) eN]) simp_all
qed

lemma attempt_spec:
  assumes inv: "store_inv d good L N S a lo hi ms pc st" and ok: "deps_ok d storable good"
    and ci: "cinv (ps_cache st)" and co: "cache_ok (sd_codec d) L N (view (ps_cache st))" and off: "off < N tp"
  shows "\<exists>n c. 0 < n \<and> off + n \<le> N tp \<and> read_attempt d id retry now tp off mb st = (Some (Ok (log_run L tp off (off + n))), st\<lparr>ps_cache := c\<rparr>) \<and>
    cinv c \<and> cache_ok (sd_codec d) L N (view c)"
proof (cases "hot_at (ct_index st) tp off = None")
  case False
  note I = store_invD [OF inv]
  from read_plan_hot [OF I(3) False, of mb] obtain n where n: "n > 0" "read_plan (ct_index st) tp off mb = Hot (run_records (hot_at (ct_index st) tp) off n)"
    "\<forall>i<n. hot_at (ct_index st) tp (off + i) \<noteq> None" by (elim exE conjE) (rule that)
  have "hot_at (ct_index st) tp (off + (n - 1)) \<noteq> None" using spec [OF n(3), of "n - 1"] n(1) by (auto simp del: diff_Suc_1)
  then have "off + (n - 1) < N tp" using hot_lt [OF I(3), of tp "off + (n - 1)"] coveredD(1) [OF I(5)] by auto
  then have "off + n \<le> N tp" using n(1) by linarith
  moreover have "st = st\<lparr>ps_cache := ps_cache st\<rparr>" by simp
  ultimately show ?thesis using n run_records_log [OF I(6) n(3)] ci co
    by (intro exI [of _ n] exI [of _ "ps_cache st"]) (simp add: read_attempt_def)
next
  case True
  note I = store_invD [OF inv]
  have codec: "\<And>rs. \<forall>r \<in> set rs. good r \<Longrightarrow> sc_de (sd_codec d) (sc_ser (sd_codec d) rs) = Some rs" using ok by (simp add: deps_ok_def)
  have "cold_covers (ct_index st) tp off" using coveredD(2) [OF I(5) off] True by simp
  then show ?thesis by (intro attempt_cold [OF I(3,4) coveredD(1) [OF I(5)] I(1) codec ci co True])
qed

lemma read_spec:
  assumes inv: "store_inv d good L N S a lo hi ms pc st" and ok: "deps_ok d storable good"
    and ci: "cinv (ps_cache st)" and co: "cache_ok (sd_codec d) L N (view (ps_cache st))" and off: "off < N tp"
  shows "\<exists>n c. 0 < n \<and> off + n \<le> N tp \<and> store_read d id id now tp off mb st = (Ok (log_run L tp off (off + n)), st\<lparr>ps_cache := c\<rparr>) \<and>
    cinv c \<and> cache_ok (sd_codec d) L N (view c)"
proof -
  obtain n c where "0 < n" "off + n \<le> N tp" "cinv c" "cache_ok (sd_codec d) L N (view c)"
    "read_attempt d id True now tp off mb st = (Some (Ok (log_run L tp off (off + n))), st\<lparr>ps_cache := c\<rparr>)"
    using attempt_spec [OF assms, of True now mb] by blast
  then show ?thesis by (intro exI [of _ n] exI [of _ c]) (simp add: store_read_def)
qed

lemma read_past_end:
  assumes "store_inv d good L N S a lo hi ms pc st" and "N tp \<le> off"
  shows "store_read d id id now tp off mb st = (Ok [], st)"
  using coveredD(1) [OF store_invD(5) [OF assms(1)]] assms(2)
  by (simp add: store_read_def read_attempt_def read_plan_entries)

text \<open>
  A read that planned against a cold range just before a compaction: the object is there as before, or
  it was a source and is gone, and the second round finds the merged one.
\<close>

lemma live_in_plan:
  assumes vp: "valid_plan idx p" and ch: "cold_holds um cod L idx u" and r: "cold_map idx (cp_tp p) s = Some r"
    and "plan_start p \<le> s" and "s < plan_end p"
  shows "or_object_key r \<in> set (map cs_object_key (cp_sources p))"
proof -
  have dis: "ranges_disjoint or_end_offset (cold_map idx (cp_tp p))" using ch by (simp add: cold_holds_def)
  have "cp_sources p \<noteq> []" and "contiguous (cp_sources p)" using vp by (auto simp: valid_plan_def)
  from contiguous_covers [OF this(2,1), of s] assms(4,5) obtain src where
    src: "src \<in> set (cp_sources p)" "cs_start_offset src \<le> s" "s < cs_end_offset src" by (auto simp: plan_start_def plan_end_def)
  have live: "cold_map idx (cp_tp p) (cs_start_offset src) = Some (seg_range src)" using vp src(1) by (simp add: valid_plan_def)
  have "cs_start_offset src = s"
    using disjointD [OF dis live r] src(2,3) by (cases "cs_start_offset src = s") (auto simp: seg_range_def)
  with live r have "r = seg_range src" by simp
  with src(1) show ?thesis by (auto simp: seg_range_def)
qed

lemma execute_plan_objs:
  "execute_plan um cod p st = (Ok (), st') \<Longrightarrow> 2 \<le> length (cp_sources p) \<Longrightarrow>
   \<exists>u. ct_objs st' = delete_sources um (map cs_object_key (cp_sources p)) u"
  by (auto simp: execute_plan_def Let_def split: sum.splits prod.splits if_splits)

lemma read_across_compaction:
  assumes wf: "index_wf (ct_index st)" and ch: "cold_holds (sd_um d) (sd_codec d) L (ct_index st) (ct_objs st)"
    and N: "\<And>tp. next_offset (ct_index st) tp = N tp" and lg: "log_good good L N"
    and codec: "\<And>rs. \<forall>r \<in> set rs. good r \<Longrightarrow> sc_de (sd_codec d) (sc_ser (sd_codec d) rs) = Some rs"
    and ci: "cinv (ps_cache st)" and co: "cache_ok (sd_codec d) L N (view (ps_cache st))"
    and hot: "hot_at (ct_index st) tp off = None" and cov: "cold_covers (ct_index st) tp off"
    and vp: "valid_plan (ct_index st) p" and fit: "plan_fits fits (sd_codec d) L p"
  shows "\<exists>n st'. 0 < n \<and> off + n \<le> N tp \<and>
    store_read d (\<lambda>st. snd (execute_plan (sd_um d) (sd_codec d) p st)) id now tp off mb st = (Ok (log_run L tp off (off + n)), st')"
proof -
  let ?later = "\<lambda>st. snd (execute_plan (sd_um d) (sd_codec d) p st)" and ?key = "cache_key tp off"
  obtain s r where r: "cold_map (ct_index st) tp s = Some r" "s \<le> off" "off < or_end_offset r" using cov by (auto simp: cold_covers_def)
  have "ranges_disjoint or_end_offset (cold_map (ct_index st) tp)" using ch by (simp add: cold_holds_def)
  note plan = read_plan_cold [OF wf this hot r, of mb]
  have L: "log_wf L" using lg by (simp add: log_good_def)
  have key: "or_object_key r = segment_key tp s (or_end_offset r)" "plain_topic (tp_topic tp)" and
    obj: "object_holds (sd_um d) (sd_codec d) L (ct_objs st) tp s (or_end_offset r)"
    using cold_holds_range [OF ch r(1)] by (simp_all add: range_holds_def)
  let ?idx = "replace_cold (cp_tp p) (plan_start p) (plan_end p) (segment_key (cp_tp p) (plan_start p) (plan_end p))
    (ws_size_bytes (merged_segment (sd_codec d) L p)) (ct_index st)"
  from um.execute_plan_holds [OF wf vp ch L] fit obtain st1 u where
    ex: "execute_plan (sd_um d) (sd_codec d) p st = (Ok (), st1)" and st1: "ct_index st1 = ?idx" "ct_objs st1 = u" "ps_cache st1 = ps_cache st"
    and ch1: "cold_holds (sd_um d) (sd_codec d) L ?idx u"
    and keep: "\<And>tp s e. plain_topic (tp_topic tp) \<Longrightarrow> object_holds (sd_um d) (sd_codec d) L (ct_objs st) tp s e \<Longrightarrow>
        \<not> (tp = cp_tp p \<and> plan_start p \<le> s \<and> s < plan_end p) \<Longrightarrow> object_holds (sd_um d) (sd_codec d) L u tp s e"
    unfolding plan_fits_def by fastforce
  show ?thesis
  proof (cases "view (ps_cache st) ?key = None \<and> tp = cp_tp p \<and> plan_start p \<le> s \<and> s < plan_end p")
    case True
    then have miss: "view (ps_cache st) ?key = None" and mine: "tp = cp_tp p" "plan_start p \<le> s" "s < plan_end p" by blast+
    obtain c1 where c1: "ch_get (sd_cache d) now ?key (ps_cache st) = (Ok None, c1)" "view c1 = view (ps_cache st)" "cinv c1"
      using ch.get_view [OF ci] miss by metis
    have srcs: "\<forall>k \<in> set (map cs_object_key (cp_sources p)). is_segment_key k"
      using plan_sources(1) [OF wf vp ch L] valid_plan_ends(2) [OF vp ch L] by (auto simp: is_segment_key_def)
    obtain u' where "ct_objs st1 = delete_sources (sd_um d) (map cs_object_key (cp_sources p)) u'"
      using execute_plan_objs [OF ex] vp by (auto simp: valid_plan_def)
    moreover have "or_object_key r \<in> set (map cs_object_key (cp_sources p))" using live_in_plan [OF vp ch] r(1) mine by blast
    ultimately obtain msg where gone: "um_download_segment (sd_um d) (or_object_key r) (ct_objs st1) = Err (NotFound msg)"
      using um.delete_sources_gone [OF srcs] by metis
    obtain c2 where c2: "ch_remove (sd_cache d) ?key c1 = (Ok (), c2)" "view c2 = (view c1)(?key := None)" "cinv c2"
      using ch.remove_view [OF c1(3)] by blast
    let ?st2 = "st1\<lparr>ps_cache := c2\<rparr>"
    have att: "read_attempt d ?later True now tp off mb st = (None, ?st2)"
      using plan ex c1(1) c2(1) gone st1(3) by (simp add: read_attempt_def Let_def)
    have co2: "cache_ok (sd_codec d) L N (view (ps_cache ?st2))"
      by (rule cache_ok_submap [OF co]) (auto simp: c2(2) c1(2) map_le_def)
    have "\<exists>n c. 0 < n \<and> off + n \<le> N tp \<and> read_attempt d id False now tp off mb ?st2 = (Some (Ok (log_run L tp off (off + n))), ?st2\<lparr>ps_cache := c\<rparr>) \<and>
        cinv c \<and> cache_ok (sd_codec d) L N (view c)"
      using cold_ops_wf(2) [OF wf] ch1 replace_keeps [OF wf vp] N c2(3) co2 hot cov replace_covers [OF wf vp ch L]
      by (intro attempt_cold [OF _ _ _ lg codec]) (simp_all add: st1 index_views)
    with att show ?thesis by (auto simp: store_read_def)
  next
    case False
    have "\<exists>seg. um_download_segment (sd_um d) (or_object_key r) (ct_objs st1) = Ok seg \<and>
        sc_de (sd_codec d) (ws_data seg) = Some (log_run L tp s (or_end_offset r))" if "view (ps_cache st) ?key = None"
      using keep [OF key(2) obj] False that by (auto simp: object_holds_def key(1) st1(2))
    moreover have "or_end_offset r \<le> N tp" using cold_end_le [OF wf r(1)] N by simp
    ultimately show ?thesis
      using cold_attempt [OF plan, of ?later st1 good L N True now] lg codec ci co r(2,3) ex st1(3)
      by (auto simp: store_read_def)
  qed
qed

end

end
