(* ===== verification/Tiered_System.thy ===== *)
theory Tiered_System
  imports Tiered_Recovery
begin

text \<open>
  The invariant of the whole engine, kept by every step of \<open>system_step\<close>, and the properties of the engine
  as the broker builds it: segmented log on disk, upload manager over local files, sharded LRU cache.
\<close>

section \<open>The history as a log\<close>

lemma log_of_take: "off < m tp \<Longrightarrow> m tp \<le> length (H tp) \<Longrightarrow> log_of (\<lambda>tp. take (m tp) (H tp)) tp off = log_of H tp off"
  by (simp add: log_of_def)

lemma log_of_append:
  "off < length (H tp') \<Longrightarrow> log_of (H(tp := H tp @ [r])) tp' off = log_of H tp' off"
  "log_of (H(tp := H tp @ [r])) tp (length (H tp)) = r"
  by (auto simp: log_of_def nth_append)

lemma log_wf_log_of: "log_wf (log_of H) \<longleftrightarrow> (\<forall>tp. \<forall>off < length (H tp). wr_tp (H tp ! off) = tp \<and> wr_offset (H tp ! off) = off)"
  by (auto simp: log_wf_def log_of_def blank_record_def)

lemma log_wf_append:
  "log_wf (log_of H) \<Longrightarrow> wr_offset r = length (H (wr_tp r)) \<Longrightarrow> log_wf (log_of (H(wr_tp r := H (wr_tp r) @ [r])))"
  by (auto simp: log_wf_log_of nth_append less_Suc_eq)

lemma log_wf_take: "log_wf (log_of H) \<Longrightarrow> log_wf (log_of (\<lambda>tp. take (m tp) (H tp)))"
  by (simp add: log_wf_log_of)

lemma log_run_log_of: "off + n \<le> length (H tp) \<Longrightarrow> log_run (log_of H) tp off (off + n) = take n (drop off (H tp))"
  by (simp add: log_run_def log_of_def list_eq_iff_nth_eq)

section \<open>What is durable\<close>

lemma durable_mono:
  assumes "durable_ok D S a m lo" and "S' a = S a" and "lo' a = lo a"
  shows "durable_ok D S' a m lo'"
  using assms by (simp add: durable_ok_def)

lemma durable_survives: "durable_ok D S a m lo \<Longrightarrow> m \<le> j \<Longrightarrow> D tp \<le> surviving S a lo j tp"
proof -
  assume d: "durable_ok D S a m lo" and j: "m \<le> j"
  have "take j (the (S a)) = take m (the (S a)) @ take (j - m) (drop m (the (S a)))"
    using j by (metis le_add_diff_inverse take_add)
  then have "length (filter (\<lambda>r. wr_tp r = tp) (take m (the (S a)))) \<le> length (filter (\<lambda>r. wr_tp r = tp) (take j (the (S a))))"
    by simp
  with d show ?thesis unfolding durable_ok_def surviving_def by (meson add_le_mono le_refl order.trans)
qed

lemma durable_fresh: "(\<And>tp. D tp \<le> lo a tp) \<Longrightarrow> durable_ok D S a m lo"
  unfolding durable_ok_def by (meson le_add1 order.trans)

lemma surviving_all:
  assumes "wal_ranges L N S a lo hi" and "a \<in> dom S"
  shows "surviving S a lo (length (the (S a))) tp = N tp"
  using wal_rangesD(1,2,4) [OF assms, of tp] by (simp add: surviving_def seg_recs_def)

lemma durable_all:
  assumes "wal_ranges L N S a lo hi" and "a \<in> dom S"
  shows "durable_ok N S a (length (the (S a))) lo"
  using surviving_all [OF assms] by (simp add: durable_ok_def surviving_def)

lemma durable_le:
  assumes "durable_ok D S a m lo" and "m \<le> length (the (S a))" and "wal_ranges L N S a lo hi" and "a \<in> dom S"
  shows "D tp \<le> N tp"
  using durable_survives [OF assms(1,2)] surviving_all [OF assms(3,4)] by metis

lemma cache_ok_cong:
  assumes "cache_ok cod L N v" and "\<And>tp off. off < N tp \<Longrightarrow> L tp off = L' tp off" and "\<And>tp. N tp \<le> N' tp"
  shows "cache_ok cod L' N' v"
  unfolding cache_ok_def
proof (intro allI impI)
  fix tp off bs assume "v (cache_key tp off) = Some bs"
  with assms(1) obtain n where n: "n > 0" "off + n \<le> N tp" "sc_de cod bs = Some (log_run L tp off (off + n))"
    unfolding cache_ok_def by blast
  have "log_run L tp off (off + n) = log_run L' tp off (off + n)" using n(2) by (intro log_run_cong assms(2)) simp
  with n assms(3) [of tp] show "\<exists>n>0. off + n \<le> N' tp \<and> sc_de cod bs = Some (log_run L' tp off (off + n))"
    by (intro exI [of _ n]) auto
qed

section \<open>Every step keeps the invariant\<close>

lemma system_invI:
  assumes "a \<le> n" and "holds (ps_wal (sy_store sys)) S a m"
    and "store_inv d good (log_of (sy_hist sys)) (\<lambda>tp. length (sy_hist sys tp)) S a lo hi ms (sy_tier sys) (sy_store sys)"
    and "durable_ok (sy_durable sys) S a m lo" and "cinv (ps_cache (sy_store sys))"
    and "cache_ok (sd_codec d) (log_of (sy_hist sys)) (\<lambda>tp. length (sy_hist sys tp)) (view (ps_cache (sy_store sys)))"
  shows "system_inv d holds view cinv good n sys"
  using assms unfolding system_inv_def by (intro exI conjI)

lemma system_invE:
  assumes "system_inv d holds view cinv good n sys"
  obtains S a m lo hi ms where "a \<le> n" and "holds (ps_wal (sy_store sys)) S a m"
    and "store_inv d good (log_of (sy_hist sys)) (\<lambda>tp. length (sy_hist sys tp)) S a lo hi ms (sy_tier sys) (sy_store sys)"
    and "durable_ok (sy_durable sys) S a m lo" and "cinv (ps_cache (sy_store sys))"
    and "cache_ok (sd_codec d) (log_of (sy_hist sys)) (\<lambda>tp. length (sy_hist sys tp)) (view (ps_cache (sy_store sys)))"
  using assms unfolding system_inv_def by (elim exE conjE) (rule that)

lemma system_inv_Suc:
  assumes "system_inv d holds view cinv good n sys"
  shows "system_inv d holds view cinv good (Suc n) sys"
  using assms by (rule system_invE) (rule system_invI [OF le_SucI])

context tiered_storage
begin

lemma system_append_inv:
  assumes inv: "system_inv d holds view cinv good n sys" and ok: "deps_ok d storable good"
    and g: "good r" "wr_offset r = length (sy_hist sys (wr_tp r))" and ap: "store_append d r (sy_store sys) = (Ok loc, wake, st')"
  shows "system_inv d holds view cinv good n (sys\<lparr>sy_store := st', sy_hist := (sy_hist sys)(wr_tp r := sy_hist sys (wr_tp r) @ [r])\<rparr>)"
proof -
  obtain S a m lo hi ms where I: "a \<le> n" "holds (ps_wal (sy_store sys)) S a m"
    "store_inv d good (log_of (sy_hist sys)) (\<lambda>tp. length (sy_hist sys tp)) S a lo hi ms (sy_tier sys) (sy_store sys)"
    "durable_ok (sy_durable sys) S a m lo" "cinv (ps_cache (sy_store sys))"
    "cache_ok (sd_codec d) (log_of (sy_hist sys)) (\<lambda>tp. length (sy_hist sys tp)) (view (ps_cache (sy_store sys)))"
    using inv by (rule system_invE)
  let ?H = "sy_hist sys" and ?tp = "wr_tp r" and ?st = "sy_store sys"
  let ?H' = "?H(?tp := ?H ?tp @ [r])" and ?N = "\<lambda>tp. length (?H tp)"
  have ad: "a \<in> dom S" and top: "\<forall>s \<in> dom S. s \<le> a" and m: "m \<le> length (the (S a))" using log.shape [OF I(2)] by auto
  have st: "storable r" and plain: "\<And>r. good r \<Longrightarrow> plain_topic (tp_topic (wr_tp r))" using ok g by (simp_all add: deps_ok_def)
  obtain rs where rs: "S a = Some rs" using ad by blast
  have wf: "log_wf (log_of ?H)" using store_invD(1) [OF I(3)] by (simp add: log_good_def)
  have N': "(\<lambda>tp. length (?H' tp)) = ?N(?tp := Suc (?N ?tp))" by auto
  have r: "log_of ?H' ?tp (?N ?tp) = r" by (rule log_of_append(2))
  have inv': "store_inv d good (log_of ?H') ?N S a lo hi ms (sy_tier sys) ?st"
    by (rule store_inv_log_cong [OF I(3) ad top _ log_wf_append [OF wf g(2)] plain]) (simp_all add: log_of_append)
  obtain loc' w' where w': "lg_append (sd_log d) r (ps_wal ?st) = (Ok loc', w')"
    "holds w' (S(a \<mapsto> rs @ [r])) a (if fsync then length rs + 1 else m)"
    using log.append_log [OF I(2) st] unfolding rs option.sel by blast
  have st': "st' = ?st\<lparr>ct_index := insert_hot ?tp (?N ?tp) r (mem_size (sd_record_size d) r) (ct_index ?st), ps_wal := w'\<rparr>"
    using ap w'(1) g(2) by (auto simp: store_append_def Let_def)
  have "good (log_of ?H' ?tp (?N ?tp))" by (simp add: r g)
  from store_inv_append [OF inv' rs top this plain, where sz = "mem_size (sd_record_size d) r" and w = w']
  have "store_inv d good (log_of ?H') (\<lambda>tp. length (?H' tp)) (S(a \<mapsto> rs @ [r])) a lo (hi(a := (hi a)(?tp := Suc (?N ?tp)))) ms (sy_tier sys) st'"
    unfolding r N' st' .
  moreover have "durable_ok (sy_durable sys) (S(a \<mapsto> rs @ [r])) a (if fsync then length rs + 1 else m) lo"
  proof (cases fsync)
    case True
    have "sy_durable sys tp \<le> lo a tp + length (filter (\<lambda>r. wr_tp r = tp) (take (length rs) rs))" for tp
      using durable_survives [OF I(4) m, of tp] rs by (simp add: surviving_def)
    then show ?thesis using True by (auto simp: durable_ok_def intro: le_SucI)
  next
    case False
    then show ?thesis using I(4) m rs by (simp add: durable_ok_def)
  qed
  moreover have "cache_ok (sd_codec d) (log_of ?H') (\<lambda>tp. length (?H' tp)) (view (ps_cache ?st))"
    by (rule cache_ok_cong [OF I(6)]) (auto simp: log_of_append)
  ultimately show ?thesis using I(1,5) w'(2)
    by (intro system_invI [of a n holds _ "S(a \<mapsto> rs @ [r])" "if fsync then length rs + 1 else m"]) (simp_all add: st')
qed

lemma system_append_ok:
  assumes "system_inv d holds view cinv good n sys" and "deps_ok d storable good" and "good r"
  shows "\<exists>loc wake st'. store_append d r (sy_store sys) = (Ok loc, wake, st')"
proof -
  obtain S a m where "holds (ps_wal (sy_store sys)) S a m" using assms(1) by (rule system_invE)
  moreover have "storable r" using assms(2,3) by (simp add: deps_ok_def)
  ultimately show ?thesis using log.append_log by (fastforce simp: store_append_def Let_def)
qed

lemma system_seal_inv:
  assumes inv: "system_inv d holds view cinv good n sys" and room: "n < u64_max"
    and pc: "sy_tier sys = TIdle \<or> sy_tier sys = TFinished res0" and seal: "lg_seal (sd_log d) now force (ps_wal (sy_store sys)) = (Ok res, w)"
    and seqs: "lg_sealed_segments (sd_log d) w = Ok seqs"
  shows "system_inv d holds view cinv good (Suc n) (sys\<lparr>sy_store := (sy_store sys)\<lparr>ps_wal := w\<rparr>, sy_tier := TSegments seqs\<rparr>)"
proof -
  obtain S a m lo hi ms where I: "a \<le> n" "holds (ps_wal (sy_store sys)) S a m"
    "store_inv d good (log_of (sy_hist sys)) (\<lambda>tp. length (sy_hist sys tp)) S a lo hi ms (sy_tier sys) (sy_store sys)"
    "durable_ok (sy_durable sys) S a m lo" "cinv (ps_cache (sy_store sys))"
    "cache_ok (sd_codec d) (log_of (sy_hist sys)) (\<lambda>tp. length (sy_hist sys tp)) (view (ps_cache (sy_store sys)))"
    using inv by (rule system_invE)
  have ad: "a \<in> dom S" and top: "\<forall>s \<in> dom S. s \<le> a" and m: "m \<le> length (the (S a))" using log.shape [OF I(2)] by auto
  have sealed: "seqs_ok S' a' seqs" if "holds w S' a' m'" for S' a' m'
    using log.sealed_log [OF that] log.shape [OF that] seqs by (simp add: seqs_ok_def)
  have "Suc a \<le> u64_max" using I(1) room by simp
  from log.seal_log [OF I(2) this, of now force] seal
  have res: "case res of None \<Rightarrow> holds w S a m | Some s \<Rightarrow> s = a \<and> holds w (S(Suc a \<mapsto> [])) (Suc a) 0" by auto
  show ?thesis
  proof (cases res)
    case None
    then have h: "holds w S a m" using res by simp
    have "store_inv d good (log_of (sy_hist sys)) (\<lambda>tp. length (sy_hist sys tp)) S a lo hi ms (TSegments seqs) (sy_store sys)"
      using pc sealed [OF h] by (intro store_inv_pc [OF I(3)]) (auto simp: pending_def tier_ok_def)
    then have "store_inv d good (log_of (sy_hist sys)) (\<lambda>tp. length (sy_hist sys tp)) S a lo hi ms (TSegments seqs) ((sy_store sys)\<lparr>ps_wal := w\<rparr>)"
      by (simp add: store_inv_def tier_ok_def)
    with h I show ?thesis by (intro system_invI [of a _ holds _ S m]) simp_all
  next
    case (Some s)
    then have h: "holds w (S(Suc a \<mapsto> [])) (Suc a) 0" using res by simp
    let ?N = "\<lambda>tp. length (sy_hist sys tp)"
    have "durable_ok (sy_durable sys) (S(Suc a \<mapsto> [])) (Suc a) 0 (lo(Suc a := ?N))"
      using durable_le [OF I(4) m store_invD(2) [OF I(3)] ad] by (intro durable_fresh) simp
    with h I store_inv_seal [OF I(3) ad top pc sealed [OF h], of w] show ?thesis
      by (intro system_invI [of "Suc a" _ holds _ "S(Suc a \<mapsto> [])" 0]) simp_all
  qed
qed

lemma system_crash_inv:
  assumes inv: "system_inv d holds view cinv good n sys" and room: "n < u64_max" and ok: "deps_ok d storable good"
    and c0: "cinv c0" "view c0 = Map.empty"
  shows "\<exists>st'. store_new d (lg_reopen (sd_log d) now (ps_wal (sy_store sys))) (ct_objs (sy_store sys)) c0 (ct_manifest (sy_store sys)) = (Ok (), st') \<and>
    (\<forall>tp. sy_durable sys tp \<le> next_offset (ct_index st') tp \<and> next_offset (ct_index st') tp \<le> length (sy_hist sys tp)) \<and>
    system_inv d holds view cinv good (Suc n) \<lparr>sy_store = st', sy_tier = TIdle,
      sy_hist = (\<lambda>tp. take (next_offset (ct_index st') tp) (sy_hist sys tp)), sy_durable = sy_durable sys\<rparr>"
proof -
  obtain S a m lo hi ms where I: "a \<le> n" "holds (ps_wal (sy_store sys)) S a m"
    "store_inv d good (log_of (sy_hist sys)) (\<lambda>tp. length (sy_hist sys tp)) S a lo hi ms (sy_tier sys) (sy_store sys)"
    "durable_ok (sy_durable sys) S a m lo"
    using inv by (rule system_invE)
  have ad: "a \<in> dom S" and top: "\<forall>s \<in> dom S. s \<le> a" using log.shape [OF I(2)] by auto
  have plain: "\<And>r. good r \<Longrightarrow> plain_topic (tp_topic (wr_tp r))" using ok by (simp add: deps_ok_def)
  have "Suc a \<le> u64_max" using I(1) room by simp
  from restart_inv [OF I(2,3) ok this, of now c0] obtain j S1 lo1 hi1 st' where
    j: "m \<le> j" and new: "store_new d (lg_reopen (sd_log d) now (ps_wal (sy_store sys))) (ct_objs (sy_store sys)) c0 (ct_manifest (sy_store sys)) = (Ok (), st')"
    and h: "holds (ps_wal st') S1 (Suc a) 0" and lo1: "lo1 (Suc a) = surviving S a lo j" and ch: "ps_cache st' = c0"
    and inv1: "store_inv d good (log_of (sy_hist sys)) (surviving S a lo j) S1 (Suc a) lo1 hi1 ms TIdle st'"
    by blast
  have N1: "next_offset (ct_index st') tp = surviving S a lo j tp" for tp using coveredD(1) [OF store_invD(5) [OF inv1]] .
  note dur = durable_survives [OF I(4) j] and le = wal_ranges_truncate(2) [OF store_invD(2) [OF I(3)] ad top, where j = j]
  let ?H = "\<lambda>tp. take (surviving S a lo j tp) (sy_hist sys tp)"
  have ad1: "Suc a \<in> dom S1" and top1: "\<forall>s \<in> dom S1. s \<le> Suc a" using log.shape [OF h] by auto
  have len: "(\<lambda>tp. min (length (sy_hist sys tp)) (surviving S a lo j tp)) = surviving S a lo j" using le by (simp add: fun_eq_iff min_absorb2)
  have wf: "log_wf (log_of (sy_hist sys))" using store_invD(1) [OF I(3)] by (simp add: log_good_def)
  have "store_inv d good (log_of ?H) (surviving S a lo j) S1 (Suc a) lo1 hi1 ms TIdle st'"
    by (rule store_inv_log_cong [OF inv1 ad1 top1 _ log_wf_take [OF wf] plain]) (simp_all add: log_of_take le)
  moreover have "durable_ok (sy_durable sys) S1 (Suc a) 0 lo1" using dur by (intro durable_fresh) (simp add: lo1)
  ultimately have "system_inv d holds view cinv good (Suc n) \<lparr>sy_store = st', sy_tier = TIdle, sy_hist = ?H, sy_durable = sy_durable sys\<rparr>"
    using I(1) h c0 ch by (intro system_invI [of "Suc a" _ holds _ S1 0]) (simp_all add: len cache_ok_def)
  then show ?thesis using new dur le by (intro exI [of _ st']) (simp add: N1)
qed

lemma system_sync_inv:
  assumes inv: "system_inv d holds view cinv good n sys"
  shows "\<exists>st'. store_sync d (sy_store sys) = (Ok (), st') \<and>
    system_inv d holds view cinv good n (sys\<lparr>sy_store := st', sy_durable := (\<lambda>tp. length (sy_hist sys tp))\<rparr>)"
proof -
  obtain S a m lo hi ms where I: "a \<le> n" "holds (ps_wal (sy_store sys)) S a m"
    "store_inv d good (log_of (sy_hist sys)) (\<lambda>tp. length (sy_hist sys tp)) S a lo hi ms (sy_tier sys) (sy_store sys)"
    "cinv (ps_cache (sy_store sys))"
    "cache_ok (sd_codec d) (log_of (sy_hist sys)) (\<lambda>tp. length (sy_hist sys tp)) (view (ps_cache (sy_store sys)))"
    using inv by (rule system_invE)
  obtain w where w: "lg_sync (sd_log d) (ps_wal (sy_store sys)) = (Ok (), w)" "holds w S a (length (the (S a)))" using log.sync_log [OF I(2)] by blast
  have "durable_ok (\<lambda>tp. length (sy_hist sys tp)) S a (length (the (S a))) lo"
    using log.shape [OF I(2)] by (intro durable_all [OF store_invD(2) [OF I(3)]]) simp
  moreover have "store_inv d good (log_of (sy_hist sys)) (\<lambda>tp. length (sy_hist sys tp)) S a lo hi ms (sy_tier sys) ((sy_store sys)\<lparr>ps_wal := w\<rparr>)"
    using I(3) unfolding store_inv_def tier_ok_def upload_ok_def by (simp cong: tier_pc.case_cong)
  ultimately have "system_inv d holds view cinv good n (sys\<lparr>sy_store := (sy_store sys)\<lparr>ps_wal := w\<rparr>, sy_durable := (\<lambda>tp. length (sy_hist sys tp))\<rparr>)"
    using I w by (intro system_invI [of a _ holds _ S "length (the (S a))"]) simp_all
  then show ?thesis using w(1) by (simp add: store_sync_def)
qed

lemma system_read_inv:
  assumes inv: "system_inv d holds view cinv good n sys" and ok: "deps_ok d storable good"
    and rd: "store_read d id id now tp off mb (sy_store sys) = (res, st')"
  shows "system_inv d holds view cinv good n (sys\<lparr>sy_store := st'\<rparr>)"
proof -
  obtain S a m lo hi ms where I: "a \<le> n" "holds (ps_wal (sy_store sys)) S a m"
    "store_inv d good (log_of (sy_hist sys)) (\<lambda>tp. length (sy_hist sys tp)) S a lo hi ms (sy_tier sys) (sy_store sys)"
    "durable_ok (sy_durable sys) S a m lo" "cinv (ps_cache (sy_store sys))"
    "cache_ok (sd_codec d) (log_of (sy_hist sys)) (\<lambda>tp. length (sy_hist sys tp)) (view (ps_cache (sy_store sys)))"
    using inv by (rule system_invE)
  have "\<exists>c. st' = (sy_store sys)\<lparr>ps_cache := c\<rparr> \<and> cinv c \<and> cache_ok (sd_codec d) (log_of (sy_hist sys)) (\<lambda>tp. length (sy_hist sys tp)) (view c)"
  proof (cases "off < length (sy_hist sys tp)")
    case True
    from read_spec [OF I(3) ok I(5,6) True, of now mb] rd show ?thesis by auto
  next
    case False
    with read_past_end [OF I(3), of tp off now mb] rd I(5,6) show ?thesis
      by (intro exI [of _ "ps_cache (sy_store sys)"]) simp
  qed
  then obtain c where c: "st' = (sy_store sys)\<lparr>ps_cache := c\<rparr>" "cinv c"
    "cache_ok (sd_codec d) (log_of (sy_hist sys)) (\<lambda>tp. length (sy_hist sys tp)) (view c)" by blast
  have "store_inv d good (log_of (sy_hist sys)) (\<lambda>tp. length (sy_hist sys tp)) S a lo hi ms (sy_tier sys) st'"
    using I(3) unfolding c(1) store_inv_def tier_ok_def upload_ok_def by (simp cong: tier_pc.case_cong)
  with I c show ?thesis by (intro system_invI [of a _ holds _ S m]) simp_all
qed

lemma system_step_inv:
  assumes "system_step d fits good c0 sys sys'" and inv: "system_inv d holds view cinv good n sys" and room: "n < u64_max"
    and ok: "deps_ok d storable good" and c0: "cinv c0" "view c0 = Map.empty"
  shows "system_inv d holds view cinv good (Suc n) sys'"
  using assms(1)
proof cases
  case (sys_append r loc wake st')
  from system_append_inv [OF inv ok this(2-4)] sys_append(1) show ?thesis by (simp add: system_inv_Suc)
next
  case (sys_seal res0 now force res w seqs)
  from system_seal_inv [OF inv room this(2-4)] sys_seal(1) show ?thesis by simp
next
  case (sys_crash now st')
  from system_crash_inv [OF inv room ok c0, of now] sys_crash show ?thesis by auto
next
  case (sys_sync st')
  from system_sync_inv [OF inv] sys_sync show ?thesis by (auto intro: system_inv_Suc)
next
  case (sys_read now tp off mb res st')
  from system_read_inv [OF inv ok this(2)] sys_read(1) show ?thesis by (simp add: system_inv_Suc)
next
  case (sys_tier obs pc' st')
  obtain S a m lo hi ms where I: "a \<le> n" "holds (ps_wal (sy_store sys)) S a m"
    "store_inv d good (log_of (sy_hist sys)) (\<lambda>tp. length (sy_hist sys tp)) S a lo hi ms (sy_tier sys) (sy_store sys)"
    "durable_ok (sy_durable sys) S a m lo" "cinv (ps_cache (sy_store sys))"
    "cache_ok (sd_codec d) (log_of (sy_hist sys)) (\<lambda>tp. length (sy_hist sys tp)) (view (ps_cache (sy_store sys)))"
    using inv by (rule system_invE)
  from tier_step_inv [OF I(2,3) sys_tier(2) ok sys_tier(3)] obtain S' ms' where
    "holds (ps_wal st') S' a m" "S' a = S a" "store_inv d good (log_of (sy_hist sys)) (\<lambda>tp. length (sy_hist sys tp)) S' a lo hi ms' pc' st'"
    "ps_cache st' = ps_cache (sy_store sys)" by blast
  moreover from this have "durable_ok (sy_durable sys) S' a m lo" by (intro durable_mono [OF I(4)]) simp_all
  ultimately show ?thesis using I sys_tier(1) by (intro system_invI [of a _ holds _ S' m]) simp_all
next
  case (sys_compact p st')
  obtain S a m lo hi ms where I: "a \<le> n" "holds (ps_wal (sy_store sys)) S a m"
    "store_inv d good (log_of (sy_hist sys)) (\<lambda>tp. length (sy_hist sys tp)) S a lo hi ms (sy_tier sys) (sy_store sys)"
    "durable_ok (sy_durable sys) S a m lo" "cinv (ps_cache (sy_store sys))"
    "cache_ok (sd_codec d) (log_of (sy_hist sys)) (\<lambda>tp. length (sy_hist sys tp)) (view (ps_cache (sy_store sys)))"
    using inv by (rule system_invE)
  from store_inv_compact [OF I(2,3) sys_compact(2-5) ok sys_compact(6)] obtain mr where
    "store_inv d good (log_of (sy_hist sys)) (\<lambda>tp. length (sy_hist sys tp)) S a lo hi (ms @ [mr]) (sy_tier sys) st'"
    "ps_wal st' = ps_wal (sy_store sys)" "ps_cache st' = ps_cache (sy_store sys)" by blast
  with I sys_compact(1) show ?thesis by (intro system_invI [of a _ holds _ S m]) simp_all
qed

lemma reach_inv:
  assumes "system_reach d fits good c0 init n sys" and "system_inv d holds view cinv good 0 init" and "n \<le> u64_max"
    and "deps_ok d storable good" and "cinv c0" and "view c0 = Map.empty"
  shows "system_inv d holds view cinv good n sys"
  using assms(1,3)
proof (induction rule: system_reach.induct)
  case (reach_step n sys sys')
  then show ?case using system_step_inv [OF reach_step.hyps(2) _ _ assms(4-6)] by simp
qed (rule assms(2))

text \<open>A new store.\<close>

lemma new_store_inv:
  assumes w: "holds w [0 \<mapsto> []] 0 0" and c0: "cinv c0" "view c0 = Map.empty"
  shows "fst (store_new d w u c0 []) = Ok ()"
    and "system_inv d holds view cinv good 0 \<lparr>sy_store = snd (store_new d w u c0 []), sy_tier = TIdle, sy_hist = (\<lambda>tp. []), sy_durable = (\<lambda>tp. 0)\<rparr>"
proof -
  have "lg_recover (sd_log d) w = Ok []" using log.recover_log [OF w] by auto
  moreover have "load (sc_mde (sd_codec d)) (sc_crc (sd_codec d)) [] = (fold_manifest [], [])"
    using load_frames [of "[]"] by simp
  moreover have "lr_live (fold_manifest []) = []" "lr_orphan_object_keys (fold_manifest []) = []"
    by (simp_all add: fold_manifest_def)
  ultimately have new: "store_new d w u c0 [] = (Ok (), \<lparr>ct_index = index_new, ct_objs = u, ct_manifest = [], ps_wal = w, ps_cache = c0\<rparr>)"
    by (simp add: store_new_def restore_cold_def delete_sources_def reindex_hot_def)
  then show "fst (store_new d w u c0 []) = Ok ()" by simp
  let ?st = "\<lparr>ct_index = index_new, ct_objs = u, ct_manifest = [], ps_wal = w, ps_cache = c0\<rparr>"
  have "log_wf (log_of (\<lambda>tp. []))" by (simp add: log_wf_log_of)
  then have "store_inv d good (log_of (\<lambda>tp. [])) (\<lambda>tp. 0) [0 \<mapsto> []] 0 (\<lambda>s tp. 0) (\<lambda>s tp. 0) [] TIdle ?st"
    by (simp add: store_inv_def log_good_def wal_ranges_def seg_recs_def log_run_def cold_holds_def index_views ranges_disjoint_def covered_def
        hot_backed_def whole_def pending_def manifest_ok_def live_map_def hm_entry_def orphans_ok_def tier_ok_def)
  then show "system_inv d holds view cinv good 0 \<lparr>sy_store = snd (store_new d w u c0 []), sy_tier = TIdle, sy_hist = (\<lambda>tp. []), sy_durable = (\<lambda>tp. 0)\<rparr>"
    using w c0 by (intro system_invI [of 0 0 holds _ "[0 \<mapsto> []]" 0]) (simp_all add: new durable_ok_def cache_ok_def)
qed

text \<open>What the invariant says to a client.\<close>

lemma observe:
  assumes inv: "system_inv d holds view cinv good n sys" and ok: "deps_ok d storable good"
  shows "store_next_offset (sy_store sys) tp = length (sy_hist sys tp)" and "sy_durable sys tp \<le> length (sy_hist sys tp)"
    and "off < length (sy_hist sys tp) \<Longrightarrow>
      \<exists>k>0. fst (store_read d id id now tp off mb (sy_store sys)) = Ok (take k (drop off (sy_hist sys tp)))"
    and "length (sy_hist sys tp) \<le> off \<Longrightarrow> fst (store_read d id id now tp off mb (sy_store sys)) = Ok []"
proof -
  obtain S a m lo hi ms where I: "a \<le> n" "holds (ps_wal (sy_store sys)) S a m"
    "store_inv d good (log_of (sy_hist sys)) (\<lambda>tp. length (sy_hist sys tp)) S a lo hi ms (sy_tier sys) (sy_store sys)"
    "durable_ok (sy_durable sys) S a m lo" "cinv (ps_cache (sy_store sys))"
    "cache_ok (sd_codec d) (log_of (sy_hist sys)) (\<lambda>tp. length (sy_hist sys tp)) (view (ps_cache (sy_store sys)))"
    using inv by (rule system_invE)
  show "store_next_offset (sy_store sys) tp = length (sy_hist sys tp)"
    using coveredD(1) [OF store_invD(5) [OF I(3)]] by (simp add: store_next_offset_def)
  show "sy_durable sys tp \<le> length (sy_hist sys tp)"
    using durable_le [OF I(4) _ store_invD(2) [OF I(3)]] log.shape [OF I(2)] by simp
  show "\<exists>k>0. fst (store_read d id id now tp off mb (sy_store sys)) = Ok (take k (drop off (sy_hist sys tp)))"
    if "off < length (sy_hist sys tp)"
    using read_spec [OF I(3) ok I(5,6) that, of now mb] log_run_log_of by auto
  show "fst (store_read d id id now tp off mb (sy_store sys)) = Ok []" if "length (sy_hist sys tp) \<le> off"
    using read_past_end [OF I(3) that, of now mb] by simp
qed

end

section \<open>The specification: a log with a durable prefix\<close>

type_synonym log_spec = "(topic_partition \<Rightarrow> wal_record list) \<times> (topic_partition \<Rightarrow> nat)"

inductive spec_step :: "log_spec \<Rightarrow> log_spec \<Rightarrow> bool" where
  spec_append: "wr_offset r = length (H (wr_tp r)) \<Longrightarrow> spec_step (H, D) (H(wr_tp r := H (wr_tp r) @ [r]), D)"
| spec_sync: "spec_step (H, D) (H, \<lambda>tp. length (H tp))"
| spec_crash: "(\<And>tp. D tp \<le> m tp \<and> m tp \<le> length (H tp)) \<Longrightarrow> spec_step (H, D) (\<lambda>tp. take (m tp) (H tp), D)"
| spec_stutter: "spec_step (H, D) (H, D)"

section \<open>The engine as deployed\<close>

definition engine_deps ::
  "(wal_record \<Rightarrow> bytes) \<Rightarrow> (bytes \<Rightarrow> wal_record option) \<Rightarrow> wal_config \<Rightarrow> upload_libs \<Rightarrow> upload_config \<Rightarrow> (string \<Rightarrow> nat) \<Rightarrow> store_codec \<Rightarrow>
   nat \<Rightarrow> nat \<Rightarrow> ((topic_partition \<times> wal_record list) list \<Rightarrow> (topic_partition \<times> wal_record list) list) \<Rightarrow>
   ('o object_ops \<times> (bytes \<Rightarrow> reservation option)) option \<Rightarrow> (local_fs, seg_wal, lru_cache, 'o) store_deps" where
  "engine_deps ser deser wcfg libs ucfg hash cod record_size max_bytes iter reservation =
     \<lparr>sd_log = segmented_ops ser deser wcfg, sd_um = upload_impl libs ucfg (local_ops (ul_crc libs)), sd_cache = lru_ops hash,
      sd_codec = cod, sd_record_size = record_size, sd_hot_cache_max_bytes = max_bytes, sd_iter = iter, sd_reservation = reservation\<rparr>"

interpretation engine: tiered_storage
  "engine_deps ser deser wcfg libs ucfg hash cod record_size max_bytes iter reservation"
  "wal_holds ser deser" "codec_ok ser deser" "wc_fsync_on_write wcfg" "fits_local libs ucfg" "lru_view hash" lru_wf
  for ser deser wcfg libs ucfg hash cod record_size max_bytes iter reservation
proof -
  let ?d = "engine_deps ser deser wcfg libs ucfg hash cod record_size max_bytes iter reservation"
  have "segmented_log (sd_log ?d) (wal_holds ser deser) (codec_ok ser deser) (wc_fsync_on_write wcfg)"
    "upload_manager (sd_um ?d) (fits_local libs ucfg)" "cache (sd_cache ?d) (lru_view hash) lru_wf"
    by (simp_all add: engine_deps_def wal_log.segmented_log_axioms local_upload.upload_manager_axioms lru.cache_axioms)
  then show "tiered_storage ?d (wal_holds ser deser) (codec_ok ser deser) (wc_fsync_on_write wcfg) (fits_local libs ucfg) (lru_view hash) lru_wf"
    by (rule tiered_storage.intro)
qed

text \<open>The engine on an empty disk, an object store with any contents and a new cache.\<close>

definition engine_init ::
  "(local_fs, seg_wal, lru_cache, 'o) store_deps \<Rightarrow> nat \<Rightarrow> local_fs \<Rightarrow> nat \<Rightarrow> (local_fs, seg_wal, lru_cache) system" where
  "engine_init d now fs cache_bytes =
     \<lparr>sy_store = snd (store_new d (wal_new now []) fs (lru_new cache_bytes) []), sy_tier = TIdle, sy_hist = (\<lambda>tp. []), sy_durable = (\<lambda>tp. 0)\<rparr>"

lemma engine_init_inv:
  "system_inv (engine_deps ser deser wcfg libs ucfg hash cod rsz mx iter res) (wal_holds ser deser) (lru_view hash) lru_wf good 0
     (engine_init (engine_deps ser deser wcfg libs ucfg hash cod rsz mx iter res) now fs cb)"
  unfolding engine_init_def by (rule engine.new_store_inv(2) [OF fresh_holds lru_new_wf lru_new_view])

lemma engine_reach_inv:
  assumes "deps_ok (engine_deps ser deser wcfg libs ucfg hash cod rsz mx iter res) (codec_ok ser deser) good"
    and "system_reach (engine_deps ser deser wcfg libs ucfg hash cod rsz mx iter res) (fits_local libs ucfg) good (lru_new cb)
           (engine_init (engine_deps ser deser wcfg libs ucfg hash cod rsz mx iter res) now fs cb) n sys"
    and "n \<le> u64_max"
  shows "system_inv (engine_deps ser deser wcfg libs ucfg hash cod rsz mx iter res) (wal_holds ser deser) (lru_view hash) lru_wf good n sys"
  by (rule engine.reach_inv [OF assms(2) engine_init_inv assms(3,1) lru_new_wf lru_new_view])

text \<open>A sample engine and run: one record appended and synced.\<close>

definition engine_sample_codec :: store_codec where
  "engine_sample_codec =
     \<lparr>sc_ser = map (\<lambda>r. of_nat (wr_offset r)), sc_de = (\<lambda>bs. Some (map (\<lambda>b. wal_sample (unat b)) bs)),
      sc_mser = (\<lambda>r. []), sc_mde = (\<lambda>bs. None), sc_crc = (\<lambda>bs. 0)\<rparr>"

definition engine_sample_good :: "wal_record \<Rightarrow> bool" where
  "engine_sample_good r \<longleftrightarrow> (\<exists>off<256. r = wal_sample off)"

abbreviation engine_sample :: "(local_fs, seg_wal, lru_cache, unit) store_deps" where
  "engine_sample \<equiv> engine_deps wal_sample_ser wal_sample_de wal_sample_config sample_libs sample_upload_config length engine_sample_codec
     100 0 id None"

lemma engine_sample_ok: "deps_ok engine_sample (codec_ok wal_sample_ser wal_sample_de) engine_sample_good"
proof -
  have "map (\<lambda>r. wal_sample (unat (of_nat (wr_offset r) :: 8 word))) rs = rs" if "\<forall>r \<in> set rs. engine_sample_good r" for rs
    using that by (induction rs) (auto simp: engine_sample_good_def wal_sample_def unat_of_nat)
  moreover have "plain_topic ''t''" using sample_plain_topic by (simp add: sample_tp_def)
  ultimately show ?thesis using wal_sample_ok
    by (auto simp: deps_ok_def engine_deps_def engine_sample_codec_def engine_sample_good_def wal_sample_def comp_def)
qed

lemma engine_sample_reach:
  "\<exists>sys. system_reach engine_sample (fits_local sample_libs sample_upload_config) engine_sample_good (lru_new 100)
     (engine_init engine_sample 0 Map.empty 100) 2 sys \<and>
     sy_hist sys (TopicPartition ''t'' 0) = [wal_sample 0] \<and> sy_durable sys (TopicPartition ''t'' 0) = 1"
proof -
  let ?step = "system_step engine_sample (fits_local sample_libs sample_upload_config) engine_sample_good (lru_new 100)"
  let ?s0 = "engine_init engine_sample 0 Map.empty 100"
  obtain loc wake st1 where ap: "store_append engine_sample (wal_sample 0) (sy_store ?s0) = (Ok loc, wake, st1)"
    by (cases "store_append engine_sample (wal_sample 0) (sy_store ?s0)")
      (auto simp: store_append_def Let_def engine_deps_def segmented_ops_def split: prod.splits)
  define s1 where "s1 = ?s0\<lparr>sy_store := st1, sy_hist := (sy_hist ?s0)(wr_tp (wal_sample 0) := sy_hist ?s0 (wr_tp (wal_sample 0)) @ [wal_sample 0])\<rparr>"
  have step1: "?step ?s0 s1" unfolding s1_def
    by (rule sys_append [OF _ _ ap]) (auto simp: engine_sample_good_def engine_init_def wal_sample_def)
  obtain st2 where "store_sync engine_sample (sy_store s1) = (Ok (), st2)"
    by (auto simp: store_sync_def engine_deps_def segmented_ops_def)
  then have step2: "?step s1 (s1\<lparr>sy_store := st2, sy_durable := (\<lambda>tp. length (sy_hist s1 tp))\<rparr>)" by (rule sys_sync)
  have "system_reach engine_sample (fits_local sample_libs sample_upload_config) engine_sample_good (lru_new 100) ?s0 2
      (s1\<lparr>sy_store := st2, sy_durable := (\<lambda>tp. length (sy_hist s1 tp))\<rparr>)"
    using reach_step [OF reach_step [OF reach_init step1] step2] by (simp add: numeral_2_eq_2)
  moreover have "wr_tp (wal_sample 0) = TopicPartition ''t'' 0" by (simp add: wal_sample_def)
  then have "sy_hist s1 (TopicPartition ''t'' 0) = [wal_sample 0]" by (simp add: s1_def engine_init_def)
  ultimately show ?thesis by (intro exI [of _ "s1\<lparr>sy_store := st2, sy_durable := (\<lambda>tp. length (sy_hist s1 tp))\<rparr>"]) simp
qed





text \<open>
  C24. Reads and compaction. A read of a cold offset that planned against the index just before a compaction
  replaced its ranges and deleted their objects still returns a non-empty run of the log from that offset:
  the object is untouched, or the download reports that it is gone and the second round of \<open>read\<close> finds
  the merged object.
\<close>

theorem read_survives_compaction:
  fixes res :: "('o object_ops \<times> (bytes \<Rightarrow> reservation option)) option"
  assumes "index_wf (ct_index st)" and "log_good good L (next_offset (ct_index st))"
    and "cold_holds (upload_impl libs ucfg (local_ops (ul_crc libs))) cod L (ct_index st) (ct_objs st)"
    and "\<And>rs. \<forall>r \<in> set rs. good r \<Longrightarrow> sc_de cod (sc_ser cod rs) = Some rs"
    and "lru_wf (ps_cache st)" and "cache_ok cod L (next_offset (ct_index st)) (lru_view hash (ps_cache st))"
    and "hot_at (ct_index st) tp off = None" and "cold_covers (ct_index st) tp off"
    and "valid_plan (ct_index st) p" and "plan_fits (fits_local libs ucfg) cod L p"
  shows "let d = engine_deps ser deser wcfg libs ucfg hash cod rsz mx iter res;
             compaction = (\<lambda>st. snd (execute_plan (sd_um d) cod p st))
         in \<exists>k>0. fst (store_read d compaction id t tp off mb st) = Ok (log_run L tp off (off + k))"
proof -
  let ?d = "engine_deps ser deser wcfg libs ucfg hash cod rsz mx iter res"
  have d: "sd_codec ?d = cod" "sd_um ?d = upload_impl libs ucfg (local_ops (ul_crc libs))" by (simp_all add: engine_deps_def)
  have "\<exists>n st'. 0 < n \<and> off + n \<le> next_offset (ct_index st) tp \<and>
      store_read ?d (\<lambda>st. snd (execute_plan (sd_um ?d) (sd_codec ?d) p st)) id t tp off mb st = (Ok (log_run L tp off (off + n)), st')"
    by (rule engine.read_across_compaction [OF assms(1) _ _ assms(2)]) (use assms(3-10) in \<open>simp_all add: d\<close>)
  then show ?thesis by (auto simp: d)
qed

lemma sample_objects:
  "\<exists>fs. cold_holds sample_um sample_codec sample_log sample_cold_index fs"
proof -
  obtain f1 where f1: "object_holds sample_um sample_codec sample_log f1 sample_tp 0 2"
    using sample_upload_holds [of 0 2 Map.empty] by auto
  obtain fs where "object_holds sample_um sample_codec sample_log fs sample_tp 2 5"
    "object_holds sample_um sample_codec sample_log fs sample_tp 0 2"
    using sample_upload_holds [of 2 5 f1] f1 sample_plain_topic by auto
  then show ?thesis by (intro exI sample_cold_holds)
qed

definition sample_plan :: compaction_plan where
  "sample_plan = \<lparr>cp_tp = sample_tp, cp_sources =
     [\<lparr>cs_tp = sample_tp, cs_start_offset = 0, cs_end_offset = 2, cs_object_key = segment_key sample_tp 0 2, cs_size_bytes = 2\<rparr>,
      \<lparr>cs_tp = sample_tp, cs_start_offset = 2, cs_end_offset = 5, cs_object_key = segment_key sample_tp 2 5, cs_size_bytes = 3\<rparr>]\<rparr>"

theorem read_survives_compaction_witness:
  "\<exists>fs. let st = \<lparr>ct_index = sample_cold_index, ct_objs = fs, ct_manifest = [], ps_wal = wal_new 0 [], ps_cache = lru_new 100\<rparr>;
            d = (engine_deps wal_sample_ser wal_sample_de wal_sample_config sample_libs sample_upload_config length sample_codec 100 0 id None
                 :: (local_fs, seg_wal, lru_cache, unit) store_deps)
        in cold_holds sample_um sample_codec sample_log (ct_index st) (ct_objs st) \<and> valid_plan (ct_index st) sample_plan \<and>
           (\<exists>k>0. fst (store_read d (\<lambda>st. snd (execute_plan (sd_um d) sample_codec sample_plan st)) id 0 sample_tp 3 50 st) =
              Ok (log_run sample_log sample_tp 3 (3 + k)))"
proof -
  obtain fs where ch: "cold_holds sample_um sample_codec sample_log sample_cold_index fs" using sample_objects by blast
  let ?st = "\<lparr>ct_index = sample_cold_index, ct_objs = fs, ct_manifest = [], ps_wal = wal_new 0 [], ps_cache = lru_new 100\<rparr>"
  let ?good = "\<lambda>r. \<exists>off<256. r = sample_log sample_tp off"
  have wf: "index_wf (ct_index ?st)" by (simp add: sample_cold_index_def cold_ops_wf)
  have lg: "log_good ?good sample_log (next_offset (ct_index ?st))"
    using sample_log_wf by (auto simp: log_good_def sample_cold_index_def index_views split: if_splits intro!: exI)
  have codec: "sc_de sample_codec (sc_ser sample_codec rs) = Some rs" if "\<forall>r \<in> set rs. ?good r" for rs
    using that by (induction rs) (auto simp: sample_codec_def sample_log_def sample_record_def unat_of_nat)
  have vp: "valid_plan (ct_index ?st) sample_plan"
    by (simp add: valid_plan_def sample_plan_def sample_cold_index_def index_views seg_range_def)
  have fit: "plan_fits (fits_local sample_libs sample_upload_config) sample_codec sample_log sample_plan"
    using sample_fits [of 5 0] sample_codec_ok [of 5 0]
    by (simp add: plan_fits_def merged_segment_def merged_run_def plan_start_def plan_end_def sample_wal_segment_def Let_def sample_plan_def)
  have cov: "cold_covers (ct_index ?st) sample_tp 3"
    by (auto simp: cold_covers_def sample_cold_index_def index_views intro!: exI [of _ 2])
  have "cache_ok sample_codec sample_log (next_offset (ct_index ?st)) (lru_view length (ps_cache ?st))" by (simp add: cache_ok_def)
  from read_survives_compaction [OF wf lg _ codec _ this _ cov vp fit, of wal_sample_ser wal_sample_de wal_sample_config 100 0 id None 0 50]
  show ?thesis using ch vp by (intro exI [of _ fs]) (simp add: Let_def sample_cold_index_def index_views)
qed

end
