(* ===== verification/Record_Log.thy ===== *)
theory Record_Log
  imports Tiered_System
begin

text \<open>
  The append side of the storage engine as the replication code sees it: the trait \<open>RecordLog\<close>
  (\<open>storage/traits.rs\<close>), its contract, and its implementation by the partition store.
\<close>

record 'l record_log_ops =
  rl_append :: "wal_record \<Rightarrow> 'l \<Rightarrow> unit result \<times> 'l"
  rl_sync :: "'l \<Rightarrow> unit result \<times> 'l"
  rl_next_offset :: "topic_partition \<Rightarrow> 'l \<Rightarrow> offset"

text \<open>
  The contract: a log holds, per partition, a list of records; a good record appended at its end is
  added, and \<open>next_offset\<close> is the length.
\<close>

locale record_log =
  fixes rl :: "'l record_log_ops" and is_log :: "'l \<Rightarrow> (topic_partition \<Rightarrow> wal_record list) \<Rightarrow> bool" and good :: "wal_record \<Rightarrow> bool"
  assumes append_next: "is_log l H \<Longrightarrow> good r \<Longrightarrow> wr_offset r = length (H (wr_tp r)) \<Longrightarrow>
      \<exists>l'. rl_append rl r l = (Ok (), l') \<and> is_log l' (H(wr_tp r := H (wr_tp r) @ [r]))"
    and sync_same: "is_log l H \<Longrightarrow> \<exists>l'. rl_sync rl l = (Ok (), l') \<and> is_log l' H"
    and next_length: "is_log l H \<Longrightarrow> rl_next_offset rl tp l = length (H tp)"

text \<open>
  A log that can be read: from an offset below the end a read returns the next records, at least one, and from the end on
  nothing; what a read leaves behind (a filled cache) is the same log.
\<close>

locale readable_log = record_log +
  fixes rd :: "topic_partition \<Rightarrow> offset \<Rightarrow> nat \<Rightarrow> 'a \<Rightarrow> wal_record list result \<times> 'a"
  assumes read_below: "is_log l H \<Longrightarrow> off < length (H tp) \<Longrightarrow> \<exists>k>0. \<exists>l'. rd tp off mb l = (Ok (take k (drop off (H tp))), l') \<and> is_log l' H"
    and read_end: "is_log l H \<Longrightarrow> length (H tp) \<le> off \<Longrightarrow> \<exists>l'. rd tp off mb l = (Ok [], l') \<and> is_log l' H"

text \<open>\<open>impl RecordLog for PartitionStore\<close>.\<close>

definition store_record_log :: "('u, 'w, 'c, 'o) store_deps \<Rightarrow> ('u, 'w, 'c) partition_store record_log_ops" where
  "store_record_log d =
     \<lparr>rl_append = (\<lambda>r st. case store_append d r st of (Inl e, wake, st') \<Rightarrow> (Err e, st') | (Inr loc, wake, st') \<Rightarrow> (Ok (), st')),
      rl_sync = store_sync d, rl_next_offset = (\<lambda>tp st. store_next_offset st tp)\<rparr>"

definition engine_is_log ::
  "('u, 'w, 'c, 'o) store_deps \<Rightarrow> ('w \<Rightarrow> segments \<Rightarrow> nat \<Rightarrow> nat \<Rightarrow> bool) \<Rightarrow> (wal_record \<Rightarrow> bool) \<Rightarrow> ('c \<Rightarrow> string \<rightharpoonup> bytes) \<Rightarrow> ('c \<Rightarrow> bool) \<Rightarrow>
   (wal_record \<Rightarrow> bool) \<Rightarrow> ('u, 'w, 'c) partition_store \<Rightarrow> (topic_partition \<Rightarrow> wal_record list) \<Rightarrow> bool" where
  "engine_is_log d holds storable view cinv good st H \<longleftrightarrow> deps_ok d storable good \<and>
     (\<exists>n tier dur. system_inv d holds view cinv good n \<lparr>sy_store = st, sy_tier = tier, sy_hist = H, sy_durable = dur\<rparr>)"

interpretation engine_log: record_log
  "store_record_log (engine_deps ser deser wcfg libs ucfg hash cod record_size max_bytes iter reservation)"
  "engine_is_log (engine_deps ser deser wcfg libs ucfg hash cod record_size max_bytes iter reservation) (wal_holds ser deser)
     (codec_ok ser deser) (lru_view hash) lru_wf good" good
  for ser deser wcfg libs ucfg hash cod record_size max_bytes iter reservation good
proof unfold_locales
  fix st H r tp
  let ?d = "engine_deps ser deser wcfg libs ucfg hash cod record_size max_bytes iter reservation"
  assume "engine_is_log ?d (wal_holds ser deser) (codec_ok ser deser) (lru_view hash) lru_wf good st H"
  then obtain n tier dur where ok: "deps_ok ?d (codec_ok ser deser) good"
    and inv: "system_inv ?d (wal_holds ser deser) (lru_view hash) lru_wf good n \<lparr>sy_store = st, sy_tier = tier, sy_hist = H, sy_durable = dur\<rparr>"
    by (auto simp: engine_is_log_def)
  show "rl_next_offset (store_record_log ?d) tp st = length (H tp)"
    using engine.observe(1) [OF inv ok, of tp] by (simp add: store_record_log_def)
  obtain st' where "store_sync ?d st = (Ok (), st')" and
    "system_inv ?d (wal_holds ser deser) (lru_view hash) lru_wf good n \<lparr>sy_store = st', sy_tier = tier, sy_hist = H, sy_durable = (\<lambda>tp. length (H tp))\<rparr>"
    using engine.system_sync_inv [OF inv] by auto
  then show "\<exists>l'. rl_sync (store_record_log ?d) st = (Ok (), l') \<and>
      engine_is_log ?d (wal_holds ser deser) (codec_ok ser deser) (lru_view hash) lru_wf good l' H"
    using ok by (auto simp: store_record_log_def engine_is_log_def)
  show "\<exists>l'. rl_append (store_record_log ?d) r st = (Ok (), l') \<and>
      engine_is_log ?d (wal_holds ser deser) (codec_ok ser deser) (lru_view hash) lru_wf good l' (H(wr_tp r := H (wr_tp r) @ [r]))"
    if g: "good r" and off: "wr_offset r = length (H (wr_tp r))"
  proof -
    obtain loc wake st' where ap: "store_append ?d r st = (Ok loc, wake, st')" using engine.system_append_ok [OF inv ok g] by auto
    from engine.system_append_inv [OF inv ok g] off ap have
      "system_inv ?d (wal_holds ser deser) (lru_view hash) lru_wf good n
         \<lparr>sy_store = st', sy_tier = tier, sy_hist = H(wr_tp r := H (wr_tp r) @ [r]), sy_durable = dur\<rparr>" by simp
    with ok ap show ?thesis by (auto simp: store_record_log_def engine_is_log_def)
  qed
qed

interpretation engine_reader: readable_log
  "store_record_log (engine_deps ser deser wcfg libs ucfg hash cod record_size max_bytes iter reservation)"
  "engine_is_log (engine_deps ser deser wcfg libs ucfg hash cod record_size max_bytes iter reservation) (wal_holds ser deser)
     (codec_ok ser deser) (lru_view hash) lru_wf good" good
  "store_read (engine_deps ser deser wcfg libs ucfg hash cod record_size max_bytes iter reservation) id id now"
  for ser deser wcfg libs ucfg hash cod record_size max_bytes iter reservation good now
proof unfold_locales
  fix st H tp off mb
  let ?d = "engine_deps ser deser wcfg libs ucfg hash cod record_size max_bytes iter reservation"
  assume "engine_is_log ?d (wal_holds ser deser) (codec_ok ser deser) (lru_view hash) lru_wf good st H"
  then obtain n tier dur where ok: "deps_ok ?d (codec_ok ser deser) good"
    and inv: "system_inv ?d (wal_holds ser deser) (lru_view hash) lru_wf good n \<lparr>sy_store = st, sy_tier = tier, sy_hist = H, sy_durable = dur\<rparr>"
    by (auto simp: engine_is_log_def)
  obtain res st' where rd: "store_read ?d id id now tp off mb st = (res, st')" by fastforce
  have "engine_is_log ?d (wal_holds ser deser) (codec_ok ser deser) (lru_view hash) lru_wf good st' H"
    using engine.system_read_inv [OF inv ok, of now tp off mb] rd ok by (auto simp: engine_is_log_def)
  then show "off < length (H tp) \<Longrightarrow> \<exists>k>0. \<exists>l'. store_read ?d id id now tp off mb st = (Ok (take k (drop off (H tp))), l') \<and>
      engine_is_log ?d (wal_holds ser deser) (codec_ok ser deser) (lru_view hash) lru_wf good l' H"
    "length (H tp) \<le> off \<Longrightarrow> \<exists>l'. store_read ?d id id now tp off mb st = (Ok [], l') \<and>
      engine_is_log ?d (wal_holds ser deser) (codec_ok ser deser) (lru_view hash) lru_wf good l' H"
    using engine.observe(3,4) [OF inv ok, where off = off and tp = tp and now = now and mb = mb] rd by auto
qed

text \<open>An empty engine is an empty log.\<close>

lemma engine_new_is_log:
  assumes "deps_ok (engine_deps ser deser wcfg libs ucfg hash cod rsz mx iter res) (codec_ok ser deser) good"
  shows "engine_is_log (engine_deps ser deser wcfg libs ucfg hash cod rsz mx iter res) (wal_holds ser deser) (codec_ok ser deser)
    (lru_view hash) lru_wf good (snd (store_new (engine_deps ser deser wcfg libs ucfg hash cod rsz mx iter res) (wal_new now []) fs (lru_new cb) []))
    (\<lambda>tp. [])"
  using assms engine.new_store_inv(2) [OF fresh_holds lru_new_wf lru_new_view] unfolding engine_is_log_def by blast

end
