(* ===== verification/Replication.thy ===== *)
theory Replication
  imports Record_Log
begin

text \<open>
  Replication of a partition (\<open>replication/manager.rs\<close>, \<open>replication/follower.rs\<close>): the leader appends a
  record to its log, sends it to the followers and counts acknowledgments; a follower accepts requests
  of the newest leader epoch it knows. Clock readings are arguments, the outcome of an RPC is a value of
  \<open>send_fate\<close>, and the order in which the outcomes arrive is a list.
\<close>

section \<open>Messages\<close>

record follower_state =
  fs_broker_id :: broker_id
  fs_last_known_offset :: offset
  fs_last_heartbeat :: int
  fs_lag :: nat

datatype durability_level = LocalOnly | Durable

record replication_result =
  rr_offset :: offset
  rr_durability :: durability_level

record replicate_data_request =
  rq_leader_epoch :: nat
  rq_topic_partition :: topic_partition
  rq_records :: "wal_record list"
  rq_leader_id :: broker_id

record replicate_data_response =
  rp_success :: bool
  rp_error_code :: nat
  rp_error_message :: "string option"
  rp_follower_state :: "follower_state option"

record heartbeat_request =
  hb_leader_epoch :: nat
  hb_leader_id :: broker_id
  hb_topic_partition :: topic_partition
  hb_high_watermark :: offset

section \<open>The follower\<close>

record 'l follower_handler =
  fh_leader_epoch :: nat
  fh_current_leader :: "broker_id option"
  fh_topic_partition :: topic_partition
  fh_log :: 'l
  fh_broker_id :: broker_id

definition follower_new :: "topic_partition \<Rightarrow> nat \<Rightarrow> broker_id option \<Rightarrow> 'l \<Rightarrow> broker_id \<Rightarrow> 'l follower_handler" where
  "follower_new tp epoch leader l b =
     \<lparr>fh_leader_epoch = epoch, fh_current_leader = leader, fh_topic_partition = tp, fh_log = l, fh_broker_id = b\<rparr>"

definition learn_epoch :: "nat \<Rightarrow> broker_id \<Rightarrow> 'l follower_handler \<Rightarrow> 'l follower_handler" where
  "learn_epoch epoch leader h =
     (if epoch > fh_leader_epoch h then h\<lparr>fh_leader_epoch := epoch, fh_current_leader := Some leader\<rparr> else h)"

fun append_all :: "'l record_log_ops \<Rightarrow> wal_record list \<Rightarrow> 'l \<Rightarrow> unit result \<times> 'l" where
  "append_all rl [] l = (Ok (), l)"
| "append_all rl (r # rs) l =
     (case rl_append rl r l of
        (Inl e, l') \<Rightarrow> (Err e, l')
      | (Inr _, l') \<Rightarrow> append_all rl rs l')"

definition reject :: "nat \<Rightarrow> string \<Rightarrow> replicate_data_response" where
  "reject code msg = \<lparr>rp_success = False, rp_error_code = code, rp_error_message = Some msg, rp_follower_state = None\<rparr>"

definition handle_replicate_data ::
  "'l record_log_ops \<Rightarrow> int \<Rightarrow> replicate_data_request \<Rightarrow> 'l follower_handler \<Rightarrow> replicate_data_response \<times> 'l follower_handler" where
  "handle_replicate_data rl now request h =
     (if rq_leader_epoch request < fh_leader_epoch h
      then (reject 1001 (''Stale leader epoch: request epoch '' @ show_nat (rq_leader_epoch request) @
                         '' < current epoch '' @ show_nat (fh_leader_epoch h)), h)
      else
        (let h1 = learn_epoch (rq_leader_epoch request) (rq_leader_id request) h in
         if rq_topic_partition request \<noteq> fh_topic_partition h1 then (reject 1002 ''Wrong partition'', h1)
         else (case append_all rl (rq_records request) (fh_log h1) of
                 (Inl e, l) \<Rightarrow> (reject 1003 ''WAL append failed'', h1\<lparr>fh_log := l\<rparr>)
               | (Inr _, l) \<Rightarrow>
                   (\<lparr>rp_success = True, rp_error_code = 0, rp_error_message = None,
                     rp_follower_state = Some \<lparr>fs_broker_id = fh_broker_id h1,
                       fs_last_known_offset = rl_next_offset rl (fh_topic_partition h1) l, fs_last_heartbeat = now, fs_lag = 0\<rparr>\<rparr>,
                    h1\<lparr>fh_log := l\<rparr>))))"

definition handle_heartbeat ::
  "'l record_log_ops \<Rightarrow> int \<Rightarrow> heartbeat_request \<Rightarrow> 'l follower_handler \<Rightarrow> follower_state result \<times> 'l follower_handler" where
  "handle_heartbeat rl now request h =
     (if hb_leader_epoch request < fh_leader_epoch h
      then (Err (StaleLeaderEpoch (hb_leader_epoch request) (fh_leader_epoch h)), h)
      else
        (let h1 = learn_epoch (hb_leader_epoch request) (hb_leader_id request) h in
         if hb_topic_partition request \<noteq> fh_topic_partition h1 then (Err (InvalidOperation ''Wrong partition''), h1)
         else
           (let current_offset = rl_next_offset rl (fh_topic_partition h1) (fh_log h1) in
            (Ok \<lparr>fs_broker_id = fh_broker_id h1, fs_last_known_offset = current_offset, fs_last_heartbeat = now,
                 fs_lag = hb_high_watermark request - current_offset\<rparr>, h1))))"

definition update_leadership :: "nat \<Rightarrow> broker_id \<Rightarrow> 'l follower_handler \<Rightarrow> 'l follower_handler" where
  "update_leadership new_epoch new_leader h = h\<lparr>fh_leader_epoch := new_epoch, fh_current_leader := Some new_leader\<rparr>"

section \<open>The leader\<close>

record replication_config =
  rc_min_in_sync_replicas :: nat
  rc_ack_timeout_ms :: nat
  rc_max_replication_lag :: nat
  rc_heartbeat_timeout_ms :: nat

record 'l replication_manager =
  rm_topic_partition :: topic_partition
  rm_current_leader :: "broker_id option"
  rm_leader_epoch :: nat
  rm_replica_set :: "broker_id list"
  rm_log_end_offset :: offset
  rm_high_watermark :: offset
  rm_follower_states :: "(broker_id \<times> follower_state) list"
  rm_config :: replication_config
  rm_log :: 'l

definition manager_new ::
  "topic_partition \<Rightarrow> broker_id \<Rightarrow> nat \<Rightarrow> broker_id list \<Rightarrow> replication_config \<Rightarrow> 'l \<Rightarrow> 'l replication_manager" where
  "manager_new tp leader epoch replicas config l =
     \<lparr>rm_topic_partition = tp, rm_current_leader = Some leader, rm_leader_epoch = epoch, rm_replica_set = replicas,
      rm_log_end_offset = 0, rm_high_watermark = 0, rm_follower_states = [], rm_config = config, rm_log = l\<rparr>"

definition append_to_local_wal ::
  "'l record_log_ops \<Rightarrow> wal_record \<Rightarrow> 'l replication_manager \<Rightarrow> offset result \<times> 'l replication_manager" where
  "append_to_local_wal rl record m =
     (case rl_append rl record (rm_log m) of
        (Inl e, l) \<Rightarrow> (Err e, m\<lparr>rm_log := l\<rparr>)
      | (Inr _, l) \<Rightarrow> (Ok (wr_offset record), m\<lparr>rm_log := l, rm_log_end_offset := wr_offset record + 1\<rparr>))"

definition update_follower_state :: "follower_state \<Rightarrow> 'l replication_manager \<Rightarrow> 'l replication_manager" where
  "update_follower_state s m = m\<lparr>rm_follower_states := AList.update (fs_broker_id s) s (rm_follower_states m)\<rparr>"

text \<open>What came of a request: no answer in time, a failed call, an answer.\<close>

datatype send_fate = SendTimeout | SendFailed rustmq_error | Answered replicate_data_response

definition replicate_request :: "wal_record \<Rightarrow> broker_id \<Rightarrow> 'l replication_manager \<Rightarrow> replicate_data_request" where
  "replicate_request record leader_id m =
     \<lparr>rq_leader_epoch = rm_leader_epoch m, rq_topic_partition = rm_topic_partition m, rq_records = [record], rq_leader_id = leader_id\<rparr>"

definition send_to_follower ::
  "broker_id \<Rightarrow> send_fate \<Rightarrow> 'l replication_manager \<Rightarrow> unit result \<times> 'l replication_manager" where
  "send_to_follower b fate m =
     (case rm_current_leader m of
        None \<Rightarrow> (Err NoLeader, m)
      | Some leader_id \<Rightarrow>
          (case fate of
             SendTimeout \<Rightarrow> (Err (Timeout ''Replication timeout''), m)
           | SendFailed e \<Rightarrow> (Err e, m)
           | Answered response \<Rightarrow>
               if \<not> rp_success response
               then (Err (ReplicationFailed b (case rp_error_message response of Some msg \<Rightarrow> msg | None \<Rightarrow> ''Unknown error'')), m)
               else (Ok (), case rp_follower_state response of Some s \<Rightarrow> update_follower_state s m | None \<Rightarrow> m)))"

definition is_follower_in_sync :: "int \<Rightarrow> 'l replication_manager \<Rightarrow> follower_state \<Rightarrow> bool" where
  "is_follower_in_sync now m s =
     (let lag = rm_log_end_offset m - fs_last_known_offset s;
          heartbeat_fresh = (now \<ge> fs_last_heartbeat s \<and> now - fs_last_heartbeat s < int (rc_heartbeat_timeout_ms (rm_config m)))
      in lag \<le> rc_max_replication_lag (rm_config m) \<and> heartbeat_fresh)"

definition get_in_sync_replicas :: "int \<Rightarrow> 'l replication_manager \<Rightarrow> broker_id list" where
  "get_in_sync_replicas now m = map fs_broker_id (filter (is_follower_in_sync now m) (map snd (rm_follower_states m)))"

text \<open>A \<open>BinaryHeap\<close> as the sorted list of its elements: the largest is the last.\<close>

definition heap_peek :: "nat list \<Rightarrow> nat option" where
  "heap_peek heap = (if heap = [] then None else Some (last heap))"

fun heap_scan :: "nat list \<Rightarrow> nat list \<Rightarrow> nat list" where
  "heap_scan [] heap = heap"
| "heap_scan (off # offs) heap =
     heap_scan offs
       (case heap_peek heap of
          Some heap_max \<Rightarrow> if off < heap_max then insort off (butlast heap) else heap
        | None \<Rightarrow> heap)"

fun two_smallest :: "nat list \<Rightarrow> nat \<Rightarrow> nat \<Rightarrow> nat" where
  "two_smallest [] mn second = second"
| "two_smallest (off # offs) mn second =
     (if off < mn then two_smallest offs off mn
      else if off < second then two_smallest offs mn off
      else two_smallest offs mn second)"

definition find_kth_smallest :: "nat list \<Rightarrow> nat \<Rightarrow> nat" where
  "find_kth_smallest offsets k =
     (if k = 0 \<or> k > length offsets then 0
      else if k = 1 then fold min offsets (hd offsets)
      else if k = 2 then two_smallest offsets u64_max u64_max
      else
        (let max_heap = fold insort (take k offsets) [] in
         case heap_peek (heap_scan (drop k offsets) max_heap) of Some x \<Rightarrow> x | None \<Rightarrow> 0))"

definition in_sync_offsets :: "int \<Rightarrow> 'l replication_manager \<Rightarrow> nat list" where
  "in_sync_offsets now m = rm_log_end_offset m #
     map fs_last_known_offset (filter (is_follower_in_sync now m) (map snd (rm_follower_states m)))"

definition recalculate_high_watermark :: "int \<Rightarrow> 'l replication_manager \<Rightarrow> 'l replication_manager" where
  "recalculate_high_watermark now m =
     (let offsets = in_sync_offsets now m;
          need = rc_min_in_sync_replicas (rm_config m)
      in if length offsets \<ge> need
         then (let new_high_watermark = find_kth_smallest offsets (length offsets - need + 1) in
               if new_high_watermark > rm_high_watermark m then m\<lparr>rm_high_watermark := new_high_watermark\<rparr> else m)
         else m)"

definition followers_of :: "'l replication_manager \<Rightarrow> broker_id list" where
  "followers_of m = filter (\<lambda>b. Some b \<noteq> rm_current_leader m) (rm_replica_set m)"

text \<open>The loop over the completions, with its early exit.\<close>

fun ack_loop ::
  "nat \<Rightarrow> (broker_id \<times> send_fate) list \<Rightarrow> nat \<Rightarrow> 'l replication_manager \<Rightarrow> nat \<times> 'l replication_manager" where
  "ack_loop required [] acks m = (acks, m)"
| "ack_loop required ((b, fate) # rest) acks m =
     (case send_to_follower b fate m of
        (Inr _, m') \<Rightarrow> if acks + 1 \<ge> required then (acks + 1, m') else ack_loop required rest (acks + 1) m'
      | (Inl e, m') \<Rightarrow> ack_loop required rest acks m')"

definition wait_for_acknowledgments ::
  "int \<Rightarrow> (broker_id \<times> send_fate) list \<Rightarrow> offset \<Rightarrow> 'l replication_manager \<Rightarrow> replication_result result \<times> 'l replication_manager" where
  "wait_for_acknowledgments now completions local_offset m =
     (if followers_of m = []
      then (Ok \<lparr>rr_offset = local_offset, rr_durability = Durable\<rparr>, m\<lparr>rm_high_watermark := local_offset\<rparr>)
      else
        (let required_acks = rc_min_in_sync_replicas (rm_config m) - 1;
             (successful_acks, m') = ack_loop required_acks completions 0 m
         in if successful_acks \<ge> required_acks
            then (Ok \<lparr>rr_offset = local_offset, rr_durability = Durable\<rparr>, recalculate_high_watermark now m')
            else (Ok \<lparr>rr_offset = local_offset, rr_durability = LocalOnly\<rparr>, m')))"

definition replicate_record ::
  "'l record_log_ops \<Rightarrow> int \<Rightarrow> (broker_id \<times> send_fate) list \<Rightarrow> wal_record \<Rightarrow> 'l replication_manager \<Rightarrow>
   replication_result result \<times> 'l replication_manager" where
  "replicate_record rl now completions record m =
     (case append_to_local_wal rl record m of
        (Inl e, m') \<Rightarrow> (Err e, m')
      | (Inr local_offset, m') \<Rightarrow> wait_for_acknowledgments now completions local_offset m')"

definition add_follower :: "int \<Rightarrow> broker_id \<Rightarrow> 'l replication_manager \<Rightarrow> 'l replication_manager" where
  "add_follower now b m = m\<lparr>rm_follower_states := AList.update b
     \<lparr>fs_broker_id = b, fs_last_known_offset = 0, fs_last_heartbeat = now, fs_lag = 0\<rparr> (rm_follower_states m)\<rparr>"

definition remove_follower :: "broker_id \<Rightarrow> 'l replication_manager \<Rightarrow> 'l replication_manager" where
  "remove_follower b m = m\<lparr>rm_follower_states := AList.delete b (rm_follower_states m)\<rparr>"

definition update_high_watermark :: "offset \<Rightarrow> 'l replication_manager \<Rightarrow> 'l replication_manager" where
  "update_high_watermark off m = m\<lparr>rm_high_watermark := off\<rparr>"

definition update_leader_epoch :: "nat \<Rightarrow> 'l replication_manager \<Rightarrow> 'l replication_manager" where
  "update_leader_epoch epoch m = m\<lparr>rm_leader_epoch := epoch\<rparr>"

definition validate_leader_epoch :: "nat \<Rightarrow> 'l replication_manager \<Rightarrow> unit result" where
  "validate_leader_epoch request_epoch m =
     (if request_epoch < rm_leader_epoch m then Err (StaleLeaderEpoch request_epoch (rm_leader_epoch m)) else Ok ())"

definition get_follower_lag :: "broker_id \<Rightarrow> 'l replication_manager \<Rightarrow> nat option" where
  "get_follower_lag b m = map_option (\<lambda>s. rm_log_end_offset m - fs_last_known_offset s) (map_of (rm_follower_states m) b)"

definition is_replication_healthy :: "int \<Rightarrow> 'l replication_manager \<Rightarrow> bool" where
  "is_replication_healthy now m \<longleftrightarrow> length (get_in_sync_replicas now m) \<ge> rc_min_in_sync_replicas (rm_config m)"

text \<open>One round of the heartbeat monitor: the states of the followers that answered with success.\<close>

definition heartbeat_answers :: "(broker_id \<times> follower_state option) list \<Rightarrow> 'l replication_manager \<Rightarrow> 'l replication_manager" where
  "heartbeat_answers answers m =
     fold (\<lambda>(b, answer) m. case answer of
             None \<Rightarrow> m
           | Some s \<Rightarrow> m\<lparr>rm_follower_states := AList.update b s (rm_follower_states m)\<rparr>) answers m"

section \<open>The k-th smallest offset\<close>

lemma take_insort:
  "sorted xs \<Longrightarrow> 0 < k \<Longrightarrow> k \<le> length xs \<Longrightarrow>
   take k (insort x xs) = (if (x :: nat) < xs ! (k - 1) then insort x (take (k - 1) xs) else take k xs)"
proof (induction xs arbitrary: k)
  case (Cons y ys)
  show ?case
  proof (cases "k = 1")
    case True
    then show ?thesis by auto
  next
    case False
    then obtain j where k: "k = Suc (Suc j)" using Cons.prems by (metis One_nat_def Suc_pred neq0_conv)
    show ?thesis
    proof (cases "x \<le> y")
      case True
      have "y \<le> ys ! j" using Cons.prems k by simp
      then have eq: "x = y \<and> x = ys ! j" if "\<not> x < ys ! j" using True that by simp
      show ?thesis
      proof (cases "x < ys ! j")
        case True
        then show ?thesis using k \<open>x \<le> y\<close> by simp
      next
        case False
        with eq have "x = y" "ys ! j = y" by auto
        moreover have "take (Suc j) (y # ys) = take (Suc j) ys"
        proof -
          have "ys ! i = y" if "i \<le> j" for i
          proof (rule order_antisym)
            have "i < length ys" "j < length ys" "sorted ys" using Cons.prems k that by auto
            then show "ys ! i \<le> y" "y \<le> ys ! i"
              using sorted_nth_mono [of ys i j] that \<open>ys ! j = y\<close> nth_mem [of i ys] Cons.prems(1) by auto
          qed
          then show ?thesis using Cons.prems(3) k by (intro nth_equalityI) (auto simp: nth_Cons split: nat.splits)
        qed
        ultimately show ?thesis using k by simp
      qed
    next
      case False
      then show ?thesis using Cons.IH [of "Suc j"] Cons.prems k by auto
    qed
  qed
qed simp

lemma sort_snoc: "sort (xs @ [x]) = insort x (sort (xs :: nat list))"
  by (metis properties_for_sort sorted_sort sorted_insort mset_append mset_insort mset_sort mset.simps union_commute add_mset_add_single)

lemma fold_insort: "fold insort xs (sort ys) = sort (ys @ xs :: nat list)"
proof (induction xs arbitrary: ys)
  case (Cons x xs)
  show ?case using Cons.IH [of "ys @ [x]"] by (simp add: sort_snoc)
qed simp

lemma heap_scan_smallest:
  assumes "0 < k" and "k \<le> length seen"
  shows "heap_scan xs (take k (sort seen)) = take k (sort (seen @ xs))"
  using assms
proof (induction xs arbitrary: seen)
  case (Cons x xs)
  let ?S = "sort seen"
  have len: "k \<le> length ?S" using Cons.prems by simp
  have ne: "take k ?S \<noteq> []" using len Cons.prems(1) by (cases ?S) auto
  have last: "last (take k ?S) = ?S ! (k - 1)" using ne Cons.prems by (simp add: last_conv_nth min_absorb2)
  have "butlast (take k ?S) = take (k - 1) ?S" using len by (simp add: butlast_take)
  then have "(case heap_peek (take k ?S) of Some heap_max \<Rightarrow> if x < heap_max then insort x (butlast (take k ?S)) else take k ?S
      | None \<Rightarrow> take k ?S) = take k (insort x ?S)"
    using take_insort [of ?S k x] Cons.prems len ne last by (simp add: heap_peek_def)
  also have "\<dots> = take k (sort (seen @ [x]))" by (simp add: sort_snoc)
  finally show ?case using Cons.IH [of "seen @ [x]"] Cons.prems by simp
qed simp

lemma two_smallest_spec:
  assumes "\<forall>x \<in> set (seen @ xs). x \<le> u" and "sort (seen @ [u, u]) = a # b # rest"
  shows "two_smallest xs a b = sort (seen @ xs @ [u, u]) ! 1"
  using assms
proof (induction xs arbitrary: seen a b rest)
  case (Cons x xs)
  have "mset (seen @ [x] @ [u, u]) = mset ((seen @ [u, u]) @ [x])" by simp
  then have "sort (seen @ [x] @ [u, u]) = sort ((seen @ [u, u]) @ [x])" by (metis properties_for_sort sorted_sort mset_sort)
  also have "\<dots> = insort x (a # b # rest)" by (simp only: sort_snoc Cons.prems(2))
  finally have srt: "sort (seen @ [x] @ [u, u]) = insort x (a # b # rest)" .
  have "a \<le> b" using sorted_sort [of "seen @ [u, u]"] by (simp add: Cons.prems(2))
  then have "\<exists>rest'. insort x (a # b # rest) =
      (if x < a then x # a # rest' else if x < b then a # x # rest' else a # b # rest')" by auto
  then obtain rest' where r: "insort x (a # b # rest) = (if x < a then x # a # rest' else if x < b then a # x # rest' else a # b # rest')" by blast
  note IH = Cons.IH [of "seen @ [x]"]
  show ?case using IH [of x a rest'] IH [of a x rest'] IH [of a b rest'] srt r Cons.prems(1) by auto
qed simp

lemma sort_top: "\<forall>x \<in> set xs. x \<le> (u :: nat) \<Longrightarrow> sort (xs @ [u, u]) = sort xs @ [u, u]"
  by (rule properties_for_sort) (auto simp: sorted_append)

lemma sort_Min: "xs \<noteq> [] \<Longrightarrow> sort xs ! 0 = Min (set (xs :: nat list))"
proof -
  assume ne: "xs \<noteq> []"
  then have l: "0 < length (sort xs)" by simp
  have "sort xs ! 0 \<le> y" if y: "y \<in> set xs" for y
  proof -
    obtain i where "i < length (sort xs)" "sort xs ! i = y" using y by (metis in_set_conv_nth set_sort)
    then show ?thesis using sorted_nth_mono [OF sorted_sort, of 0 i xs] by simp
  qed
  moreover have "sort xs ! 0 \<in> set xs" using nth_mem [OF l] by simp
  ultimately show ?thesis by (intro Min_eqI [symmetric]) auto
qed

lemma fold_min_hd: "xs \<noteq> [] \<Longrightarrow> fold min xs (hd xs) = sort (xs :: nat list) ! 0"
proof -
  assume ne: "xs \<noteq> []"
  have "fold min xs (hd xs) = Min (set (hd xs # xs))" by (rule Min.set_eq_fold [symmetric])
  also have "\<dots> = Min (set xs)" using ne by (simp add: insert_absorb)
  finally show ?thesis using sort_Min [OF ne] by simp
qed

lemma find_kth_sort:
  assumes "\<forall>x \<in> set offsets. x \<le> u64_max"
  shows "find_kth_smallest offsets k = (if 1 \<le> k \<and> k \<le> length offsets then sort offsets ! (k - 1) else 0)"
proof -
  consider "k = 0 \<or> k > length offsets" | "k = 1" "1 \<le> length offsets" | "k = 2" "2 \<le> length offsets" | "2 < k" "k \<le> length offsets"
    by linarith
  then show ?thesis
  proof cases
    case 2
    then have "offsets \<noteq> []" by auto
    with 2 show ?thesis using fold_min_hd by (simp add: find_kth_smallest_def Suc_le_eq)
  next
    case 3
    have "two_smallest offsets u64_max u64_max = sort (offsets @ [u64_max, u64_max]) ! 1"
      using two_smallest_spec [of "[]" offsets u64_max u64_max u64_max "[]"] assms by simp
    also have "\<dots> = sort offsets ! 1" using sort_top [OF assms] 3 by (simp add: nth_append)
    finally show ?thesis using 3 by (simp add: find_kth_smallest_def)
  next
    case 4
    have "heap_scan (drop k offsets) (fold insort (take k offsets) []) = take k (sort offsets)"
      using heap_scan_smallest [of k "take k offsets" "drop k offsets"] fold_insort [of "take k offsets" "[]"] 4 by simp
    moreover have "take k (sort offsets) \<noteq> []" using 4 by (cases "sort offsets") (auto simp flip: length_0_conv)
    ultimately show ?thesis using 4 by (simp add: find_kth_smallest_def heap_peek_def last_conv_nth min_absorb2)
  qed (auto simp: find_kth_smallest_def)
qed

text \<open>
  C33. The watermark selection is correct. For every list of offsets below \<open>2 ^ 64\<close> and every \<open>k\<close> between 1 and
  its length, the hybrid selection (linear scans for 1 and 2, a bounded heap otherwise) returns the \<open>k\<close>-th
  element of the sorted list; outside that range it returns 0.
\<close>

theorem find_kth_smallest_correct:
  assumes "\<forall>x \<in> set offsets. x \<le> u64_max"
  shows "find_kth_smallest offsets k = (if 1 \<le> k \<and> k \<le> length offsets then sort offsets ! (k - 1) else 0)"
  by (rule find_kth_sort [OF assms])

theorem find_kth_smallest_correct_witness:
  "find_kth_smallest [30, 10, 20, 10] 3 = 20 \<and> find_kth_smallest [30, 10, 20, 10] 2 = 10"
  using find_kth_smallest_correct [of "[30, 10, 20, 10]" 3] find_kth_smallest_correct [of "[30, 10, 20, 10]" 2] by simp

section \<open>The high watermark\<close>

lemma count_sorted:
  fixes x :: nat
  assumes "sorted xs" and "i < length xs"
  shows "length xs - i \<le> length (filter (\<lambda>y. xs ! i \<le> y) xs)"
    and "xs ! i < x \<Longrightarrow> length (filter (\<lambda>y. x \<le> y) xs) \<le> length xs - Suc i"
proof -
  have split: "length (filter P xs) = length (filter P (take j xs)) + length (filter P (drop j xs))" for P j
    by (metis append_take_drop_id filter_append length_append)
  have "filter (\<lambda>y. xs ! i \<le> y) (drop i xs) = drop i xs"
    using assms by (auto simp: filter_id_conv in_set_conv_nth intro!: sorted_nth_mono)
  then show "length xs - i \<le> length (filter (\<lambda>y. xs ! i \<le> y) xs)" using split [of _ i] by simp
  assume x: "xs ! i < x"
  have "y < x" if y: "y \<in> set (take (Suc i) xs)" for y
  proof -
    obtain j where "j < length (take (Suc i) xs)" "take (Suc i) xs ! j = y" using y unfolding in_set_conv_nth by blast
    then show ?thesis using sorted_nth_mono [OF assms(1), of j i] assms(2) x by simp
  qed
  then have "filter (\<lambda>y. x \<le> y) (take (Suc i) xs) = []" by (auto simp: filter_empty_conv not_le)
  then show "length (filter (\<lambda>y. x \<le> y) xs) \<le> length xs - Suc i"
    using split [of _ "Suc i"] length_filter_le [of _ "drop (Suc i) xs"] by simp
qed

lemma length_filter_sort: "length (filter P (sort xs)) = length (filter P (xs :: nat list))"
  by (metis filter_sort length_sort)

text \<open>
  C12. The high watermark is the quorum offset. After a recalculation it is not smaller than before; if it
  moved, at least \<open>min_in_sync_replicas\<close> of the replicas that count as in sync (the leader among them) have
  reported an offset that high; and no higher offset has that many. Nothing else of the manager changes.
\<close>

theorem high_watermark_quorum:
  fixes m :: "'l replication_manager"
  assumes "1 \<le> rc_min_in_sync_replicas (rm_config m)" and "\<forall>x \<in> set (in_sync_offsets now m). x \<le> u64_max"
  shows "let m' = recalculate_high_watermark now m; h = rm_high_watermark m'; need = rc_min_in_sync_replicas (rm_config m);
             count = (\<lambda>x. length (filter (\<lambda>y. x \<le> y) (in_sync_offsets now m)))
         in rm_high_watermark m \<le> h \<and> (h \<noteq> rm_high_watermark m \<longrightarrow> need \<le> count h) \<and> (\<forall>x > h. count x < need) \<and>
            m' = m\<lparr>rm_high_watermark := h\<rparr>"
proof -
  let ?offs = "in_sync_offsets now m" and ?need = "rc_min_in_sync_replicas (rm_config m)" and ?h = "rm_high_watermark (recalculate_high_watermark now m)"
  show ?thesis
  proof (cases "?need \<le> length ?offs")
    case True
    let ?i = "length ?offs - ?need" and ?new = "find_kth_smallest ?offs (length ?offs - ?need + 1)"
    have i: "?i < length (sort ?offs)" using assms(1) True by simp
    have "?i + 1 \<le> length ?offs" using i by simp
    then have new: "?new = sort ?offs ! ?i" using find_kth_sort [OF assms(2), of "?i + 1"] by simp
    have some: "?need \<le> length (filter (\<lambda>y. ?new \<le> y) ?offs)"
      unfolding new using count_sorted(1) [OF sorted_sort i] True by (simp add: length_filter_sort)
    have none: "length (filter (\<lambda>y. x \<le> y) ?offs) < ?need" if "?new < x" for x
      using count_sorted(2) [OF sorted_sort i, of x] that [unfolded new] True assms(1) by (simp add: length_filter_sort)
    have h: "recalculate_high_watermark now m = m\<lparr>rm_high_watermark := max (rm_high_watermark m) ?new\<rparr>"
      using True by (simp add: recalculate_high_watermark_def Let_def max_def)
    show ?thesis using some none by (simp add: h Let_def max_def)
  next
    case False
    have "length (filter P ?offs) < ?need" for P using False length_filter_le [of P ?offs] by linarith
    with False show ?thesis by (simp add: recalculate_high_watermark_def Let_def)
  qed
qed

definition sample_manager :: "unit replication_manager" where
  "sample_manager =
     (manager_new (TopicPartition ''t'' 0) ''a'' 1 [''a'', ''b'', ''c'']
       \<lparr>rc_min_in_sync_replicas = 2, rc_ack_timeout_ms = 5, rc_max_replication_lag = 100, rc_heartbeat_timeout_ms = 10\<rparr> ())
     \<lparr>rm_log_end_offset := 9, rm_follower_states :=
        [(''b'', \<lparr>fs_broker_id = ''b'', fs_last_known_offset = 7, fs_last_heartbeat = 50, fs_lag = 0\<rparr>),
         (''c'', \<lparr>fs_broker_id = ''c'', fs_last_known_offset = 4, fs_last_heartbeat = 50, fs_lag = 0\<rparr>)]\<rparr>"

theorem high_watermark_quorum_witness:
  "in_sync_offsets 55 sample_manager = [9, 7, 4] \<and> rm_high_watermark (recalculate_high_watermark 55 sample_manager) = 7"
proof -
  have offs: "in_sync_offsets 55 sample_manager = [9, 7, 4]"
    by (simp add: in_sync_offsets_def sample_manager_def manager_new_def is_follower_in_sync_def)
  have cfg: "rc_min_in_sync_replicas (rm_config sample_manager) = 2" "rm_high_watermark sample_manager = 0"
    by (simp_all add: sample_manager_def manager_new_def)
  let ?h = "rm_high_watermark (recalculate_high_watermark 55 sample_manager)"
  from high_watermark_quorum [of sample_manager 55] have
    "?h \<noteq> 0 \<longrightarrow> 2 \<le> length (filter (\<lambda>y. ?h \<le> y) [9, 7, 4])" "\<forall>x > ?h. length (filter (\<lambda>y. x \<le> y) [9, 7, 4]) < 2"
    by (simp_all add: offs cfg Let_def)
  moreover from spec [OF this(2), of 7] have "7 \<le> ?h" by (cases "?h < 7") simp_all
  ultimately have "?h = 7" by (cases "?h \<le> 7") (auto split: if_splits)
  with offs show ?thesis by simp
qed

section \<open>Leader and followers together\<close>

text \<open>
  A round of replication: every request is lost, or handled with the answer lost, or answered, in the order in
  which the leader sees the outcomes.
\<close>

datatype delivery = Lost | AnswerLost | Delivered

fun exchange ::
  "'l record_log_ops \<Rightarrow> int \<Rightarrow> replicate_data_request \<Rightarrow> (broker_id \<times> delivery) list \<Rightarrow> (broker_id \<Rightarrow> 'l follower_handler) \<Rightarrow>
   (broker_id \<times> send_fate) list \<times> (broker_id \<Rightarrow> 'l follower_handler)" where
  "exchange rl now rq [] hs = ([], hs)"
| "exchange rl now rq ((b, dl) # rest) hs =
     (let (response, h) = handle_replicate_data rl now rq (hs b);
          hs1 = (if dl = Lost then hs else hs(b := h));
          fate = (if dl = Delivered then Answered response else SendTimeout);
          (fates, hs2) = exchange rl now rq rest hs1
      in ((b, fate) # fates, hs2))"

definition cluster_replicate ::
  "'l record_log_ops \<Rightarrow> int \<Rightarrow> (broker_id \<times> delivery) list \<Rightarrow> wal_record \<Rightarrow> 'l replication_manager \<Rightarrow> (broker_id \<Rightarrow> 'l follower_handler) \<Rightarrow>
   replication_result result \<times> 'l replication_manager \<times> (broker_id \<Rightarrow> 'l follower_handler)" where
  "cluster_replicate rl now plan record m hs =
     (let rq = replicate_request record (case rm_current_leader m of Some l \<Rightarrow> l | None \<Rightarrow> []) m;
          (fates, hs') = exchange rl now rq plan hs;
          (result, m') = replicate_record rl now fates record m
      in (result, m', hs'))"

lemma exchange_spec:
  assumes "exchange rl now rq plan hs = (fates, hs')" and "distinct (map fst plan)"
  shows "map fst fates = map fst plan" and "b \<notin> fst ` set plan \<Longrightarrow> hs' b = hs b"
    and "(b, Answered rp) \<in> set fates \<Longrightarrow> handle_replicate_data rl now rq (hs b) = (rp, hs' b)"
proof -
  have "map fst fates = map fst plan \<and> (\<forall>b. b \<notin> fst ` set plan \<longrightarrow> hs' b = hs b) \<and>
      (\<forall>b rp. (b, Answered rp) \<in> set fates \<longrightarrow> handle_replicate_data rl now rq (hs b) = (rp, hs' b))"
    using assms
  proof (induction plan arbitrary: hs fates hs')
    case (Cons p plan)
    obtain b dl where p: "p = (b, dl)" by (cases p)
    obtain rp h where hd: "handle_replicate_data rl now rq (hs b) = (rp, h)" by fastforce
    let ?hs1 = "if dl = Lost then hs else hs(b := h)"
    obtain fs hs2 where ex: "exchange rl now rq plan ?hs1 = (fs, hs2)" by fastforce
    have r: "fates = (b, if dl = Delivered then Answered rp else SendTimeout) # fs" "hs' = hs2"
      using Cons.prems(1) by (simp_all add: p hd ex Let_def del: if_weak_cong)
    have IH: "map fst fs = map fst plan" "\<forall>b. b \<notin> fst ` set plan \<longrightarrow> hs2 b = ?hs1 b"
      "\<forall>b rp. (b, Answered rp) \<in> set fs \<longrightarrow> handle_replicate_data rl now rq (?hs1 b) = (rp, hs2 b)"
      using Cons.IH [OF ex] Cons.prems(2) by auto
    have b: "b \<notin> fst ` set plan" using Cons.prems(2) p by auto
    have old: "?hs1 b' = hs b'" if "b' \<noteq> b" for b' using that by simp
    have "handle_replicate_data rl now rq (hs b') = (rp', hs' b')" if "(b', Answered rp') \<in> set fates" for b' rp'
    proof (cases "b' = b")
      case True
      have "b \<notin> fst ` set fs" using IH(1) b by (metis list.set_map)
      then have "dl = Delivered \<and> rp' = rp" using that True r(1) by (force split: if_splits)
      then show ?thesis using True hd IH(2) b r(2) by simp
    next
      case False
      then have "(b', Answered rp') \<in> set fs" using that r(1) by auto
      then show ?thesis using IH(3) old [OF False] r(2) by metis
    qed
    moreover have "hs' b' = hs b'" if "b' \<notin> fst ` set (p # plan)" for b' using that IH(2) r(2) p by auto
    ultimately show ?case using r(1) IH(1) p by simp
  qed auto
  then show "map fst fates = map fst plan" and "b \<notin> fst ` set plan \<Longrightarrow> hs' b = hs b"
    and "(b, Answered rp) \<in> set fates \<Longrightarrow> handle_replicate_data rl now rq (hs b) = (rp, hs' b)" by blast+
qed

definition acked :: "broker_id \<times> send_fate \<Rightarrow> bool" where
  "acked x = (case snd x of Answered rp \<Rightarrow> rp_success rp | _ \<Rightarrow> False)"

lemma send_ok: "send_to_follower b fate m = (Inr u, m') \<Longrightarrow> acked (b, fate)"
  by (auto simp: send_to_follower_def acked_def split: option.splits send_fate.splits if_splits)

lemma ack_loop_count: "fst (ack_loop required fates acks m) \<le> acks + length (filter acked fates)"
proof (induction fates arbitrary: acks m)
  case (Cons x rest)
  obtain b fate where x: "x = (b, fate)" by (cases x)
  obtain res m' where s: "send_to_follower b fate m = (res, m')" by fastforce
  show ?case
  proof (cases res)
    case (Inl e)
    have "fst (ack_loop required rest acks m') \<le> acks + length (filter acked rest)" by (rule Cons.IH)
    with Inl s x show ?thesis by simp
  next
    case (Inr u)
    have "fst (ack_loop required rest (acks + 1) m') \<le> acks + 1 + length (filter acked rest)" by (rule Cons.IH)
    with Inr s x send_ok [of b fate m u m'] show ?thesis by simp
  qed
qed simp

definition log_has :: "('l \<Rightarrow> (topic_partition \<Rightarrow> wal_record list) \<Rightarrow> bool) \<Rightarrow> 'l \<Rightarrow> wal_record \<Rightarrow> bool" where
  "log_has is_log l r \<longleftrightarrow> (\<exists>H. is_log l H \<and> wr_offset r < length (H (wr_tp r)) \<and> H (wr_tp r) ! wr_offset r = r)"

context record_log
begin

lemma accepted_record:
  assumes h: "handle_replicate_data rl now rq h = (rp, h')" and "rp_success rp" and "rq_records rq = [r]"
    and "is_log (fh_log h) H" and "good r" and "wr_offset r = length (H (wr_tp r))"
  shows "fh_leader_epoch h \<le> rq_leader_epoch rq \<and> log_has is_log (fh_log h') r"
proof -
  obtain l' where l': "rl_append rl r (fh_log h) = (Ok (), l')" "is_log l' (H(wr_tp r := H (wr_tp r) @ [r]))"
    using append_next [OF assms(4-6)] by blast
  have log: "fh_log (learn_epoch e l h) = fh_log h" for e l by (simp add: learn_epoch_def)
  have "fh_leader_epoch h \<le> rq_leader_epoch rq \<and> fh_log h' = l'"
    using h assms(2,3) l'(1) by (auto simp: handle_replicate_data_def reject_def log Let_def split: if_splits)
  moreover have "log_has is_log l' r" unfolding log_has_def using l'(2) assms(6)
    by (intro exI [of _ "H(wr_tp r := H (wr_tp r) @ [r])"]) simp
  ultimately show ?thesis by simp
qed

lemma durable_replicated:
  assumes "cluster_replicate rl now plan r m hs = (Ok res, m', hs')" and "rr_durability res = Durable"
    and "followers_of m \<noteq> []" and "distinct (map fst plan)" and "set (map fst plan) \<subseteq> set (followers_of m)" and "good r"
    and "\<forall>b \<in> set (followers_of m). \<exists>H. is_log (fh_log (hs b)) H \<and> length (H (wr_tp r)) = wr_offset r"
  shows "rc_min_in_sync_replicas (rm_config m) - 1 \<le>
    card {b \<in> set (followers_of m). fh_leader_epoch (hs b) \<le> rm_leader_epoch m \<and> log_has is_log (fh_log (hs' b)) r}"
proof -
  let ?rq = "replicate_request r (case rm_current_leader m of Some l \<Rightarrow> l | None \<Rightarrow> []) m"
  obtain fates where ex: "exchange rl now ?rq plan hs = (fates, hs')" and rr: "replicate_record rl now fates r m = (Ok res, m')"
    using assms(1) by (auto simp: cluster_replicate_def Let_def split: prod.splits)
  note spec = exchange_spec [OF ex assms(4)]
  let ?req = "rc_min_in_sync_replicas (rm_config m) - 1"
  obtain m1 where m1: "append_to_local_wal rl r m = (Ok (wr_offset r), m1)" "rm_config m1 = rm_config m" "followers_of m1 = followers_of m"
    using rr by (auto simp: replicate_record_def append_to_local_wal_def followers_of_def split: prod.splits sum.splits)
  have "?req \<le> fst (ack_loop ?req fates 0 m1)"
    using rr assms(2,3) m1 by (auto simp: replicate_record_def wait_for_acknowledgments_def Let_def split: prod.splits if_splits)
  also have "\<dots> \<le> length (filter acked fates)" using ack_loop_count [of ?req fates 0 m1] by simp
  also have "\<dots> = card (fst ` set (filter acked fates))"
  proof -
    have "distinct (map fst (filter acked fates))" using spec(1) assms(4) by (simp add: distinct_map_filter)
    then show ?thesis using distinct_card [of "map fst (filter acked fates)"] by simp
  qed
  also have "\<dots> \<le> card {b \<in> set (followers_of m). fh_leader_epoch (hs b) \<le> rm_leader_epoch m \<and> log_has is_log (fh_log (hs' b)) r}"
  proof (rule card_mono)
    show "fst ` set (filter acked fates) \<subseteq> {b \<in> set (followers_of m). fh_leader_epoch (hs b) \<le> rm_leader_epoch m \<and> log_has is_log (fh_log (hs' b)) r}"
    proof
      fix b assume "b \<in> fst ` set (filter acked fates)"
      then obtain fate where f: "(b, fate) \<in> set fates" "acked (b, fate)" by auto
      then obtain rp where rp: "fate = Answered rp" "rp_success rp" by (auto simp: acked_def split: send_fate.splits)
      have "b \<in> fst ` set fates" using f(1) by force
      then have fo: "b \<in> set (followers_of m)" using spec(1) assms(5) by (metis list.set_map subsetD)
      then obtain H where H: "is_log (fh_log (hs b)) H" "wr_offset r = length (H (wr_tp r))" using assms(7) by metis
      have "handle_replicate_data rl now ?rq (hs b) = (rp, hs' b)" using spec(3) f(1) rp(1) by simp
      from accepted_record [OF this rp(2) _ H(1) assms(6) H(2)] fo
      show "b \<in> {b \<in> set (followers_of m). fh_leader_epoch (hs b) \<le> rm_leader_epoch m \<and> log_has is_log (fh_log (hs' b)) r}"
        by (simp add: replicate_request_def)
    qed
  qed simp
  finally show ?thesis .
qed

end


definition sample_replica :: "(local_fs, seg_wal, lru_cache) partition_store" where
  "sample_replica = snd (store_new engine_sample (wal_new 0 []) Map.empty (lru_new 100) [])"


section \<open>Fencing by epochs\<close>

datatype follower_msg = Data replicate_data_request | Beat heartbeat_request

primrec msg_epoch :: "follower_msg \<Rightarrow> nat" where
  "msg_epoch (Data rq) = rq_leader_epoch rq"
| "msg_epoch (Beat rq) = hb_leader_epoch rq"

primrec follower_step :: "'l record_log_ops \<Rightarrow> int \<Rightarrow> follower_msg \<Rightarrow> 'l follower_handler \<Rightarrow> 'l follower_handler" where
  "follower_step rl now (Data rq) h = snd (handle_replicate_data rl now rq h)"
| "follower_step rl now (Beat rq) h = snd (handle_heartbeat rl now rq h)"

text \<open>The epochs of the messages that were not rejected as stale, in order.\<close>

fun accepted_epochs :: "'l record_log_ops \<Rightarrow> int \<Rightarrow> follower_msg list \<Rightarrow> 'l follower_handler \<Rightarrow> nat list" where
  "accepted_epochs rl now [] h = []"
| "accepted_epochs rl now (msg # msgs) h =
     (if msg_epoch msg < fh_leader_epoch h then [] else [msg_epoch msg]) @ accepted_epochs rl now msgs (follower_step rl now msg h)"

lemma learn_epoch_fields [simp]:
  "fh_leader_epoch (learn_epoch e l h) = max (fh_leader_epoch h) e" "fh_log (learn_epoch e l h) = fh_log h"
  "fh_topic_partition (learn_epoch e l h) = fh_topic_partition h" "fh_broker_id (learn_epoch e l h) = fh_broker_id h"
  by (simp_all add: learn_epoch_def max_def)

lemma follower_step_epoch: "fh_leader_epoch (follower_step rl now msg h) = max (fh_leader_epoch h) (msg_epoch msg)"
  by (cases msg) (auto simp: handle_replicate_data_def handle_heartbeat_def Let_def split: prod.splits sum.splits)

lemma accepted_sorted:
  "sorted (fh_leader_epoch h # accepted_epochs rl now msgs h) \<and>
   fh_leader_epoch (fold (follower_step rl now) msgs h) = last (fh_leader_epoch h # accepted_epochs rl now msgs h)"
proof (induction msgs arbitrary: h)
  case (Cons msg msgs)
  show ?case using Cons.IH [of "follower_step rl now msg h"] by (auto simp: follower_step_epoch max_def)
qed simp



text \<open>
  A follower with a gap counts as caught up. A follower whose log ends at \<open>e\<close> and that receives a record with a
  larger offset (it missed the records between, for instance because the leader stopped waiting for it)
  accepts the record and reports the offset after it. A leader at that offset then counts the follower as in sync with lag 0,
  although a read of any missed offset on the follower returns nothing.
\<close>

theorem follower_gap_counts_as_in_sync:
  assumes "index_wf (ct_index st)" and "next_offset (ct_index st) (wr_tp r) < wr_offset r"
    and "lg_append (sd_log d) r (ps_wal st) = (Ok loc, w)"
    and "fh_log h = st" and "fh_topic_partition h = wr_tp r" and "fh_leader_epoch h \<le> rq_leader_epoch rq"
    and "rq_topic_partition rq = wr_tp r" and "rq_records rq = [r]"
    and "rm_log_end_offset m = wr_offset r + 1" and "0 < rc_heartbeat_timeout_ms (rm_config m)"
    and "next_offset (ct_index st) (wr_tp r) \<le> off" and "off < wr_offset r"
  shows "let (rp, h') = handle_replicate_data (store_record_log d) now rq h in
     rp_success rp \<and> (\<exists>s. rp_follower_state rp = Some s \<and> fs_last_known_offset s = rm_log_end_offset m \<and> is_follower_in_sync now m s) \<and>
     store_read d id id t (wr_tp r) off mb (fh_log h') = (Ok [], fh_log h')"
proof -
  let ?st = "st\<lparr>ct_index := insert_hot (wr_tp r) (wr_offset r) r (mem_size (sd_record_size d) r) (ct_index st), ps_wal := w\<rparr>"
  have ap: "rl_append (store_record_log d) r st = (Ok (), ?st)"
    using assms(3) by (simp add: store_record_log_def store_append_def Let_def)
  have nx: "next_offset (ct_index ?st) (wr_tp r) = wr_offset r + 1" using assms(2) by (simp add: index_views)
  have hot: "hot_at (ct_index ?st) (wr_tp r) off = None"
    using hot_lt [OF assms(1), of "wr_tp r" off] assms(11,12) by (cases "hot_at (ct_index st) (wr_tp r) off") (auto simp: index_views)
  have wf: "index_wf (ct_index ?st)" using insert_hot_wf [OF assms(1)] by simp
  have cold: "\<not> off < or_end_offset rng" if "cold_map (ct_index ?st) (wr_tp r) s = Some rng" for s rng
    using that cold_end_le [OF assms(1), of "wr_tp r" s rng] assms(11) by (simp add: index_views)
  have "read_plan (ct_index ?st) (wr_tp r) off mb = Empty"
  proof (cases "bt_floor off (pe_cold (entries_of (ct_index ?st) (wr_tp r)))")
    case None
    then show ?thesis using hot by (simp add: read_plan_entries)
  next
    case (Some x)
    then have "cold_map (ct_index ?st) (wr_tp r) (fst x) = Some (snd x)"
      using bt_floor_Some [where t = "pe_cold (entries_of (ct_index ?st) (wr_tp r))" and k = off and j = "fst x" and v = "snd x"] index_wf_bt(2) [OF wf]
      by (simp add: cold_map_def)
    from cold [OF this] Some hot show ?thesis by (auto simp: read_plan_entries split: prod.splits)
  qed
  then have "store_read d id id t (wr_tp r) off mb ?st = (Ok [], ?st)" by (simp add: store_read_def read_attempt_def)
  moreover have "rl_next_offset (store_record_log d) (wr_tp r) ?st = wr_offset r + 1"
    using nx by (simp add: store_record_log_def store_next_offset_def)
  ultimately show ?thesis using assms(4-10) ap
    by (simp add: handle_replicate_data_def Let_def is_follower_in_sync_def)
qed

theorem follower_gap_counts_as_in_sync_witness:
  "let tp = TopicPartition ''t'' 0; h = follower_new tp 1 None sample_replica ''b'';
       rq = \<lparr>rq_leader_epoch = 1, rq_topic_partition = tp, rq_records = [wal_sample 2], rq_leader_id = ''a''\<rparr>;
       (rp, h') = handle_replicate_data (store_record_log engine_sample) 50 rq h
   in rp_success rp \<and> store_read engine_sample id id 60 tp 1 100 (fh_log h') = (Ok [], fh_log h')"
proof -
  let ?tp = "TopicPartition ''t'' 0" let ?h = "follower_new ?tp 1 None sample_replica ''b''"
  let ?rq = "\<lparr>rq_leader_epoch = 1, rq_topic_partition = ?tp, rq_records = [wal_sample 2], rq_leader_id = ''a''\<rparr>"
  have inv: "system_inv engine_sample (wal_holds wal_sample_ser wal_sample_de) (lru_view length) lru_wf engine_sample_good 0
      \<lparr>sy_store = sample_replica, sy_tier = TIdle, sy_hist = (\<lambda>tp. []), sy_durable = (\<lambda>tp. 0)\<rparr>"
    unfolding sample_replica_def by (rule engine.new_store_inv(2) [OF fresh_holds lru_new_wf lru_new_view])
  have wf: "index_wf (ct_index sample_replica)" using inv by (rule system_invE) (simp add: store_inv_def)
  have nx: "next_offset (ct_index sample_replica) tp = 0" for tp
    using engine.observe(1) [OF inv engine_sample_ok, of tp] by (simp add: store_next_offset_def)
  have rec: "wr_tp (wal_sample 2) = ?tp" "wr_offset (wal_sample 2) = 2" by (simp_all add: wal_sample_def)
  obtain loc w where ap: "lg_append (sd_log engine_sample) (wal_sample 2) (ps_wal sample_replica) = (Ok loc, w)"
    by (cases "wal_append wal_sample_ser wal_sample_config (wal_sample 2) (ps_wal sample_replica)")
      (simp add: engine_deps_def segmented_ops_def)
  let ?m = "(manager_new ?tp ''a'' 1 [''a'', ''b'']
     \<lparr>rc_min_in_sync_replicas = 2, rc_ack_timeout_ms = 5, rc_max_replication_lag = 100, rc_heartbeat_timeout_ms = 10\<rparr> ())\<lparr>rm_log_end_offset := 3\<rparr>"
  from follower_gap_counts_as_in_sync [OF wf _ ap, of ?h ?rq ?m 1 50 60 100]
  show ?thesis by (simp add: rec nx follower_new_def manager_new_def Let_def split: prod.splits)
qed

end
