(* ===== verification/Consumer_Group.thy ===== *)
theory Consumer_Group
  imports Record_Log
begin

text \<open>
  The consumer-group coordinator (\<open>consumer_group/coordinator.rs\<close>) and its snapshots
  (\<open>consumer_group/snapshot.rs\<close>): membership, generations, partition assignment, offset commits
  through the record log, the reaper of silent members, and saving and loading the groups.

  Every handler holds the write lock of the group map, so it is one step. The order in which a hash map or a hash set
  is iterated is an argument. The clock is in nanoseconds. \<open>DefaultHasher\<close> and bincode are arguments.
\<close>

section \<open>State\<close>

datatype group_state = Empty | Stable | PreparingRebalance | CompletingRebalance | Dead

record member_state =
  ms_member_id :: string
  ms_subscribed_topics :: "string list"
  ms_last_heartbeat :: "nat option"
  ms_session_timeout_ms :: nat

record consumer_group_state =
  cg_group_id :: string
  cg_generation_id :: nat
  cg_members :: "(string \<times> member_state) list"
  cg_state :: group_state
  cg_assignment :: "(string \<times> topic_partition list) list"
  cg_committed_offsets :: "(topic_partition \<times> offset) list"

record 'l group_coordinator =
  gc_groups :: "(string \<times> consumer_group_state) list"
  gc_record_log :: 'l
  gc_offsets_partition_count :: nat
  gc_topic_partitions :: "(string \<times> nat) list"
  gc_rebalance_count :: u64
  gc_commit_count :: u64

definition coordinator_new :: "'l \<Rightarrow> nat \<Rightarrow> 'l group_coordinator" where
  "coordinator_new log offsets_partition_count =
     \<lparr>gc_groups = [], gc_record_log = log, gc_offsets_partition_count = offsets_partition_count,
      gc_topic_partitions = [], gc_rebalance_count = 0, gc_commit_count = 0\<rparr>"

definition update_topic_partitions :: "string \<Rightarrow> nat \<Rightarrow> 'l group_coordinator \<Rightarrow> 'l group_coordinator" where
  "update_topic_partitions topic partition_count c =
     c\<lparr>gc_topic_partitions := AList.update topic partition_count (gc_topic_partitions c)\<rparr>"

definition put_group :: "string \<Rightarrow> consumer_group_state \<Rightarrow> 'l group_coordinator \<Rightarrow> 'l group_coordinator" where
  "put_group g s c = c\<lparr>gc_groups := AList.update g s (gc_groups c)\<rparr>"

section \<open>Joining, heartbeats, leaving\<close>

record join_group_request =
  jr_group_id :: string
  jr_member_id :: string
  jr_session_timeout_ms :: nat
  jr_topics :: "string list"

record join_group_response =
  jp_generation_id :: nat
  jp_member_id :: string
  jp_leader_id :: string
  jp_assigned_partitions :: "(string \<times> topic_partition list) list"
  jp_error_code :: nat

record consumer_heartbeat_request =
  ch_group_id :: string
  ch_member_id :: string
  ch_generation_id :: nat

record leave_group_request =
  lv_group_id :: string
  lv_member_id :: string

definition new_group :: "string \<Rightarrow> consumer_group_state" where
  "new_group g = \<lparr>cg_group_id = g, cg_generation_id = 0, cg_members = [], cg_state = Empty, cg_assignment = [], cg_committed_offsets = []\<rparr>"

text \<open>The statements that start a rebalance, in the four places that have them.\<close>

definition begin_rebalance :: "consumer_group_state \<Rightarrow> consumer_group_state" where
  "begin_rebalance s = s\<lparr>cg_state := PreparingRebalance, cg_generation_id := cg_generation_id s + 1, cg_assignment := []\<rparr>"

definition all_partitions :: "(string \<times> nat) list \<Rightarrow> string list \<Rightarrow> topic_partition list" where
  "all_partitions topic_partitions topics =
     concat (map (\<lambda>t. map (TopicPartition t) [0..<hm_entry 1 topic_partitions t]) topics)"

text \<open>The round-robin loop: partition number \<open>i\<close> of the list goes to member \<open>i mod n\<close>.\<close>

fun assign_loop ::
  "string list \<Rightarrow> nat \<Rightarrow> topic_partition list \<Rightarrow> (string \<times> topic_partition list) list \<Rightarrow> (string \<times> topic_partition list) list" where
  "assign_loop member_ids i [] assignments = assignments"
| "assign_loop member_ids i (tp # tps) assignments =
     (let member = member_ids ! (i mod length member_ids)
      in assign_loop member_ids (i + 1) tps (AList.update member (hm_entry [] assignments member @ [tp]) assignments))"

definition handle_join_group ::
  "(string list \<Rightarrow> string list) \<Rightarrow> (string list \<Rightarrow> string list) \<Rightarrow> nat \<Rightarrow> string \<Rightarrow> join_group_request \<Rightarrow> 'l group_coordinator \<Rightarrow>
   join_group_response \<times> 'l group_coordinator" where
  "handle_join_group member_order topic_order now uuid request c =
     (let s0 = hm_entry (new_group (jr_group_id request)) (gc_groups c) (jr_group_id request);
          starts = cg_state s0 = Empty \<or> cg_state s0 = Stable;
          s1 = (if starts then begin_rebalance s0 else s0);
          member_id = (if jr_member_id request = [] then uuid else jr_member_id request);
          members = AList.update member_id
            \<lparr>ms_member_id = member_id, ms_subscribed_topics = jr_topics request, ms_last_heartbeat = Some now,
             ms_session_timeout_ms = jr_session_timeout_ms request\<rparr> (cg_members s1);
          all_topics = topic_order (remdups (concat (map (\<lambda>m. ms_subscribed_topics (snd m)) members)));
          member_ids = member_order (map fst members);
          assignments = assign_loop member_ids 0 (all_partitions (gc_topic_partitions c) all_topics) [];
          s2 = s1\<lparr>cg_members := members, cg_assignment := assignments, cg_state := Stable\<rparr>
      in (\<lparr>jp_generation_id = cg_generation_id s2, jp_member_id = member_id,
           jp_leader_id = (case member_ids of [] \<Rightarrow> [] | m # _ \<Rightarrow> m), jp_assigned_partitions = assignments, jp_error_code = 0\<rparr>,
          (put_group (jr_group_id request) s2 c)\<lparr>gc_rebalance_count := gc_rebalance_count c + (if starts then 1 else 0)\<rparr>))"

definition handle_heartbeat :: "nat \<Rightarrow> consumer_heartbeat_request \<Rightarrow> 'l group_coordinator \<Rightarrow> nat \<times> 'l group_coordinator" where
  "handle_heartbeat now request c =
     (case map_of (gc_groups c) (ch_group_id request) of
        None \<Rightarrow> (16, c)
      | Some s \<Rightarrow>
          if cg_state s = PreparingRebalance then (27, c)
          else if cg_generation_id s \<noteq> ch_generation_id request then (22, c)
          else (case map_of (cg_members s) (ch_member_id request) of
                  None \<Rightarrow> (25, c)
                | Some m \<Rightarrow> (0, put_group (ch_group_id request)
                    (s\<lparr>cg_members := AList.update (ch_member_id request) (m\<lparr>ms_last_heartbeat := Some now\<rparr>) (cg_members s)\<rparr>) c)))"

definition handle_leave_group :: "leave_group_request \<Rightarrow> 'l group_coordinator \<Rightarrow> nat \<times> 'l group_coordinator" where
  "handle_leave_group request c =
     (case map_of (gc_groups c) (lv_group_id request) of
        None \<Rightarrow> (16, c)
      | Some s \<Rightarrow>
          (let s1 = s\<lparr>cg_members := AList.delete (lv_member_id request) (cg_members s)\<rparr>
           in if cg_members s1 = [] then (0, put_group (lv_group_id request) (s1\<lparr>cg_state := Empty\<rparr>) c)
              else (0, (put_group (lv_group_id request) (begin_rebalance s1) c)\<lparr>gc_rebalance_count := gc_rebalance_count c + 1\<rparr>)))"

section \<open>The reaper\<close>

definition expired :: "nat \<Rightarrow> member_state \<Rightarrow> bool" where
  "expired now m \<longleftrightarrow> (case ms_last_heartbeat m of None \<Rightarrow> True | Some hb \<Rightarrow> now - hb > ms_session_timeout_ms m * 1000000)"

definition reap_group :: "nat \<Rightarrow> consumer_group_state \<Rightarrow> consumer_group_state \<times> bool" where
  "reap_group now s =
     (if cg_state s = Dead \<or> cg_state s = Empty then (s, False)
      else
        (let gone = map fst (filter (\<lambda>m. expired now (snd m)) (cg_members s));
             s1 = s\<lparr>cg_members := fold AList.delete gone (cg_members s)\<rparr>
         in if gone = [] then (s1, False)
            else if cg_members s1 = [] then (s1\<lparr>cg_state := Empty\<rparr>, False)
            else (begin_rebalance s1, True)))"

text \<open>One turn of the reaper over all groups.\<close>

definition reaper_turn :: "nat \<Rightarrow> 'l group_coordinator \<Rightarrow> 'l group_coordinator" where
  "reaper_turn now c =
     c\<lparr>gc_groups := map (\<lambda>(g, s). (g, fst (reap_group now s))) (gc_groups c),
       gc_rebalance_count := gc_rebalance_count c + of_nat (length (filter (\<lambda>(g, s). snd (reap_group now s)) (gc_groups c)))\<rparr>"

section \<open>Committed offsets\<close>

record commit_offset_request =
  cr_group_id :: string
  cr_member_id :: string
  cr_generation_id :: nat
  cr_offsets :: "(topic_partition \<times> offset) list"

record fetch_offset_request =
  fr_group_id :: string
  fr_topic_partitions :: "topic_partition list"

record fetch_offset_response =
  fp_offsets :: "(topic_partition \<times> offset) list"
  fp_error_code :: nat

text \<open>bincode on an offset and on a byte vector, and \<open>crc32fast::hash\<close>.\<close>

record offset_codec =
  oc_offset :: "offset \<Rightarrow> bytes option"
  oc_bytes :: "bytes \<Rightarrow> bytes option"
  oc_crc :: "bytes \<Rightarrow> nat"

definition unwrap_or_default :: "bytes option \<Rightarrow> bytes" where
  "unwrap_or_default x = (case x of None \<Rightarrow> [] | Some v \<Rightarrow> v)"

definition partition_for :: "(string \<Rightarrow> u64) \<Rightarrow> 'l group_coordinator \<Rightarrow> string \<Rightarrow> nat" where
  "partition_for hash c g = unat (hash g) mod gc_offsets_partition_count c"

definition string_bytes :: "string \<Rightarrow> bytes" where
  "string_bytes s = map (\<lambda>c. word_of_nat (of_char c)) s"

definition offset_record :: "offset_codec \<Rightarrow> int \<Rightarrow> nat \<Rightarrow> string \<Rightarrow> topic_partition \<Rightarrow> offset \<Rightarrow> wal_record" where
  "offset_record oc ts p g tp off =
     (let key = ''offset:'' @ g @ '':'' @ tp_topic tp @ '':'' @ show_nat (tp_partition tp);
          value = unwrap_or_default (oc_offset oc off);
          serialized = unwrap_or_default (oc_bytes oc value)
      in \<lparr>wr_tp = TopicPartition ''__consumer_offsets'' p, wr_offset = 0,
          wr_record = \<lparr>rec_key = Some (string_bytes key), rec_value = value, rec_headers = [], rec_timestamp = ts\<rparr>,
          wr_crc32 = oc_crc oc serialized\<rparr>)"

fun commit_loop ::
  "'l record_log_ops \<Rightarrow> offset_codec \<Rightarrow> int \<Rightarrow> nat \<Rightarrow> string \<Rightarrow> (topic_partition \<times> offset) list \<Rightarrow> 'l \<Rightarrow>
   (topic_partition \<times> offset) list \<Rightarrow> bool \<times> 'l \<times> (topic_partition \<times> offset) list" where
  "commit_loop rl oc ts p g [] l committed = (True, l, committed)"
| "commit_loop rl oc ts p g ((tp, off) # rest) l committed =
     (case rl_append rl (offset_record oc ts p g tp off) l of
        (Inl e, l') \<Rightarrow> (False, l', committed)
      | (Inr _, l') \<Rightarrow> commit_loop rl oc ts p g rest l' (AList.update tp off committed))"

definition handle_commit_offset ::
  "'l record_log_ops \<Rightarrow> (string \<Rightarrow> u64) \<Rightarrow> offset_codec \<Rightarrow> int \<Rightarrow> commit_offset_request \<Rightarrow> 'l group_coordinator \<Rightarrow> nat \<times> 'l group_coordinator" where
  "handle_commit_offset rl hash oc ts request c =
     (case map_of (gc_groups c) (cr_group_id request) of
        None \<Rightarrow> (16, c)
      | Some s \<Rightarrow>
          if cg_generation_id s \<noteq> cr_generation_id request then (22, c)
          else
            (let (ok, l, committed) = commit_loop rl oc ts (partition_for hash c (cr_group_id request)) (cr_group_id request)
                   (cr_offsets request) (gc_record_log c) (cg_committed_offsets s);
                 c1 = (put_group (cr_group_id request) (s\<lparr>cg_committed_offsets := committed\<rparr>) c)\<lparr>gc_record_log := l\<rparr>
             in if ok then (0, c1\<lparr>gc_commit_count := gc_commit_count c + of_nat (length (cr_offsets request))\<rparr>) else (1, c1)))"

definition handle_fetch_offset :: "fetch_offset_request \<Rightarrow> 'l group_coordinator \<Rightarrow> fetch_offset_response" where
  "handle_fetch_offset request c =
     (case map_of (gc_groups c) (fr_group_id request) of
        None \<Rightarrow> \<lparr>fp_offsets = [], fp_error_code = 16\<rparr>
      | Some s \<Rightarrow>
          \<lparr>fp_offsets = fold (\<lambda>tp result. case map_of (cg_committed_offsets s) tp of
                                None \<Rightarrow> result | Some off \<Rightarrow> AList.update tp off result) (fr_topic_partitions request) [],
           fp_error_code = 0\<rparr>)"

definition get_metrics ::
  "'l group_coordinator \<Rightarrow> (string \<times> topic_partition \<times> offset) list \<times> (string \<times> nat) list \<times> (string \<times> nat) list" where
  "get_metrics c =
     (concat (map (\<lambda>(g, s). map (\<lambda>(tp, off). (g, tp, off)) (cg_committed_offsets s)) (gc_groups c)),
      map (\<lambda>(g, s). (g, length (cg_members s))) (gc_groups c),
      map (\<lambda>(g, s). (g, cg_generation_id s)) (gc_groups c))"

section \<open>Lookups\<close>

lemma hm_entry_Nil [simp]: "hm_entry d [] k = d"
  by (simp add: hm_entry_def)

lemma groups_put [simp]: "map_of (gc_groups (put_group g s c)) g' = (if g' = g then Some s else map_of (gc_groups c) g')"
  by (simp add: put_group_def update_conv')

lemma put_group_simps [simp]:
  "gc_topic_partitions (put_group g s c) = gc_topic_partitions c" "gc_offsets_partition_count (put_group g s c) = gc_offsets_partition_count c"
  "gc_record_log (put_group g s c) = gc_record_log c" "gc_commit_count (put_group g s c) = gc_commit_count c"
  by (simp_all add: put_group_def)

lemma begin_rebalance_simps [simp]:
  "cg_state (begin_rebalance s) = PreparingRebalance" "cg_generation_id (begin_rebalance s) = cg_generation_id s + 1"
  "cg_assignment (begin_rebalance s) = []" "cg_members (begin_rebalance s) = cg_members s"
  "cg_committed_offsets (begin_rebalance s) = cg_committed_offsets s" "cg_group_id (begin_rebalance s) = cg_group_id s"
  by (simp_all add: begin_rebalance_def)

section \<open>The assignment\<close>

lemma assign_loop_load:
  "hm_entry [] (assign_loop ids i tps acc) m =
     hm_entry [] acc m @ map snd (filter (\<lambda>(j, tp). ids ! (j mod length ids) = m) (enumerate i tps))"
  by (induction ids i tps acc rule: assign_loop.induct) (auto simp: Let_def)

lemma assign_loop_keys:
  assumes "ids \<noteq> []"
  shows "fst ` set (assign_loop ids i tps acc) \<subseteq> fst ` set acc \<union> set ids"
  using assms
proof (induction ids i tps acc rule: assign_loop.induct)
  case (2 ids i tp tps acc)
  let ?m = "ids ! (i mod length ids)"
  have "?m \<in> set ids" using "2.prems" by (intro nth_mem) simp
  then show ?case using "2.IH" [OF refl "2.prems"] by (auto simp: Let_def keys_update)
qed simp

lemma assign_loop_distinct: "distinct (map fst acc) \<Longrightarrow> distinct (map fst (assign_loop ids i tps acc))"
  by (induction ids i tps acc rule: assign_loop.induct) (auto simp: Let_def distinct_update)

text \<open>Round robin is balanced: among \<open>L\<close> consecutive numbers, residue \<open>k\<close> occurs \<open>L div n\<close> times, or once more.\<close>

lemma residue_count:
  assumes "k < n"
  shows "length (filter (\<lambda>j. j mod n = k) [0..<L]) = L div n + (if k < L mod n then 1 else 0)"
  using assms by (induction L) (auto simp: mod_Suc div_Suc)

lemma enumerate_nth: "(j, x) \<in> set (enumerate 0 xs) \<longleftrightarrow> j < length xs \<and> xs ! j = x"
  by (simp add: in_set_enumerate_eq)

lemma assignment_spec:
  assumes "ids \<noteq> []" and "distinct ids" and "distinct tps"
  defines "duty \<equiv> hm_entry [] (assign_loop ids 0 tps [])"
  shows "(\<Union>m \<in> set ids. set (duty m)) = set tps"
    and "m \<noteq> m' \<Longrightarrow> set (duty m) \<inter> set (duty m') = {}" and "distinct (duty m)"
    and "m \<in> set ids \<Longrightarrow> m' \<in> set ids \<Longrightarrow> length (duty m) \<le> length (duty m') + 1"
proof -
  let ?n = "length ids"
  have duty: "duty m = map snd (filter (\<lambda>(j, tp). ids ! (j mod ?n) = m) (enumerate 0 tps))" for m
    by (simp add: duty_def assign_loop_load)
  have mem: "tp \<in> set (duty m) \<longleftrightarrow> (\<exists>j < length tps. tps ! j = tp \<and> ids ! (j mod ?n) = m)" for tp m
    unfolding duty by (force simp: enumerate_nth image_iff)
  have in_ids: "ids ! (j mod ?n) \<in> set ids" for j using assms(1) by (intro nth_mem) simp
  show "(\<Union>m \<in> set ids. set (duty m)) = set tps"
    using in_ids by (auto simp: mem in_set_conv_nth [of _ tps]) blast
  show "set (duty m) \<inter> set (duty m') = {}" if "m \<noteq> m'"
    using that assms(3) by (auto simp: mem nth_eq_iff_index_eq)
  have "distinct (map snd (enumerate 0 tps))" using assms(3) by simp
  then show "distinct (duty m)" unfolding duty by (rule distinct_map_filter)
  have len: "length (duty (ids ! k)) = length tps div ?n + (if k < length tps mod ?n then 1 else 0)" if k: "k < ?n" for k
  proof -
    have "length (duty (ids ! k)) = length (filter (\<lambda>(j, tp). j mod ?n = k) (enumerate 0 tps))"
      unfolding duty using assms(1,2) k by (simp add: nth_eq_iff_index_eq)
    also have "\<dots> = length (filter (\<lambda>j. j mod ?n = k) (map fst (enumerate 0 tps)))"
      by (simp add: filter_map comp_def case_prod_unfold del: map_fst_enumerate)
    finally show ?thesis using residue_count [OF k, of "length tps"] by simp
  qed
  show "length (duty m) \<le> length (duty m') + 1" if "m \<in> set ids" "m' \<in> set ids"
    using that len by (auto simp: in_set_conv_nth)
qed

lemma all_partitions_spec:
  assumes "distinct topics"
  shows "distinct (all_partitions counts topics)"
    and "set (all_partitions counts topics) = {TopicPartition t p | t p. t \<in> set topics \<and> p < hm_entry 1 counts t}"
  using assms
  by (induction topics) (auto simp: all_partitions_def distinct_map inj_on_def)

section \<open>Well-formed groups\<close>

text \<open>
  The invariant of the coordinator: keys of maps are unique, a group is \<open>Empty\<close> exactly when it has no member, a group
  that prepares a rebalance has no assignment, and the assignment of a stable group gives each partition to one member of
  the group. The states \<open>CompletingRebalance\<close> and \<open>Dead\<close> are never entered.
\<close>

definition group_wf :: "consumer_group_state \<Rightarrow> bool" where
  "group_wf s \<longleftrightarrow> distinct (map fst (cg_members s)) \<and> distinct (map fst (cg_committed_offsets s)) \<and>
     (cg_members s = [] \<longleftrightarrow> cg_state s = Empty) \<and> cg_state s \<in> {Empty, Stable, PreparingRebalance} \<and>
     (cg_state s = PreparingRebalance \<longrightarrow> cg_assignment s = []) \<and>
     (cg_state s = Stable \<longrightarrow> distinct (map fst (cg_assignment s)) \<and> fst ` set (cg_assignment s) \<subseteq> fst ` set (cg_members s) \<and>
        distinct (concat (map snd (cg_assignment s))))"

definition coordinator_wf :: "'l group_coordinator \<Rightarrow> bool" where
  "coordinator_wf c \<longleftrightarrow> distinct (map fst (gc_groups c)) \<and>
     (\<forall>g s. map_of (gc_groups c) g = Some s \<longrightarrow> cg_group_id s = g \<and> group_wf s)"

lemma coordinator_wfD:
  assumes "coordinator_wf c" and "map_of (gc_groups c) g = Some s"
  shows "cg_group_id s = g" and "group_wf s"
  using assms by (auto simp: coordinator_wf_def)

lemma coordinator_wf_put:
  assumes "coordinator_wf c" and "group_wf s" and "cg_group_id s = g"
  shows "coordinator_wf (put_group g s c)"
  using assms by (auto simp: coordinator_wf_def put_group_def distinct_update update_conv')

lemma coordinator_wf_cong [simp]:
  "coordinator_wf (c\<lparr>gc_rebalance_count := a\<rparr>) = coordinator_wf c" "coordinator_wf (c\<lparr>gc_commit_count := a\<rparr>) = coordinator_wf c"
  "coordinator_wf (c\<lparr>gc_record_log := l\<rparr>) = coordinator_wf c" "coordinator_wf (c\<lparr>gc_topic_partitions := t\<rparr>) = coordinator_wf c"
  by (simp_all add: coordinator_wf_def)

lemma new_group_wf: "group_wf (new_group g)"
  by (simp add: group_wf_def new_group_def)

lemma entry_wf_group:
  assumes "coordinator_wf c"
  shows "group_wf (hm_entry (new_group g) (gc_groups c) g)" and "cg_group_id (hm_entry (new_group g) (gc_groups c) g) = g"
  using assms new_group_wf [of g] coordinator_wfD [of c g]
  by (auto simp: hm_entry_def new_group_def split: option.splits)

text \<open>The group after a join, and the assignment the join computes.\<close>

lemma join_group_result:
  assumes "handle_join_group mo to now uuid rq c = (rp, c')"
  obtains s where "map_of (gc_groups c') (jr_group_id rq) = Some s"
    and "cg_members s = AList.update (jp_member_id rp)
       \<lparr>ms_member_id = jp_member_id rp, ms_subscribed_topics = jr_topics rq, ms_last_heartbeat = Some now, ms_session_timeout_ms = jr_session_timeout_ms rq\<rparr>
       (cg_members (hm_entry (new_group (jr_group_id rq)) (gc_groups c) (jr_group_id rq)))"
    and "cg_state s = Stable" and "cg_generation_id s = jp_generation_id rp" and "cg_assignment s = jp_assigned_partitions rp"
    and "cg_group_id s = cg_group_id (hm_entry (new_group (jr_group_id rq)) (gc_groups c) (jr_group_id rq))"
    and "cg_committed_offsets s = cg_committed_offsets (hm_entry (new_group (jr_group_id rq)) (gc_groups c) (jr_group_id rq))"
    and "jp_assigned_partitions rp = assign_loop (mo (map fst (cg_members s))) 0
       (all_partitions (gc_topic_partitions c) (to (remdups (concat (map (\<lambda>m. ms_subscribed_topics (snd m)) (cg_members s)))))) []"
    and "c' = (put_group (jr_group_id rq) s c)\<lparr>gc_rebalance_count := gc_rebalance_count c'\<rparr>"
proof -
  define s where "s = the (map_of (gc_groups c') (jr_group_id rq))"
  show thesis
    by (rule that [of s]) (use assms in \<open>auto simp: s_def handle_join_group_def Let_def split: if_splits\<close>)
qed

lemma permuted:
  assumes "\<forall>xs. mset (order xs) = mset (xs :: string list)"
  shows "set (order xs) = set xs" and "distinct (order xs) = distinct xs" and "order xs = [] \<longleftrightarrow> xs = []"
  using assms by (metis mset_eq_setD, metis mset_eq_imp_distinct_iff, metis mset_zero_iff)

lemma join_members_topics:
  assumes "distinct (map fst ms)"
  shows "set (concat (map (\<lambda>m. ms_subscribed_topics (snd m)) ms)) = (\<Union>x \<in> ran (map_of ms). set (ms_subscribed_topics x))"
  using ran_distinct [OF assms] by auto

lemma join_assignment:
  assumes "handle_join_group mo to now uuid rq c = (rp, c')" and "coordinator_wf c"
    and mo: "\<forall>xs. mset (mo xs) = mset xs" and to: "\<forall>xs. mset (to xs) = mset xs"
    and s: "map_of (gc_groups c') (jr_group_id rq) = Some s"
  defines "duty \<equiv> hm_entry [] (jp_assigned_partitions rp)" and "members \<equiv> fst ` set (cg_members s)"
  shows "jp_member_id rp \<in> members" and "distinct (map fst (cg_members s))"
    and "distinct (map fst (jp_assigned_partitions rp))" and "fst ` set (jp_assigned_partitions rp) \<subseteq> members"
    and "(\<Union>m \<in> members. set (duty m)) =
       {TopicPartition t p | t p. (\<exists>x \<in> ran (map_of (cg_members s)). t \<in> set (ms_subscribed_topics x)) \<and> p < hm_entry 1 (gc_topic_partitions c) t}"
    and "m \<noteq> m' \<Longrightarrow> set (duty m) \<inter> set (duty m') = {}" and "distinct (duty m)"
    and "m \<in> members \<Longrightarrow> m' \<in> members \<Longrightarrow> length (duty m) \<le> length (duty m') + 1"
proof -
  let ?s0 = "hm_entry (new_group (jr_group_id rq)) (gc_groups c) (jr_group_id rq)"
  obtain x where mem: "cg_members s = AList.update (jp_member_id rp) x (cg_members ?s0)"
    and asg: "jp_assigned_partitions rp = assign_loop (mo (map fst (cg_members s))) 0
       (all_partitions (gc_topic_partitions c) (to (remdups (concat (map (\<lambda>m. ms_subscribed_topics (snd m)) (cg_members s)))))) []"
    using join_group_result [OF assms(1)] s by (metis option.inject)
  let ?ids = "mo (map fst (cg_members s))"
  let ?topics = "to (remdups (concat (map (\<lambda>m. ms_subscribed_topics (snd m)) (cg_members s))))"
  let ?tps = "all_partitions (gc_topic_partitions c) ?topics"
  have "distinct (map fst (cg_members ?s0))" using entry_wf_group [OF assms(2)] by (simp add: group_wf_def)
  then show dm: "distinct (map fst (cg_members s))" by (simp add: mem distinct_update)
  show mm: "jp_member_id rp \<in> members" by (simp add: members_def mem keys_update)
  have ids: "?ids \<noteq> []" "distinct ?ids" "set ?ids = members"
    using permuted [OF mo] dm mm by (auto simp: members_def)
  have "distinct ?topics" using permuted(2) [OF to] by simp
  note parts = all_partitions_spec [OF this, of "gc_topic_partitions c"]
  have topics: "set ?topics = (\<Union>x \<in> ran (map_of (cg_members s)). set (ms_subscribed_topics x))"
    using permuted(1) [OF to] join_members_topics [OF dm] by simp
  note spec = assignment_spec [OF ids(1,2) parts(1)]
  have duty: "duty = hm_entry [] (assign_loop ?ids 0 ?tps [])" by (simp add: duty_def asg)
  show "distinct (map fst (jp_assigned_partitions rp))" unfolding asg by (rule assign_loop_distinct) simp
  show "fst ` set (jp_assigned_partitions rp) \<subseteq> members" using assign_loop_keys [OF ids(1), of 0 ?tps "[]"] ids(3) asg by simp
  show "(\<Union>m \<in> members. set (duty m)) =
       {TopicPartition t p | t p. (\<exists>x \<in> ran (map_of (cg_members s)). t \<in> set (ms_subscribed_topics x)) \<and> p < hm_entry 1 (gc_topic_partitions c) t}"
    using spec(1) unfolding duty ids(3) parts(2) topics by auto
  show "set (duty m) \<inter> set (duty m') = {}" if "m \<noteq> m'" using spec(2) [OF that] by (simp add: duty)
  show "distinct (duty m)" using spec(3) by (simp add: duty)
  show "length (duty m) \<le> length (duty m') + 1" if "m \<in> members" "m' \<in> members"
    using spec(4) that ids(3) by (simp add: duty)
qed

lemma distinct_concat_alist:
  assumes "distinct (map fst al)" and "\<And>k. distinct (hm_entry [] al k)" and "\<And>k k'. k \<noteq> k' \<Longrightarrow> set (hm_entry [] al k) \<inter> set (hm_entry [] al k') = {}"
  shows "distinct (concat (map snd al))"
  using assms
proof (induction al)
  case (Cons e al)
  obtain k v where e: "e = (k, v)" by (cases e)
  have ent: "hm_entry [] al k' = (if k' = k then [] else hm_entry [] (e # al) k')" for k'
    using Cons.prems(1) map_of_eq_None_iff [of al k] by (auto simp: hm_entry_def e)
  have hk: "hm_entry [] (e # al) k = v" by (simp add: hm_entry_def e)
  have "distinct (concat (map snd al))"
  proof (rule Cons.IH)
    show "distinct (map fst al)" using Cons.prems(1) by simp
    show "distinct (hm_entry [] al k')" for k' using Cons.prems(2) [of k'] by (simp add: ent)
    show "set (hm_entry [] al a) \<inter> set (hm_entry [] al b) = {}" if "a \<noteq> b" for a b
      using Cons.prems(3) [OF that] by (simp add: ent)
  qed
  moreover have "set v \<inter> set w = {}" if w: "(k', w) \<in> set al" for k' w
  proof -
    have "k' \<noteq> k" using w Cons.prems(1) by (force simp: e)
    moreover have "hm_entry [] (e # al) k' = w" using w Cons.prems(1) \<open>k' \<noteq> k\<close> by (simp add: hm_entry_def e)
    ultimately show ?thesis using Cons.prems(3) [of k k'] hk by simp
  qed
  moreover have "distinct v" using Cons.prems(2) [of k] hk by simp
  ultimately show ?case by (fastforce simp: e)
qed simp

lemma join_wf:
  assumes "handle_join_group mo to now uuid rq c = (rp, c')" and "coordinator_wf c"
    and "\<forall>xs. mset (mo xs) = mset xs" and "\<forall>xs. mset (to xs) = mset xs"
  shows "coordinator_wf c'"
proof -
  let ?s0 = "hm_entry (new_group (jr_group_id rq)) (gc_groups c) (jr_group_id rq)"
  obtain s where s: "map_of (gc_groups c') (jr_group_id rq) = Some s" "cg_state s = Stable" "cg_assignment s = jp_assigned_partitions rp"
      "cg_group_id s = cg_group_id ?s0" "cg_committed_offsets s = cg_committed_offsets ?s0"
    and c': "c' = (put_group (jr_group_id rq) s c)\<lparr>gc_rebalance_count := gc_rebalance_count c'\<rparr>"
    using join_group_result [OF assms(1)] by metis
  note a = join_assignment [OF assms s(1)]
  have "distinct (concat (map snd (cg_assignment s)))"
    unfolding s(3) by (rule distinct_concat_alist) (rule a(3), rule a(7), rule a(6))
  moreover have "cg_members s \<noteq> []" using a(1) by auto
  ultimately have "group_wf s"
    using a(2-4) s(2,3,5) entry_wf_group(1) [OF assms(2), of "jr_group_id rq"] by (simp add: group_wf_def)
  then have "coordinator_wf (put_group (jr_group_id rq) s c)"
    using entry_wf_group(2) [OF assms(2)] s(4) by (intro coordinator_wf_put assms(2)) simp_all
  then show ?thesis using c' coordinator_wf_cong(1) by metis
qed

lemma delete_many_keys: "map_of (fold AList.delete ks al) k = (if k \<in> set ks then None else map_of al k)"
  by (induction ks arbitrary: al) (auto simp: delete_conv')

lemma delete_many_distinct: "distinct (map fst al) \<Longrightarrow> distinct (map fst (fold AList.delete ks al))"
  by (induction ks arbitrary: al) (auto simp: distinct_delete)

lemma leave_wf:
  assumes "coordinator_wf c" shows "coordinator_wf (snd (handle_leave_group rq c))"
proof (cases "map_of (gc_groups c) (lv_group_id rq)")
  case (Some s)
  note s = coordinator_wfD [OF assms Some]
  let ?s1 = "s\<lparr>cg_members := AList.delete (lv_member_id rq) (cg_members s)\<rparr>"
  have "group_wf (if cg_members ?s1 = [] then ?s1\<lparr>cg_state := Empty\<rparr> else begin_rebalance ?s1)"
    using s(2) by (auto simp: group_wf_def distinct_delete)
  then show ?thesis using s(1) assms Some by (auto simp: handle_leave_group_def Let_def intro!: coordinator_wf_put)
qed (use assms in \<open>simp add: handle_leave_group_def\<close>)

lemma heartbeat_wf:
  assumes "coordinator_wf c" shows "coordinator_wf (snd (handle_heartbeat now rq c))"
proof -
  have "group_wf (s\<lparr>cg_members := AList.update k (m\<lparr>ms_last_heartbeat := Some now\<rparr>) (cg_members s)\<rparr>)"
    if "group_wf s" "map_of (cg_members s) k = Some m" for s k m
    using that by (auto simp: group_wf_def distinct_update keys_update)
  then show ?thesis using assms coordinator_wfD [OF assms]
    by (auto simp: handle_heartbeat_def intro!: coordinator_wf_put split: option.splits)
qed

lemma commit_loop_distinct:
  "commit_loop rl oc ts p g offs l committed = (ok, l', committed') \<Longrightarrow> distinct (map fst committed) \<Longrightarrow> distinct (map fst committed')"
  by (induction rl oc ts p g offs l committed arbitrary: ok l' committed' rule: commit_loop.induct)
    (auto simp: distinct_update split: prod.splits sum.splits)

lemma commit_wf:
  assumes "coordinator_wf c" shows "coordinator_wf (snd (handle_commit_offset rl hash oc ts rq c))"
proof -
  have "group_wf (s\<lparr>cg_committed_offsets := x\<rparr>)" if "group_wf s" "distinct (map fst x)" for s x
    using that by (simp add: group_wf_def)
  then show ?thesis using assms coordinator_wfD [OF assms] commit_loop_distinct
    by (fastforce simp: handle_commit_offset_def Let_def group_wf_def intro!: coordinator_wf_put split: option.splits prod.splits)
qed

lemma reap_group_wf: "group_wf s \<Longrightarrow> group_wf (fst (reap_group now s)) \<and> cg_group_id (fst (reap_group now s)) = cg_group_id s"
  by (auto simp: reap_group_def Let_def group_wf_def delete_many_distinct)

lemma reaper_groups: "map_of (gc_groups (reaper_turn now c)) g = map_option (\<lambda>s. fst (reap_group now s)) (map_of (gc_groups c) g)"
  by (simp add: reaper_turn_def map_of_map)

lemma reaper_wf:
  assumes "coordinator_wf c" shows "coordinator_wf (reaper_turn now c)"
proof -
  have "map fst (gc_groups (reaper_turn now c)) = map fst (gc_groups c)"
    by (simp add: reaper_turn_def comp_def case_prod_unfold)
  then show ?thesis using assms reap_group_wf by (auto simp: coordinator_wf_def reaper_groups)
qed

section \<open>Runs of the coordinator\<close>

datatype group_event =
    Join "string list \<Rightarrow> string list" "string list \<Rightarrow> string list" nat string join_group_request
  | Heartbeat nat consumer_heartbeat_request
  | Leave leave_group_request
  | Commit int commit_offset_request
  | Reap nat
  | Topics string nat

fun group_step :: "'l record_log_ops \<Rightarrow> (string \<Rightarrow> u64) \<Rightarrow> offset_codec \<Rightarrow> group_event \<Rightarrow> 'l group_coordinator \<Rightarrow> 'l group_coordinator" where
  "group_step rl hash oc (Join mo to now uuid rq) c = snd (handle_join_group mo to now uuid rq c)"
| "group_step rl hash oc (Heartbeat now rq) c = snd (handle_heartbeat now rq c)"
| "group_step rl hash oc (Leave rq) c = snd (handle_leave_group rq c)"
| "group_step rl hash oc (Commit ts rq) c = snd (handle_commit_offset rl hash oc ts rq c)"
| "group_step rl hash oc (Reap now) c = reaper_turn now c"
| "group_step rl hash oc (Topics t n) c = update_topic_partitions t n c"

text \<open>The iteration orders of a join are permutations.\<close>

fun event_ok :: "group_event \<Rightarrow> bool" where
  "event_ok (Join mo to now uuid rq) \<longleftrightarrow> (\<forall>xs. mset (mo xs) = mset xs) \<and> (\<forall>xs. mset (to xs) = mset xs)"
| "event_ok _ \<longleftrightarrow> True"

lemma group_step_wf:
  assumes "coordinator_wf c" and "event_ok ev" shows "coordinator_wf (group_step rl hash oc ev c)"
proof (cases ev)
  case (Join mo to now uuid rq)
  then show ?thesis using join_wf [OF _ assms(1)] assms(2) by (cases "handle_join_group mo to now uuid rq c") auto
qed (use assms in \<open>simp_all add: heartbeat_wf leave_wf commit_wf reaper_wf update_topic_partitions_def\<close>)

lemma group_run_wf:
  "coordinator_wf c \<Longrightarrow> \<forall>ev \<in> set evs. event_ok ev \<Longrightarrow> coordinator_wf (fold (group_step rl hash oc) evs c)"
  by (induction evs arbitrary: c) (simp_all add: group_step_wf)

lemma coordinator_new_wf: "coordinator_wf (coordinator_new l n)"
  by (simp add: coordinator_wf_def coordinator_new_def)

text \<open>
  C34. The groups are well formed in every run. Whatever joins, heartbeats, leaves, commits, reaper turns and topic changes
  reach a new coordinator, in whatever order, every group is \<open>Empty\<close>, \<open>Stable\<close> or preparing a rebalance; it is
  \<open>Empty\<close> exactly when it has no member; while it prepares a rebalance nothing is assigned; and when it is \<open>Stable\<close> its
  assignment gives no partition to two members, or twice to one, or to somebody who is not a member.
\<close>

theorem coordinator_well_formed:
  assumes "\<forall>ev \<in> set evs. event_ok ev" and "map_of (gc_groups (fold (group_step rl hash oc) evs (coordinator_new l n))) g = Some s"
  shows "cg_group_id s = g \<and> group_wf s"
  using coordinator_wfD [OF group_run_wf [OF coordinator_new_wf assms(1)] assms(2)] by simp

definition sample_join :: "string \<Rightarrow> group_event" where
  "sample_join m = Join id id 5 ''u'' \<lparr>jr_group_id = ''g'', jr_member_id = m, jr_session_timeout_ms = 10, jr_topics = [''t'']\<rparr>"

definition sample_log_ops :: "unit record_log_ops" where
  "sample_log_ops = \<lparr>rl_append = (\<lambda>r l. (Ok (), l)), rl_sync = (\<lambda>l. (Ok (), l)), rl_next_offset = (\<lambda>tp l. 0)\<rparr>"

definition sample_offset_codec :: offset_codec where
  "sample_offset_codec = \<lparr>oc_offset = (\<lambda>off. Some (le_bytes 8 off)), oc_bytes = Some, oc_crc = (\<lambda>bs. 0)\<rparr>"

definition sample_group :: "unit group_coordinator" where
  "sample_group = fold (group_step sample_log_ops (\<lambda>g. 0) sample_offset_codec) [Topics ''t'' 3, sample_join ''a'', sample_join ''b''] (coordinator_new () 50)"

lemmas sample_group_eval = sample_group_def sample_join_def handle_join_group_def Let_def coordinator_new_def update_topic_partitions_def
  put_group_def begin_rebalance_def new_group_def hm_entry_def all_partitions_def upt_conv_Cons

lemma sample_group_state:
  "map_of (gc_groups sample_group) ''g'' = Some
     \<lparr>cg_group_id = ''g'', cg_generation_id = 2,
      cg_members = [(''a'', \<lparr>ms_member_id = ''a'', ms_subscribed_topics = [''t''], ms_last_heartbeat = Some 5, ms_session_timeout_ms = 10\<rparr>),
                    (''b'', \<lparr>ms_member_id = ''b'', ms_subscribed_topics = [''t''], ms_last_heartbeat = Some 5, ms_session_timeout_ms = 10\<rparr>)],
      cg_state = Stable,
      cg_assignment = [(''a'', [TopicPartition ''t'' 0, TopicPartition ''t'' 2]), (''b'', [TopicPartition ''t'' 1])],
      cg_committed_offsets = []\<rparr>"
  by (simp add: sample_group_eval)

lemma sample_group_wf: "coordinator_wf sample_group"
  unfolding sample_group_def by (rule group_run_wf) (simp_all add: coordinator_new_wf sample_join_def)

theorem coordinator_well_formed_witness:
  "\<exists>s. map_of (gc_groups sample_group) ''g'' = Some s \<and> cg_state s = Stable \<and> cg_group_id s = ''g'' \<and> group_wf s"
proof -
  obtain s where s: "map_of (gc_groups sample_group) ''g'' = Some s" "cg_state s = Stable" using sample_group_state by auto
  have "cg_group_id s = ''g'' \<and> group_wf s"
    by (rule coordinator_well_formed [where evs = "[Topics ''t'' 3, sample_join ''a'', sample_join ''b'']"])
      (use s(1) in \<open>simp_all add: sample_join_def sample_group_def del: fold_simps\<close>)
  with s show ?thesis by blast
qed

text \<open>
  C13. A join divides the partitions. After a join in any run, the partitions of all topics that some member subscribes
  to (with one partition for a topic of unknown size) are exactly the assigned ones; each belongs to one member, once; only
  members own partitions, the joining member is one of them; and no member has two partitions more than another.
\<close>

theorem join_divides_partitions:
  assumes "\<forall>ev \<in> set evs. event_ok ev" and "c = fold (group_step rl hash oc) evs (coordinator_new l n)"
    and "handle_join_group mo to now uuid rq c = (rp, c')" and "map_of (gc_groups c') (jr_group_id rq) = Some s"
    and "event_ok (Join mo to now uuid rq)"
  shows "let duty = hm_entry [] (jp_assigned_partitions rp); members = fst ` set (cg_members s) in
     jp_member_id rp \<in> members \<and> fst ` set (jp_assigned_partitions rp) \<subseteq> members \<and>
     (\<Union>m \<in> members. set (duty m)) = {TopicPartition t p | t p.
        (\<exists>x \<in> ran (map_of (cg_members s)). t \<in> set (ms_subscribed_topics x)) \<and> p < hm_entry 1 (gc_topic_partitions c) t} \<and>
     (\<forall>m m'. m \<noteq> m' \<longrightarrow> set (duty m) \<inter> set (duty m') = {}) \<and> (\<forall>m. distinct (duty m)) \<and>
     (\<forall>m \<in> members. \<forall>m' \<in> members. length (duty m) \<le> length (duty m') + 1)"
proof -
  have wf: "coordinator_wf c" unfolding assms(2) by (rule group_run_wf [OF coordinator_new_wf assms(1)])
  have "\<forall>xs. mset (mo xs) = mset xs" "\<forall>xs. mset (to xs) = mset xs" using assms(5) by simp_all
  note a = join_assignment [OF assms(3) wf this assms(4)]
  show ?thesis unfolding Let_def by (intro conjI allI ballI impI a)
qed

theorem join_divides_partitions_witness:
  "let rp = fst (handle_join_group id id 5 ''u'' \<lparr>jr_group_id = ''g'', jr_member_id = [], jr_session_timeout_ms = 10, jr_topics = [''s'']\<rparr> sample_group)
   in jp_member_id rp = ''u'' \<and> (\<Union>m \<in> {''a'', ''b'', ''u''}. set (hm_entry [] (jp_assigned_partitions rp) m)) =
        {TopicPartition ''t'' 0, TopicPartition ''t'' 1, TopicPartition ''t'' 2, TopicPartition ''s'' 0}"
proof -
  let ?rq = "\<lparr>jr_group_id = ''g'', jr_member_id = [], jr_session_timeout_ms = 10, jr_topics = [''s'']\<rparr>"
  obtain rp c' where j: "handle_join_group id id 5 ''u'' ?rq sample_group = (rp, c')" by fastforce
  obtain s where s: "map_of (gc_groups c') ''g'' = Some s" using join_group_result [OF j] by auto
  have "(\<Union>m \<in> fst ` set (cg_members s). set (hm_entry [] (jp_assigned_partitions rp) m)) = {TopicPartition t p | t p.
        (\<exists>x \<in> ran (map_of (cg_members s)). t \<in> set (ms_subscribed_topics x)) \<and> p < hm_entry 1 (gc_topic_partitions sample_group) t}"
    using join_divides_partitions [where evs = "[Topics ''t'' 3, sample_join ''a'', sample_join ''b'']" and n = 50 and l = "()", OF _ sample_group_def j] s
    by (simp add: sample_join_def Let_def)
  moreover have "cg_members s = cg_members (the (map_of (gc_groups sample_group) ''g'')) @
      [(''u'', \<lparr>ms_member_id = ''u'', ms_subscribed_topics = [''s''], ms_last_heartbeat = Some 5, ms_session_timeout_ms = 10\<rparr>)]"
    using s j by (auto simp: handle_join_group_def Let_def hm_entry_def sample_group_state)
  moreover have "jp_member_id rp = ''u''" using j by (auto simp: handle_join_group_def Let_def)
  moreover have "gc_topic_partitions sample_group = [(''t'', 3)]" by (simp add: sample_group_eval)
  moreover have "ran (map_of (cg_members s)) = snd ` set (cg_members s)" by (rule ran_distinct) (simp add: calculation(2) sample_group_state)
  moreover have "{TopicPartition t p | t p. (t = ''t'' \<or> t = ''s'') \<and> p < hm_entry 1 [(''t'', 3)] t} =
      {TopicPartition ''t'' 0, TopicPartition ''t'' 1, TopicPartition ''t'' 2, TopicPartition ''s'' 0}"
    by (auto simp: hm_entry_def less_Suc_eq numeral_3_eq_3 numeral_2_eq_2)
  ultimately show ?thesis unfolding Let_def j by (simp add: sample_group_state)
qed

section \<open>Generations fence off old members\<close>

text \<open>After a join with generation \<open>G\<close>: the generation is past \<open>G\<close>, or it is \<open>G\<close> and the next join will raise it.\<close>

definition fenced :: "string \<Rightarrow> nat \<Rightarrow> 'l group_coordinator \<Rightarrow> bool" where
  "fenced g G c \<longleftrightarrow> (\<exists>s. map_of (gc_groups c) g = Some s \<and> G \<le> cg_generation_id s \<and> (cg_generation_id s = G \<longrightarrow> cg_state s \<in> {Stable, Empty}))"

fun join_generation :: "string \<Rightarrow> group_event \<Rightarrow> 'l group_coordinator \<Rightarrow> nat list" where
  "join_generation g (Join mo to now uuid rq) c =
     (if jr_group_id rq = g then [jp_generation_id (fst (handle_join_group mo to now uuid rq c))] else [])"
| "join_generation g _ c = []"

fun join_generations :: "'l record_log_ops \<Rightarrow> (string \<Rightarrow> u64) \<Rightarrow> offset_codec \<Rightarrow> string \<Rightarrow> group_event list \<Rightarrow> 'l group_coordinator \<Rightarrow> nat list" where
  "join_generations rl hash oc g [] c = []"
| "join_generations rl hash oc g (ev # evs) c = join_generation g ev c @ join_generations rl hash oc g evs (group_step rl hash oc ev c)"

lemma join_fenced:
  shows "fenced (jr_group_id rq) (jp_generation_id (fst (handle_join_group mo to now uuid rq c))) (snd (handle_join_group mo to now uuid rq c))"
    and "fenced (jr_group_id rq) G c \<Longrightarrow> G < jp_generation_id (fst (handle_join_group mo to now uuid rq c))"
    and "g \<noteq> jr_group_id rq \<Longrightarrow> map_of (gc_groups (snd (handle_join_group mo to now uuid rq c))) g = map_of (gc_groups c) g"
  by (auto simp: fenced_def handle_join_group_def Let_def hm_entry_def)

lemma reap_generation:
  shows "cg_generation_id s \<le> cg_generation_id (fst (reap_group now s))"
    and "cg_generation_id (fst (reap_group now s)) = cg_generation_id s \<Longrightarrow> cg_state s \<in> {Stable, Empty} \<Longrightarrow> cg_state (fst (reap_group now s)) \<in> {Stable, Empty}"
  by (auto simp: reap_group_def Let_def split: if_splits)

lemma other_fenced:
  assumes "fenced g G c"
  shows "fenced g G (snd (handle_heartbeat now hb c))" and "fenced g G (snd (handle_leave_group lv c))"
    and "fenced g G (snd (handle_commit_offset rl hash oc ts cm c))" and "fenced g G (reaper_turn now c)"
    and "fenced g G (update_topic_partitions t n c)"
proof -
  obtain s where s: "map_of (gc_groups c) g = Some s" "G \<le> cg_generation_id s" "cg_generation_id s = G \<longrightarrow> cg_state s \<in> {Stable, Empty}"
    using assms by (auto simp: fenced_def)
  show "fenced g G (snd (handle_heartbeat now hb c))"
    using s by (auto simp: fenced_def handle_heartbeat_def split: option.splits)
  show "fenced g G (snd (handle_leave_group lv c))"
    using s by (auto simp: fenced_def handle_leave_group_def Let_def split: option.splits)
  show "fenced g G (snd (handle_commit_offset rl hash oc ts cm c))"
    using s by (auto simp: fenced_def handle_commit_offset_def Let_def split: option.splits prod.splits)
  have "G \<le> cg_generation_id (fst (reap_group now s))" using s(2) reap_generation(1) [where s = s and now = now] by simp
  moreover have "cg_state (fst (reap_group now s)) \<in> {Stable, Empty}" if "cg_generation_id (fst (reap_group now s)) = G"
    using that s(2,3) reap_generation [where s = s and now = now] by auto
  ultimately show "fenced g G (reaper_turn now c)" using s(1) by (auto simp: fenced_def reaper_groups)
  show "fenced g G (update_topic_partitions t n c)" using s by (simp add: fenced_def update_topic_partitions_def)
qed

lemma step_fenced:
  assumes "fenced g G c" and "join_generation g ev c = []"
  shows "fenced g G (group_step rl hash oc ev c)"
proof (cases ev)
  case (Join mo to now uuid rq)
  then have "g \<noteq> jr_group_id rq" using assms(2) by auto
  then show ?thesis using assms(1) Join by (simp add: fenced_def join_fenced(3))
qed (use other_fenced [OF assms(1)] in simp_all)

lemma join_generation_cases:
  obtains "join_generation g ev c = []"
  | G where "join_generation g ev c = [G]" and "fenced g G (group_step rl hash oc ev c)" and "\<And>G'. fenced g G' c \<Longrightarrow> G' < G"
proof (cases "join_generation g ev c = []")
  case False
  then obtain mo to now uuid rq where ev: "ev = Join mo to now uuid rq" "jr_group_id rq = g"
    by (cases ev) (auto split: if_splits)
  show thesis by (rule that(2)) (use ev join_fenced(1,2) [where rq = rq] in auto)
qed (rule that(1))

lemma join_generations_fenced:
  "fenced g G c \<Longrightarrow> sorted_wrt (<) (G # join_generations rl hash oc g evs c) \<and>
     fenced g (last (G # join_generations rl hash oc g evs c)) (fold (group_step rl hash oc) evs c)"
proof (induction evs arbitrary: c G)
  case (Cons ev evs)
  show ?case
  proof (cases rule: join_generation_cases [where g = g and ev = ev and c = c and rl = rl and hash = hash and oc = oc])
    case 1
    then show ?thesis using Cons.IH [OF step_fenced [OF Cons.prems 1]] by simp
  next
    case (2 G')
    have "G < G'" using 2(3) Cons.prems .
    then show ?thesis using Cons.IH [OF 2(2)] 2(1) by auto
  qed
qed simp

lemma join_generations_run:
  "sorted_wrt (<) (join_generations rl hash oc g evs c) \<and>
   (join_generations rl hash oc g evs c \<noteq> [] \<longrightarrow> fenced g (last (join_generations rl hash oc g evs c)) (fold (group_step rl hash oc) evs c))"
proof (induction evs arbitrary: c)
  case (Cons ev evs)
  show ?case
  proof (cases rule: join_generation_cases [where g = g and ev = ev and c = c and rl = rl and hash = hash and oc = oc])
    case 1
    then show ?thesis using Cons.IH by simp
  next
    case (2 G)
    then show ?thesis using join_generations_fenced [OF 2(2), of rl hash oc evs] by simp
  qed
qed simp

text \<open>
  C9. Generations fence off old members. In every run the generations that successive joins of a group return strictly
  increase, so no two join answers carry different assignments for one generation. Once a join has returned generation
  \<open>G\<close>, a commit with a smaller generation is refused with code 22 and changes nothing, and a heartbeat with one is answered
  with 22 or 27 and changes nothing.
\<close>

theorem generations_fence_members:
  assumes "G \<in> set (join_generations rl hash oc g evs c)"
  shows "let c' = fold (group_step rl hash oc) evs c in
     sorted_wrt (<) (join_generations rl hash oc g evs c) \<and>
     (\<forall>ts rq. cr_group_id rq = g \<longrightarrow> cr_generation_id rq < G \<longrightarrow> handle_commit_offset rl hash oc ts rq c' = (22, c')) \<and>
     (\<forall>now rq. ch_group_id rq = g \<longrightarrow> ch_generation_id rq < G \<longrightarrow> handle_heartbeat now rq c' \<in> {(22, c'), (27, c')})"
proof -
  let ?gs = "join_generations rl hash oc g evs c" and ?c = "fold (group_step rl hash oc) evs c"
  have srt: "sorted_wrt (<) ?gs" and ne: "?gs \<noteq> []" using join_generations_run [of rl hash oc g evs c] assms by auto
  have "G \<le> last ?gs"
  proof -
    obtain i where "i < length ?gs" "?gs ! i = G" using assms by (auto simp: in_set_conv_nth)
    moreover have "?gs ! i \<le> ?gs ! (length ?gs - 1)"
      using srt \<open>i < length ?gs\<close> by (cases "i = length ?gs - 1") (auto simp: sorted_wrt_iff_nth_less intro: less_imp_le)
    ultimately show ?thesis using ne by (simp add: last_conv_nth)
  qed
  moreover have "fenced g (last ?gs) ?c" using join_generations_run [of rl hash oc g evs c] ne by blast
  ultimately obtain s where "map_of (gc_groups ?c) g = Some s" "G \<le> cg_generation_id s" by (auto simp: fenced_def)
  then show ?thesis using srt unfolding Let_def by (auto simp: handle_commit_offset_def handle_heartbeat_def)
qed

theorem generations_fence_members_witness:
  "let evs = [Topics ''t'' 3, sample_join ''a'', sample_join ''b'']; rl = sample_log_ops; oc = sample_offset_codec;
       rq = \<lparr>cr_group_id = ''g'', cr_member_id = ''a'', cr_generation_id = 1, cr_offsets = [(TopicPartition ''t'' 0, 7)]\<rparr>
   in join_generations rl (\<lambda>g. 0) oc ''g'' evs (coordinator_new () 50) = [1, 2] \<and>
      handle_commit_offset rl (\<lambda>g. 0) oc 0 rq sample_group = (22, sample_group)"
proof -
  let ?evs = "[Topics ''t'' 3, sample_join ''a'', sample_join ''b'']"
  have gs: "join_generations sample_log_ops (\<lambda>g. 0) sample_offset_codec ''g'' ?evs (coordinator_new () 50) = [1, 2]"
    by (simp add: sample_group_eval)
  then show ?thesis
    using generations_fence_members [of 2 sample_log_ops "\<lambda>g. 0" sample_offset_codec "''g''" ?evs "coordinator_new () 50"]
    by (simp add: Let_def sample_group_def del: join_generations.simps fold_simps)
qed

section \<open>Commits and fetches\<close>

definition committed :: "'l group_coordinator \<Rightarrow> string \<Rightarrow> topic_partition \<Rightarrow> offset option" where
  "committed c g = (case map_of (gc_groups c) g of None \<Rightarrow> Map.empty | Some s \<Rightarrow> map_of (cg_committed_offsets s))"

lemma fetch_committed:
  assumes "map_of (gc_groups c) (fr_group_id rq) = Some s"
  shows "fp_error_code (handle_fetch_offset rq c) = 0"
    and "map_of (fp_offsets (handle_fetch_offset rq c)) = committed c (fr_group_id rq) |` set (fr_topic_partitions rq)"
proof -
  have "map_of (fold (\<lambda>tp result. case f tp of None \<Rightarrow> result | Some off \<Rightarrow> AList.update tp off result) tps acc) =
      map_of acc ++ (f |` set tps)" for f :: "topic_partition \<Rightarrow> offset option" and tps acc
    by (induction tps arbitrary: acc) (auto simp: fun_eq_iff map_add_def restrict_map_def update_conv' split: option.splits)
  then show "map_of (fp_offsets (handle_fetch_offset rq c)) = committed c (fr_group_id rq) |` set (fr_topic_partitions rq)"
    using assms by (simp add: handle_fetch_offset_def committed_def)
qed (use assms in \<open>simp add: handle_fetch_offset_def\<close>)

lemma commit_loop_committed:
  "commit_loop rl oc ts p g offs l cm = (True, l', cm') \<Longrightarrow> distinct (map fst offs) \<Longrightarrow> map_of cm' = map_of cm ++ map_of offs"
proof (induction rl oc ts p g offs l cm arbitrary: l' cm' rule: commit_loop.induct)
  case (2 rl oc ts p g tp off rest l cm)
  then have "map_of cm' = (map_of cm)(tp \<mapsto> off) ++ map_of rest" by (auto simp: update_conv' fun_upd_def split: sum.splits prod.splits)
  moreover have "map_of rest tp = None" using 2(3) by (simp add: map_of_eq_None_iff)
  ultimately show ?case by (auto simp: fun_eq_iff map_add_def split: option.splits)
qed simp

fun commits_to :: "string \<Rightarrow> group_event \<Rightarrow> bool" where
  "commits_to g (Commit ts rq) \<longleftrightarrow> cr_group_id rq = g"
| "commits_to g _ \<longleftrightarrow> False"

lemma step_committed:
  assumes "\<not> commits_to g ev" and "map_of (gc_groups c) g = Some s"
  shows "committed (group_step rl hash oc ev c) g = committed c g" and "map_of (gc_groups (group_step rl hash oc ev c)) g \<noteq> None"
proof -
  have reap: "cg_committed_offsets (fst (reap_group now s)) = cg_committed_offsets s" for now s
    by (simp add: reap_group_def Let_def)
  show "committed (group_step rl hash oc ev c) g = committed c g" using assms
    by (cases ev) (auto simp: committed_def handle_join_group_def handle_heartbeat_def handle_leave_group_def handle_commit_offset_def reaper_groups
        reap update_topic_partitions_def Let_def hm_entry_def split: option.splits prod.splits)
  show "map_of (gc_groups (group_step rl hash oc ev c)) g \<noteq> None" using assms
    by (cases ev) (auto simp: handle_join_group_def handle_heartbeat_def handle_leave_group_def handle_commit_offset_def reaper_groups
        update_topic_partitions_def Let_def split: option.splits prod.splits)
qed

lemma run_committed:
  "\<forall>ev \<in> set evs. \<not> commits_to g ev \<Longrightarrow> map_of (gc_groups c) g = Some s \<Longrightarrow>
     committed (fold (group_step rl hash oc) evs c) g = committed c g \<and> map_of (gc_groups (fold (group_step rl hash oc) evs c)) g \<noteq> None"
proof (induction evs arbitrary: c s)
  case (Cons ev evs)
  have n: "\<not> commits_to g ev" using Cons.prems(1) by simp
  note st = step_committed [where g = g and ev = ev and rl = rl and hash = hash and oc = oc, OF n Cons.prems(2)]
  then obtain s' where "map_of (gc_groups (group_step rl hash oc ev c)) g = Some s'" by auto
  from Cons.IH [OF _ this] Cons.prems(1) st show ?case by simp
qed simp



section \<open>What the commits leave in the log\<close>

lemma commit_loop_slot:
  assumes "commit_loop (store_record_log d) oc ts p g offs st cm = (True, st', cm')"
  defines "P \<equiv> TopicPartition ''__consumer_offsets'' p"
  shows "next_offset (ct_index st') P = (if offs = [] then next_offset (ct_index st) P else max (next_offset (ct_index st) P) 1)"
    and "map_option he_record (hot_at (ct_index st') P 0) =
       (if offs = [] then map_option he_record (hot_at (ct_index st) P 0) else Some (offset_record oc ts p g (fst (last offs)) (snd (last offs))))"
    and "o' \<noteq> 0 \<Longrightarrow> hot_at (ct_index st') P o' = hot_at (ct_index st) P o'"
proof -
  have "next_offset (ct_index st') P = (if offs = [] then next_offset (ct_index st) P else max (next_offset (ct_index st) P) 1) \<and>
     map_option he_record (hot_at (ct_index st') P 0) =
       (if offs = [] then map_option he_record (hot_at (ct_index st) P 0) else Some (offset_record oc ts p g (fst (last offs)) (snd (last offs)))) \<and>
     (\<forall>o'. o' \<noteq> 0 \<longrightarrow> hot_at (ct_index st') P o' = hot_at (ct_index st) P o')"
    using assms(1)
  proof (induction offs arbitrary: st cm)
    case (Cons e rest)
    obtain tp off where e: "e = (tp, off)" by (cases e)
    let ?r = "offset_record oc ts p g tp off"
    let ?idx = "insert_hot P 0 ?r (mem_size (sd_record_size d) ?r) (ct_index st)"
    obtain loc w where ap: "lg_append (sd_log d) ?r (ps_wal st) = (Ok loc, w)"
      and rest: "commit_loop (store_record_log d) oc ts p g rest (st\<lparr>ct_index := ?idx, ps_wal := w\<rparr>) (AList.update tp off cm) = (True, st', cm')"
      using Cons.prems by (auto simp: e P_def store_record_log_def store_append_def Let_def offset_record_def split: sum.splits prod.splits)
    from Cons.IH [OF rest] show ?case by (simp add: e index_views)
  qed simp
  then show "next_offset (ct_index st') P = (if offs = [] then next_offset (ct_index st) P else max (next_offset (ct_index st) P) 1)"
    "map_option he_record (hot_at (ct_index st') P 0) =
       (if offs = [] then map_option he_record (hot_at (ct_index st) P 0) else Some (offset_record oc ts p g (fst (last offs)) (snd (last offs))))"
    "o' \<noteq> 0 \<Longrightarrow> hot_at (ct_index st') P o' = hot_at (ct_index st) P o'" by auto
qed

text \<open>
  The committed offsets overwrite each other in the log. Every offset record is written at offset 0 of its partition of
  \<open>__consumer_offsets\<close>. So on the storage engine a commit of any number of offsets that is answered with 0 leaves that
  partition with at most one more record than before, at offset 0, and the only offset it can be read back for is the last one of the
  request, while \<open>next_offset\<close> grows to 1 and no further.
\<close>

theorem commits_overwrite_in_log:
  assumes "handle_commit_offset (store_record_log d) hash oc ts rq c = (0, c')" and "cr_offsets rq = offs @ [(tp, off)]"
  shows "let p = partition_for hash c (cr_group_id rq); P = TopicPartition ''__consumer_offsets'' p;
             before = ct_index (gc_record_log c); after = ct_index (gc_record_log c')
         in next_offset after P = max (next_offset before P) 1 \<and>
            map_option he_record (hot_at after P 0) = Some (offset_record oc ts p (cr_group_id rq) tp off) \<and>
            (\<forall>o' > 0. hot_at after P o' = hot_at before P o')"
proof -
  let ?g = "cr_group_id rq" let ?p = "partition_for hash c ?g"
  obtain cm0 st cm where lp: "commit_loop (store_record_log d) oc ts ?p ?g (cr_offsets rq) (gc_record_log c) cm0 = (True, st, cm)"
    and st: "gc_record_log c' = st"
    using assms(1) by (auto simp: handle_commit_offset_def Let_def split: option.splits if_splits prod.splits)
  note slot = commit_loop_slot [OF lp]
  show ?thesis unfolding Let_def st using slot(1,2) slot(3) assms(2) by simp
qed

lemma sample_append_ok:
  "\<exists>l. rl_append (store_record_log engine_sample) r st = (Ok (), l)"
proof -
  obtain loc w where "lg_append (sd_log engine_sample) r (ps_wal st) = (Ok loc, w)"
    by (cases "wal_append wal_sample_ser wal_sample_config r (ps_wal st)") (simp add: engine_deps_def segmented_ops_def)
  then show ?thesis by (simp add: store_record_log_def store_append_def Let_def)
qed

lemma commit_loop_all_ok:
  assumes "\<And>r l. \<exists>l'. rl_append rl r l = (Ok (), l')"
  shows "\<exists>l' cm'. commit_loop rl oc ts p g offs l cm = (True, l', cm')"
proof (induction offs arbitrary: l cm)
  case (Cons e offs)
  obtain tp off where e: "e = (tp, off)" by (cases e)
  obtain l' where "rl_append rl (offset_record oc ts p g tp off) l = (Ok (), l')" using assms by blast
  then show ?case using Cons.IH by (simp add: e)
qed simp

theorem commits_overwrite_in_log_witness:
  "let st = (snd (store_new engine_sample (wal_new 0 []) Map.empty (lru_new 100) []) :: (local_fs, seg_wal, lru_cache) partition_store);
       P = TopicPartition ''__consumer_offsets'' 0;
       c = (coordinator_new st 50)\<lparr>gc_groups := gc_groups sample_group\<rparr>;
       rq = \<lparr>cr_group_id = ''g'', cr_member_id = ''a'', cr_generation_id = 2,
             cr_offsets = [(TopicPartition ''t'' 0, 7), (TopicPartition ''t'' 2, 9)]\<rparr>;
       (code, c') = handle_commit_offset (store_record_log engine_sample) (\<lambda>g. 0) sample_offset_codec 0 rq c
   in code = 0 \<and> next_offset (ct_index (gc_record_log c')) P = max (next_offset (ct_index st) P) 1"
proof -
  let ?st = "snd (store_new engine_sample (wal_new 0 []) Map.empty (lru_new 100) []) :: (local_fs, seg_wal, lru_cache) partition_store"
  let ?c = "(coordinator_new ?st 50)\<lparr>gc_groups := gc_groups sample_group\<rparr>"
  let ?rq = "\<lparr>cr_group_id = ''g'', cr_member_id = ''a'', cr_generation_id = 2,
      cr_offsets = [(TopicPartition ''t'' 0, 7), (TopicPartition ''t'' 2, 9)]\<rparr>"
  have p: "partition_for (\<lambda>g. 0) ?c ''g'' = 0" "gc_record_log ?c = ?st" by (simp_all add: partition_for_def coordinator_new_def)
  obtain l' cm' where "commit_loop (store_record_log engine_sample) sample_offset_codec 0 0 ''g''
      [(TopicPartition ''t'' 0, 7), (TopicPartition ''t'' 2, 9)] ?st [] = (True, l', cm')"
    using commit_loop_all_ok [OF sample_append_ok] by blast
  then obtain c' where c': "handle_commit_offset (store_record_log engine_sample) (\<lambda>g. 0) sample_offset_codec 0 ?rq ?c = (0, c')"
    by (simp add: handle_commit_offset_def sample_group_state p del: commit_loop.simps)
  from commits_overwrite_in_log [OF c', of "[(TopicPartition ''t'' 0, 7)]" "TopicPartition ''t'' 2" 9] c' show ?thesis
    by (simp add: p Let_def)
qed

end
