(* ===== verification/Group_Snapshots.thy ===== *)
theory Group_Snapshots
  imports Consumer_Group
begin

text \<open>
  The snapshots of the consumer groups (\<open>consumer_group/snapshot.rs\<close>), the task that saves them and the recovery that
  loads them (\<open>consumer_group/coordinator.rs\<close>). Disk errors are left out; bincode is an argument.
\<close>

section \<open>Snapshots\<close>

text \<open>
  The directory of one partition of \<open>__consumer_offsets\<close>: file names and contents, in listing order. A
  directory that does not exist is read like an empty one.
\<close>

type_synonym snapshot_dir = "(string \<times> bytes) list"

definition snapshot_name :: "nat \<Rightarrow> string" where
  "snapshot_name off = ''snapshot-'' @ show_nat off @ ''.bin''"

definition snapshot_tmp :: "nat \<Rightarrow> string" where
  "snapshot_tmp off = ''snapshot-'' @ show_nat off @ ''.tmp''"

definition parse_snapshot_name :: "string \<Rightarrow> nat option" where
  "parse_snapshot_name name =
     (if prefix ''snapshot-'' name \<and> suffix ''.bin'' name
      then parse_uint u64_max (take (length name - 4 - 9) (drop 9 name)) else None)"

text \<open>Writing the temporary file, then renaming it: the two states a crash can leave.\<close>

definition write_tmp :: "nat \<Rightarrow> bytes \<Rightarrow> snapshot_dir \<Rightarrow> snapshot_dir" where
  "write_tmp off bs dir = AList.update (snapshot_tmp off) bs dir"

definition rename_tmp :: "nat \<Rightarrow> bytes \<Rightarrow> snapshot_dir \<Rightarrow> snapshot_dir" where
  "rename_tmp off bs dir = AList.update (snapshot_name off) bs (AList.delete (snapshot_tmp off) dir)"

type_synonym groups = "(string \<times> consumer_group_state) list"

definition save_snapshot :: "(groups \<Rightarrow> bytes) \<Rightarrow> nat \<Rightarrow> groups \<Rightarrow> snapshot_dir \<Rightarrow> snapshot_dir" where
  "save_snapshot ser off gs dir = rename_tmp off (ser gs) (write_tmp off (ser gs) dir)"

fun latest_loop :: "snapshot_dir \<Rightarrow> nat \<Rightarrow> bytes option \<Rightarrow> nat \<times> bytes option" where
  "latest_loop [] latest_offset latest_file = (latest_offset, latest_file)"
| "latest_loop ((name, bs) # rest) latest_offset latest_file =
     (case parse_snapshot_name name of
        None \<Rightarrow> latest_loop rest latest_offset latest_file
      | Some off \<Rightarrow> if off \<ge> latest_offset then latest_loop rest off (Some bs) else latest_loop rest latest_offset latest_file)"

definition load_latest_snapshot :: "(bytes \<Rightarrow> groups option) \<Rightarrow> snapshot_dir \<Rightarrow> (nat \<times> groups) option result" where
  "load_latest_snapshot deser dir =
     (case latest_loop dir 0 None of
        (off, None) \<Rightarrow> Ok None
      | (off, Some bs) \<Rightarrow> (case deser bs of None \<Rightarrow> Err (Serialization ''bincode'') | Some gs \<Rightarrow> Ok (Some (off, gs))))"

definition cleanup_snapshots :: "nat \<Rightarrow> snapshot_dir \<Rightarrow> snapshot_dir" where
  "cleanup_snapshots keep dir =
     (let snapshots = concat (map (\<lambda>(name, bs). case parse_snapshot_name name of None \<Rightarrow> [] | Some off \<Rightarrow> [(off, name)]) dir)
      in if length snapshots \<le> keep then dir
         else fold (\<lambda>(off, name) d. AList.delete name d) (drop keep (sort_key (\<lambda>s. - int (fst s)) snapshots)) dir)"

type_synonym snapshot_disk = "nat \<Rightarrow> snapshot_dir"

definition cleanup_old_snapshots :: "nat \<Rightarrow> nat \<Rightarrow> snapshot_disk \<Rightarrow> snapshot_disk" where
  "cleanup_old_snapshots partition_count keep disk = (\<lambda>p. if p < partition_count then cleanup_snapshots keep (disk p) else disk p)"

definition partition_groups :: "(string \<Rightarrow> u64) \<Rightarrow> nat \<Rightarrow> nat \<Rightarrow> groups \<Rightarrow> groups" where
  "partition_groups hash partition_count p gs = filter (\<lambda>(g, s). unat (hash g) mod partition_count = p) gs"

text \<open>One turn of the snapshot task; its state is the commit count at the last snapshot.\<close>

definition snapshot_turn ::
  "(groups \<Rightarrow> bytes) \<Rightarrow> (string \<Rightarrow> u64) \<Rightarrow> 'l group_coordinator \<Rightarrow> nat \<Rightarrow> snapshot_disk \<Rightarrow> nat \<times> snapshot_disk" where
  "snapshot_turn ser hash c last_snapshot_commit disk =
     (let current_commits = unat (gc_commit_count c);
          n = gc_offsets_partition_count c
      in if current_commits - last_snapshot_commit < 10000 then (last_snapshot_commit, disk)
         else if gc_groups c = [] then (last_snapshot_commit, disk)
         else
           (let disk1 = (\<lambda>p. if p < n \<and> partition_groups hash n p (gc_groups c) \<noteq> []
                             then save_snapshot ser current_commits (partition_groups hash n p (gc_groups c)) (disk p) else disk p)
            in (current_commits, cleanup_old_snapshots n 3 disk1)))"

fun recover_groups :: "(bytes \<Rightarrow> groups option) \<Rightarrow> snapshot_disk \<Rightarrow> nat list \<Rightarrow> groups \<Rightarrow> groups" where
  "recover_groups deser disk [] gs = gs"
| "recover_groups deser disk (p # ps) gs =
     (case load_latest_snapshot deser (disk p) of
        Inr (Some (off, state)) \<Rightarrow> recover_groups deser disk ps (fold (\<lambda>(g, s). AList.update g s) state gs)
      | _ \<Rightarrow> recover_groups deser disk ps gs)"

definition recover_from_snapshots :: "(bytes \<Rightarrow> groups option) \<Rightarrow> snapshot_disk \<Rightarrow> 'l group_coordinator \<Rightarrow> 'l group_coordinator" where
  "recover_from_snapshots deser disk c =
     c\<lparr>gc_groups := recover_groups deser disk [0..<gc_offsets_partition_count c] (gc_groups c)\<rparr>"

section \<open>A directory as a map from offsets to snapshots\<close>

lemma parse_digits_bound: "parse_digits mx acc s = Some n \<Longrightarrow> acc \<le> mx \<Longrightarrow> n \<le> mx"
  by (induction mx acc s rule: parse_digits.induct) (auto simp: Let_def split: if_splits)

lemma parse_uint_bound: "parse_uint mx s = Some n \<Longrightarrow> n \<le> mx"
  using parse_digits_bound [of mx 0] by (auto simp: parse_uint_def simp del: parse_digits.simps split: list.splits if_splits)

lemma parse_snapshot_bound: "parse_snapshot_name name = Some off \<Longrightarrow> off \<le> u64_max"
  using parse_uint_bound by (auto simp: parse_snapshot_name_def split: if_splits)

lemma parse_snapshot [simp]: "off \<le> u64_max \<Longrightarrow> parse_snapshot_name (snapshot_name off) = Some off"
proof -
  assume off: "off \<le> u64_max"
  have "suffix ''.bin'' (snapshot_name off)" by (rule suffixI [of _ "''snapshot-'' @ show_nat off"]) (simp add: snapshot_name_def)
  moreover have "prefix ''snapshot-'' (snapshot_name off)" by (simp add: snapshot_name_def)
  ultimately show ?thesis using off by (simp add: parse_snapshot_name_def snapshot_name_def)
qed

lemma parse_tmp [simp]: "parse_snapshot_name (snapshot_tmp off) = None"
  by (auto simp: parse_snapshot_name_def snapshot_tmp_def suffix_def)

lemma snapshot_name_inject [simp]: "snapshot_name a = snapshot_name b \<longleftrightarrow> a = b"
  by (simp add: snapshot_name_def)

text \<open>Only names that \<open>save_snapshot\<close> writes count as snapshots.\<close>

definition canonical :: "snapshot_dir \<Rightarrow> bool" where
  "canonical dir \<longleftrightarrow> distinct (map fst dir) \<and>
     (\<forall>name \<in> fst ` set dir. \<forall>off. parse_snapshot_name name = Some off \<longrightarrow> name = snapshot_name off)"

definition snaps :: "snapshot_dir \<Rightarrow> nat \<Rightarrow> bytes option" where
  "snaps dir off = (if off \<le> u64_max then map_of dir (snapshot_name off) else None)"

lemma tmp_not_name: "off \<le> u64_max \<Longrightarrow> snapshot_name off \<noteq> snapshot_tmp off'"
  using parse_snapshot parse_tmp by (metis option.distinct(1))

lemma snaps_write_tmp: "snaps (write_tmp off bs dir) = snaps dir"
  by (auto simp: snaps_def write_tmp_def fun_eq_iff update_conv' tmp_not_name)

lemma snaps_save: "off \<le> u64_max \<Longrightarrow> snaps (save_snapshot ser off gs dir) = (snaps dir)(off \<mapsto> ser gs)"
  by (auto simp: snaps_def save_snapshot_def write_tmp_def rename_tmp_def fun_eq_iff update_conv' delete_conv' tmp_not_name)

lemma canonical_write_tmp: "canonical dir \<Longrightarrow> canonical (write_tmp off bs dir)"
  by (auto simp: canonical_def write_tmp_def distinct_update keys_update)

lemma canonical_save: "canonical dir \<Longrightarrow> off \<le> u64_max \<Longrightarrow> canonical (save_snapshot ser off gs dir)"
  by (auto simp: canonical_def save_snapshot_def write_tmp_def rename_tmp_def distinct_update distinct_delete keys_update keys_delete)

lemma snaps_Some:
  assumes "canonical dir"
  shows "snaps dir off = Some bs \<longleftrightarrow> (\<exists>name. (name, bs) \<in> set dir \<and> parse_snapshot_name name = Some off)"
proof
  assume "snaps dir off = Some bs"
  then show "\<exists>name. (name, bs) \<in> set dir \<and> parse_snapshot_name name = Some off"
    by (intro exI [of _ "snapshot_name off"]) (auto simp: snaps_def dest: map_of_SomeD split: if_splits)
next
  assume "\<exists>name. (name, bs) \<in> set dir \<and> parse_snapshot_name name = Some off"
  then obtain name where n: "(name, bs) \<in> set dir" "parse_snapshot_name name = Some off" by blast
  then have "name = snapshot_name off" using assms by (force simp: canonical_def)
  moreover have "distinct (map fst dir)" using assms unfolding canonical_def by (rule conjunct1)
  ultimately show "snaps dir off = Some bs" using n(1) parse_snapshot_bound [OF n(2)] by (simp add: snaps_def)
qed

lemma finite_snaps: "canonical dir \<Longrightarrow> finite (dom (snaps dir))"
  by (rule finite_subset [of _ "(\<lambda>e. the (parse_snapshot_name (fst e))) ` set dir"]) (force simp: snaps_Some image_iff, simp)

section \<open>Loading and cleaning up\<close>

lemma latest_loop_spec:
  assumes "latest_loop dir lo lf = (off, f)"
  shows "lo \<le> off" and "(name, bs) \<in> set dir \<Longrightarrow> parse_snapshot_name name = Some p \<Longrightarrow> p \<le> off"
    and "(f = lf \<and> off = lo \<and> (\<forall>name bs p. (name, bs) \<in> set dir \<longrightarrow> parse_snapshot_name name = Some p \<longrightarrow> p < lo)) \<or>
      (\<exists>name bs. (name, bs) \<in> set dir \<and> parse_snapshot_name name = Some off \<and> f = Some bs)"
proof -
  have "lo \<le> off \<and> (\<forall>name bs p. (name, bs) \<in> set dir \<longrightarrow> parse_snapshot_name name = Some p \<longrightarrow> p \<le> off) \<and>
     ((f = lf \<and> off = lo \<and> (\<forall>name bs p. (name, bs) \<in> set dir \<longrightarrow> parse_snapshot_name name = Some p \<longrightarrow> p < lo)) \<or>
      (\<exists>name bs. (name, bs) \<in> set dir \<and> parse_snapshot_name name = Some off \<and> f = Some bs))"
    using assms
  proof (induction dir lo lf rule: latest_loop.induct)
    case (2 name bs rest lo lf)
    show ?case
    proof (cases "parse_snapshot_name name")
      case None
      with 2(1) [OF None] 2(4) show ?thesis by auto
    next
      case (Some p)
      show ?thesis
      proof (cases "lo \<le> p")
        case True
        with 2(2) [OF Some True] 2(4) Some show ?thesis by auto
      next
        case False
        with 2(3) [OF Some False] 2(4) Some show ?thesis by auto
      qed
    qed
  qed simp
  then show "lo \<le> off" "(name, bs) \<in> set dir \<Longrightarrow> parse_snapshot_name name = Some p \<Longrightarrow> p \<le> off"
    "(f = lf \<and> off = lo \<and> (\<forall>name bs p. (name, bs) \<in> set dir \<longrightarrow> parse_snapshot_name name = Some p \<longrightarrow> p < lo)) \<or>
      (\<exists>name bs. (name, bs) \<in> set dir \<and> parse_snapshot_name name = Some off \<and> f = Some bs)" by blast+
qed

lemma load_snaps:
  assumes "canonical dir"
  shows "snaps dir = Map.empty \<Longrightarrow> load_latest_snapshot deser dir = Ok None"
    and "snaps dir off = Some bs \<Longrightarrow> \<forall>p \<in> dom (snaps dir). p \<le> off \<Longrightarrow>
      load_latest_snapshot deser dir = (case deser bs of None \<Rightarrow> Err (Serialization ''bincode'') | Some gs \<Rightarrow> Ok (Some (off, gs)))"
proof -
  obtain o' f where lp: "latest_loop dir 0 None = (o', f)" by fastforce
  note spec = latest_loop_spec [OF lp]
  show "load_latest_snapshot deser dir = Ok None" if "snaps dir = Map.empty"
  proof -
    have "\<not> ((name, bs) \<in> set dir \<and> parse_snapshot_name name = Some p)" for name bs p
      using snaps_Some [OF assms, of p bs] that by auto
    then have "f = None" using spec(3) by blast
    then show ?thesis by (simp add: load_latest_snapshot_def lp)
  qed
  show "load_latest_snapshot deser dir = (case deser bs of None \<Rightarrow> Err (Serialization ''bincode'') | Some gs \<Rightarrow> Ok (Some (off, gs)))"
    if s: "snaps dir off = Some bs" and mx: "\<forall>p \<in> dom (snaps dir). p \<le> off"
  proof -
    obtain name where n: "(name, bs) \<in> set dir" "parse_snapshot_name name = Some off" using s snaps_Some [OF assms] by blast
    then have le: "off \<le> o'" using spec(2) by blast
    obtain bs' where f: "snaps dir o' = Some bs'" "f = Some bs'" using spec(3) n snaps_Some [OF assms] by (metis not_less0)
    then have "o' \<le> off" using mx by blast
    then have "o' = off" using le by simp
    then show ?thesis using f s by (simp add: load_latest_snapshot_def lp)
  qed
qed

lemma delete_names:
  "map_of (fold (\<lambda>(off, name) d. AList.delete name d) xs dir) k = (if k \<in> snd ` set xs then None else map_of dir k)"
  by (induction xs arbitrary: dir) (auto simp: delete_conv')

lemma delete_names_canonical: "canonical dir \<Longrightarrow> canonical (fold (\<lambda>(off, name) d. AList.delete name d) xs dir)"
proof (induction xs arbitrary: dir)
  case (Cons x xs)
  have "distinct (map fst dir)" using Cons.prems unfolding canonical_def by (rule conjunct1)
  then have "distinct (map fst (AList.delete (snd x) dir))" by (rule distinct_delete)
  then have "canonical (AList.delete (snd x) dir)" using Cons.prems unfolding canonical_def keys_delete by blast
  from Cons.IH [OF this] show ?case by (simp add: case_prod_unfold)
qed simp

lemma drop_descending:
  fixes ys :: "nat list"
  assumes "sorted_wrt (>) ys"
  shows "y \<in> set (drop k ys) \<longleftrightarrow> y \<in> set ys \<and> k \<le> card {x \<in> set ys. x > y}"
  using assms
proof (induction ys arbitrary: k)
  case (Cons a ys)
  show ?case
  proof (cases k)
    case (Suc k')
    have "{x \<in> set (a # ys). x > a} = {}" "a \<notin> set ys" using Cons.prems by auto
    then have a: "card {x \<in> set (a # ys). x > a} = 0" "a \<notin> set (drop k' ys)" by (simp_all only: card.empty) (meson in_set_dropD)
    have "{x \<in> set (a # ys). x > y} = insert a {x \<in> set ys. x > y}" "a \<notin> {x \<in> set ys. x > y}" if "y \<in> set ys"
      using that Cons.prems by auto
    then have n: "card {x \<in> set (a # ys). x > y} = Suc (card {x \<in> set ys. x > y})" if "y \<in> set ys" using that by simp
    show ?thesis
    proof (cases "y = a")
      case True
      with a show ?thesis by (simp only: Suc drop_Suc_Cons) simp
    next
      case False
      then have "y \<in> set (drop k (a # ys)) \<longleftrightarrow> y \<in> set ys \<and> k' \<le> card {x \<in> set ys. x > y}" using Cons Suc by simp
      then show ?thesis using False n by (cases "y \<in> set ys") (simp_all only: Suc Suc_le_mono set_ConsD list.set_intros, auto)
    qed
  qed simp
qed simp

definition listed :: "snapshot_dir \<Rightarrow> (nat \<times> string) list" where
  "listed dir = concat (map (\<lambda>(name, bs). case parse_snapshot_name name of None \<Rightarrow> [] | Some off \<Rightarrow> [(off, name)]) dir)"

lemma set_listed: "(off, name) \<in> set (listed dir) \<longleftrightarrow> name \<in> fst ` set dir \<and> parse_snapshot_name name = Some off"
  by (induction dir) (auto simp: listed_def split: option.splits)

lemma canonical_name: "canonical dir \<Longrightarrow> name \<in> fst ` set dir \<Longrightarrow> parse_snapshot_name name = Some off \<Longrightarrow> name = snapshot_name off"
  unfolding canonical_def by blast

lemma canonical_ConsD:
  assumes "canonical (e # dir)"
  shows "canonical dir" and "fst e \<notin> fst ` set dir" and "parse_snapshot_name (fst e) = Some off \<Longrightarrow> fst e = snapshot_name off"
  using assms unfolding canonical_def by simp_all

lemma listed_spec:
  assumes "canonical dir"
  shows "distinct (map fst (listed dir))" and "set (listed dir) = (\<lambda>off. (off, snapshot_name off)) ` dom (snaps dir)"
proof -
  show "distinct (map fst (listed dir))" using assms
  proof (induction dir)
    case (Cons e dir)
    note c = canonical_ConsD [OF Cons.prems]
    have "off \<notin> fst ` set (listed dir)" if p: "parse_snapshot_name (fst e) = Some off" for off
    proof
      assume "off \<in> fst ` set (listed dir)"
      then obtain name where n: "name \<in> fst ` set dir" "parse_snapshot_name name = Some off" using set_listed by fastforce
      then have "name = fst e" using canonical_name [OF c(1)] c(3) [OF p] by metis
      then show False using n(1) c(2) by blast
    qed
    then show ?case using Cons.IH [OF c(1)] by (cases e) (auto simp: listed_def split: option.splits)
  qed (simp add: listed_def)
  have "(off, name) \<in> set (listed dir) \<longleftrightarrow> name = snapshot_name off \<and> off \<in> dom (snaps dir)" for off name
  proof
    assume "(off, name) \<in> set (listed dir)"
    then have n: "name \<in> fst ` set dir" "parse_snapshot_name name = Some off" by (simp_all add: set_listed)
    then obtain bs where "(name, bs) \<in> set dir" by auto
    then have "snaps dir off = Some bs" using snaps_Some [OF assms] n(2) by blast
    then show "name = snapshot_name off \<and> off \<in> dom (snaps dir)" using canonical_name [OF assms n] by blast
  next
    assume a: "name = snapshot_name off \<and> off \<in> dom (snaps dir)"
    then obtain bs where "snaps dir off = Some bs" by blast
    then obtain name' where n: "(name', bs) \<in> set dir" "parse_snapshot_name name' = Some off" using snaps_Some [OF assms] by blast
    then have k: "name' \<in> fst ` set dir" by force
    from canonical_name [OF assms this n(2)] a k n(2) show "(off, name) \<in> set (listed dir)" by (simp add: set_listed)
  qed
  then show "set (listed dir) = (\<lambda>off. (off, snapshot_name off)) ` dom (snaps dir)" by (auto simp: image_iff)
qed

text \<open>Cleaning up keeps the \<open>keep\<close> largest offsets.\<close>

lemma snaps_cleanup:
  assumes "canonical dir"
  shows "snaps (cleanup_snapshots keep dir) off = (if card {x \<in> dom (snaps dir). x > off} < keep then snaps dir off else None)"
    and "canonical (cleanup_snapshots keep dir)"
proof -
  note ls = listed_spec [OF assms]
  let ?T = "sort_key (\<lambda>s. - int (fst s)) (listed dir)"
  have cl: "cleanup_snapshots keep dir = (if length (listed dir) \<le> keep then dir
      else fold (\<lambda>(off, name) d. AList.delete name d) (drop keep ?T) dir)"
    by (simp add: cleanup_snapshots_def listed_def Let_def)
  show "canonical (cleanup_snapshots keep dir)" unfolding cl by (simp add: delete_names_canonical assms)
  have fst_set: "fst ` set (listed dir) = dom (snaps dir)" using ls(2) by (simp add: image_image)
  have "distinct (map fst ?T)" using ls(1) by (simp add: distinct_map)
  then have "distinct (map (\<lambda>s. - int (fst s)) ?T)" by (simp add: distinct_map inj_on_def)
  then have "sorted_wrt (<) (map (\<lambda>s. - int (fst s)) ?T)" by (simp add: strict_sorted_iff)
  then have desc: "sorted_wrt (>) (map fst ?T)" by (simp add: sorted_wrt_map)
  have dropped: "y \<in> fst ` set (drop keep ?T) \<longleftrightarrow> y \<in> dom (snaps dir) \<and> keep \<le> card {x \<in> dom (snaps dir). x > y}" for y
    using drop_descending [OF desc, of y keep] fst_set by (simp add: drop_map)
  have names: "snapshot_name off \<in> snd ` set (drop keep ?T) \<longleftrightarrow> off \<in> fst ` set (drop keep ?T)"
  proof -
    have "set (drop keep ?T) \<subseteq> (\<lambda>off. (off, snapshot_name off)) ` dom (snaps dir)" using set_drop_subset [of keep ?T] ls(2) by simp
    then have form: "x = (fst x, snapshot_name (fst x))" if "x \<in> set (drop keep ?T)" for x using that by auto
    show ?thesis
    proof
      assume "snapshot_name off \<in> snd ` set (drop keep ?T)"
      then obtain x where x: "x \<in> set (drop keep ?T)" "snd x = snapshot_name off" by auto
      then have "fst x = off" using form [OF x(1)] by (metis snd_conv snapshot_name_inject)
      with x(1) show "off \<in> fst ` set (drop keep ?T)" by blast
    next
      assume "off \<in> fst ` set (drop keep ?T)"
      then obtain x where x: "x \<in> set (drop keep ?T)" "fst x = off" by auto
      then have "snd x = snapshot_name off" using form [OF x(1)] by (metis snd_conv)
      with x(1) show "snapshot_name off \<in> snd ` set (drop keep ?T)" by (metis imageI)
    qed
  qed
  have few: "card {x \<in> dom (snaps dir). x > off} < keep" if "length (listed dir) \<le> keep" "off \<in> dom (snaps dir)"
  proof -
    have "card {x \<in> dom (snaps dir). x > off} < card (dom (snaps dir))"
      by (rule psubset_card_mono [OF finite_snaps [OF assms]]) (use that(2) in auto)
    also have "\<dots> = length (listed dir)" using distinct_card [OF ls(1)] fst_set by simp
    finally show ?thesis using that(1) by simp
  qed
  show "snaps (cleanup_snapshots keep dir) off = (if card {x \<in> dom (snaps dir). x > off} < keep then snaps dir off else None)"
  proof (cases "length (listed dir) \<le> keep")
    case True
    then show ?thesis using few [OF True] by (auto simp: cl)
  next
    case False
    have "snaps (cleanup_snapshots keep dir) off = (if off \<in> fst ` set (drop keep ?T) then None else snaps dir off)"
      using False names by (simp add: cl snaps_def delete_names)
    then show ?thesis unfolding dropped by auto
  qed
qed

text \<open>A crash between writing the temporary file and renaming it does not change what is loaded.\<close>

lemma load_write_tmp:
  "load_latest_snapshot deser (write_tmp off bs dir) = load_latest_snapshot deser dir"
proof -
  have "latest_loop (AList.update name bs dir) lo lf = latest_loop dir lo lf" if "parse_snapshot_name name = None" for name lo lf
    using that by (induction dir lo lf rule: latest_loop.induct) (auto split: option.splits)
  then show ?thesis by (simp add: load_latest_snapshot_def write_tmp_def)
qed

section \<open>Snapshot and recovery\<close>

text \<open>
  What bincode keeps of a group: \<open>last_heartbeat\<close> is marked \<open>serde(skip)\<close>, so it comes back as \<open>None\<close>. The order of
  the groups in the map that comes back is not fixed.
\<close>

definition forget_beats :: "consumer_group_state \<Rightarrow> consumer_group_state" where
  "forget_beats s = s\<lparr>cg_members := map (\<lambda>(k, m). (k, m\<lparr>ms_last_heartbeat := None\<rparr>)) (cg_members s)\<rparr>"

definition codec_keeps :: "(groups \<Rightarrow> bytes) \<Rightarrow> (bytes \<Rightarrow> groups option) \<Rightarrow> groups \<Rightarrow> bool" where
  "codec_keeps ser deser gs \<longleftrightarrow> (\<exists>gs'. deser (ser gs) = Some gs' \<and> distinct (map fst gs') \<and> map_of gs' = map_option forget_beats \<circ> map_of gs)"

lemma fold_update_map: "distinct (map fst st) \<Longrightarrow> map_of (fold (\<lambda>(g, s). AList.update g s) st gs) = map_of gs ++ map_of st"
proof (induction st arbitrary: gs)
  case (Cons e st)
  obtain g s where e: "e = (g, s)" by (cases e)
  have "map_of st g = None" using Cons.prems by (simp add: e map_of_eq_None_iff)
  then show ?case using Cons by (auto simp: e fun_eq_iff map_add_def update_conv' split: option.splits)
qed simp

lemma recover_groups_map:
  assumes "\<And>p. p \<in> set ps \<Longrightarrow> (load_latest_snapshot deser (disk p) = Ok None \<and> D p = Map.empty) \<or>
      (\<exists>off st. load_latest_snapshot deser (disk p) = Ok (Some (off, st)) \<and> distinct (map fst st) \<and> map_of st = D p)"
    and "\<And>p. p \<noteq> h \<Longrightarrow> D p g = None"
  shows "map_of (recover_groups deser disk ps gs) g = (if h \<in> set ps \<and> D h g \<noteq> None then D h g else map_of gs g)"
  using assms(1)
proof (induction ps arbitrary: gs)
  case (Cons p ps)
  note ih = Cons.IH [OF Cons.prems]
  from Cons.prems [of p] consider "load_latest_snapshot deser (disk p) = Ok None" "D p = Map.empty"
    | off st where "load_latest_snapshot deser (disk p) = Ok (Some (off, st))" "distinct (map fst st)" "map_of st = D p" by auto
  then show ?case
  proof cases
    case 1
    then show ?thesis using ih by auto
  next
    case 2
    then show ?thesis using ih assms(2) [of p] by (cases "p = h") (auto simp: fold_update_map map_add_def split: option.splits)
  qed
qed simp

lemma partition_groups_map:
  "map_of (partition_groups hash n p gs) g = (if unat (hash g) mod n = p then map_of gs g else None)"
  by (induction gs) (auto simp: partition_groups_def)

lemma partition_groups_distinct: "distinct (map fst gs) \<Longrightarrow> distinct (map fst (partition_groups hash n p gs))"
  unfolding partition_groups_def by (rule distinct_map_filter)

lemma reap_forgotten:
  assumes "group_wf s"
  shows "let s' = fst (reap_group now (forget_beats s)) in
     cg_members s' = [] \<and> cg_state s' = Empty \<and> cg_committed_offsets s' = cg_committed_offsets s \<and> cg_generation_id s' = cg_generation_id s"
proof (cases "cg_state s = Empty")
  case True
  then show ?thesis using assms by (simp add: group_wf_def reap_group_def forget_beats_def)
next
  case False
  let ?ms = "cg_members (forget_beats s)"
  have gone: "map fst (filter (\<lambda>m. expired now (snd m)) ?ms) = map fst ?ms"
  proof -
    have "\<forall>m \<in> set ?ms. expired now (snd m)" by (auto simp: forget_beats_def expired_def)
    then show ?thesis by (simp add: filter_id_conv)
  qed
  have "?ms \<noteq> []" using assms False by (auto simp: group_wf_def forget_beats_def)
  moreover have "map_of (fold AList.delete (map fst ?ms) ?ms) k = None" for k
    by (simp add: delete_many_keys map_of_eq_None_iff)
  then have "fold AList.delete (map fst ?ms) ?ms = []" by (metis empty_eq_map_of_iff ext)
  moreover have "cg_state s \<noteq> Dead" using assms by (auto simp: group_wf_def)
  ultimately show ?thesis using False gone by (simp add: reap_group_def forget_beats_def Let_def)
qed

text \<open>The disk after a turn of the snapshot task that saves.\<close>

lemma snapshot_turn_disk:
  assumes "snapshot_turn ser hash c prev0 disk = (prev1, disk')" and "10000 \<le> unat (gc_commit_count c) - prev0"
    and "p < gc_offsets_partition_count c"
  defines "n \<equiv> gc_offsets_partition_count c" and "N \<equiv> unat (gc_commit_count c)"
  shows "partition_groups hash n p (gc_groups c) \<noteq> [] \<Longrightarrow>
      prev1 = N \<and> disk' p = cleanup_snapshots 3 (save_snapshot ser N (partition_groups hash n p (gc_groups c)) (disk p))"
    and "partition_groups hash n p (gc_groups c) = [] \<Longrightarrow> disk' p = disk p \<or> disk' p = cleanup_snapshots 3 (disk p)"
proof -
  have "partition_groups hash n p [] = []" by (simp add: partition_groups_def)
  then show "partition_groups hash n p (gc_groups c) \<noteq> [] \<Longrightarrow>
      prev1 = N \<and> disk' p = cleanup_snapshots 3 (save_snapshot ser N (partition_groups hash n p (gc_groups c)) (disk p))"
    using assms by (auto simp: snapshot_turn_def cleanup_old_snapshots_def Let_def split: if_splits)
  show "partition_groups hash n p (gc_groups c) = [] \<Longrightarrow> disk' p = disk p \<or> disk' p = cleanup_snapshots 3 (disk p)"
    using assms by (auto simp: snapshot_turn_def cleanup_old_snapshots_def Let_def split: if_splits)
qed

lemma unat_u64_max: "unat (x :: u64) \<le> u64_max"
  using unsigned_less [of x, where 'a = nat] by simp

lemma saved_snapshot_loads:
  assumes "canonical dir" and "\<forall>x \<in> dom (snaps dir). x < N" and "N \<le> u64_max" and "codec_keeps ser deser gs"
  shows "\<exists>st. load_latest_snapshot deser (cleanup_snapshots 3 (save_snapshot ser N gs dir)) = Ok (Some (N, st)) \<and>
     distinct (map fst st) \<and> map_of st = map_option forget_beats \<circ> map_of gs"
proof -
  let ?d = "save_snapshot ser N gs dir" let ?d' = "cleanup_snapshots 3 ?d"
  have can: "canonical ?d" by (rule canonical_save [OF assms(1,3)])
  note cl = snaps_cleanup [OF can, where keep = 3]
  have small: "x < N" if "snaps dir x = Some y" for x y using assms(2) that by blast
  have top: "{x \<in> dom (snaps ?d). x > N} = {}" using small by (fastforce simp: snaps_save [OF assms(3)])
  have s: "snaps ?d' N = Some (ser gs)" using cl(1) [of N] by (simp only: top) (simp add: snaps_save [OF assms(3)])
  have "dom (snaps ?d') \<subseteq> dom (snaps ?d)" using cl(1) by (auto split: if_splits)
  then have mx: "\<forall>x \<in> dom (snaps ?d'). x \<le> N" using small by (fastforce simp: snaps_save [OF assms(3)])
  obtain st where "deser (ser gs) = Some st" "distinct (map fst st)" "map_of st = map_option forget_beats \<circ> map_of gs"
    using assms(4) by (auto simp: codec_keeps_def)
  then show ?thesis using load_snaps(2) [OF cl(2) s mx, of deser] by simp
qed


definition busy_group :: "unit group_coordinator" where
  "busy_group = sample_group\<lparr>gc_commit_count := 10000\<rparr>"

lemma busy_group_simps:
  "gc_groups busy_group = gc_groups sample_group" "gc_offsets_partition_count busy_group = 50" "unat (gc_commit_count busy_group) = 10000"
  "partition_groups (\<lambda>g. 0) 50 p (gc_groups sample_group) = (if p = 0 then gc_groups sample_group else [])"
  by (simp_all add: busy_group_def sample_group_eval partition_groups_def case_prod_unfold)


text \<open>
  A snapshot taken after a restart is thrown away. The commit counter that names the snapshots starts at 0 in every
  process. If a partition's directory still has three snapshots with larger numbers, from before the restart, then a turn of the
  snapshot task that saves the partition's groups also deletes what it saved: recovery loads the same old snapshot as before the turn,
  while the task takes the current commits as saved.
\<close>

theorem snapshot_after_restart_dropped:
  assumes "snapshot_turn ser hash c prev0 disk = (prev1, disk')" and "10000 \<le> unat (gc_commit_count c) - prev0"
    and "p < gc_offsets_partition_count c" and "partition_groups hash (gc_offsets_partition_count c) p (gc_groups c) \<noteq> []"
    and "canonical (disk p)" and "3 \<le> card {off \<in> dom (snaps (disk p)). unat (gc_commit_count c) < off}"
  shows "snaps (disk' p) (unat (gc_commit_count c)) = None \<and> prev1 = unat (gc_commit_count c) \<and>
     load_latest_snapshot deser (disk' p) = load_latest_snapshot deser (disk p)"
proof -
  let ?N = "unat (gc_commit_count c)" let ?gs = "partition_groups hash (gc_offsets_partition_count c) p (gc_groups c)"
  let ?d = "save_snapshot ser ?N ?gs (disk p)"
  have d': "disk' p = cleanup_snapshots 3 ?d" "prev1 = ?N" using snapshot_turn_disk(1) [OF assms(1-4)] by simp_all
  have can: "canonical ?d" by (rule canonical_save [OF assms(5) unat_u64_max])
  note cl = snaps_cleanup [OF can, where keep = 3] and sv = snaps_save [OF unat_u64_max, where x1 = "gc_commit_count c"]
  have dm: "{x \<in> dom (snaps ?d). x > ?N} = {x \<in> dom (snaps (disk p)). x > ?N}" by (auto simp: sv)
  then have gone: "snaps (disk' p) ?N = None" using cl(1) [of ?N] assms(6) d'(1) by simp
  let ?old = "dom (snaps (disk p))"
  have fin: "finite ?old" by (rule finite_snaps [OF assms(5)])
  have "{off \<in> ?old. ?N < off} \<noteq> {}" using assms(6) by (metis card.empty not_numeral_le_zero)
  then obtain x where x: "x \<in> ?old" "?N < x" by blast
  let ?m = "Max ?old"
  have m: "?m \<in> ?old" "\<forall>y \<in> ?old. y \<le> ?m" "?N < ?m" using Max_in [OF fin] Max_ge [OF fin] x less_le_trans [OF x(2) Max_ge [OF fin x(1)]] by blast+
  obtain bs where bs: "snaps (disk p) ?m = Some bs" using m(1) by blast
  have le: "y \<le> ?m" if "snaps (disk p) y = Some b" for y b using m(2) that by blast
  then have "{y \<in> dom (snaps ?d). y > ?m} = {}" using m(3) by (fastforce simp: sv)
  then have "snaps (disk' p) ?m = Some bs" using cl(1) [of ?m] bs m(3) unfolding d'(1) by (simp only:) (simp add: sv)
  moreover have "\<forall>y \<in> dom (snaps (disk' p)). y \<le> ?m"
    using le m(3) cl(1) unfolding d'(1) by (fastforce simp: sv split: if_splits)
  moreover have "canonical (disk' p)" using cl(2) d'(1) by simp
  ultimately have "load_latest_snapshot deser (disk' p) = load_latest_snapshot deser (disk p)"
    using load_snaps(2) [OF assms(5) bs m(2), of deser] load_snaps(2) [of "disk' p" ?m bs deser] by simp
  then show ?thesis using gone d'(2) by simp
qed

theorem snapshot_after_restart_dropped_witness:
  "let disk = (\<lambda>p. [(snapshot_name 20000, [1]), (snapshot_name 30000, [2]), (snapshot_name 40000, [3])]);
       (prev1, disk') = snapshot_turn (\<lambda>gs. [4]) (\<lambda>g. 0) busy_group 0 disk
   in prev1 = 10000 \<and> snaps (disk' 0) 10000 = None \<and>
      load_latest_snapshot (\<lambda>bs. Some []) (disk' 0) = load_latest_snapshot (\<lambda>bs. Some []) (disk 0)"
proof -
  let ?dir = "[(snapshot_name 20000, [1 :: byte]), (snapshot_name 30000, [2]), (snapshot_name 40000, [3])]"
  have can: "canonical ?dir" by (simp add: canonical_def)
  have "dom (snaps ?dir) = {20000, 30000, 40000}" by (auto simp: snaps_def split: if_splits)
  then have "{off \<in> dom (snaps ?dir). 10000 < off} = {20000, 30000, 40000}" by auto
  then have three: "3 \<le> card {off \<in> dom (snaps ?dir). 10000 < off}" by simp
  obtain prev1 disk' where t: "snapshot_turn (\<lambda>gs. [4]) (\<lambda>g. 0) busy_group 0 (\<lambda>p. ?dir) = (prev1, disk')" by fastforce
  have "gc_groups sample_group \<noteq> []" using sample_group_state by auto
  from snapshot_after_restart_dropped [OF t, where p = 0 and deser = "\<lambda>bs. Some []"] this can three
  show ?thesis by (simp add: busy_group_simps t)
qed

end
