(* ===== verification/Broker_Core.thy ===== *)
theory Broker_Core
  imports Replication
begin

text \<open>
  The message broker core (\<open>broker/core.rs\<close>): the partitions a broker holds, appending and fetching, and the producer and
  consumer that applications use. The storage engine is a record log with a read operation; the replication manager is the
  one of \<open>Replication\<close> and shares the log with the core, as \<open>Broker::from_config\<close> wires them, so the log of the core is
  the log field of the manager.
\<close>

section \<open>State\<close>

datatype acknowledgment_level = AckNone | AckLeader | AckMajority | AckAll | AckCustom nat

record partition_metadata =
  pm_leader_epoch :: nat
  pm_high_watermark :: offset
  pm_is_leader :: bool
  pm_replicas :: "broker_id list"
  pm_in_sync_replicas :: "broker_id list"

record 'l broker_core =
  bc_replication :: "'l replication_manager"
  bc_partitions :: "(topic_partition \<times> partition_metadata) list"
  bc_broker_id :: broker_id
  bc_total_messages :: u64

abbreviation bc_store :: "'l broker_core \<Rightarrow> 'l" where
  "bc_store b \<equiv> rm_log (bc_replication b)"

definition put_store :: "'l \<Rightarrow> 'l broker_core \<Rightarrow> 'l broker_core" where
  "put_store l b = b\<lparr>bc_replication := (bc_replication b)\<lparr>rm_log := l\<rparr>\<rparr>"

definition core_new :: "'l replication_manager \<Rightarrow> broker_id \<Rightarrow> 'l broker_core" where
  "core_new replication broker_id = \<lparr>bc_replication = replication, bc_partitions = [], bc_broker_id = broker_id, bc_total_messages = 0\<rparr>"

definition add_partition :: "'l record_log_ops \<Rightarrow> topic_partition \<Rightarrow> partition_metadata \<Rightarrow> 'l broker_core \<Rightarrow> 'l broker_core" where
  "add_partition rl tp metadata b =
     (let recovered = rl_next_offset rl tp (bc_store b) in
      b\<lparr>bc_partitions := AList.update tp (metadata\<lparr>pm_high_watermark := max (pm_high_watermark metadata) recovered\<rparr>) (bc_partitions b)\<rparr>)"

definition remove_partition :: "topic_partition \<Rightarrow> 'l broker_core \<Rightarrow> 'l broker_core" where
  "remove_partition tp b = b\<lparr>bc_partitions := AList.delete tp (bc_partitions b)\<rparr>"

definition get_high_watermarks :: "'l broker_core \<Rightarrow> (topic_partition \<times> offset) list" where
  "get_high_watermarks b = map (\<lambda>(tp, meta). (tp, pm_high_watermark meta)) (filter (\<lambda>(tp, meta). pm_is_leader meta) (bc_partitions b))"

definition get_partitions_for_topic :: "string \<Rightarrow> 'l broker_core \<Rightarrow> topic_partition list" where
  "get_partitions_for_topic topic b = filter (\<lambda>tp. tp_topic tp = topic) (map fst (bc_partitions b))"

definition get_partition_counts :: "'l broker_core \<Rightarrow> nat \<times> nat" where
  "get_partition_counts b = (length (bc_partitions b), length (filter (\<lambda>(tp, p). pm_is_leader p) (bc_partitions b)))"

definition get_partition_metadata :: "topic_partition \<Rightarrow> 'l broker_core \<Rightarrow> partition_metadata option" where
  "get_partition_metadata tp b = map_of (bc_partitions b) tp"

section \<open>Appending and fetching\<close>

definition wal_records :: "topic_partition \<Rightarrow> offset \<Rightarrow> rmq_record list \<Rightarrow> wal_record list" where
  "wal_records tp base_offset records =
     map (\<lambda>(i, record). \<lparr>wr_tp = tp, wr_offset = base_offset + i, wr_record = record, wr_crc32 = 0\<rparr>) (enumerate 0 records)"

text \<open>\<open>fates\<close> gives, per record, what the followers answer and in which order.\<close>

fun replicate_all ::
  "'l record_log_ops \<Rightarrow> int \<Rightarrow> (wal_record \<Rightarrow> (broker_id \<times> send_fate) list) \<Rightarrow> wal_record list \<Rightarrow> 'l replication_manager \<Rightarrow>
   unit result \<times> 'l replication_manager" where
  "replicate_all rl now fates [] m = (Ok (), m)"
| "replicate_all rl now fates (r # rs) m =
     (case replicate_record rl now (fates r) r m of
        (Inl e, m') \<Rightarrow> (Err e, m')
      | (Inr _, m') \<Rightarrow> replicate_all rl now fates rs m')"

text \<open>
  \<open>append_records\<close>. No lock is held between reading the metadata and updating it; \<open>later\<close> is what other tasks do to
  the broker right after the metadata was read.
\<close>

definition append_records ::
  "'l record_log_ops \<Rightarrow> int \<Rightarrow> (wal_record \<Rightarrow> (broker_id \<times> send_fate) list) \<Rightarrow> ('l broker_core \<Rightarrow> 'l broker_core) \<Rightarrow>
   topic_partition \<Rightarrow> rmq_record list \<Rightarrow> acknowledgment_level \<Rightarrow> 'l broker_core \<Rightarrow> offset list result \<times> 'l broker_core" where
  "append_records rl now fates later tp records acks b0 =
     (case get_partition_metadata tp b0 of
        None \<Rightarrow> (Err (PartitionNotFound (show_tp tp)), b0)
      | Some metadata \<Rightarrow>
          if \<not> pm_is_leader metadata then (Err (NotLeader (show_tp tp)), b0)
          else
            (let base_offset = pm_high_watermark metadata;
                 ws = wal_records tp base_offset records;
                 b = later b0
             in case append_all rl ws (bc_store b) of
                  (Inl e, l) \<Rightarrow> (Err e, put_store l b)
                | (Inr _, l) \<Rightarrow>
                    (case (if acks = AckNone \<or> acks = AckLeader then (Ok (), bc_replication (put_store l b))
                           else replicate_all rl now fates ws (bc_replication (put_store l b))) of
                       (Inl e, m) \<Rightarrow> (Err e, b\<lparr>bc_replication := m\<rparr>)
                     | (Inr _, m) \<Rightarrow>
                         (Ok (map wr_offset ws),
                          b\<lparr>bc_replication := m,
                            bc_partitions := map (\<lambda>(tp', meta). (tp', if tp' = tp
                              then meta\<lparr>pm_high_watermark := base_offset + length ws\<rparr> else meta)) (bc_partitions b),
                            bc_total_messages := bc_total_messages b + of_nat (length ws)\<rparr>))))"

type_synonym 'l reader = "topic_partition \<Rightarrow> offset \<Rightarrow> nat \<Rightarrow> 'l \<Rightarrow> wal_record list result \<times> 'l"

definition fetch_records :: "'l reader \<Rightarrow> topic_partition \<Rightarrow> offset \<Rightarrow> nat \<Rightarrow> 'l broker_core \<Rightarrow> rmq_record list result \<times> 'l broker_core" where
  "fetch_records rd tp fetch_offset max_bytes b =
     (case rd tp fetch_offset max_bytes (bc_store b) of
        (Inl e, l) \<Rightarrow> (Err e, put_store l b)
      | (Inr ws, l) \<Rightarrow>
          (Ok (map wr_record ws), (put_store l b)\<lparr>bc_total_messages := bc_total_messages b + of_nat (length ws)\<rparr>))"

section \<open>Producer\<close>

record produce_record =
  pr_topic :: string
  pr_partition :: "nat option"
  pr_key :: "bytes option"
  pr_value :: bytes
  pr_headers :: "header list"
  pr_acks :: acknowledgment_level
  pr_timeout_ms :: nat

record produce_result =
  pd_topic_partition :: topic_partition
  pd_offset :: offset
  pd_timestamp :: int

definition produce_tp :: "produce_record \<Rightarrow> topic_partition" where
  "produce_tp r = TopicPartition (pr_topic r) (case pr_partition r of None \<Rightarrow> 0 | Some p \<Rightarrow> p)"

definition produce_wal_record :: "int \<Rightarrow> produce_record \<Rightarrow> rmq_record" where
  "produce_wal_record ts r = \<lparr>rec_key = pr_key r, rec_value = pr_value r, rec_headers = pr_headers r, rec_timestamp = ts\<rparr>"

definition producer_send ::
  "'l record_log_ops \<Rightarrow> int \<Rightarrow> (wal_record \<Rightarrow> (broker_id \<times> send_fate) list) \<Rightarrow> produce_record \<Rightarrow> 'l broker_core \<Rightarrow>
   produce_result result \<times> 'l broker_core" where
  "producer_send rl now fates r b =
     (case append_records rl now fates id (produce_tp r) [produce_wal_record now r] (pr_acks r) b of
        (Inl e, b') \<Rightarrow> (Err e, b')
      | (Inr offsets, b') \<Rightarrow> (Ok \<lparr>pd_topic_partition = produce_tp r, pd_offset = hd offsets, pd_timestamp = now\<rparr>, b'))"

text \<open>\<open>send_batch\<close>: the records are grouped by partition; a group takes the acknowledgment level of its first record.\<close>

fun group_batch ::
  "int \<Rightarrow> produce_record list \<Rightarrow> (topic_partition \<times> rmq_record list \<times> acknowledgment_level) list \<Rightarrow>
   (topic_partition \<times> rmq_record list \<times> acknowledgment_level) list" where
  "group_batch now [] groups = groups"
| "group_batch now (r # rs) groups =
     (let (recs, acks) = hm_entry ([], pr_acks r) groups (produce_tp r)
      in group_batch now rs (AList.update (produce_tp r) (recs @ [produce_wal_record now r], acks) groups))"

fun send_groups ::
  "'l record_log_ops \<Rightarrow> int \<Rightarrow> (wal_record \<Rightarrow> (broker_id \<times> send_fate) list) \<Rightarrow>
   (topic_partition \<times> rmq_record list \<times> acknowledgment_level) list \<Rightarrow> produce_result list \<Rightarrow> 'l broker_core \<Rightarrow>
   produce_result list result \<times> 'l broker_core" where
  "send_groups rl now fates [] results b = (Ok results, b)"
| "send_groups rl now fates ((tp, recs, acks) # groups) results b =
     (case append_records rl now fates id tp recs acks b of
        (Inl e, b') \<Rightarrow> (Err e, b')
      | (Inr offsets, b') \<Rightarrow> send_groups rl now fates groups
          (results @ map (\<lambda>off. \<lparr>pd_topic_partition = tp, pd_offset = off, pd_timestamp = now\<rparr>) offsets) b')"

definition producer_send_batch ::
  "((topic_partition \<times> rmq_record list \<times> acknowledgment_level) list \<Rightarrow> (topic_partition \<times> rmq_record list \<times> acknowledgment_level) list) \<Rightarrow>
   'l record_log_ops \<Rightarrow> int \<Rightarrow> (wal_record \<Rightarrow> (broker_id \<times> send_fate) list) \<Rightarrow> produce_record list \<Rightarrow> 'l broker_core \<Rightarrow>
   produce_result list result \<times> 'l broker_core" where
  "producer_send_batch order rl now fates rs b = send_groups rl now fates (order (group_batch now rs [])) [] b"

definition producer_flush :: "'l record_log_ops \<Rightarrow> 'l broker_core \<Rightarrow> unit result \<times> 'l broker_core" where
  "producer_flush rl b = (case rl_sync rl (bc_store b) of (res, l) \<Rightarrow> (res, put_store l b))"

section \<open>Consumer\<close>

record consume_record =
  co_topic_partition :: topic_partition
  co_offset :: offset
  co_key :: "bytes option"
  co_value :: bytes
  co_headers :: "header list"
  co_timestamp :: int

record message_consumer =
  mc_group :: string
  mc_subscribed_topics :: "string list"
  mc_partition_offsets :: "(topic_partition \<times> offset) list"

definition consumer_new :: "string \<Rightarrow> message_consumer" where
  "consumer_new g = \<lparr>mc_group = g, mc_subscribed_topics = [], mc_partition_offsets = []\<rparr>"

definition subscribe :: "string list \<Rightarrow> message_consumer \<Rightarrow> message_consumer" where
  "subscribe topics mc = mc\<lparr>mc_subscribed_topics := topics,
     mc_partition_offsets := fold (\<lambda>t. AList.update (TopicPartition t 0) 0) topics (mc_partition_offsets mc)\<rparr>"

definition consume_of :: "topic_partition \<Rightarrow> offset \<Rightarrow> rmq_record list \<Rightarrow> consume_record list" where
  "consume_of tp current_offset fetched =
     map (\<lambda>(i, r). \<lparr>co_topic_partition = tp, co_offset = current_offset + i, co_key = rec_key r, co_value = rec_value r,
                    co_headers = rec_headers r, co_timestamp = rec_timestamp r\<rparr>) (enumerate 0 fetched)"

text \<open>The loop of \<open>poll\<close>: \<open>seen\<close> are the entries already visited, with their new offsets.\<close>

fun poll_loop ::
  "'l reader \<Rightarrow> (topic_partition \<times> offset) list \<Rightarrow> (topic_partition \<times> offset) list \<Rightarrow> consume_record list \<Rightarrow> 'l broker_core \<Rightarrow>
   consume_record list result \<times> (topic_partition \<times> offset) list \<times> 'l broker_core" where
  "poll_loop rd [] seen records b = (Ok records, seen, b)"
| "poll_loop rd ((tp, current_offset) # rest) seen records b =
     (case fetch_records rd tp current_offset (1024 * 1024) b of
        (Inr fetched, b') \<Rightarrow>
          (let records' = records @ consume_of tp current_offset fetched
           in poll_loop rd rest (seen @ [(tp, current_offset + length records')]) records' b')
      | (Inl (OffsetOutOfRange e), b') \<Rightarrow> poll_loop rd rest (seen @ [(tp, current_offset)]) records b'
      | (Inl e, b') \<Rightarrow> (Err e, seen @ (tp, current_offset) # rest, b'))"

definition poll :: "'l reader \<Rightarrow> message_consumer \<Rightarrow> 'l broker_core \<Rightarrow> consume_record list result \<times> message_consumer \<times> 'l broker_core" where
  "poll rd mc b = (case poll_loop rd (mc_partition_offsets mc) [] [] b of
     (res, offsets, b') \<Rightarrow> (res, mc\<lparr>mc_partition_offsets := offsets\<rparr>, b'))"

definition commit_offsets :: "(topic_partition \<times> offset) list \<Rightarrow> message_consumer \<Rightarrow> message_consumer" where
  "commit_offsets offsets mc = mc\<lparr>mc_partition_offsets := fold (\<lambda>(tp, off). AList.update tp off) offsets (mc_partition_offsets mc)\<rparr>"

definition seek :: "topic_partition \<Rightarrow> offset \<Rightarrow> message_consumer \<Rightarrow> message_consumer" where
  "seek tp off mc = mc\<lparr>mc_partition_offsets := AList.update tp off (mc_partition_offsets mc)\<rparr>"

section \<open>The broker as a log\<close>

text \<open>A broker on a log \<open>H\<close> that leads the partitions \<open>led\<close>: there the high watermark is the end of the log.\<close>

definition broker_ok ::
  "('l \<Rightarrow> (topic_partition \<Rightarrow> wal_record list) \<Rightarrow> bool) \<Rightarrow> 'l broker_core \<Rightarrow> (topic_partition \<Rightarrow> wal_record list) \<times> topic_partition set \<Rightarrow> bool" where
  "broker_ok is_log b S \<longleftrightarrow> is_log (bc_store b) (fst S) \<and>
     (\<forall>tp. tp \<in> snd S \<longleftrightarrow> (\<exists>md. map_of (bc_partitions b) tp = Some md \<and> pm_is_leader md)) \<and>
     (\<forall>tp md. map_of (bc_partitions b) tp = Some md \<longrightarrow> pm_is_leader md \<longrightarrow> pm_high_watermark md = length (fst S tp))"

datatype broker_op =
    AddPartition topic_partition partition_metadata
  | RemovePartition topic_partition
  | Produce topic_partition "rmq_record list" acknowledgment_level
  | Fetch topic_partition offset nat
  | Flush

fun broker_do :: "'l record_log_ops \<Rightarrow> 'l reader \<Rightarrow> broker_op \<Rightarrow> 'l broker_core \<Rightarrow> 'l broker_core" where
  "broker_do rl rd (AddPartition tp md) b = add_partition rl tp md b"
| "broker_do rl rd (RemovePartition tp) b = remove_partition tp b"
| "broker_do rl rd (Produce tp records acks) b = snd (append_records rl 0 (\<lambda>r. []) id tp records acks b)"
| "broker_do rl rd (Fetch tp off mb) b = snd (fetch_records rd tp off mb b)"
| "broker_do rl rd Flush b = snd (producer_flush rl b)"

text \<open>The specification: a log per partition and the set of led partitions.\<close>

type_synonym log_spec = "(topic_partition \<Rightarrow> wal_record list) \<times> topic_partition set"

fun spec_do :: "broker_op \<Rightarrow> log_spec \<Rightarrow> log_spec" where
  "spec_do (AddPartition tp md) (H, led) = (H, if pm_is_leader md then insert tp led else led - {tp})"
| "spec_do (RemovePartition tp) (H, led) = (H, led - {tp})"
| "spec_do (Produce tp records acks) (H, led) =
     (if tp \<in> led then H(tp := H tp @ wal_records tp (length (H tp)) records) else H, led)"
| "spec_do _ S = S"

text \<open>
  The operations allowed: a partition is added with a high watermark within the log, and records are produced without
  waiting for replicas (the other levels are treated below).
\<close>

fun op_ok :: "(wal_record \<Rightarrow> bool) \<Rightarrow> broker_op \<Rightarrow> log_spec \<Rightarrow> bool" where
  "op_ok good (AddPartition tp md) (H, led) \<longleftrightarrow> pm_high_watermark md \<le> length (H tp)"
| "op_ok good (Produce tp records acks) (H, led) \<longleftrightarrow> (acks = AckNone \<or> acks = AckLeader) \<and> (\<forall>r \<in> set (wal_records tp (length (H tp)) records). good r)"
| "op_ok good _ S \<longleftrightarrow> True"

fun ops_ok :: "(wal_record \<Rightarrow> bool) \<Rightarrow> broker_op list \<Rightarrow> log_spec \<Rightarrow> bool" where
  "ops_ok good [] S \<longleftrightarrow> True"
| "ops_ok good (op # ops) S \<longleftrightarrow> op_ok good op S \<and> ops_ok good ops (spec_do op S)"

lemma put_store_simps [simp]:
  "bc_store (put_store l b) = l" "bc_partitions (put_store l b) = bc_partitions b" "bc_total_messages (put_store l b) = bc_total_messages b"
  by (simp_all add: put_store_def)

lemma wal_records_simps [simp]:
  "length (wal_records tp base rs) = length rs" "map wr_offset (wal_records tp base rs) = [base..<base + length rs]"
  "map wr_record (wal_records tp base rs) = rs" "r \<in> set (wal_records tp base rs) \<Longrightarrow> wr_tp r = tp"
proof -
  show "length (wal_records tp base rs) = length rs" "map wr_record (wal_records tp base rs) = rs"
    by (simp_all add: wal_records_def comp_def case_prod_unfold)
  show "map wr_offset (wal_records tp base rs) = [base..<base + length rs]"
    by (rule nth_equalityI) (simp_all add: wal_records_def nth_enumerate_eq)
  show "r \<in> set (wal_records tp base rs) \<Longrightarrow> wr_tp r = tp" by (auto simp: wal_records_def)
qed

lemma map_of_map_meta:
  "map_of (map (\<lambda>(tp', meta). (tp', if tp' = tp then f meta else meta)) al) tp' = map_option (if tp' = tp then f else id) (map_of al tp')"
  by (induction al) (auto simp: option.map_id)

context record_log
begin

lemma append_all_extends:
  assumes "is_log l H" and "\<forall>r \<in> set ws. good r \<and> wr_tp r = tp" and "map wr_offset ws = [length (H tp)..<length (H tp) + length ws]"
  shows "\<exists>l'. append_all rl ws l = (Ok (), l') \<and> is_log l' (H(tp := H tp @ ws))"
  using assms
proof (induction ws arbitrary: l H)
  case (Cons r ws)
  have off: "wr_offset r = length (H tp)" "map wr_offset ws = [Suc (length (H tp))..<Suc (length (H tp)) + length ws]"
    using Cons.prems(3) by (simp_all add: upt_conv_Cons del: upt_Suc)
  obtain l1 where l1: "rl_append rl r l = (Ok (), l1)" "is_log l1 (H(tp := H tp @ [r]))"
    using append_next [OF Cons.prems(1), of r] Cons.prems(2) off(1) by auto
  let ?H = "H(tp := H tp @ [r])"
  have "\<exists>l'. append_all rl ws l1 = (Ok (), l') \<and> is_log l' (?H(tp := ?H tp @ ws))"
    using Cons.prems(2) off(2) by (intro Cons.IH [OF l1(2)]) simp_all
  moreover have "?H(tp := ?H tp @ ws) = H(tp := H tp @ r # ws)" by (simp add: fun_eq_iff)
  ultimately obtain l' where "append_all rl ws l1 = (Ok (), l')" "is_log l' (H(tp := H tp @ r # ws))" by metis
  then show ?case using l1(1) by (auto simp: fun_upd_def)
qed simp

end

context readable_log
begin

lemma produce_extends:
  assumes "broker_ok is_log b (H, led)" and "op_ok good (Produce tp rs acks) (H, led)" and "tp \<in> led"
  shows "\<exists>b'. append_records rl now fates id tp rs acks b = (Ok [length (H tp)..<length (H tp) + length rs], b') \<and>
     broker_ok is_log b' (spec_do (Produce tp rs acks) (H, led))"
proof -
  obtain md where md: "map_of (bc_partitions b) tp = Some md" "pm_is_leader md" "pm_high_watermark md = length (H tp)"
    using assms(1,3) by (force simp: broker_ok_def)
  let ?ws = "wal_records tp (length (H tp)) rs"
  obtain l' where l': "append_all rl ?ws (bc_store b) = (Ok (), l')" "is_log l' (H(tp := H tp @ ?ws))"
    using append_all_extends [of "bc_store b" H ?ws tp] assms(1,2) by (auto simp: broker_ok_def)
  let ?b = "b\<lparr>bc_replication := bc_replication (put_store l' b), bc_partitions := map (\<lambda>(tp', meta). (tp', if tp' = tp
      then meta\<lparr>pm_high_watermark := length (H tp) + length ?ws\<rparr> else meta)) (bc_partitions b),
      bc_total_messages := bc_total_messages b + of_nat (length ?ws)\<rparr>"
  have "append_records rl now fates id tp rs acks b = (Ok [length (H tp)..<length (H tp) + length rs], ?b)"
    using assms(2) md l'(1) by (simp add: append_records_def get_partition_metadata_def Let_def)
  moreover have "broker_ok is_log ?b (spec_do (Produce tp rs acks) (H, led))"
    using assms(1,3) l'(2) by (auto simp: broker_ok_def map_of_map_meta)
  ultimately show ?thesis by blast
qed

lemma produce_refused:
  assumes "broker_ok is_log b (H, led)" and "tp \<notin> led"
  shows "\<exists>e \<in> {PartitionNotFound (show_tp tp), NotLeader (show_tp tp)}. append_records rl now fates id tp rs acks b = (Err e, b)"
  using assms by (cases "map_of (bc_partitions b) tp") (auto simp: append_records_def get_partition_metadata_def broker_ok_def)

lemma fetch_returns:
  assumes "broker_ok is_log b S"
  shows "off < length (fst S tp) \<Longrightarrow> \<exists>k>0. fst (fetch_records rd tp off mb b) = Ok (map wr_record (take k (drop off (fst S tp))))"
    and "length (fst S tp) \<le> off \<Longrightarrow> fst (fetch_records rd tp off mb b) = Ok []"
    and "broker_ok is_log (snd (fetch_records rd tp off mb b)) S"
proof -
  have log: "is_log (bc_store b) (fst S)" using assms by (simp add: broker_ok_def)
  show "off < length (fst S tp) \<Longrightarrow> \<exists>k>0. fst (fetch_records rd tp off mb b) = Ok (map wr_record (take k (drop off (fst S tp))))"
    "length (fst S tp) \<le> off \<Longrightarrow> fst (fetch_records rd tp off mb b) = Ok []"
    using read_below [OF log, of off tp mb] read_end [OF log, of tp off mb] by (auto simp: fetch_records_def)
  have "\<exists>ws l'. rd tp off mb (bc_store b) = (Ok ws, l') \<and> is_log l' (fst S)"
    using read_below [OF log, of off tp mb] read_end [OF log, of tp off mb] by (cases "off < length (fst S tp)") auto
  then show "broker_ok is_log (snd (fetch_records rd tp off mb b)) S" using assms by (auto simp: fetch_records_def broker_ok_def)
qed

lemma broker_do_ok:
  assumes "broker_ok is_log b S" and "op_ok good op S"
  shows "broker_ok is_log (broker_do rl rd op b) (spec_do op S)"
proof -
  obtain H led where S: "S = (H, led)" by (cases S)
  have log: "is_log (bc_store b) H" using assms(1) by (simp add: broker_ok_def S)
  show ?thesis
  proof (cases op)
    case (AddPartition tp md)
    then show ?thesis using assms next_length [OF log, of tp]
      by (auto simp: S add_partition_def broker_ok_def update_conv' Let_def)
  next
    case (RemovePartition tp)
    then show ?thesis using assms by (auto simp: S remove_partition_def broker_ok_def delete_conv')
  next
    case (Produce tp rs acks)
    show ?thesis
    proof (cases "tp \<in> led")
      case True
      from produce_extends [OF assms(1) [unfolded S] _ True, of rs acks 0 "\<lambda>r. []"] assms(2) show ?thesis by (auto simp: Produce S)
    next
      case False
      from produce_refused [OF assms(1) [unfolded S] False, of 0 "\<lambda>r. []" rs acks] assms(1) False show ?thesis by (auto simp: Produce S)
    qed
  next
    case (Fetch tp off mb)
    then show ?thesis using fetch_returns(3) [OF assms(1)] by (simp add: S)
  next
    case Flush
    from sync_same [OF log] show ?thesis using assms(1) by (auto simp: Flush S producer_flush_def broker_ok_def)
  qed
qed

lemma broker_run_ok:
  "broker_ok is_log b S \<Longrightarrow> ops_ok good ops S \<Longrightarrow> broker_ok is_log (fold (broker_do rl rd) ops b) (fold spec_do ops S)"
  by (induction ops arbitrary: b S) (simp_all add: broker_do_ok)

end

lemma core_new_ok: "is_log l (\<lambda>tp. []) \<Longrightarrow> broker_ok is_log (core_new (manager_new tp leader epoch replicas config l) bid) (\<lambda>tp. [], {})"
  by (simp add: broker_ok_def core_new_def manager_new_def)

text \<open>
  C3. A broker is a partitioned log. After any additions and removals of partitions, produced batches (with acknowledgment by
  the leader or none), fetches and flushes on a new storage engine, let \<open>H\<close> be the records produced to partitions while they
  were led. Then producing \<open>n\<close> records to a led partition returns the next \<open>n\<close> offsets; producing to another one is refused
  and changes nothing; a fetch below the end of a partition returns the records from there on, at least one; a fetch at the
  end or beyond returns nothing. Removing a partition and adding it again continues its offsets.
\<close>

theorem broker_refines_log:
  fixes res :: "('o object_ops \<times> (bytes \<Rightarrow> reservation option)) option"
  assumes "deps_ok (engine_deps ser deser wcfg libs ucfg hash cod rsz mx iter res) (codec_ok ser deser) good"
    and "ops_ok good ops (\<lambda>tp. [], {})"
  shows "let d = engine_deps ser deser wcfg libs ucfg hash cod rsz mx iter res; rl = store_record_log d; rd = store_read d id id t;
             st = snd (store_new d (wal_new now []) fs (lru_new cb) []);
             b = fold (broker_do rl rd) ops (core_new (manager_new ptp leader epoch replicas config st) bid);
             (H, led) = fold spec_do ops (\<lambda>tp. [], {})
         in (\<forall>tp rs acks. tp \<in> led \<longrightarrow> op_ok good (Produce tp rs acks) (H, led) \<longrightarrow>
               fst (append_records rl n fates id tp rs acks b) = Ok [length (H tp)..<length (H tp) + length rs]) \<and>
            (\<forall>tp rs acks. tp \<notin> led \<longrightarrow> (\<exists>e \<in> {PartitionNotFound (show_tp tp), NotLeader (show_tp tp)}.
               append_records rl n fates id tp rs acks b = (Err e, b))) \<and>
            (\<forall>tp off mb. off < length (H tp) \<longrightarrow> (\<exists>k>0. fst (fetch_records rd tp off mb b) = Ok (map wr_record (take k (drop off (H tp)))))) \<and>
            (\<forall>tp off mb. length (H tp) \<le> off \<longrightarrow> fst (fetch_records rd tp off mb b) = Ok [])"
proof -
  let ?d = "engine_deps ser deser wcfg libs ucfg hash cod rsz mx iter res"
  let ?is_log = "engine_is_log ?d (wal_holds ser deser) (codec_ok ser deser) (lru_view hash) lru_wf good"
  let ?b = "fold (broker_do (store_record_log ?d) (store_read ?d id id t)) ops
     (core_new (manager_new ptp leader epoch replicas config (snd (store_new ?d (wal_new now []) fs (lru_new cb) []))) bid)"
  obtain H led where S: "fold spec_do ops (\<lambda>tp. [], {}) = (H, led)" by fastforce
  have "?is_log (snd (store_new ?d (wal_new now []) fs (lru_new cb) [])) (\<lambda>tp. [])" by (rule engine_new_is_log [OF assms(1)])
  from core_new_ok [where is_log = ?is_log, OF this] have ok: "broker_ok ?is_log ?b (H, led)"
    unfolding S [symmetric] by (rule engine_reader.broker_run_ok) (rule assms(2))
  show ?thesis unfolding Let_def S prod.case
  proof (intro conjI allI impI)
    show "fst (append_records (store_record_log ?d) n fates id tp rs acks ?b) = Ok [length (H tp)..<length (H tp) + length rs]"
      if "tp \<in> led" "op_ok good (Produce tp rs acks) (H, led)" for tp rs acks
      using engine_reader.produce_extends [OF ok that(2,1), of n fates] by auto
    show "\<exists>e \<in> {PartitionNotFound (show_tp tp), NotLeader (show_tp tp)}. append_records (store_record_log ?d) n fates id tp rs acks ?b = (Err e, ?b)"
      if "tp \<notin> led" for tp rs acks
      by (rule engine_reader.produce_refused [OF ok that])
    show "\<exists>k>0. fst (fetch_records (store_read ?d id id t) tp off mb ?b) = Ok (map wr_record (take k (drop off (H tp))))"
      if "off < length (H tp)" for tp off mb
      using engine_reader.fetch_returns(1) [OF ok, of off tp t mb] that by simp
    show "fst (fetch_records (store_read ?d id id t) tp off mb ?b) = Ok []" if "length (H tp) \<le> off" for tp off mb
      using engine_reader.fetch_returns(2) [OF ok, of tp off t mb] that by simp
  qed
qed

definition sample_metadata :: partition_metadata where
  "sample_metadata = \<lparr>pm_leader_epoch = 1, pm_high_watermark = 0, pm_is_leader = True, pm_replicas = [''a''], pm_in_sync_replicas = [''a'']\<rparr>"

definition sample_payload :: rmq_record where
  "sample_payload = wr_record (wal_sample 0)"

definition sample_config_repl :: replication_config where
  "sample_config_repl = \<lparr>rc_min_in_sync_replicas = 1, rc_ack_timeout_ms = 5, rc_max_replication_lag = 100, rc_heartbeat_timeout_ms = 10\<rparr>"

lemma sample_payload_wal: "wal_records (TopicPartition ''t'' 0) off [sample_payload] = [wal_sample off]"
  by (simp add: wal_records_def sample_payload_def wal_sample_def)

lemma sample_good: "off < 256 \<Longrightarrow> engine_sample_good (wal_sample off)"
  by (auto simp: engine_sample_good_def)

theorem broker_refines_log_witness:
  "let tp = TopicPartition ''t'' 0; rl = store_record_log engine_sample; rd = store_read engine_sample id id 0;
       st = (snd (store_new engine_sample (wal_new 0 []) Map.empty (lru_new 100) []) :: (local_fs, seg_wal, lru_cache) partition_store);
       b = fold (broker_do rl rd) [AddPartition tp sample_metadata, Produce tp [sample_payload] AckLeader]
             (core_new (manager_new tp ''a'' 1 [''a''] sample_config_repl st) ''a'')
   in fst (append_records rl 0 (\<lambda>r. []) id tp [sample_payload] AckLeader b) = Ok [1] \<and>
      fst (fetch_records rd tp 0 100 b) = Ok [sample_payload] \<and> fst (fetch_records rd tp 1 100 b) = Ok []"
proof -
  let ?tp = "TopicPartition ''t'' 0" and ?rl = "store_record_log engine_sample" and ?rd = "store_read engine_sample id id 0"
  let ?st = "snd (store_new engine_sample (wal_new 0 []) Map.empty (lru_new 100) []) :: (local_fs, seg_wal, lru_cache) partition_store"
  let ?ops = "[AddPartition ?tp sample_metadata, Produce ?tp [sample_payload] AckLeader]"
  let ?b = "fold (broker_do ?rl ?rd) ?ops (core_new (manager_new ?tp ''a'' 1 [''a''] sample_config_repl ?st) ''a'')"
  define H where "H = (\<lambda>tp. if tp = ?tp then [wal_sample 0] else [])"
  have H: "fold spec_do ?ops (\<lambda>tp. [], {}) = (H, {?tp})"
    by (auto simp: H_def sample_metadata_def sample_payload_wal)
  have ok: "ops_ok engine_sample_good ?ops (\<lambda>tp. [], {})" by (simp add: sample_metadata_def sample_payload_wal sample_good)
  note t = broker_refines_log [OF engine_sample_ok ok, where t = 0 and now = 0 and fs = Map.empty and cb = 100 and ptp = ?tp and leader = "''a''"
    and epoch = 1 and replicas = "[''a'']" and config = sample_config_repl and bid = "''a''" and n = 0 and fates = "\<lambda>r. []",
    unfolded Let_def H prod.case]
  have tp: "H ?tp = [wal_sample 0]" by (simp add: H_def)
  have "fst (append_records ?rl 0 (\<lambda>r. []) id ?tp [sample_payload] AckLeader ?b) = Ok [length (H ?tp)..<length (H ?tp) + length [sample_payload]]"
    by (rule conjunct1 [OF t, rule_format]) (simp_all add: tp sample_payload_wal sample_good)
  moreover obtain k where k: "k > 0" "fst (fetch_records ?rd ?tp 0 100 ?b) = Ok (map wr_record (take k (drop 0 (H ?tp))))"
    using t tp by (metis length_Cons zero_less_Suc)
  moreover have "map wr_record (take k (drop 0 (H ?tp))) = [sample_payload]" using k(1) tp by (simp add: sample_payload_def)
  moreover have "fst (fetch_records ?rd ?tp 1 100 ?b) = Ok []" using t tp by (metis One_nat_def length_Cons list.size(3) order_refl)
  ultimately show ?thesis unfolding Let_def tp by simp
qed

section \<open>Acknowledgment by replicas\<close>

lemma send_to_follower_log: "rm_log (snd (send_to_follower b fate m)) = rm_log m"
  by (auto simp: send_to_follower_def update_follower_state_def split: send_fate.splits option.splits)

lemma ack_loop_log: "rm_log (snd (ack_loop required fates acks m)) = rm_log m"
proof (induction required fates acks m rule: ack_loop.induct)
  case (2 required b fate rest acks m)
  obtain res m' where r: "send_to_follower b fate m = (res, m')" by fastforce
  then have "rm_log m' = rm_log m" using send_to_follower_log [of b fate m] by simp
  then show ?case using 2 r by (cases res) auto
qed simp

lemma wait_log: "\<exists>res m'. wait_for_acknowledgments now fates off m = (Ok res, m') \<and> rm_log m' = rm_log m"
proof -
  obtain acks m1 where a: "ack_loop (rc_min_in_sync_replicas (rm_config m) - 1) fates 0 m = (acks, m1)" by fastforce
  then have "rm_log m1 = rm_log m" using ack_loop_log [of _ fates 0 m] by (metis snd_conv)
  then show ?thesis using a by (auto simp: wait_for_acknowledgments_def recalculate_high_watermark_def Let_def)
qed

lemma append_all_append:
  "append_all rl (xs @ ys) l = (case append_all rl xs l of (Inl e, l') \<Rightarrow> (Err e, l') | (Inr _, l') \<Rightarrow> append_all rl ys l')"
  by (induction rl xs l rule: append_all.induct) (auto split: prod.splits sum.splits)

lemma replicate_all_appends:
  assumes "append_all rl rs (rm_log m) = (Ok (), l)"
  shows "\<exists>m'. replicate_all rl now fates rs m = (Ok (), m') \<and> rm_log m' = l"
  using assms
proof (induction rs arbitrary: m)
  case (Cons r rs)
  obtain l1 where l1: "rl_append rl r (rm_log m) = (Ok (), l1)" "append_all rl rs l1 = (Ok (), l)"
    using Cons.prems by (auto split: prod.splits sum.splits)
  let ?m = "m\<lparr>rm_log := l1, rm_log_end_offset := wr_offset r + 1\<rparr>"
  obtain res m' where "wait_for_acknowledgments now (fates r) (wr_offset r) ?m = (Ok res, m')" "rm_log m' = l1"
    using wait_log [of now "fates r" "wr_offset r" ?m] by auto
  then show ?case using Cons.IH [of m'] l1 by (simp add: replicate_record_def append_to_local_wal_def)
qed simp

lemma append_all_total:
  assumes "\<And>r l. \<exists>l'. rl_append rl r l = (Ok (), l')" shows "\<exists>l'. append_all rl rs l = (Ok (), l')"
proof (induction rs arbitrary: l)
  case (Cons r rs)
  then show ?case using assms [of r l] by auto
qed simp

text \<open>
  C38. Acknowledgment by replicas writes every record twice and does not wait for them. On a log that accepts appends,
  producing with any level above the leader appends the whole batch twice, with the same offsets, because the replication manager
  writes to the same log again; and it reports success with the offsets whatever the followers answered, even when
  none did.
\<close>

theorem replicated_produce_appends_twice:
  assumes "\<And>r l. \<exists>l'. rl_append rl r l = (Ok (), l')" and "get_partition_metadata tp b = Some md" and "pm_is_leader md"
    and "acks \<noteq> AckNone" and "acks \<noteq> AckLeader"
  shows "let ws = wal_records tp (pm_high_watermark md) records in
     \<exists>b'. append_records rl now fates id tp records acks b = (Ok (map wr_offset ws), b') \<and>
          append_all rl (ws @ ws) (bc_store b) = (Ok (), bc_store b')"
proof -
  let ?ws = "wal_records tp (pm_high_watermark md) records"
  obtain l1 where l1: "append_all rl ?ws (bc_store b) = (Ok (), l1)" using append_all_total [OF assms(1)] by blast
  obtain l2 where l2: "append_all rl ?ws l1 = (Ok (), l2)" using append_all_total [OF assms(1)] by blast
  obtain m' where "replicate_all rl now fates ?ws (bc_replication (put_store l1 b)) = (Ok (), m')" "rm_log m' = l2"
    using replicate_all_appends [of rl ?ws "bc_replication (put_store l1 b)" l2] l2 by auto
  then show ?thesis using assms l1 l2 by (simp add: append_records_def Let_def append_all_append)
qed

theorem replicated_produce_appends_twice_witness:
  "let rl = \<lparr>rl_append = (\<lambda>r l. (Ok (), l @ [wr_offset r])), rl_sync = (\<lambda>l. (Ok (), l)), rl_next_offset = (\<lambda>tp l. 0)\<rparr>;
       tp = TopicPartition ''t'' 0;
       b = add_partition rl tp sample_metadata (core_new (manager_new tp ''a'' 1 [''a'', ''b''] sample_config_repl []) ''a'');
       (result, b') = append_records rl 0 (\<lambda>r. [(''b'', SendTimeout)]) id tp [sample_payload, sample_payload] AckAll b
   in result = Ok [0, 1] \<and> bc_store b' = [0, 1, 0, 1]"
proof -
  let ?rl = "\<lparr>rl_append = (\<lambda>r l. (Ok (), l @ [wr_offset r])), rl_sync = (\<lambda>l. (Ok (), l)), rl_next_offset = (\<lambda>tp l. 0)\<rparr>"
  let ?tp = "TopicPartition ''t'' 0"
  let ?b = "add_partition ?rl ?tp sample_metadata (core_new (manager_new ?tp ''a'' 1 [''a'', ''b''] sample_config_repl []) ''a'')"
  have md: "get_partition_metadata ?tp ?b = Some sample_metadata"
    by (simp add: get_partition_metadata_def add_partition_def core_new_def sample_metadata_def)
  have "\<exists>l'. rl_append ?rl r l = (Ok (), l')" for r l by simp
  from replicated_produce_appends_twice [OF this md, of AckAll "[sample_payload, sample_payload]" 0 "\<lambda>r. [(''b'', SendTimeout)]"]
  show ?thesis by (auto simp: Let_def sample_metadata_def wal_records_def add_partition_def core_new_def manager_new_def)
qed

section \<open>Races and positions\<close>

text \<open>
  Concurrent producers get the same offsets. If a second batch for the same partition is produced completely between the
  moment a first one reads the high watermark and the moment it appends, both report offsets from the same start, the log
  receives both batches with those offsets, and the high watermark ends at the end of the first batch only.
\<close>

theorem concurrent_produce_reuses_offsets:
  assumes "\<And>r l. \<exists>l'. rl_append rl r l = (Ok (), l')" and "get_partition_metadata tp b = Some md" and "pm_is_leader md"
  shows "let h = pm_high_watermark md; other = append_records rl now fates id tp records2 AckLeader in
     \<exists>b' md'. fst (other b) = Ok [h..<h + length records2] \<and>
        append_records rl now fates (\<lambda>b. snd (other b)) tp records1 AckLeader b = (Ok [h..<h + length records1], b') \<and>
        append_all rl (wal_records tp h records2 @ wal_records tp h records1) (bc_store b) = (Ok (), bc_store b') \<and>
        get_partition_metadata tp b' = Some md' \<and> pm_high_watermark md' = h + length records1"
proof -
  let ?h = "pm_high_watermark md"
  obtain l2 where l2: "append_all rl (wal_records tp ?h records2) (bc_store b) = (Ok (), l2)" using append_all_total [OF assms(1)] by blast
  obtain l1 where l1: "append_all rl (wal_records tp ?h records1) l2 = (Ok (), l1)" using append_all_total [OF assms(1)] by blast
  obtain b2 where b2: "append_records rl now fates id tp records2 AckLeader b = (Ok [?h..<?h + length records2], b2)" "bc_store b2 = l2"
    "map_of (bc_partitions b2) tp = Some (md\<lparr>pm_high_watermark := ?h + length records2\<rparr>)"
    using assms(2,3) l2 by (simp add: append_records_def Let_def get_partition_metadata_def map_of_map_meta)
  obtain b' where b': "append_records rl now fates (\<lambda>b. snd (append_records rl now fates id tp records2 AckLeader b)) tp records1 AckLeader b =
      (Ok [?h..<?h + length records1], b')" "bc_store b' = l1"
    "map_of (bc_partitions b') tp = Some (md\<lparr>pm_high_watermark := ?h + length records1\<rparr>)"
    using assms(2,3) l1 b2 by (simp add: append_records_def [where records = records1] Let_def map_of_map_meta)
  show ?thesis unfolding Let_def
    by (intro exI [of _ b'] exI [of _ "md\<lparr>pm_high_watermark := ?h + length records1\<rparr>"])
      (simp add: b2 b' append_all_append l1 l2 get_partition_metadata_def)
qed

theorem concurrent_produce_reuses_offsets_witness:
  "let rl = \<lparr>rl_append = (\<lambda>r l. (Ok (), l @ [wr_offset r])), rl_sync = (\<lambda>l. (Ok (), l)), rl_next_offset = (\<lambda>tp l. 0)\<rparr>;
       tp = TopicPartition ''t'' 0;
       b = add_partition rl tp sample_metadata (core_new (manager_new tp ''a'' 1 [''a''] sample_config_repl []) ''a'');
       other = append_records rl 0 (\<lambda>r. []) id tp [sample_payload, sample_payload] AckLeader;
       (result, b') = append_records rl 0 (\<lambda>r. []) (\<lambda>b. snd (other b)) tp [sample_payload] AckLeader b
   in fst (other b) = Ok [0, 1] \<and> result = Ok [0] \<and> bc_store b' = [0, 1, 0]"
proof -
  let ?rl = "\<lparr>rl_append = (\<lambda>r l. (Ok (), l @ [wr_offset r])), rl_sync = (\<lambda>l. (Ok (), l)), rl_next_offset = (\<lambda>tp l. 0)\<rparr>"
  let ?tp = "TopicPartition ''t'' 0"
  let ?b = "add_partition ?rl ?tp sample_metadata (core_new (manager_new ?tp ''a'' 1 [''a''] sample_config_repl []) ''a'')"
  have md: "get_partition_metadata ?tp ?b = Some sample_metadata"
    by (simp add: get_partition_metadata_def add_partition_def core_new_def sample_metadata_def)
  have "\<exists>l'. rl_append ?rl r l = (Ok (), l')" for r l by simp
  from concurrent_produce_reuses_offsets [OF this md, of 0 "\<lambda>r. []" "[sample_payload, sample_payload]" "[sample_payload]"]
  show ?thesis by (auto simp: Let_def sample_metadata_def wal_records_def add_partition_def core_new_def manager_new_def)
qed

text \<open>
  A consumer of two partitions skips messages. In one poll the position of the second partition advances by the number
  of records fetched from both, so the next poll starts as many records too far as the first partition delivered; those
  records of the second partition are never returned.
\<close>

theorem poll_skips_records:
  assumes "mc_partition_offsets mc = [(p1, o1), (p2, o2)]"
    and "fetch_records rd p1 o1 (1024 * 1024) b = (Ok r1, b1)" and "fetch_records rd p2 o2 (1024 * 1024) b1 = (Ok r2, b2)"
  shows "poll rd mc b = (Ok (consume_of p1 o1 r1 @ consume_of p2 o2 r2),
     mc\<lparr>mc_partition_offsets := [(p1, o1 + length r1), (p2, o2 + length r2 + length r1)]\<rparr>, b2)"
  using assms by (simp add: poll_def consume_of_def)

theorem poll_skips_records_witness:
  "let rd = (\<lambda>tp off mb l. (Ok (take 1 (drop off (l tp))), l)); log = (\<lambda>tp. [wal_sample 0, wal_sample 1, wal_sample 2]);
       b = core_new (manager_new (TopicPartition ''t'' 0) ''a'' 1 [''a''] sample_config_repl log) ''a'';
       mc = subscribe [''t'', ''s''] (consumer_new ''g'')
   in mc_partition_offsets (fst (snd (poll rd mc b))) = [(TopicPartition ''t'' 0, 1), (TopicPartition ''s'' 0, 2)]"
proof -
  let ?rd = "\<lambda>tp off mb l. (Ok (take 1 (drop off (l tp))), l)" let ?log = "\<lambda>tp. [wal_sample 0, wal_sample 1, wal_sample 2]"
  let ?b = "core_new (manager_new (TopicPartition ''t'' 0) ''a'' 1 [''a''] sample_config_repl ?log) ''a''"
  let ?mc = "subscribe [''t'', ''s''] (consumer_new ''g'')"
  have mc: "mc_partition_offsets ?mc = [(TopicPartition ''t'' 0, 0), (TopicPartition ''s'' 0, 0)]"
    by (simp add: subscribe_def consumer_new_def)
  obtain b1 where f1: "fetch_records ?rd (TopicPartition ''t'' 0) 0 (1024 * 1024) ?b = (Ok [wr_record (wal_sample 0)], b1)" "bc_store b1 = ?log"
    by (simp add: fetch_records_def core_new_def manager_new_def)
  obtain b2 where f2: "fetch_records ?rd (TopicPartition ''s'' 0) 0 (1024 * 1024) b1 = (Ok [wr_record (wal_sample 0)], b2)"
    using f1(2) by (simp add: fetch_records_def)
  from poll_skips_records [OF mc f1(1) f2] show ?thesis by (simp add: Let_def)
qed

end
