(* ===== verification/Acl_Rules.thy ===== *)
theory Acl_Rules
  imports Object_Storage
begin

text \<open>
  The access-control language: \<open>security/acl/patterns.rs\<close> (resource patterns),
  \<open>security/acl/rules.rs\<close> (rules, compiled patterns, entries), \<open>security/acl/policy.rs\<close>
  (decisions) and the rule evaluation and rule validation of \<open>security/acl/manager.rs\<close>.
  \<open>Regex::new\<close> of the regex crate is the parameter \<open>re\<close>: a pattern either does not compile
  (\<open>None\<close>) or gives the predicate \<open>is_match\<close>. A HashMap is an association list. The lemmas
  compare the three matchers of the source with one textual meaning of a pattern (\<open>glob\<close>), and the
  decision with the deny-overrides rule it is meant to be.
\<close>

section \<open>Resource patterns\<close>

datatype resource_type = RtTopic | RtConsumerGroup | RtBroker | RtCluster

record resource_pattern =
  rp_resource_type :: resource_type
  rp_pattern :: string

abbreviation star :: char where
  "star \<equiv> CHR ''*''"

definition trim_start_star :: "string \<Rightarrow> string" where
  "trim_start_star s = dropWhile (\<lambda>c. c = star) s"

definition matches_name :: "resource_pattern \<Rightarrow> string \<Rightarrow> bool" where
  "matches_name self resource_name =
     (let pat = rp_pattern self in
      if pat = ''*'' then True
      else if star \<in> set pat \<and> suffix ''*'' pat then prefix (trim_end_matches ''*'' pat) resource_name
      else if star \<in> set pat \<and> prefix ''*'' pat then suffix (trim_start_star pat) resource_name
      else if star \<in> set pat \<and> length (split_on star pat) = 2
      then prefix (split_on star pat ! 0) resource_name \<and> suffix (split_on star pat ! 1) resource_name
      else pat = resource_name)"

definition type_name :: "resource_type \<Rightarrow> string" where
  "type_name t = (case t of RtTopic \<Rightarrow> ''topic'' | RtConsumerGroup \<Rightarrow> ''consumer_group''
                    | RtBroker \<Rightarrow> ''broker'' | RtCluster \<Rightarrow> ''cluster'')"

definition resource_matches :: "resource_pattern \<Rightarrow> string \<Rightarrow> string \<Rightarrow> bool" where
  "resource_matches self rtype resource_name =
     (if rtype \<noteq> type_name (rp_resource_type self) then False else matches_name self resource_name)"

section \<open>Rules and compiled patterns\<close>

datatype effect = Allow | Deny

datatype acl_operation =
    OpRead | OpWrite | OpAdmin | OpDescribe | OpCluster | OpAll | OpConnect | OpDelete | OpAlter
  | OpCreate | OpList

record acl_rule =
  ar_id :: string
  ar_principal :: string
  ar_resource :: resource_pattern
  ar_operations :: "acl_operation list"
  ar_effect :: effect
  ar_conditions :: "(string \<times> string) list"

datatype compiled_pattern =
    Exact string
  | Wildcard string string
  | Regex "string \<Rightarrow> bool"
  | MatchAll

type_synonym regex_new = "string \<Rightarrow> (string \<Rightarrow> bool) option"

definition regex_specials :: string where
  "regex_specials = ''[]{}()^$+?|'' @ [CHR 0x5C]"

definition compile :: "regex_new \<Rightarrow> string \<Rightarrow> compiled_pattern option" where
  "compile re pat =
     (if pat = ''*'' then Some MatchAll
      else if star \<in> set pat \<and> length (split_on star pat) = 2
      then Some (Wildcard (split_on star pat ! 0) (split_on star pat ! 1))
      else if list_ex (\<lambda>c. c \<in> set regex_specials) pat
      then (case re pat of None \<Rightarrow> None | Some is_match \<Rightarrow> Some (Regex is_match))
      else Some (Exact pat))"

fun pattern_matches :: "compiled_pattern \<Rightarrow> string \<Rightarrow> bool" where
  "pattern_matches (Exact exact) txt = (txt = exact)"
| "pattern_matches (Wildcard pre suf) txt = (prefix pre txt \<and> suffix suf txt)"
| "pattern_matches (Regex is_match) txt = is_match txt"
| "pattern_matches MatchAll txt = True"

definition applies_to_principal :: "acl_rule \<Rightarrow> string \<Rightarrow> bool" where
  "applies_to_principal self prin =
     (if ar_principal self = ''*'' then True
      else if star \<in> set (ar_principal self) \<and> length (split_on star (ar_principal self)) = 2
      then prefix (split_on star (ar_principal self) ! 0) prin \<and>
           suffix (split_on star (ar_principal self) ! 1) prin
      else ar_principal self = prin)"

definition applies_to_operation :: "acl_rule \<Rightarrow> acl_operation \<Rightarrow> bool" where
  "applies_to_operation self operation \<longleftrightarrow> operation \<in> set (ar_operations self)"

record acl_entry =
  ae_rule :: acl_rule
  ae_principal_pattern :: compiled_pattern
  ae_resource_pattern :: compiled_pattern

definition from_rule :: "regex_new \<Rightarrow> acl_rule \<Rightarrow> acl_entry option" where
  "from_rule re rule =
     (case compile re (ar_principal rule) of
        None \<Rightarrow> None
      | Some pp \<Rightarrow>
          (case compile re (rp_pattern (ar_resource rule)) of
             None \<Rightarrow> None
           | Some rp \<Rightarrow> Some \<lparr>ae_rule = rule, ae_principal_pattern = pp, ae_resource_pattern = rp\<rparr>))"

definition entry_matches :: "acl_entry \<Rightarrow> string \<Rightarrow> string \<Rightarrow> acl_operation \<Rightarrow> bool" where
  "entry_matches self prin resource operation =
     (if \<not> pattern_matches (ae_principal_pattern self) prin then False
      else if \<not> pattern_matches (ae_resource_pattern self) resource then False
      else if \<not> applies_to_operation (ae_rule self) operation then False
      else True)"

section \<open>Evaluation\<close>

text \<open>\<open>VersionedAclRule\<close> of \<open>storage.rs\<close>.\<close>

record versioned_rule =
  vr_rule :: acl_rule
  vr_version :: nat
  vr_timestamp :: nat
  vr_created_by :: string
  vr_change_description :: string
  vr_deleted :: bool

datatype policy_decision = PolicyAllow | PolicyDeny string | NoMatch

definition is_allowed :: "policy_decision \<Rightarrow> bool" where
  "is_allowed d \<longleftrightarrow> d = PolicyAllow"

definition denial_reason :: "policy_decision \<Rightarrow> string option" where
  "denial_reason d = (case d of PolicyDeny reason \<Rightarrow> Some reason
                        | NoMatch \<Rightarrow> Some ''No matching ACL policy'' | PolicyAllow \<Rightarrow> None)"

type_synonym acl_context = "(string \<times> string) list option"

text \<open>The condition loop of \<open>evaluate_rules\<close> and of \<open>evaluate_cached_entry\<close>.\<close>

fun conditions_hold :: "(string \<times> string) list \<Rightarrow> (string \<times> string) list \<Rightarrow> bool" where
  "conditions_hold ctx [] = True"
| "conditions_hold ctx ((condition_key, condition_value) # cs) =
     (case map_of ctx condition_key of
        None \<Rightarrow> False
      | Some actual_value \<Rightarrow> if actual_value \<noteq> condition_value then False else conditions_hold ctx cs)"

definition conditions_match :: "acl_rule \<Rightarrow> acl_context \<Rightarrow> bool" where
  "conditions_match rule context =
     (if ar_conditions rule \<noteq> []
      then (case context of None \<Rightarrow> False | Some ctx \<Rightarrow> conditions_hold ctx (ar_conditions rule))
      else True)"

fun matching_entries ::
  "regex_new \<Rightarrow> versioned_rule list \<Rightarrow> string \<Rightarrow> string \<Rightarrow> acl_operation \<Rightarrow> acl_context \<Rightarrow> acl_entry list" where
  "matching_entries re [] prin resource operation context = []"
| "matching_entries re (rule # rules) prin resource operation context =
     (let rest = matching_entries re rules prin resource operation context in
      if vr_deleted rule then rest
      else (case from_rule re (vr_rule rule) of
              None \<Rightarrow> rest
            | Some entry \<Rightarrow>
                if entry_matches entry prin resource operation
                then (if conditions_match (vr_rule rule) context then entry # rest else rest)
                else rest))"

definition deny_text :: "string \<Rightarrow> string \<Rightarrow> string \<Rightarrow> string" where
  "deny_text rule_id prin resource =
     ''Denied by rule '' @ [CHR 0x27] @ rule_id @ [CHR 0x27] @ '' for principal '' @ [CHR 0x27] @ prin @
     [CHR 0x27] @ '' on resource '' @ [CHR 0x27] @ resource @ [CHR 0x27]"

definition evaluate_rules ::
  "regex_new \<Rightarrow> versioned_rule list \<Rightarrow> string \<Rightarrow> string \<Rightarrow> acl_operation \<Rightarrow> acl_context \<Rightarrow> policy_decision" where
  "evaluate_rules re rules prin resource operation context =
     (let entries = matching_entries re rules prin resource operation context in
      case find (\<lambda>e. ar_effect (ae_rule e) = Deny) entries of
        Some entry \<Rightarrow> PolicyDeny (deny_text (ar_id (ae_rule entry)) prin resource)
      | None \<Rightarrow>
          if list_ex (\<lambda>e. ar_effect (ae_rule e) = Allow) entries then PolicyAllow else NoMatch)"

section \<open>Validation of a rule\<close>

text \<open>The two regular expressions of \<open>AclSecurityValidator::new\<close>.\<close>

definition principal_regex :: string where
  "principal_regex = ''^[a-zA-Z0-9'' @ [CHR 0x5C] @ ''-'' @ [CHR 0x5C] @ ''._'' @ [CHR 0x5C] @ ''*]+$''"

definition resource_regex :: string where
  "resource_regex =
     ''^[a-zA-Z0-9'' @ [CHR 0x5C] @ ''-'' @ [CHR 0x5C] @ ''._'' @ [CHR 0x5C] @ ''*'' @ [CHR 0x5C] @ ''/]+$''"

definition regex_accepts :: "regex_new \<Rightarrow> string \<Rightarrow> string \<Rightarrow> bool" where
  "regex_accepts re pat txt = (case re pat of None \<Rightarrow> False | Some is_match \<Rightarrow> is_match txt)"

definition validate_rule :: "regex_new \<Rightarrow> acl_rule \<Rightarrow> unit result" where
  "validate_rule re rule =
     (if 100 < length (ar_id rule) then Err (SecurityConfig ''Rule ID too long'')
      else if \<not> regex_accepts re principal_regex (ar_principal rule)
      then Err (SecurityConfig ''Invalid principal pattern'')
      else if \<not> regex_accepts re resource_regex (rp_pattern (ar_resource rule))
      then Err (SecurityConfig ''Invalid resource pattern'')
      else if ar_operations rule = [] then Err (SecurityConfig ''Rule must have at least one operation'')
      else if 20 < length (ar_conditions rule) then Err (SecurityConfig ''Too many conditions in rule'')
      else if list_ex (\<lambda>(key, val). 100 < length key \<or> 1000 < length val) (ar_conditions rule)
      then Err (SecurityConfig ''Condition key or value too long'')
      else Ok ())"

section \<open>The meaning of a pattern\<close>

text \<open>A star stands for any text, every other character for itself.\<close>

fun glob :: "string \<Rightarrow> string \<Rightarrow> bool" where
  "glob [] s = (s = [])"
| "glob (c # p) [] = (c = star \<and> glob p [])"
| "glob (c # p) (x # s) =
     (if c = star then glob p (x # s) \<or> glob (c # p) s else c = x \<and> glob p s)"

lemma glob_literal: "star \<notin> set p \<Longrightarrow> glob (p @ q) s \<longleftrightarrow> (\<exists>v. s = p @ v \<and> glob q v)"
proof (induction p arbitrary: s)
  case (Cons c p)
  then show ?case by (cases s) auto
qed simp

lemma glob_exact: "star \<notin> set p \<Longrightarrow> glob p s \<longleftrightarrow> s = p"
  using glob_literal [of p "[]" s] by auto

lemma glob_star: "glob (star # p) s \<longleftrightarrow> (\<exists>u v. s = u @ v \<and> glob p v)"
proof (induction s)
  case (Cons x s)
  have "(\<exists>u v. x # s = u @ v \<and> glob p v) \<longleftrightarrow> glob p (x # s) \<or> (\<exists>u v. s = u @ v \<and> glob p v)"
    by (metis append_Cons append_eq_Cons_conv self_append_conv2)
  with Cons show ?case by simp
qed simp

text \<open>One star between two literal texts.\<close>

lemma glob_middle:
  assumes "star \<notin> set p" and "star \<notin> set q"
  shows "glob (p @ star # q) s \<longleftrightarrow> prefix p s \<and> suffix q s \<and> length p + length q \<le> length s"
proof -
  have "glob (p @ star # q) s \<longleftrightarrow> (\<exists>u. s = p @ u @ q)"
    using assms by (auto simp: glob_literal glob_star glob_exact)
  also have "\<dots> \<longleftrightarrow> prefix p s \<and> suffix q s \<and> length p + length q \<le> length s"
  proof
    assume r: "prefix p s \<and> suffix q s \<and> length p + length q \<le> length s"
    obtain u where u: "s = p @ u" using r by (auto simp: prefix_def)
    obtain v where v: "s = v @ q" using r by (auto simp: suffix_def)
    have "length q \<le> length u" using r u by simp
    then obtain w where "u = w @ q"
      using u v by (metis append_eq_append_conv_if append_take_drop_id le_iff_add length_append
                      suffixI suffix_length_suffix suffix_def)
    then show "\<exists>u. s = p @ u @ q" using u by blast
  qed (auto simp: prefix_def suffix_def)
  finally show ?thesis .
qed

section \<open>The matchers against the meaning\<close>

lemma split_on_two:
  "length (split_on c p) = 2 \<longleftrightarrow> (\<exists>a b. p = a @ c # b \<and> c \<notin> set a \<and> c \<notin> set b)"
proof
  assume two: "length (split_on c p) = 2"
  then have "c \<in> set p" by (metis One_nat_def length_Cons list.size(3) n_not_Suc_n numeral_2_eq_2 split_on_none)
  then obtain a b where p: "p = a @ c # b" "c \<notin> set a" by (meson split_list_first)
  have "c \<notin> set b"
  proof
    assume "c \<in> set b"
    then obtain d e where "b = d @ c # e" "c \<notin> set d" by (meson split_list_first)
    then have "split_on c p = a # d # split_on c e" using p by (simp add: split_on_sep)
    moreover have "split_on c e \<noteq> []" by (cases e) (auto split: list.splits)
    ultimately show False using two by simp
  qed
  with p show "\<exists>a b. p = a @ c # b \<and> c \<notin> set a \<and> c \<notin> set b" by blast
qed (auto simp: split_on_sep split_on_none)

lemma split_on_middle:
  "star \<notin> set a \<Longrightarrow> star \<notin> set b \<Longrightarrow> split_on star (a @ star # b) = [a, b]"
  by (simp add: split_on_sep split_on_none)

text \<open>A pattern the matchers are meant for: no star, or one star at an end, and no regex character.\<close>

definition edge_pattern :: "string \<Rightarrow> bool" where
  "edge_pattern p \<longleftrightarrow> star \<notin> set p \<or> (p \<noteq> [] \<and> hd p = star \<and> star \<notin> set (tl p)) \<or>
                     (p \<noteq> [] \<and> last p = star \<and> star \<notin> set (butlast p))"

definition plain_pattern :: "string \<Rightarrow> bool" where
  "plain_pattern p \<longleftrightarrow> \<not> list_ex (\<lambda>c. c \<in> set regex_specials) p"

lemma edge_pattern_cases [consumes 1, case_names literal leading trailing]:
  assumes "edge_pattern p"
  obtains "star \<notin> set p" | q where "p = star # q" "star \<notin> set q" | q where "p = q @ [star]" "star \<notin> set q"
  using assms unfolding edge_pattern_def by (metis append_butlast_last_id list.collapse)

lemma compile_one_star:
  "star \<notin> set a \<Longrightarrow> star \<notin> set b \<Longrightarrow> a @ b \<noteq> [] \<Longrightarrow> compile re (a @ star # b) = Some (Wildcard a b)"
  by (auto simp: compile_def split_on_middle append_eq_Cons_conv)

lemma compile_literal: "star \<notin> set p \<Longrightarrow> plain_pattern p \<Longrightarrow> compile re p = Some (Exact p)"
  by (auto simp: compile_def plain_pattern_def)

lemma compile_edge_glob:
  assumes "edge_pattern p" and "plain_pattern p"
  shows "\<exists>cp. compile re p = Some cp \<and> (\<forall>s. pattern_matches cp s = glob p s)"
  using assms(1)
proof (cases rule: edge_pattern_cases)
  case literal
  then show ?thesis using assms(2) by (simp add: compile_literal glob_exact)
next
  case (leading q)
  show ?thesis
  proof (cases "q = []")
    case True
    then show ?thesis
      using leading by (intro exI [of _ MatchAll] conjI allI) (simp_all add: compile_def glob_star)
  next
    case False
    then show ?thesis
      using leading compile_one_star [of "[]" q re] glob_middle [of "[]" q] by (auto dest: suffix_length_le)
  qed
next
  case (trailing q)
  show ?thesis
  proof (cases "q = []")
    case True
    then show ?thesis
      using trailing by (intro exI [of _ MatchAll] conjI allI) (simp_all add: compile_def glob_star)
  next
    case False
    then show ?thesis
      using trailing compile_one_star [of q "[]" re] glob_middle [of q "[]"] by (auto dest: prefix_length_le)
  qed
qed

text \<open>The uncompiled matchers of a rule's principal and of a resource pattern say the same.\<close>

lemma applies_to_principal_glob:
  assumes "edge_pattern (ar_principal rule)"
  shows "applies_to_principal rule s = glob (ar_principal rule) s"
  using assms
proof (cases rule: edge_pattern_cases)
  case literal
  then show ?thesis by (auto simp: applies_to_principal_def glob_exact)
next
  case (leading q)
  then show ?thesis
    using split_on_middle [of "[]" q] glob_middle [of "[]" q]
    by (auto simp: applies_to_principal_def glob_star dest: suffix_length_le)
next
  case (trailing q)
  then show ?thesis
    using split_on_middle [of q "[]"] glob_middle [of q "[]"]
    by (auto simp: applies_to_principal_def glob_star dest: prefix_length_le)
qed

lemma trim_end_star: "star \<notin> set q \<Longrightarrow> trim_end_matches ''*'' (q @ ''*'') = q"
proof -
  assume q: "star \<notin> set q"
  then have "\<not> suffix ''*'' q" by (auto simp: suffix_def)
  then have "trim_end_matches ''*'' q = q" by (subst trim_end_matches.simps) simp
  then show ?thesis by (subst trim_end_matches.simps) (simp add: suffix_def)
qed

lemma trim_start_star_literal: "star \<notin> set q \<Longrightarrow> trim_start_star (star # q) = q"
  by (cases q) (auto simp: trim_start_star_def)

lemma matches_name_glob:
  assumes "edge_pattern (rp_pattern r)"
  shows "matches_name r s = glob (rp_pattern r) s"
  using assms
proof (cases rule: edge_pattern_cases)
  case literal
  then show ?thesis by (auto simp: matches_name_def Let_def glob_exact)
next
  case (leading q)
  have "\<not> suffix ''*'' (star # q)" if "q \<noteq> []"
    using that leading(2) last_in_set [of q] by (metis last.simps last_snoc suffix_def)
  then show ?thesis
    using leading glob_middle [of "[]" q] trim_start_star_literal [of q]
    by (cases "q = []") (auto simp: matches_name_def Let_def glob_star dest: suffix_length_le)
next
  case (trailing q)
  then show ?thesis
    using glob_middle [of q "[]"] trim_end_star [of q]
    by (auto simp: matches_name_def Let_def glob_star suffix_def dest: prefix_length_le)
qed

text \<open>
  A star between two texts: the matcher does not ask that the two ends do not overlap, so it accepts more
  than the pattern means.
\<close>

lemma compile_middle_glob:
  assumes "star \<notin> set a" and "star \<notin> set b" and "a @ b \<noteq> []"
  shows "\<exists>cp. compile re (a @ star # b) = Some cp \<and>
              (\<forall>s. pattern_matches cp s \<longleftrightarrow>
                   glob (a @ star # b) s \<or>
                   (prefix a s \<and> suffix b s \<and> length s < length a + length b))"
  using compile_one_star [OF assms] glob_middle [OF assms(1,2)] by auto

lemma middle_wildcard_overlap:
  "compile re ''team-*-bot'' = Some (Wildcard ''team-'' ''-bot'') \<and>
   pattern_matches (Wildcard ''team-'' ''-bot'') ''team-bot'' \<and> \<not> glob ''team-*-bot'' ''team-bot''"
  using compile_one_star [of "''team-''" "''-bot''" re] by (simp add: suffix_def append_eq_Cons_conv)

text \<open>Two stars: the compiled pattern is the text itself.\<close>

lemma two_stars_exact:
  "compile re ''logs.*.eu.*'' = Some (Exact ''logs.*.eu.*'') \<and>
   \<not> pattern_matches (Exact ''logs.*.eu.*'') ''logs.app.eu.1'' \<and> glob ''logs.*.eu.*'' ''logs.app.eu.1''"
  by (simp add: compile_def regex_specials_def)

section \<open>The decision against deny-overrides\<close>

definition rule_applies ::
  "versioned_rule \<Rightarrow> string \<Rightarrow> string \<Rightarrow> acl_operation \<Rightarrow> acl_context \<Rightarrow> bool" where
  "rule_applies vr prin resource operation context \<longleftrightarrow>
     \<not> vr_deleted vr \<and>
     glob (ar_principal (vr_rule vr)) prin \<and>
     glob (rp_pattern (ar_resource (vr_rule vr))) resource \<and>
     operation \<in> set (ar_operations (vr_rule vr)) \<and>
     list_all (\<lambda>(k, v). \<exists>ctx. context = Some ctx \<and> map_of ctx k = Some v) (ar_conditions (vr_rule vr))"

definition simple_rule :: "acl_rule \<Rightarrow> bool" where
  "simple_rule r \<longleftrightarrow> edge_pattern (ar_principal r) \<and> plain_pattern (ar_principal r) \<and>
                    edge_pattern (rp_pattern (ar_resource r)) \<and> plain_pattern (rp_pattern (ar_resource r))"

definition some_rule ::
  "effect \<Rightarrow> versioned_rule list \<Rightarrow> string \<Rightarrow> string \<Rightarrow> acl_operation \<Rightarrow> acl_context \<Rightarrow> bool" where
  "some_rule eff rules prin resource operation context \<longleftrightarrow>
     (\<exists>vr \<in> set rules. ar_effect (vr_rule vr) = eff \<and> rule_applies vr prin resource operation context)"

lemma conditions_hold_all:
  "conditions_hold ctx cs \<longleftrightarrow> list_all (\<lambda>(k, v). map_of ctx k = Some v) cs"
  by (induction cs) (auto split: option.splits if_splits)

lemma conditions_match_all:
  "conditions_match r cx \<longleftrightarrow>
     list_all (\<lambda>(k, v). \<exists>ctx. cx = Some ctx \<and> map_of ctx k = Some v) (ar_conditions r)"
  by (cases cx; cases "ar_conditions r") (auto simp: conditions_match_def conditions_hold_all)

lemma from_rule_simple:
  assumes "simple_rule r"
  shows "\<exists>e. from_rule re r = Some e \<and> ae_rule e = r \<and>
             (\<forall>p n op. entry_matches e p n op \<longleftrightarrow>
                glob (ar_principal r) p \<and> glob (rp_pattern (ar_resource r)) n \<and> op \<in> set (ar_operations r))"
proof -
  obtain pp rp where "compile re (ar_principal r) = Some pp" "\<And>s. pattern_matches pp s = glob (ar_principal r) s"
    and "compile re (rp_pattern (ar_resource r)) = Some rp"
        "\<And>s. pattern_matches rp s = glob (rp_pattern (ar_resource r)) s"
    using assms compile_edge_glob unfolding simple_rule_def by meson
  then show ?thesis by (simp add: from_rule_def entry_matches_def applies_to_operation_def)
qed

text \<open>The entries the loop collects are those of the rules that apply, in the order of the rules.\<close>

lemma matching_entries_rules:
  assumes "list_all (\<lambda>vr. simple_rule (vr_rule vr)) rules"
  shows "map ae_rule (matching_entries re rules p n op ctx) =
         map vr_rule (filter (\<lambda>vr. rule_applies vr p n op ctx) rules)"
  using assms
proof (induction rules)
  case (Cons vr rules)
  obtain e where "from_rule re (vr_rule vr) = Some e" "ae_rule e = vr_rule vr"
    "\<And>p n op. entry_matches e p n op \<longleftrightarrow>
       glob (ar_principal (vr_rule vr)) p \<and> glob (rp_pattern (ar_resource (vr_rule vr))) n \<and>
       op \<in> set (ar_operations (vr_rule vr))"
    using from_rule_simple [of "vr_rule vr" re] Cons.prems by auto
  then show ?case
    using Cons by (auto simp: Let_def rule_applies_def conditions_match_all)
qed simp

lemma evaluate_rules_decision:
  "evaluate_rules re rules p n op ctx =
     (case find (\<lambda>r. ar_effect r = Deny) (map ae_rule (matching_entries re rules p n op ctx)) of
        Some r \<Rightarrow> PolicyDeny (deny_text (ar_id r) p n)
      | None \<Rightarrow> if map ae_rule (matching_entries re rules p n op ctx) = [] then NoMatch else PolicyAllow)"
proof -
  have f: "find (\<lambda>r. ar_effect r = Deny) (map ae_rule es) = map_option ae_rule (find (\<lambda>e. ar_effect (ae_rule e) = Deny) es)"
    for es by (induction es) auto
  have "list_ex (\<lambda>e. ar_effect (ae_rule e) = Allow) es \<longleftrightarrow> es \<noteq> []"
    if "find (\<lambda>e. ar_effect (ae_rule e) = Deny) es = None" for es
    using that effect.exhaust by (cases es) (auto split: if_splits)
  then show ?thesis
    unfolding evaluate_rules_def Let_def f by (auto split: option.splits)
qed

lemma evaluate_rules_spec:
  assumes "list_all (\<lambda>vr. simple_rule (vr_rule vr)) rules"
  shows "evaluate_rules re rules p n op ctx =
         (case find (\<lambda>vr. ar_effect (vr_rule vr) = Deny \<and> rule_applies vr p n op ctx) rules of
            Some vr \<Rightarrow> PolicyDeny (deny_text (ar_id (vr_rule vr)) p n)
          | None \<Rightarrow> if some_rule Allow rules p n op ctx then PolicyAllow else NoMatch)"
proof -
  have f: "find (\<lambda>r. ar_effect r = Deny) (map vr_rule (filter (\<lambda>vr. rule_applies vr p n op ctx) rs)) =
        map_option vr_rule (find (\<lambda>vr. ar_effect (vr_rule vr) = Deny \<and> rule_applies vr p n op ctx) rs)" for rs
    by (induction rs) auto
  have "some_rule Allow rules p n op ctx \<longleftrightarrow> filter (\<lambda>vr. rule_applies vr p n op ctx) rules \<noteq> []"
    if "find (\<lambda>vr. ar_effect (vr_rule vr) = Deny \<and> rule_applies vr p n op ctx) rules = None"
    using that effect.exhaust by (auto simp: some_rule_def find_None_iff filter_empty_conv)
  then show ?thesis
    unfolding evaluate_rules_decision matching_entries_rules [OF assms] f
    by (auto split: option.splits)
qed

section \<open>Validated rules\<close>

definition principal_char :: "char \<Rightarrow> bool" where
  "principal_char c \<longleftrightarrow> (CHR ''a'' \<le> c \<and> c \<le> CHR ''z'') \<or> (CHR ''A'' \<le> c \<and> c \<le> CHR ''Z'') \<or>
     is_digit c \<or> c \<in> set ''-._*''"

definition resource_char :: "char \<Rightarrow> bool" where
  "resource_char c \<longleftrightarrow> principal_char c \<or> c = CHR ''/''"

text \<open>What the regex crate documents for the two character-class expressions.\<close>

definition class_regexes :: "regex_new \<Rightarrow> bool" where
  "class_regexes re \<longleftrightarrow>
     (\<forall>s. regex_accepts re principal_regex s \<longleftrightarrow> s \<noteq> [] \<and> list_all principal_char s) \<and>
     (\<forall>s. regex_accepts re resource_regex s \<longleftrightarrow> s \<noteq> [] \<and> list_all resource_char s)"

lemma specials_not_class: "c \<in> set regex_specials \<Longrightarrow> \<not> resource_char c"
  by (auto simp: regex_specials_def resource_char_def principal_char_def is_digit_def less_eq_char_def)

lemma class_plain: "list_all resource_char s \<Longrightarrow> plain_pattern s"
  using specials_not_class by (auto simp: plain_pattern_def list_all_iff list_ex_iff)

lemma plain_compiles: "plain_pattern p \<Longrightarrow> compile re p \<noteq> None"
  by (auto simp: compile_def plain_pattern_def)

text \<open>A rule that passes validation uses no regex character: it always compiles, without the regex crate.\<close>

lemma validated_rule_compiles:
  assumes "class_regexes re" and "validate_rule re rule = Ok ()"
  shows "plain_pattern (ar_principal rule) \<and> plain_pattern (rp_pattern (ar_resource rule)) \<and>
         from_rule re' rule \<noteq> None \<and> ar_operations rule \<noteq> []"
proof -
  have "list_all principal_char (ar_principal rule)" "list_all resource_char (rp_pattern (ar_resource rule))"
    and ops: "ar_operations rule \<noteq> []"
    using assms by (auto simp: validate_rule_def class_regexes_def split: if_splits)
  then have "list_all resource_char (ar_principal rule)" "list_all resource_char (rp_pattern (ar_resource rule))"
    by (auto simp: list_all_iff resource_char_def)
  then have "plain_pattern (ar_principal rule)" "plain_pattern (rp_pattern (ar_resource rule))"
    by (simp_all add: class_plain)
  with ops plain_compiles [of "ar_principal rule" re'] plain_compiles [of "rp_pattern (ar_resource rule)" re']
  show ?thesis by (auto simp: from_rule_def)
qed

end
