(* ===== verification/Acl_Storage.thy ===== *)
theory Acl_Storage
  imports Acl_Rules Lru_Cache "HOL-Library.Countable"
begin

text \<open>
  \<open>security/acl/storage.rs\<close>: \<open>ObjectStorageAclStorage\<close>, which keeps each rule as one JSON object
  in an \<open>ObjectStorage\<close>, a copy in a \<open>Cache\<close>, and two in-memory indices. The two trait objects
  are the records of \<open>Object_Storage\<close> and \<open>Lru_Cache\<close>; the locale \<open>acl_backend\<close> collects their contracts and
  is interpreted on the local object store and the LRU cache. \<open>serde_json\<close> is a parameter, the
  iteration orders of the hash maps are parameters, and the uuid and the clock readings are arguments
  (the readings within one call are taken equal). The operations hold one lock at a time; they are
  modelled one after the other.
\<close>

section \<open>The state\<close>

record acl_snapshot =
  sn_rules :: "versioned_rule list"
  sn_version_counter :: nat
  sn_timestamp :: nat
  sn_snapshot_id :: string
  sn_metadata :: "(string \<times> string) list"

record ('o, 'c) acl_deps =
  ad_ops :: "'o object_ops"
  ad_list :: "string \<Rightarrow> 'o \<Rightarrow> string list result"
  ad_exists :: "string \<Rightarrow> 'o \<Rightarrow> bool result"
  ad_cache :: "'c cache_ops"
  ad_key_prefix :: string
  ad_to_json :: "versioned_rule \<Rightarrow> bytes result"
  ad_from_json :: "bytes \<Rightarrow> versioned_rule result"
  ad_snapshot_json :: "acl_snapshot \<Rightarrow> bytes result"
  ad_iter_index :: "(string \<times> string list) list \<Rightarrow> (string \<times> string list) list"
  ad_iter_ids :: "string list \<Rightarrow> string list"
  ad_iter_rules :: "(string \<times> string) list \<Rightarrow> (string \<times> string) list"

record ('o, 'c) acl_storage =
  as_objects :: 'o
  as_cache :: 'c
  as_version_counter :: nat
  as_rule_index :: "(string \<times> string) list"
  as_principal_index :: "(string \<times> string list) list"

definition get_rule_object_key :: "('o, 'c) acl_deps \<Rightarrow> string \<Rightarrow> string" where
  "get_rule_object_key d rule_id = ad_key_prefix d @ ''rules/'' @ rule_id @ ''.json''"

definition get_rule_cache_key :: "string \<Rightarrow> string" where
  "get_rule_cache_key rule_id = ''acl:rule:'' @ rule_id"

text \<open>\<open>entry(p).or_insert_with(HashSet::new).insert(id)\<close>, and \<open>get_mut(p)\<close> with \<open>remove(id)\<close>.\<close>

definition index_insert :: "string \<Rightarrow> string \<Rightarrow> (string \<times> string list) list \<Rightarrow> (string \<times> string list) list" where
  "index_insert p rule_id idx =
     AList.update p (List.insert rule_id (case map_of idx p of None \<Rightarrow> [] | Some ids \<Rightarrow> ids)) idx"

definition index_remove :: "string \<Rightarrow> string \<Rightarrow> (string \<times> string list) list \<Rightarrow> (string \<times> string list) list" where
  "index_remove p rule_id idx =
     (case map_of idx p of None \<Rightarrow> idx | Some ids \<Rightarrow> AList.update p (removeAll rule_id ids) idx)"

section \<open>The operations\<close>

definition next_version :: "('o, 'c) acl_storage \<Rightarrow> nat \<times> ('o, 'c) acl_storage" where
  "next_version st = (as_version_counter st + 1, st\<lparr>as_version_counter := as_version_counter st + 1\<rparr>)"

definition acl_get_rule ::
  "('o, 'c) acl_deps \<Rightarrow> nat \<Rightarrow> string \<Rightarrow> ('o, 'c) acl_storage \<Rightarrow>
   versioned_rule option result \<times> ('o, 'c) acl_storage" where
  "acl_get_rule d now rule_id st =
     (let cache_key = get_rule_cache_key rule_id;
          (r, c) = ch_get (ad_cache d) now cache_key (as_cache st);
          st = st\<lparr>as_cache := c\<rparr>;
          hit = (case r of Inr (Some data) \<Rightarrow>
                   (case ad_from_json d data of Inr rule \<Rightarrow> Some rule | Inl _ \<Rightarrow> None) | _ \<Rightarrow> None)
      in case hit of
           Some rule \<Rightarrow> (Ok (Some rule), st)
         | None \<Rightarrow>
             (case op_get (ad_ops d) (get_rule_object_key d rule_id) (as_objects st) of
                Inr data \<Rightarrow>
                  (case ad_from_json d data of
                     Inl e \<Rightarrow> (Err e, st)
                   | Inr rule \<Rightarrow>
                       (Ok (Some rule), st\<lparr>as_cache := snd (ch_put (ad_cache d) now cache_key data (as_cache st))\<rparr>))
              | Inl (ObjectNotFound _) \<Rightarrow> (Ok None, st)
              | Inl e \<Rightarrow> (Err e, st)))"

definition acl_create_rule ::
  "('o, 'c) acl_deps \<Rightarrow> nat \<Rightarrow> nat \<Rightarrow> string \<Rightarrow> acl_rule \<Rightarrow> string \<Rightarrow> string \<Rightarrow> ('o, 'c) acl_storage \<Rightarrow>
   string result \<times> ('o, 'c) acl_storage" where
  "acl_create_rule d now ts uuid rule created_by description st =
     (let rule = (if ar_id rule = [] then rule\<lparr>ar_id := uuid\<rparr> else rule) in
      if map_of (as_rule_index st) (ar_id rule) \<noteq> None
      then (Err (AclEvaluation (''Rule with ID '' @ ar_id rule @ '' already exists'')), st)
      else
        (let (version, st) = next_version st;
             versioned = \<lparr>vr_rule = rule, vr_version = version, vr_timestamp = ts, vr_created_by = created_by,
                          vr_change_description = description, vr_deleted = False\<rparr>;
             object_key = get_rule_object_key d (ar_id rule)
         in case ad_to_json d versioned of
              Inl e \<Rightarrow> (Err e, st)
            | Inr data \<Rightarrow>
                (case op_put (ad_ops d) object_key data (as_objects st) of
                   (Inl e, objs) \<Rightarrow> (Err e, st\<lparr>as_objects := objs\<rparr>)
                 | (Inr _, objs) \<Rightarrow>
                     (case ch_put (ad_cache d) now (get_rule_cache_key (ar_id rule)) data (as_cache st) of
                        (Inl e, c) \<Rightarrow> (Err e, st\<lparr>as_objects := objs, as_cache := c\<rparr>)
                      | (Inr _, c) \<Rightarrow>
                          (Ok (ar_id rule),
                           st\<lparr>as_objects := objs, as_cache := c,
                              as_rule_index := AList.update (ar_id rule) object_key (as_rule_index st),
                              as_principal_index := index_insert (ar_principal rule) (ar_id rule) (as_principal_index st)\<rparr>)))))"

definition acl_update_rule ::
  "('o, 'c) acl_deps \<Rightarrow> nat \<Rightarrow> nat \<Rightarrow> string \<Rightarrow> acl_rule \<Rightarrow> string \<Rightarrow> string \<Rightarrow> ('o, 'c) acl_storage \<Rightarrow>
   unit result \<times> ('o, 'c) acl_storage" where
  "acl_update_rule d now ts rule_id rule updated_by description st =
     (let rule = rule\<lparr>ar_id := rule_id\<rparr> in
      case acl_get_rule d now rule_id st of
        (Inl e, st) \<Rightarrow> (Err e, st)
      | (Inr None, st) \<Rightarrow> (Err (AclEvaluation (''Rule '' @ rule_id @ '' not found'')), st)
      | (Inr (Some existing), st) \<Rightarrow>
          (let (version, st) = next_version st;
               versioned = \<lparr>vr_rule = rule, vr_version = version, vr_timestamp = ts, vr_created_by = updated_by,
                            vr_change_description = description, vr_deleted = False\<rparr>
           in case ad_to_json d versioned of
                Inl e \<Rightarrow> (Err e, st)
              | Inr data \<Rightarrow>
                  (case op_put (ad_ops d) (get_rule_object_key d rule_id) data (as_objects st) of
                     (Inl e, objs) \<Rightarrow> (Err e, st\<lparr>as_objects := objs\<rparr>)
                   | (Inr _, objs) \<Rightarrow>
                       (case ch_put (ad_cache d) now (get_rule_cache_key rule_id) data (as_cache st) of
                          (Inl e, c) \<Rightarrow> (Err e, st\<lparr>as_objects := objs, as_cache := c\<rparr>)
                        | (Inr _, c) \<Rightarrow>
                            (let old = ar_principal (vr_rule existing);
                                 idx = (if old \<noteq> ar_principal rule
                                        then index_insert (ar_principal rule) rule_id
                                               (index_remove old rule_id (as_principal_index st))
                                        else as_principal_index st)
                             in (Ok (), st\<lparr>as_objects := objs, as_cache := c, as_principal_index := idx\<rparr>))))))"

definition acl_delete_rule ::
  "('o, 'c) acl_deps \<Rightarrow> nat \<Rightarrow> nat \<Rightarrow> string \<Rightarrow> string \<Rightarrow> string \<Rightarrow> ('o, 'c) acl_storage \<Rightarrow>
   unit result \<times> ('o, 'c) acl_storage" where
  "acl_delete_rule d now ts rule_id deleted_by description st =
     (case acl_get_rule d now rule_id st of
        (Inl e, st) \<Rightarrow> (Err e, st)
      | (Inr None, st) \<Rightarrow> (Err (AclEvaluation (''Rule '' @ rule_id @ '' not found'')), st)
      | (Inr (Some existing), st) \<Rightarrow>
          (let (version, st) = next_version st;
               existing = existing\<lparr>vr_deleted := True, vr_version := version, vr_timestamp := ts,
                                   vr_created_by := deleted_by, vr_change_description := description\<rparr>
           in case ad_to_json d existing of
                Inl e \<Rightarrow> (Err e, st)
              | Inr data \<Rightarrow>
                  (case op_put (ad_ops d) (get_rule_object_key d rule_id) data (as_objects st) of
                     (Inl e, objs) \<Rightarrow> (Err e, st\<lparr>as_objects := objs\<rparr>)
                   | (Inr _, objs) \<Rightarrow>
                       (case ch_remove (ad_cache d) (get_rule_cache_key rule_id) (as_cache st) of
                          (Inl e, c) \<Rightarrow> (Err e, st\<lparr>as_objects := objs, as_cache := c\<rparr>)
                        | (Inr _, c) \<Rightarrow>
                            (Ok (), st\<lparr>as_objects := objs, as_cache := c,
                                       as_principal_index :=
                                         index_remove (ar_principal (vr_rule existing)) rule_id (as_principal_index st)\<rparr>)))))"

text \<open>The loop over the ids of one index entry: rules that cannot be read, and deleted rules, are skipped.\<close>

fun collect_rules ::
  "('o, 'c) acl_deps \<Rightarrow> nat \<Rightarrow> string list \<Rightarrow> ('o, 'c) acl_storage \<Rightarrow>
   versioned_rule list \<times> ('o, 'c) acl_storage" where
  "collect_rules d now [] st = ([], st)"
| "collect_rules d now (rule_id # ids) st =
     (let (r, st) = acl_get_rule d now rule_id st;
          (rules, st') = collect_rules d now ids st
      in case r of
           Inr (Some rule) \<Rightarrow> (if \<not> vr_deleted rule then (rule # rules, st') else (rules, st'))
         | _ \<Rightarrow> (rules, st'))"

definition wildcard_match :: "string \<Rightarrow> string \<Rightarrow> bool" where
  "wildcard_match pat prin \<longleftrightarrow>
     star \<in> set pat \<and>
     (pat = ''*'' \<or> (suffix ''*'' pat \<and> prefix (butlast pat) prin) \<or> (prefix ''*'' pat \<and> suffix (tl pat) prin))"

fun collect_patterns ::
  "('o, 'c) acl_deps \<Rightarrow> nat \<Rightarrow> string \<Rightarrow> (string \<times> string list) list \<Rightarrow> ('o, 'c) acl_storage \<Rightarrow>
   versioned_rule list \<times> ('o, 'c) acl_storage" where
  "collect_patterns d now prin [] st = ([], st)"
| "collect_patterns d now prin ((pat, ids) # idx) st =
     (if wildcard_match pat prin then
        (let (rules, st) = collect_rules d now (ad_iter_ids d ids) st;
             (rest, st) = collect_patterns d now prin idx st
         in (rules @ rest, st))
      else collect_patterns d now prin idx st)"

definition acl_rules_for_principal ::
  "('o, 'c) acl_deps \<Rightarrow> nat \<Rightarrow> string \<Rightarrow> ('o, 'c) acl_storage \<Rightarrow>
   versioned_rule list result \<times> ('o, 'c) acl_storage" where
  "acl_rules_for_principal d now prin st =
     (let idx = as_principal_index st;
          (direct, st) = (case map_of idx prin of
                            Some ids \<Rightarrow> collect_rules d now (ad_iter_ids d ids) st
                          | None \<Rightarrow> ([], st));
          (wild, st) = collect_patterns d now prin (ad_iter_index d idx) st
      in (Ok (direct @ wild), st))"

text \<open>\<open>load_all_rules\<close>: objects that cannot be read or parsed are skipped.\<close>

fun read_rules :: "('o, 'c) acl_deps \<Rightarrow> string list \<Rightarrow> 'o \<Rightarrow> versioned_rule list" where
  "read_rules d [] objs = []"
| "read_rules d (key # keys) objs =
     (case op_get (ad_ops d) key objs of
        Inl _ \<Rightarrow> read_rules d keys objs
      | Inr data \<Rightarrow>
          (case ad_from_json d data of
             Inl _ \<Rightarrow> read_rules d keys objs
           | Inr rule \<Rightarrow> rule # read_rules d keys objs))"

definition load_all_rules :: "('o, 'c) acl_deps \<Rightarrow> ('o, 'c) acl_storage \<Rightarrow> versioned_rule list result" where
  "load_all_rules d st =
     (case ad_list d (ad_key_prefix d @ ''rules/'') (as_objects st) of
        Inl e \<Rightarrow> Err e
      | Inr keys \<Rightarrow> Ok (read_rules d keys (as_objects st)))"

text \<open>The loop of \<open>initialize_indices\<close> over rule index, principal index and largest version.\<close>

fun index_rules ::
  "('o, 'c) acl_deps \<Rightarrow> versioned_rule list \<Rightarrow> (string \<times> string) list \<times> (string \<times> string list) list \<times> nat \<Rightarrow>
   (string \<times> string) list \<times> (string \<times> string list) list \<times> nat" where
  "index_rules d [] acc = acc"
| "index_rules d (rule # rules) (rule_index, principal_index, max_version) =
     (let rule_id = ar_id (vr_rule rule) in
      index_rules d rules
        (AList.update rule_id (get_rule_object_key d rule_id) rule_index,
         index_insert (ar_principal (vr_rule rule)) rule_id principal_index,
         if vr_version rule > max_version then vr_version rule else max_version))"

definition initialize_indices ::
  "('o, 'c) acl_deps \<Rightarrow> ('o, 'c) acl_storage \<Rightarrow> unit result \<times> ('o, 'c) acl_storage" where
  "initialize_indices d st =
     (case load_all_rules d st of
        Inl e \<Rightarrow> (Err e, st)
      | Inr rules \<Rightarrow>
          (let (rule_index, principal_index, max_version) =
                 index_rules d rules (as_rule_index st, as_principal_index st, 0)
           in (Ok (), st\<lparr>as_rule_index := rule_index, as_principal_index := principal_index,
                         as_version_counter := max_version\<rparr>)))"

definition acl_storage_new :: "('o, 'c) acl_deps \<Rightarrow> 'o \<Rightarrow> 'c \<Rightarrow> ('o, 'c) acl_storage result" where
  "acl_storage_new d objs c =
     (case initialize_indices d \<lparr>as_objects = objs, as_cache = c, as_version_counter = 0,
                                 as_rule_index = [], as_principal_index = []\<rparr> of
        (Inl e, _) \<Rightarrow> Err e
      | (Inr _, st) \<Rightarrow> Ok st)"

record rule_filter =
  rf_principal :: "string option"
  rf_resource_pattern :: "string option"
  rf_operations :: "acl_operation list option"
  rf_effect :: "effect option"
  rf_version_range :: "(nat \<times> nat) option"
  rf_include_deleted :: bool
  rf_limit :: "nat option"

definition filter_accepts :: "rule_filter \<Rightarrow> versioned_rule \<Rightarrow> bool" where
  "filter_accepts flt rule =
     (if vr_deleted rule \<and> \<not> rf_include_deleted flt then False
      else if (case rf_principal flt of None \<Rightarrow> False | Some p \<Rightarrow> ar_principal (vr_rule rule) \<noteq> p) then False
      else if (case rf_resource_pattern flt of None \<Rightarrow> False
                 | Some p \<Rightarrow> rp_pattern (ar_resource (vr_rule rule)) \<noteq> p) then False
      else if (case rf_operations flt of None \<Rightarrow> False
                 | Some ops \<Rightarrow> \<not> list_ex (\<lambda>op. op \<in> set (ar_operations (vr_rule rule))) ops) then False
      else if (case rf_effect flt of None \<Rightarrow> False | Some e \<Rightarrow> ar_effect (vr_rule rule) \<noteq> e) then False
      else if (case rf_version_range flt of None \<Rightarrow> False
                 | Some (lo, hi) \<Rightarrow> vr_version rule < lo \<or> vr_version rule > hi) then False
      else True)"

text \<open>The loop of \<open>list_rules\<close>; \<open>got\<close> are the rules pushed so far. The limit is tested after a push.\<close>

fun list_loop :: "rule_filter \<Rightarrow> versioned_rule list \<Rightarrow> versioned_rule list \<Rightarrow> versioned_rule list" where
  "list_loop flt [] got = got"
| "list_loop flt (rule # rules) got =
     (if \<not> filter_accepts flt rule then list_loop flt rules got
      else (let got = got @ [rule] in
            case rf_limit flt of
              None \<Rightarrow> list_loop flt rules got
            | Some limit \<Rightarrow> if length got \<ge> limit then got else list_loop flt rules got))"

definition acl_list_rules ::
  "('o, 'c) acl_deps \<Rightarrow> rule_filter \<Rightarrow> ('o, 'c) acl_storage \<Rightarrow> versioned_rule list result" where
  "acl_list_rules d flt st =
     (case load_all_rules d st of Inl e \<Rightarrow> Err e | Inr rules \<Rightarrow> Ok (list_loop flt rules []))"

definition acl_rules_since_version ::
  "('o, 'c) acl_deps \<Rightarrow> nat \<Rightarrow> ('o, 'c) acl_storage \<Rightarrow> versioned_rule list result" where
  "acl_rules_since_version d version st =
     (case load_all_rules d st of
        Inl e \<Rightarrow> Err e
      | Inr rules \<Rightarrow> Ok (filter (\<lambda>rule. vr_version rule > version) rules))"

definition acl_create_snapshot ::
  "('o, 'c) acl_deps \<Rightarrow> nat \<Rightarrow> string \<Rightarrow> ('o, 'c) acl_storage \<Rightarrow>
   acl_snapshot result \<times> ('o, 'c) acl_storage" where
  "acl_create_snapshot d ts uuid st =
     (case load_all_rules d st of
        Inl e \<Rightarrow> (Err e, st)
      | Inr rules \<Rightarrow>
          (let snap = \<lparr>sn_rules = rules, sn_version_counter = as_version_counter st, sn_timestamp = ts,
                       sn_snapshot_id = uuid, sn_metadata = []\<rparr>
           in case ad_snapshot_json d snap of
                Inl e \<Rightarrow> (Err e, st)
              | Inr data \<Rightarrow>
                  (case op_put (ad_ops d) (ad_key_prefix d @ ''snapshots/'' @ uuid @ ''.json'') data (as_objects st) of
                     (Inl e, objs) \<Rightarrow> (Err e, st\<lparr>as_objects := objs\<rparr>)
                   | (Inr _, objs) \<Rightarrow> (Ok snap, st\<lparr>as_objects := objs\<rparr>))))"

fun restore_rules ::
  "('o, 'c) acl_deps \<Rightarrow> versioned_rule list \<Rightarrow> ('o, 'c) acl_storage \<Rightarrow>
   unit result \<times> ('o, 'c) acl_storage" where
  "restore_rules d [] st = (Ok (), st)"
| "restore_rules d (rule # rules) st =
     (if vr_deleted rule then restore_rules d rules st
      else
        (let rule_id = ar_id (vr_rule rule); object_key = get_rule_object_key d rule_id in
         case ad_to_json d rule of
           Inl e \<Rightarrow> (Err e, st)
         | Inr data \<Rightarrow>
             (case op_put (ad_ops d) object_key data (as_objects st) of
                (Inl e, objs) \<Rightarrow> (Err e, st\<lparr>as_objects := objs\<rparr>)
              | (Inr _, objs) \<Rightarrow>
                  restore_rules d rules
                    (st\<lparr>as_objects := objs,
                        as_rule_index := AList.update rule_id object_key (as_rule_index st),
                        as_principal_index :=
                          index_insert (ar_principal (vr_rule rule)) rule_id (as_principal_index st)\<rparr>))))"

definition acl_restore_snapshot ::
  "('o, 'c) acl_deps \<Rightarrow> acl_snapshot \<Rightarrow> ('o, 'c) acl_storage \<Rightarrow> unit result \<times> ('o, 'c) acl_storage" where
  "acl_restore_snapshot d snapshot st =
     (case restore_rules d (sn_rules snapshot) (st\<lparr>as_rule_index := [], as_principal_index := []\<rparr>) of
        (Inl e, st) \<Rightarrow> (Err e, st)
      | (Inr _, st) \<Rightarrow> (Ok (), st\<lparr>as_version_counter := sn_version_counter snapshot\<rparr>))"

definition key_strip_prefix :: "string \<Rightarrow> string \<Rightarrow> string option" where
  "key_strip_prefix p s = (if prefix p s then Some (drop (length p) s) else None)"

definition key_strip_suffix :: "string \<Rightarrow> string \<Rightarrow> string option" where
  "key_strip_suffix p s = (if suffix p s then Some (take (length s - length p) s) else None)"

definition acl_list_snapshots :: "('o, 'c) acl_deps \<Rightarrow> ('o, 'c) acl_storage \<Rightarrow> string list result" where
  "acl_list_snapshots d st =
     (case ad_list d (ad_key_prefix d @ ''snapshots/'') (as_objects st) of
        Inl e \<Rightarrow> Err e
      | Inr keys \<Rightarrow>
          Ok (List.map_filter (\<lambda>key. Option.bind (key_strip_prefix (ad_key_prefix d @ ''snapshots/'') key)
                                        (key_strip_suffix ''.json'')) keys))"

fun check_rules ::
  "('o, 'c) acl_deps \<Rightarrow> nat \<Rightarrow> (string \<times> string) list \<Rightarrow> ('o, 'c) acl_storage \<Rightarrow>
   bool result \<times> ('o, 'c) acl_storage" where
  "check_rules d now [] st = (Ok True, st)"
| "check_rules d now ((rule_id, object_key) # idx) st =
     (case ad_exists d object_key (as_objects st) of
        Inl e \<Rightarrow> (Err e, st)
      | Inr False \<Rightarrow> (Ok False, st)
      | Inr True \<Rightarrow>
          (case acl_get_rule d now rule_id st of
             (Inl _, st) \<Rightarrow> (Ok False, st)
           | (Inr _, st) \<Rightarrow> check_rules d now idx st))"

definition acl_validate_integrity ::
  "('o, 'c) acl_deps \<Rightarrow> nat \<Rightarrow> ('o, 'c) acl_storage \<Rightarrow> bool result \<times> ('o, 'c) acl_storage" where
  "acl_validate_integrity d now st = check_rules d now (ad_iter_rules d (as_rule_index st)) st"

section \<open>The rules a storage holds, and its invariant\<close>

definition rules_dir :: "('o, 'c) acl_deps \<Rightarrow> string" where
  "rules_dir d = ad_key_prefix d @ ''rules''"

definition rule_id_ok :: "('o, 'c) acl_deps \<Rightarrow> (string \<Rightarrow> bool) \<Rightarrow> string \<Rightarrow> bool" where
  "rule_id_ok d plain rule_id \<longleftrightarrow> CHR ''/'' \<notin> set rule_id \<and> plain (get_rule_object_key d rule_id)"

definition acl_rules ::
  "('o, 'c) acl_deps \<Rightarrow> ('o \<Rightarrow> string \<rightharpoonup> bytes) \<Rightarrow> (string \<Rightarrow> bool) \<Rightarrow> ('o, 'c) acl_storage \<Rightarrow>
   string \<rightharpoonup> versioned_rule" where
  "acl_rules d contents plain st rule_id =
     (if rule_id_ok d plain rule_id then
        (case contents (as_objects st) (get_rule_object_key d rule_id) of
           None \<Rightarrow> None
         | Some data \<Rightarrow> (case ad_from_json d data of Inl _ \<Rightarrow> None | Inr rule \<Rightarrow> Some rule))
      else None)"

text \<open>Objects and cache: a cached copy is the stored object, and every object of the directory is a rule.\<close>

definition store_ok ::
  "('o, 'c) acl_deps \<Rightarrow> ('o \<Rightarrow> string \<rightharpoonup> bytes) \<Rightarrow> (string \<Rightarrow> bool) \<Rightarrow> ('o \<Rightarrow> bool) \<Rightarrow>
   ('c \<Rightarrow> string \<rightharpoonup> bytes) \<Rightarrow> ('c \<Rightarrow> bool) \<Rightarrow> ('o, 'c) acl_storage \<Rightarrow> bool" where
  "store_ok d contents plain tidy view cinv st \<longleftrightarrow>
     tidy (as_objects st) \<and> cinv (as_cache st) \<and>
     (\<forall>i b. rule_id_ok d plain i \<longrightarrow> view (as_cache st) (get_rule_cache_key i) = Some b \<longrightarrow>
            contents (as_objects st) (get_rule_object_key d i) = Some b) \<and>
     (\<forall>n b. CHR ''/'' \<notin> set n \<longrightarrow> plain (rules_dir d @ CHR ''/'' # n) \<longrightarrow>
            contents (as_objects st) (rules_dir d @ CHR ''/'' # n) = Some b \<longrightarrow>
            (\<exists>i r. n = i @ ''.json'' \<and> ad_from_json d b = Ok r \<and> ar_id (vr_rule r) = i \<and>
                   vr_version r \<le> as_version_counter st))"

definition indexed :: "(string \<times> string list) list \<Rightarrow> string \<Rightarrow> string set" where
  "indexed idx p = (case map_of idx p of None \<Rightarrow> {} | Some ids \<Rightarrow> set ids)"

text \<open>The indices: the rule index has every rule, the principal index every rule that is not deleted.\<close>

definition index_ok ::
  "('o, 'c) acl_deps \<Rightarrow> (string \<rightharpoonup> versioned_rule) \<Rightarrow> ('o, 'c) acl_storage \<Rightarrow> bool" where
  "index_ok d m st \<longleftrightarrow>
     distinct (map fst (as_rule_index st)) \<and> distinct (map fst (as_principal_index st)) \<and>
     (\<forall>i. map_of (as_rule_index st) i = (if m i = None then None else Some (get_rule_object_key d i))) \<and>
     (\<forall>p i. i \<in> indexed (as_principal_index st) p \<longrightarrow> (\<exists>r. m i = Some r \<and> ar_principal (vr_rule r) = p)) \<and>
     (\<forall>i r. m i = Some r \<longrightarrow> \<not> vr_deleted r \<longrightarrow> i \<in> indexed (as_principal_index st) (ar_principal (vr_rule r)))"

lemma indexed_insert: "indexed (index_insert p i idx) q = (if q = p then insert i (indexed idx q) else indexed idx q)"
  by (auto simp: indexed_def index_insert_def update_conv' split: option.splits)

lemma indexed_remove: "indexed (index_remove p i idx) q = (if q = p then indexed idx q - {i} else indexed idx q)"
  by (auto simp: indexed_def index_remove_def update_conv' split: option.splits)

lemma index_distinct [simp]:
  "distinct (map fst idx) \<Longrightarrow> distinct (map fst (index_insert p i idx))"
  "distinct (map fst idx) \<Longrightarrow> distinct (map fst (index_remove p i idx))"
  by (auto simp: index_insert_def index_remove_def distinct_update split: option.splits)

lemma object_key_dir: "get_rule_object_key d i = rules_dir d @ CHR ''/'' # i @ ''.json''"
  by (simp add: get_rule_object_key_def rules_dir_def)

lemma object_key_inject [simp]: "get_rule_object_key d i = get_rule_object_key d j \<longleftrightarrow> i = j"
  by (simp add: get_rule_object_key_def)

lemma rule_cache_key_inject [simp]: "get_rule_cache_key i = get_rule_cache_key j \<longleftrightarrow> i = j"
  by (simp add: get_rule_cache_key_def)

text \<open>The states that differ only in what is cached.\<close>

definition same_rules :: "('o, 'c) acl_storage \<Rightarrow> ('o, 'c) acl_storage \<Rightarrow> bool" where
  "same_rules st st' \<longleftrightarrow> as_objects st' = as_objects st \<and> as_version_counter st' = as_version_counter st \<and>
     as_rule_index st' = as_rule_index st \<and> as_principal_index st' = as_principal_index st"

lemma same_rules_refl [simp]: "same_rules st st"
  by (simp add: same_rules_def)

lemma same_rules_trans: "same_rules a b \<Longrightarrow> same_rules b c \<Longrightarrow> same_rules a c"
  by (simp add: same_rules_def)

lemma acl_rules_same: "same_rules st st' \<Longrightarrow> acl_rules d contents plain st' = acl_rules d contents plain st"
  by (simp add: same_rules_def acl_rules_def fun_eq_iff)

lemma index_ok_same: "same_rules st st' \<Longrightarrow> index_ok d m st' = index_ok d m st"
  by (simp add: same_rules_def index_ok_def)

lemma index_ok_live:
  "index_ok d m st \<Longrightarrow> m i = Some r \<Longrightarrow> \<not> vr_deleted r \<Longrightarrow> i \<in> indexed (as_principal_index st) (ar_principal (vr_rule r))"
  by (simp add: index_ok_def)

lemma index_ok_own:
  "index_ok d m st \<Longrightarrow> m i = Some r \<Longrightarrow> i \<in> indexed (as_principal_index st) p \<Longrightarrow> p = ar_principal (vr_rule r)"
  unfolding index_ok_def by fastforce

text \<open>Replacing a rule keeps the indices right when only its own id moves.\<close>

lemma index_ok_replace:
  assumes idx: "index_ok d m st" and i: "m i = Some old"
    and same: "as_rule_index st' = as_rule_index st" "distinct (map fst (as_principal_index st'))"
    and others: "\<And>q j. j \<noteq> i \<Longrightarrow> j \<in> indexed (as_principal_index st') q \<longleftrightarrow> j \<in> indexed (as_principal_index st) q"
    and own: "\<And>q. i \<in> indexed (as_principal_index st') q \<Longrightarrow> q = ar_principal (vr_rule r)"
    and live: "\<not> vr_deleted r \<Longrightarrow> i \<in> indexed (as_principal_index st') (ar_principal (vr_rule r))"
  shows "index_ok d (m(i \<mapsto> r)) st'"
  unfolding index_ok_def
proof (intro conjI allI impI)
  fix p j assume "j \<in> indexed (as_principal_index st') p"
  then show "\<exists>r'. (m(i \<mapsto> r)) j = Some r' \<and> ar_principal (vr_rule r') = p"
    using idx others [of j p] own [of p] by (cases "j = i") (auto simp: index_ok_def)
next
  fix j r' assume "(m(i \<mapsto> r)) j = Some r'" "\<not> vr_deleted r'"
  then show "j \<in> indexed (as_principal_index st') (ar_principal (vr_rule r'))"
    using idx others [of j] live by (cases "j = i") (auto simp: index_ok_def)
qed (use idx i same in \<open>auto simp: index_ok_def\<close>)

text \<open>What the loop of \<open>initialize_indices\<close> builds.\<close>

lemma index_rules_spec:
  assumes "index_rules d rs (ri, pidx, v) = (ri', pidx', v')"
  shows "(\<forall>i. map_of ri' i = (if i \<in> (ar_id \<circ> vr_rule) ` set rs then Some (get_rule_object_key d i) else map_of ri i)) \<and>
    (\<forall>p. indexed pidx' p = indexed pidx p \<union> {i. \<exists>r \<in> set rs. ar_id (vr_rule r) = i \<and> ar_principal (vr_rule r) = p}) \<and>
    (distinct (map fst ri) \<longrightarrow> distinct (map fst ri')) \<and> (distinct (map fst pidx) \<longrightarrow> distinct (map fst pidx')) \<and>
    v' = Max (insert v (vr_version ` set rs))"
  using assms
proof (induction rs arbitrary: ri pidx v)
  case (Cons r rs)
  let ?i = "ar_id (vr_rule r)"
  let ?ri = "AList.update ?i (get_rule_object_key d ?i) ri"
    and ?p = "index_insert (ar_principal (vr_rule r)) ?i pidx" and ?v = "if vr_version r > v then vr_version r else v"
  have run: "index_rules d rs (?ri, ?p, ?v) = (ri', pidx', v')" using Cons.prems by (simp add: Let_def)
  note IH = Cons.IH [OF run]
  have "map_of ri' i = (if i \<in> (ar_id \<circ> vr_rule) ` set (r # rs) then Some (get_rule_object_key d i) else map_of ri i)" for i
    using IH by (auto simp: update_conv')
  moreover have "indexed pidx' p = indexed pidx p \<union> {i. \<exists>r \<in> set (r # rs). ar_id (vr_rule r) = i \<and> ar_principal (vr_rule r) = p}" for p
    using IH by (auto simp: indexed_insert)
  moreover have "distinct (map fst ri) \<longrightarrow> distinct (map fst ri')" "distinct (map fst pidx) \<longrightarrow> distinct (map fst pidx')"
    using IH by (simp_all add: distinct_update)
  moreover have "v' = Max (insert v (vr_version ` set (r # rs)))"
    using IH by (cases "vr_version ` set rs = {}") (auto simp: max_def)
  ultimately show ?case by blast
qed auto

section \<open>The storage as a map of versioned rules\<close>

text \<open>The calls, with the clock readings and the uuid they use; a restart comes with the new, empty cache.\<close>

datatype 'c acl_call =
    CreateRule nat nat string acl_rule string string
  | UpdateRule nat nat string acl_rule string string
  | DeleteRule nat nat string string string
  | GetRule nat string
  | RulesForPrincipal nat string
  | ValidateIntegrity nat
  | GetVersion
  | RulesSince nat
  | Restart 'c

datatype acl_reply =
    RuleId "string result"
  | Done "unit result"
  | FoundRule "versioned_rule option result"
  | FoundRules "versioned_rule list result"
  | Valid "bool result"
  | Version nat

fun acl_exec ::
  "('o, 'c) acl_deps \<Rightarrow> 'c acl_call \<Rightarrow> ('o, 'c) acl_storage \<Rightarrow> acl_reply \<times> ('o, 'c) acl_storage" where
  "acl_exec d (CreateRule now ts uuid rule created_by desc) st =
     apfst RuleId (acl_create_rule d now ts uuid rule created_by desc st)"
| "acl_exec d (UpdateRule now ts i rule updated_by desc) st = apfst Done (acl_update_rule d now ts i rule updated_by desc st)"
| "acl_exec d (DeleteRule now ts i deleted_by desc) st = apfst Done (acl_delete_rule d now ts i deleted_by desc st)"
| "acl_exec d (GetRule now i) st = apfst FoundRule (acl_get_rule d now i st)"
| "acl_exec d (RulesForPrincipal now prin) st = apfst FoundRules (acl_rules_for_principal d now prin st)"
| "acl_exec d (ValidateIntegrity now) st = apfst Valid (acl_validate_integrity d now st)"
| "acl_exec d GetVersion st = (Version (as_version_counter st), st)"
| "acl_exec d (RulesSince v) st = (FoundRules (acl_rules_since_version d v st), st)"
| "acl_exec d (Restart c) st =
     (case acl_storage_new d (as_objects st) c of Inl e \<Rightarrow> (Done (Err e), st) | Inr st' \<Rightarrow> (Done (Ok ()), st'))"

type_synonym acl_model = "(string \<rightharpoonup> versioned_rule) \<times> nat"

definition written :: "acl_rule \<Rightarrow> string \<Rightarrow> nat \<Rightarrow> nat \<Rightarrow> string \<Rightarrow> string \<Rightarrow> versioned_rule" where
  "written rule i v ts who desc =
     \<lparr>vr_rule = rule\<lparr>ar_id := i\<rparr>, vr_version = v, vr_timestamp = ts, vr_created_by = who,
      vr_change_description = desc, vr_deleted = False\<rparr>"

definition new_id :: "string \<Rightarrow> acl_rule \<Rightarrow> string" where
  "new_id uuid rule = (if ar_id rule = [] then uuid else ar_id rule)"

fun spec_next :: "'c acl_call \<Rightarrow> acl_model \<Rightarrow> acl_model" where
  "spec_next (CreateRule now ts uuid rule who desc) (m, v) =
     (let i = new_id uuid rule in
      if m i = None then (m(i \<mapsto> written rule i (v + 1) ts who desc), v + 1) else (m, v))"
| "spec_next (UpdateRule now ts i rule who desc) (m, v) =
     (if m i = None then (m, v) else (m(i \<mapsto> written rule i (v + 1) ts who desc), v + 1))"
| "spec_next (DeleteRule now ts i who desc) (m, v) =
     (case m i of
        None \<Rightarrow> (m, v)
      | Some old \<Rightarrow> (m(i \<mapsto> old\<lparr>vr_deleted := True, vr_version := v + 1, vr_timestamp := ts,
                                vr_created_by := who, vr_change_description := desc\<rparr>), v + 1))"
| "spec_next call (m, v) = (m, v)"

definition applicable :: "(string \<rightharpoonup> versioned_rule) \<Rightarrow> string \<Rightarrow> versioned_rule set" where
  "applicable m prin = {r. \<exists>i. m i = Some r \<and> \<not> vr_deleted r \<and>
      (ar_principal (vr_rule r) = prin \<or> wildcard_match (ar_principal (vr_rule r)) prin)}"

fun spec_reply :: "'c acl_call \<Rightarrow> acl_model \<Rightarrow> acl_reply \<Rightarrow> bool" where
  "spec_reply (CreateRule now ts uuid rule who desc) (m, v) reply =
     (let i = new_id uuid rule in
      reply = RuleId (if m i = None then Ok i
                      else Err (AclEvaluation (''Rule with ID '' @ i @ '' already exists''))))"
| "spec_reply (UpdateRule now ts i rule who desc) (m, v) reply =
     (if m i = None then \<exists>e. reply = Done (Err (NotFound e)) else reply = Done (Ok ()))"
| "spec_reply (DeleteRule now ts i who desc) (m, v) reply =
     (if m i = None then \<exists>e. reply = Done (Err (NotFound e)) else reply = Done (Ok ()))"
| "spec_reply (GetRule now i) (m, v) reply =
     (case m i of None \<Rightarrow> \<exists>e. reply = FoundRule (Err (NotFound e)) | Some r \<Rightarrow> reply = FoundRule (Ok (Some r)))"
| "spec_reply (RulesForPrincipal now prin) (m, v) reply = (\<exists>rs. reply = FoundRules (Ok rs) \<and> set rs = applicable m prin)"
| "spec_reply (ValidateIntegrity now) (m, v) reply = (reply = Valid (Ok True))"
| "spec_reply GetVersion (m, v) reply = (reply = Version v)"
| "spec_reply (RulesSince w) (m, v) reply =
     (\<exists>rs. reply = FoundRules (Ok rs) \<and> set rs = {r \<in> ran m. vr_version r > w} \<and> distinct (map (ar_id \<circ> vr_rule) rs))"
| "spec_reply (Restart c) (m, v) reply = (reply = Done (Ok ()))"

text \<open>
  The calls the promise covers: usable ids, an empty cache at a restart, and no update that revives a
  deleted rule for the principal it had.
\<close>

fun call_ok ::
  "('o, 'c) acl_deps \<Rightarrow> (string \<Rightarrow> bool) \<Rightarrow> ('c \<Rightarrow> bool) \<Rightarrow> 'c acl_call \<Rightarrow> acl_model \<Rightarrow> bool" where
  "call_ok d plain fresh (CreateRule now ts uuid rule who desc) (m, v) = rule_id_ok d plain (new_id uuid rule)"
| "call_ok d plain fresh (UpdateRule now ts i rule who desc) (m, v) =
     (rule_id_ok d plain i \<and>
      (case m i of None \<Rightarrow> True
         | Some old \<Rightarrow> \<not> vr_deleted old \<or> ar_principal (vr_rule old) \<noteq> ar_principal rule))"
| "call_ok d plain fresh (DeleteRule now ts i who desc) (m, v) = rule_id_ok d plain i"
| "call_ok d plain fresh (GetRule now i) (m, v) = rule_id_ok d plain i"
| "call_ok d plain fresh (Restart c) (m, v) = fresh c"
| "call_ok d plain fresh _ (m, v) = True"

fun acl_run ::
  "('o, 'c) acl_deps \<Rightarrow> 'c acl_call list \<Rightarrow> ('o, 'c) acl_storage \<Rightarrow> acl_reply list \<times> ('o, 'c) acl_storage" where
  "acl_run d [] st = ([], st)"
| "acl_run d (call # calls) st =
     (let (reply, st) = acl_exec d call st; (replies, st) = acl_run d calls st in (reply # replies, st))"

fun calls_ok ::
  "('o, 'c) acl_deps \<Rightarrow> (string \<Rightarrow> bool) \<Rightarrow> ('c \<Rightarrow> bool) \<Rightarrow> 'c acl_call list \<Rightarrow> acl_model \<Rightarrow> bool" where
  "calls_ok d plain fresh [] mv = True"
| "calls_ok d plain fresh (call # calls) mv =
     (call_ok d plain fresh call mv \<and> calls_ok d plain fresh calls (spec_next call mv))"

fun replies_ok :: "'c acl_call list \<Rightarrow> acl_model \<Rightarrow> acl_reply list \<Rightarrow> bool" where
  "replies_ok [] mv replies = (replies = [])"
| "replies_ok (call # calls) mv replies =
     (case replies of [] \<Rightarrow> False
        | reply # rest \<Rightarrow> spec_reply call mv reply \<and> replies_ok calls (spec_next call mv) rest)"

definition acl_abs ::
  "('o, 'c) acl_deps \<Rightarrow> ('o \<Rightarrow> string \<rightharpoonup> bytes) \<Rightarrow> (string \<Rightarrow> bool) \<Rightarrow> ('o, 'c) acl_storage \<Rightarrow> acl_model" where
  "acl_abs d contents plain st = (acl_rules d contents plain st, as_version_counter st)"

definition version_ok :: "acl_model \<Rightarrow> bool" where
  "version_ok mv \<longleftrightarrow> snd mv = Max (insert 0 (vr_version ` ran (fst mv)))"

definition acl_inv ::
  "('o, 'c) acl_deps \<Rightarrow> ('o \<Rightarrow> string \<rightharpoonup> bytes) \<Rightarrow> (string \<Rightarrow> bool) \<Rightarrow> ('o \<Rightarrow> bool) \<Rightarrow>
   ('c \<Rightarrow> string \<rightharpoonup> bytes) \<Rightarrow> ('c \<Rightarrow> bool) \<Rightarrow> ('o, 'c) acl_storage \<Rightarrow> bool" where
  "acl_inv d contents plain tidy view cinv st \<longleftrightarrow>
     store_ok d contents plain tidy view cinv st \<and> index_ok d (acl_rules d contents plain st) st \<and>
     version_ok (acl_abs d contents plain st)"

section \<open>What the storage relies on\<close>

locale acl_backend =
  listing_store "ad_ops d" contents plain tag_of "ad_list d" "ad_exists d" tidy +
  cc: cache "ad_cache d" view cinv
  for d :: "('o, 'c) acl_deps" and contents :: "'o \<Rightarrow> string \<rightharpoonup> bytes" and plain tag_of tidy
    and view :: "'c \<Rightarrow> string \<rightharpoonup> bytes" and cinv +
  assumes json: "\<exists>data. ad_to_json d r = Ok data \<and> ad_from_json d data = Ok r"
    and iter_index: "set (ad_iter_index d idx) = set idx"
    and iter_ids: "set (ad_iter_ids d ids) = set ids"
    and iter_rules: "set (ad_iter_rules d ri) = set ri"
    and directory: "\<exists>i. rule_id_ok d plain i"
begin

abbreviation rules where "rules st \<equiv> acl_rules d contents plain st"
abbreviation ok where "ok st \<equiv> store_ok d contents plain tidy view cinv st"

lemma store_okD:
  assumes "ok st"
  shows "tidy (as_objects st)" and "cinv (as_cache st)"
    and "\<And>i b. rule_id_ok d plain i \<Longrightarrow> view (as_cache st) (get_rule_cache_key i) = Some b \<Longrightarrow>
            contents (as_objects st) (get_rule_object_key d i) = Some b"
    and "\<And>n b. CHR ''/'' \<notin> set n \<Longrightarrow> plain (rules_dir d @ CHR ''/'' # n) \<Longrightarrow>
            contents (as_objects st) (rules_dir d @ CHR ''/'' # n) = Some b \<Longrightarrow>
            \<exists>i r. n = i @ ''.json'' \<and> ad_from_json d b = Ok r \<and> ar_id (vr_rule r) = i \<and>
                  vr_version r \<le> as_version_counter st"
proof -
  note a = assms [unfolded store_ok_def]
  show "tidy (as_objects st)" "cinv (as_cache st)" using a by simp_all
  fix i n b
  show "contents (as_objects st) (get_rule_object_key d i) = Some b"
    if "rule_id_ok d plain i" and "view (as_cache st) (get_rule_cache_key i) = Some b"
    by (rule conjunct1 [OF conjunct2 [OF conjunct2 [OF a]], rule_format, OF that])
  show "\<exists>i r. n = i @ ''.json'' \<and> ad_from_json d b = Ok r \<and> ar_id (vr_rule r) = i \<and> vr_version r \<le> as_version_counter st"
    if "CHR ''/'' \<notin> set n" and "plain (rules_dir d @ CHR ''/'' # n)"
      and "contents (as_objects st) (rules_dir d @ CHR ''/'' # n) = Some b"
    by (rule conjunct2 [OF conjunct2 [OF conjunct2 [OF a]], rule_format, OF that])
qed

lemma stored_rule:
  assumes "ok st" and "rule_id_ok d plain i" and "contents (as_objects st) (get_rule_object_key d i) = Some b"
  shows "\<exists>r. ad_from_json d b = Ok r \<and> rules st i = Some r \<and> ar_id (vr_rule r) = i \<and>
             vr_version r \<le> as_version_counter st"
proof -
  have "CHR ''/'' \<notin> set (i @ ''.json'')" "plain (rules_dir d @ CHR ''/'' # i @ ''.json'')"
    using assms(2) by (auto simp: rule_id_ok_def object_key_dir)
  then obtain r where r: "ad_from_json d b = Ok r" "ar_id (vr_rule r) = i" "vr_version r \<le> as_version_counter st"
    using store_okD(4) [OF assms(1), of "i @ ''.json''" b] assms(3) by (auto simp: object_key_dir)
  then show ?thesis using assms(2,3) by (simp add: acl_rules_def)
qed

lemma rules_None:
  assumes "ok st" and "rule_id_ok d plain i" and "rules st i = None"
  shows "contents (as_objects st) (get_rule_object_key d i) = None"
  using stored_rule [OF assms(1,2)] assms(3)
  by (cases "contents (as_objects st) (get_rule_object_key d i)") auto

lemma rules_SomeD:
  assumes "ok st" and "rules st i = Some r"
  shows "rule_id_ok d plain i" and "ar_id (vr_rule r) = i" and "vr_version r \<le> as_version_counter st"
    and "\<exists>b. contents (as_objects st) (get_rule_object_key d i) = Some b \<and> ad_from_json d b = Ok r"
proof -
  show i: "rule_id_ok d plain i" using assms(2) by (auto simp: acl_rules_def split: if_splits)
  show b: "\<exists>b. contents (as_objects st) (get_rule_object_key d i) = Some b \<and> ad_from_json d b = Ok r"
    using assms(2) i by (auto simp: acl_rules_def split: option.splits sum.splits)
  then show "ar_id (vr_rule r) = i" "vr_version r \<le> as_version_counter st"
    using stored_rule [OF assms(1) i] assms(2) by fastforce+
qed

lemma store_ok_cache:
  assumes "ok st" and "cinv c" and "\<And>k b. view c k = Some b \<Longrightarrow> view (as_cache st) k = Some b \<or>
      (\<exists>i. k = get_rule_cache_key i \<and> contents (as_objects st) (get_rule_object_key d i) = Some b)"
  shows "ok (st\<lparr>as_cache := c\<rparr>)"
  unfolding store_ok_def
proof (intro conjI allI impI)
  fix i b assume i: "rule_id_ok d plain i" and "view (as_cache (st\<lparr>as_cache := c\<rparr>)) (get_rule_cache_key i) = Some b"
  then consider "view (as_cache st) (get_rule_cache_key i) = Some b"
    | j where "get_rule_cache_key i = get_rule_cache_key j" "contents (as_objects st) (get_rule_object_key d j) = Some b"
    using assms(3) [of "get_rule_cache_key i" b] by auto
  then show "contents (as_objects (st\<lparr>as_cache := c\<rparr>)) (get_rule_object_key d i) = Some b"
    by cases (use store_okD(3) [OF assms(1) i] in auto)
qed (use store_okD [OF assms(1)] assms(2) in auto)

text \<open>\<open>get_rule\<close> returns the rule the store holds, whatever the cache still knows of it.\<close>

lemma get_rule_spec:
  assumes st: "ok st" and i: "rule_id_ok d plain i"
  shows "\<exists>st'. same_rules st st' \<and> ok st' \<and>
    (case rules st i of Some r \<Rightarrow> acl_get_rule d now i st = (Ok (Some r), st')
                      | None \<Rightarrow> \<exists>m. acl_get_rule d now i st = (Err (NotFound m), st'))"
proof -
  let ?k = "get_rule_cache_key i" and ?o = "get_rule_object_key d i"
  have plain: "plain ?o" using i by (simp add: rule_id_ok_def)
  obtain c where g: "ch_get (ad_cache d) now ?k (as_cache st) = (Ok (view (as_cache st) ?k), c)"
    and c: "view c = view (as_cache st)" "cinv c"
    using cc.get_view [OF store_okD(2) [OF st]] by blast
  let ?s = "st\<lparr>as_cache := c\<rparr>"
  have s: "ok ?s" by (rule store_ok_cache [OF st c(2)]) (simp add: c(1))
  have same: "same_rules st ?s" by (simp add: same_rules_def)
  show ?thesis
  proof (cases "contents (as_objects st) ?o")
    case None
    then have v: "view (as_cache st) ?k = None"
      using store_okD(3) [OF st i] by (cases "view (as_cache st) ?k") auto
    obtain m where "op_get (ad_ops d) ?o (as_objects st) = Err (NotFound m)"
      using get_None [OF plain None] by blast
    then have "acl_get_rule d now i st = (Err (NotFound m), ?s)" by (simp add: acl_get_rule_def g v)
    moreover have "rules st i = None" using None by (simp add: acl_rules_def)
    ultimately show ?thesis using s same by auto
  next
    case (Some b)
    obtain r where r: "ad_from_json d b = Ok r" "rules st i = Some r"
      using stored_rule [OF st i Some] by blast
    have o: "op_get (ad_ops d) ?o (as_objects st) = Ok b" by (rule get_Some [OF plain Some])
    show ?thesis
    proof (cases "view (as_cache st) ?k")
      case (Some b')
      then have "b' = b" using store_okD(3) [OF st i] \<open>contents (as_objects st) ?o = Some b\<close> by fastforce
      then have "acl_get_rule d now i st = (Ok (Some r), ?s)" using Some r by (simp add: acl_get_rule_def g)
      then show ?thesis using s same r by auto
    next
      case None
      obtain c' where p: "ch_put (ad_cache d) now ?k b c = (Ok (), c')" "view c' \<subseteq>\<^sub>m (view c)(?k \<mapsto> b)" "cinv c'"
        using cc.put_view [OF c(2)] by blast
      have "acl_get_rule d now i st = (Ok (Some r), st\<lparr>as_cache := c'\<rparr>)"
        using None r o p(1) by (simp add: acl_get_rule_def g)
      moreover have "ok (st\<lparr>as_cache := c'\<rparr>)"
      proof (rule store_ok_cache [OF st p(3)])
        fix k v assume "view c' k = Some v"
        then have "((view c)(?k \<mapsto> b)) k = Some v" using p(2) by (metis domI map_le_def)
        then show "view (as_cache st) k = Some v \<or>
            (\<exists>i. k = get_rule_cache_key i \<and> contents (as_objects st) (get_rule_object_key d i) = Some v)"
          using c(1) Some by (auto split: if_splits)
      qed
      ultimately show ?thesis using r by (auto simp: same_rules_def)
    qed
  qed
qed

lemma write_rule:
  assumes st: "ok st" and i: "rule_id_ok d plain i"
    and r: "ad_from_json d data = Ok r" "ar_id (vr_rule r) = i" "vr_version r \<le> as_version_counter st'"
    and v: "as_version_counter st \<le> as_version_counter st'"
    and put: "op_put (ad_ops d) (get_rule_object_key d i) data (as_objects st) = (Ok (), as_objects st')"
    and c: "cinv (as_cache st')"
    and view: "\<And>k b. view (as_cache st') k = Some b \<Longrightarrow>
        (k = get_rule_cache_key i \<and> b = data) \<or> (k \<noteq> get_rule_cache_key i \<and> view (as_cache st) k = Some b)"
  shows "ok st'" and "rules st' = (rules st)(i \<mapsto> r)"
proof -
  let ?o = "get_rule_object_key d i"
  have p: "plain ?o" using i by (simp add: rule_id_ok_def)
  have objs: "contents (as_objects st') j = ((contents (as_objects st))(?o \<mapsto> data)) j" if "plain j" for j
    using put_contents [OF p, of data "as_objects st"] put that by auto
  have tidy: "tidy (as_objects st')"
    using put_tidy [OF store_okD(1) [OF st] p, of data] put by simp
  show "ok st'"
    unfolding store_ok_def
  proof (intro conjI allI impI)
    fix j b assume j: "rule_id_ok d plain j" and b: "view (as_cache st') (get_rule_cache_key j) = Some b"
    have "plain (get_rule_object_key d j)" using j by (simp add: rule_id_ok_def)
    then show "contents (as_objects st') (get_rule_object_key d j) = Some b"
      using view [OF b] store_okD(3) [OF st j] objs by auto
  next
    fix n b assume n: "CHR ''/'' \<notin> set n" "plain (rules_dir d @ CHR ''/'' # n)"
      and b: "contents (as_objects st') (rules_dir d @ CHR ''/'' # n) = Some b"
    show "\<exists>i r. n = i @ ''.json'' \<and> ad_from_json d b = Ok r \<and> ar_id (vr_rule r) = i \<and>
        vr_version r \<le> as_version_counter st'"
    proof (cases "n = i @ ''.json''")
      case True
      then show ?thesis using b objs [OF n(2)] r by (auto simp: object_key_dir)
    next
      case False
      then have "contents (as_objects st) (rules_dir d @ CHR ''/'' # n) = Some b"
        using b objs [OF n(2)] by (auto simp: object_key_dir)
      then show ?thesis using store_okD(4) [OF st n] v by fastforce
    qed
  qed (use tidy c in auto)
  show "rules st' = (rules st)(i \<mapsto> r)"
  proof
    fix j show "rules st' j = ((rules st)(i \<mapsto> r)) j"
      using objs [of "get_rule_object_key d j"] i r(1) by (auto simp: acl_rules_def rule_id_ok_def)
  qed
qed

lemma create_rule_spec:
  fixes rule :: acl_rule
  assumes st: "ok st" and idx: "index_ok d (rules st) st"
    and i: "i = (if ar_id rule = [] then uuid else ar_id rule)" "rule_id_ok d plain i"
  shows "\<exists>st'. ok st' \<and> index_ok d (rules st') st' \<and>
    (if rules st i = None then
       acl_create_rule d now ts uuid rule by desc st = (Ok i, st') \<and>
       as_version_counter st' = as_version_counter st + 1 \<and>
       rules st' = (rules st)(i \<mapsto> \<lparr>vr_rule = rule\<lparr>ar_id := i\<rparr>, vr_version = as_version_counter st + 1,
          vr_timestamp = ts, vr_created_by = by, vr_change_description = desc, vr_deleted = False\<rparr>)
     else
       acl_create_rule d now ts uuid rule by desc st =
         (Err (AclEvaluation (''Rule with ID '' @ i @ '' already exists'')), st') \<and> st' = st)"
proof (cases "rules st i")
  case None
  let ?r = "rule\<lparr>ar_id := i\<rparr>" and ?v = "Suc (as_version_counter st)"
  let ?vr = "\<lparr>vr_rule = ?r, vr_version = ?v, vr_timestamp = ts, vr_created_by = by,
              vr_change_description = desc, vr_deleted = False\<rparr>"
  have r: "(if ar_id rule = [] then rule\<lparr>ar_id := uuid\<rparr> else rule) = ?r" using i(1) by auto
  have free: "map_of (as_rule_index st) i = None" using idx None by (simp add: index_ok_def)
  obtain data where data: "ad_to_json d ?vr = Ok data" "ad_from_json d data = Ok ?vr" using json by blast
  have p: "plain (get_rule_object_key d i)" using i(2) by (simp add: rule_id_ok_def)
  obtain objs where put: "op_put (ad_ops d) (get_rule_object_key d i) data (as_objects st) = (Ok (), objs)"
    using put_contents [OF p] by blast
  obtain c where c: "ch_put (ad_cache d) now (get_rule_cache_key i) data (as_cache st) = (Ok (), c)"
    "view c \<subseteq>\<^sub>m (view (as_cache st))(get_rule_cache_key i \<mapsto> data)" "cinv c"
    using cc.put_view [OF store_okD(2) [OF st]] by blast
  let ?st = "st\<lparr>as_version_counter := ?v, as_objects := objs, as_cache := c,
      as_rule_index := AList.update i (get_rule_object_key d i) (as_rule_index st),
      as_principal_index := index_insert (ar_principal rule) i (as_principal_index st)\<rparr>"
  have run: "acl_create_rule d now ts uuid rule by desc st = (Ok i, ?st)"
    unfolding acl_create_rule_def r by (simp add: free next_version_def Let_def data put c)
  have view: "(k = get_rule_cache_key i \<and> b = data) \<or> (k \<noteq> get_rule_cache_key i \<and> view (as_cache st) k = Some b)"
    if "view c k = Some b" for k b
    using that c(2) by (cases "k = get_rule_cache_key i") (auto simp: map_le_def dom_def)
  have w: "ok ?st" "rules ?st = (rules st)(i \<mapsto> ?vr)"
    by (rule write_rule [OF st i(2) data(2)]; use put c view in auto)+
  have "index_ok d (rules ?st) ?st"
    using idx None unfolding index_ok_def w(2)
    by (simp add: distinct_update update_conv' indexed_insert) (metis option.distinct(1))
  with w run None show ?thesis by auto
next
  case (Some r)
  then have "map_of (as_rule_index st) i \<noteq> None" using idx by (simp add: index_ok_def)
  then have "acl_create_rule d now ts uuid rule by desc st =
      (Err (AclEvaluation (''Rule with ID '' @ i @ '' already exists'')), st)"
    using i(1) by (auto simp: acl_create_rule_def)
  then show ?thesis using Some st idx by auto
qed

text \<open>
  An update makes the rule current. The principal index stays right unless the update revives a
  deleted rule for the same principal.
\<close>

lemma update_rule_spec:
  fixes rule :: acl_rule
  assumes st: "ok st" and idx: "index_ok d (rules st) st" and i: "rule_id_ok d plain i"
  shows "\<exists>st'. ok st' \<and>
    (case rules st i of
       None \<Rightarrow> same_rules st st' \<and> (\<exists>m. acl_update_rule d now ts i rule by desc st = (Err (NotFound m), st'))
     | Some old \<Rightarrow>
         acl_update_rule d now ts i rule by desc st = (Ok (), st') \<and>
         as_version_counter st' = as_version_counter st + 1 \<and>
         rules st' = (rules st)(i \<mapsto> \<lparr>vr_rule = rule\<lparr>ar_id := i\<rparr>, vr_version = as_version_counter st + 1,
           vr_timestamp = ts, vr_created_by = by, vr_change_description = desc, vr_deleted = False\<rparr>) \<and>
         (ar_principal (vr_rule old) = ar_principal rule \<longrightarrow> as_principal_index st' = as_principal_index st) \<and>
         (index_ok d (rules st') st' \<longleftrightarrow> \<not> vr_deleted old \<or> ar_principal (vr_rule old) \<noteq> ar_principal rule \<or>
            i \<in> indexed (as_principal_index st) (ar_principal rule)))"
proof -
  obtain s1 where s1: "same_rules st s1" "ok s1"
    "case rules st i of Some r \<Rightarrow> acl_get_rule d now i st = (Ok (Some r), s1)
       | None \<Rightarrow> \<exists>m. acl_get_rule d now i st = (Err (NotFound m), s1)"
    using get_rule_spec [OF st i] by blast
  show ?thesis
  proof (cases "rules st i")
    case None
    then obtain m where "acl_get_rule d now i st = (Err (NotFound m), s1)" using s1(3) by auto
    then show ?thesis using None s1 by (auto simp: acl_update_rule_def)
  next
    case (Some old)
    let ?r = "rule\<lparr>ar_id := i\<rparr>" and ?v = "Suc (as_version_counter s1)"
    let ?vr = "\<lparr>vr_rule = ?r, vr_version = ?v, vr_timestamp = ts, vr_created_by = by,
                vr_change_description = desc, vr_deleted = False\<rparr>"
    have g: "acl_get_rule d now i st = (Ok (Some old), s1)" using s1(3) Some by simp
    obtain data where data: "ad_to_json d ?vr = Ok data" "ad_from_json d data = Ok ?vr" using json by blast
    have p: "plain (get_rule_object_key d i)" using i by (simp add: rule_id_ok_def)
    obtain objs where put: "op_put (ad_ops d) (get_rule_object_key d i) data (as_objects s1) = (Ok (), objs)"
      using put_contents [OF p] by blast
    obtain c where c: "ch_put (ad_cache d) now (get_rule_cache_key i) data (as_cache s1) = (Ok (), c)"
      "view c \<subseteq>\<^sub>m (view (as_cache s1))(get_rule_cache_key i \<mapsto> data)" "cinv c"
      using cc.put_view [OF store_okD(2) [OF s1(2)]] by blast
    let ?idx = "if ar_principal (vr_rule old) \<noteq> ar_principal rule
      then index_insert (ar_principal rule) i (index_remove (ar_principal (vr_rule old)) i (as_principal_index s1))
      else as_principal_index s1"
    let ?st = "s1\<lparr>as_version_counter := ?v, as_objects := objs, as_cache := c, as_principal_index := ?idx\<rparr>"
    have run: "acl_update_rule d now ts i rule by desc st = (Ok (), ?st)"
      by (simp add: acl_update_rule_def Let_def g next_version_def data put c)
    have view: "(k = get_rule_cache_key i \<and> b = data) \<or> (k \<noteq> get_rule_cache_key i \<and> view (as_cache s1) k = Some b)"
      if "view c k = Some b" for k b
      using that c(2) by (cases "k = get_rule_cache_key i") (auto simp: map_le_def dom_def)
    have w: "ok ?st" "rules ?st = (rules s1)(i \<mapsto> ?vr)"
      by (rule write_rule [OF s1(2) i data(2)]; use put c view in auto)+
    have e: "rules s1 = rules st" by (rule acl_rules_same [OF s1(1)])
    have idx1: "index_ok d (rules s1) s1" using idx index_ok_same [OF s1(1)] e by simp
    have i1: "indexed (as_principal_index s1) = indexed (as_principal_index st)" "as_version_counter s1 = as_version_counter st"
      using s1(1) by (simp_all add: same_rules_def)
    note own = index_ok_own [OF idx1, of i old, unfolded e, OF Some]
    note live = index_ok_live [OF idx1, of i old, unfolded e, OF Some]
    have d: "distinct (map fst (as_principal_index s1))" using idx1 by (simp add: index_ok_def)
    have "index_ok d ((rules s1)(i \<mapsto> ?vr)) ?st"
      if "\<not> vr_deleted old \<or> ar_principal (vr_rule old) \<noteq> ar_principal rule \<or> i \<in> indexed (as_principal_index s1) (ar_principal rule)"
    proof (rule index_ok_replace [OF idx1])
      show "rules s1 i = Some old" using Some e by simp
      show "distinct (map fst (as_principal_index ?st))" using d by simp
      show "j \<in> indexed (as_principal_index ?st) q \<longleftrightarrow> j \<in> indexed (as_principal_index s1) q" if "j \<noteq> i" for j q
        using that by (simp add: indexed_insert indexed_remove)
      show "q = ar_principal (vr_rule ?vr)" if "i \<in> indexed (as_principal_index ?st) q" for q
        using that own [of q] by (simp add: indexed_insert indexed_remove split: if_splits)
      show "i \<in> indexed (as_principal_index ?st) (ar_principal (vr_rule ?vr))"
        using that live
        by (cases "ar_principal (vr_rule old) = ar_principal rule"; cases "vr_deleted old") (simp_all add: indexed_insert)
    qed simp
    moreover have "\<not> vr_deleted old \<or> ar_principal (vr_rule old) \<noteq> ar_principal rule \<or> i \<in> indexed (as_principal_index s1) (ar_principal rule)"
      if "index_ok d ((rules s1)(i \<mapsto> ?vr)) ?st"
      using index_ok_live [OF that, of i ?vr] by (cases "ar_principal (vr_rule old) = ar_principal rule") simp_all
    ultimately have "index_ok d (rules ?st) ?st \<longleftrightarrow> \<not> vr_deleted old \<or> ar_principal (vr_rule old) \<noteq> ar_principal rule \<or>
        i \<in> indexed (as_principal_index st) (ar_principal rule)"
      unfolding w(2) i1(1) by blast
    moreover have "as_principal_index s1 = as_principal_index st" using s1(1) by (simp add: same_rules_def)
    ultimately show ?thesis using Some w run e i1(2) by (intro exI [of _ ?st]) simp
  qed
qed

lemma delete_rule_spec:
  assumes st: "ok st" and idx: "index_ok d (rules st) st" and i: "rule_id_ok d plain i"
  shows "\<exists>st'. ok st' \<and> index_ok d (rules st') st' \<and>
    (case rules st i of
       None \<Rightarrow> same_rules st st' \<and> (\<exists>m. acl_delete_rule d now ts i by desc st = (Err (NotFound m), st'))
     | Some old \<Rightarrow>
         acl_delete_rule d now ts i by desc st = (Ok (), st') \<and>
         as_version_counter st' = as_version_counter st + 1 \<and>
         (\<forall>p. i \<notin> indexed (as_principal_index st') p) \<and>
         rules st' = (rules st)(i \<mapsto> old\<lparr>vr_deleted := True, vr_version := as_version_counter st + 1,
           vr_timestamp := ts, vr_created_by := by, vr_change_description := desc\<rparr>))"
proof -
  obtain s1 where s1: "same_rules st s1" "ok s1"
    "case rules st i of Some r \<Rightarrow> acl_get_rule d now i st = (Ok (Some r), s1)
       | None \<Rightarrow> \<exists>m. acl_get_rule d now i st = (Err (NotFound m), s1)"
    using get_rule_spec [OF st i] by blast
  have e: "rules s1 = rules st" by (rule acl_rules_same [OF s1(1)])
  have idx1: "index_ok d (rules s1) s1" using idx index_ok_same [OF s1(1)] e by simp
  show ?thesis
  proof (cases "rules st i")
    case None
    then obtain m where "acl_get_rule d now i st = (Err (NotFound m), s1)" using s1(3) by auto
    then show ?thesis using None s1 idx1 e by (auto simp: acl_delete_rule_def)
  next
    case (Some old)
    let ?v = "Suc (as_version_counter s1)"
    let ?vr = "old\<lparr>vr_deleted := True, vr_version := ?v, vr_timestamp := ts,
                  vr_created_by := by, vr_change_description := desc\<rparr>"
    have g: "acl_get_rule d now i st = (Ok (Some old), s1)" using s1(3) Some by simp
    obtain data where data: "ad_to_json d ?vr = Ok data" "ad_from_json d data = Ok ?vr" using json by blast
    have p: "plain (get_rule_object_key d i)" using i by (simp add: rule_id_ok_def)
    obtain objs where put: "op_put (ad_ops d) (get_rule_object_key d i) data (as_objects s1) = (Ok (), objs)"
      using put_contents [OF p] by blast
    obtain c where c: "ch_remove (ad_cache d) (get_rule_cache_key i) (as_cache s1) = (Ok (), c)"
      "view c = (view (as_cache s1))(get_rule_cache_key i := None)" "cinv c"
      using cc.remove_view [OF store_okD(2) [OF s1(2)]] by blast
    let ?st = "s1\<lparr>as_version_counter := ?v, as_objects := objs, as_cache := c,
        as_principal_index := index_remove (ar_principal (vr_rule old)) i (as_principal_index s1)\<rparr>"
    have run: "acl_delete_rule d now ts i by desc st = (Ok (), ?st)"
      by (simp add: acl_delete_rule_def Let_def g next_version_def data put c)
    have view: "(k = get_rule_cache_key i \<and> b = data) \<or> (k \<noteq> get_rule_cache_key i \<and> view (as_cache s1) k = Some b)"
      if "view c k = Some b" for k b
      using that c(2) by (cases "k = get_rule_cache_key i") auto
    have id: "ar_id (vr_rule old) = i" by (rule rules_SomeD(2) [OF st Some])
    have w: "ok ?st" "rules ?st = (rules s1)(i \<mapsto> ?vr)"
      by (rule write_rule [OF s1(2) i data(2)]; use put c view id in auto)+
    note own = index_ok_own [OF idx1, of i old, unfolded e, OF Some]
    have d: "distinct (map fst (as_principal_index s1))" using idx1 by (simp add: index_ok_def)
    have "index_ok d ((rules s1)(i \<mapsto> ?vr)) ?st"
    proof (rule index_ok_replace [OF idx1])
      show "rules s1 i = Some old" using Some e by simp
      show "distinct (map fst (as_principal_index ?st))" using d by simp
      show "j \<in> indexed (as_principal_index ?st) q \<longleftrightarrow> j \<in> indexed (as_principal_index s1) q" if "j \<noteq> i" for j q
        using that by (simp add: indexed_remove)
      show "q = ar_principal (vr_rule ?vr)" if "i \<in> indexed (as_principal_index ?st) q" for q
        using that own [of q] by (simp add: indexed_remove split: if_splits)
    qed simp_all
    then have "index_ok d (rules ?st) ?st" using w(2) by simp
    moreover have "i \<notin> indexed (as_principal_index ?st) p" for p
      using own [of p] by (auto simp: indexed_remove)
    moreover have "as_version_counter s1 = as_version_counter st" using s1(1) by (simp add: same_rules_def)
    ultimately show ?thesis using Some w run e by (intro exI [of _ ?st]) simp
  qed
qed

lemma collect_rules_spec:
  assumes "ok st" and "\<And>i. i \<in> set ids \<Longrightarrow> rules st i \<noteq> None"
  shows "\<exists>st'. same_rules st st' \<and> ok st' \<and>
    collect_rules d now ids st = (filter (\<lambda>r. \<not> vr_deleted r) (map (\<lambda>i. the (rules st i)) ids), st')"
  using assms
proof (induction ids arbitrary: st)
  case (Cons i ids)
  obtain r where r: "rules st i = Some r" using Cons.prems(2) [of i] by auto
  obtain s1 where s1: "same_rules st s1" "ok s1" "acl_get_rule d now i st = (Ok (Some r), s1)"
    using get_rule_spec [OF Cons.prems(1) rules_SomeD(1) [OF Cons.prems(1) r], of now] r by auto
  have e: "rules s1 = rules st" by (rule acl_rules_same [OF s1(1)])
  obtain s2 where s2: "same_rules s1 s2" "ok s2"
    "collect_rules d now ids s1 = (filter (\<lambda>r. \<not> vr_deleted r) (map (\<lambda>i. the (rules s1 i)) ids), s2)"
    using Cons.IH [OF s1(2)] Cons.prems(2) e by auto
  have "same_rules st s2" using same_rules_trans [OF s1(1) s2(1)] .
  then show ?case using s1(3) s2(2,3) r e by (intro exI [of _ s2]) simp
qed auto

lemma collect_patterns_spec:
  assumes "ok st" and "\<forall>e \<in> set idx. \<forall>i \<in> set (snd e). rules st i \<noteq> None"
  shows "\<exists>rs st'. same_rules st st' \<and> ok st' \<and> collect_patterns d now prin idx st = (rs, st') \<and>
    set rs = {r. \<not> vr_deleted r \<and> (\<exists>e \<in> set idx. wildcard_match (fst e) prin \<and> (\<exists>i \<in> set (snd e). rules st i = Some r))}"
  using assms
proof (induction idx arbitrary: st)
  case (Cons e idx)
  obtain p ids where pe: "e = (p, ids)" by force
  have rest: "\<forall>e \<in> set idx. \<forall>i \<in> set (snd e). rules st i \<noteq> None"
    and own: "\<forall>i \<in> set ids. rules st i \<noteq> None" using Cons.prems(2) pe by simp_all
  show ?case
  proof (cases "wildcard_match p prin")
    case False
    obtain rs s1 where "same_rules st s1" "ok s1" "collect_patterns d now prin idx st = (rs, s1)"
      "set rs = {r. \<not> vr_deleted r \<and> (\<exists>e \<in> set idx. wildcard_match (fst e) prin \<and> (\<exists>i \<in> set (snd e). rules st i = Some r))}"
      using Cons.IH [OF Cons.prems(1) rest] by blast
    then show ?thesis using False pe by (intro exI [of _ rs] exI [of _ s1]) auto
  next
    case True
    have ids: "rules st i \<noteq> None" if "i \<in> set (ad_iter_ids d ids)" for i
      using that own iter_ids [of ids] by auto
    obtain s1 where s1: "same_rules st s1" "ok s1"
      "collect_rules d now (ad_iter_ids d ids) st =
         (filter (\<lambda>r. \<not> vr_deleted r) (map (\<lambda>i. the (rules st i)) (ad_iter_ids d ids)), s1)"
      using collect_rules_spec [OF Cons.prems(1) ids] by blast
    have e1: "rules s1 = rules st" by (rule acl_rules_same [OF s1(1)])
    obtain rs s2 where s2: "same_rules s1 s2" "ok s2" "collect_patterns d now prin idx s1 = (rs, s2)"
      "set rs = {r. \<not> vr_deleted r \<and> (\<exists>e \<in> set idx. wildcard_match (fst e) prin \<and> (\<exists>i \<in> set (snd e). rules st i = Some r))}"
      using Cons.IH [OF s1(2), unfolded e1, OF rest] by blast
    have "set (filter (\<lambda>r. \<not> vr_deleted r) (map (\<lambda>i. the (rules st i)) (ad_iter_ids d ids))) =
        {r. \<not> vr_deleted r \<and> (\<exists>i \<in> set ids. rules st i = Some r)}"
      using ids iter_ids [of ids] by force
    then show ?thesis
      using same_rules_trans [OF s1(1) s2(1)] s1(3) s2 True pe
      by (intro exI [of _ "filter (\<lambda>r. \<not> vr_deleted r) (map (\<lambda>i. the (rules st i)) (ad_iter_ids d ids)) @ rs"]
            exI [of _ s2]) auto
  qed
qed auto

lemma indexed_rules:
  assumes "index_ok d (rules st) st" and "map_of (as_principal_index st) p = Some ids" and "i \<in> set ids"
  shows "\<exists>r. rules st i = Some r \<and> ar_principal (vr_rule r) = p"
  using assms unfolding index_ok_def indexed_def by fastforce

text \<open>The rules for a principal are the live rules whose pattern is the principal or matches it at an end.\<close>

lemma rules_for_principal_spec:
  assumes st: "ok st" and idx: "index_ok d (rules st) st"
  shows "\<exists>rs st'. same_rules st st' \<and> ok st' \<and> acl_rules_for_principal d now prin st = (Ok rs, st') \<and>
    set rs = {r. \<exists>i. rules st i = Some r \<and> \<not> vr_deleted r \<and>
                    (ar_principal (vr_rule r) = prin \<or> wildcard_match (ar_principal (vr_rule r)) prin)}"
proof -
  let ?idx = "as_principal_index st"
  define ids where "ids = (case map_of ?idx prin of None \<Rightarrow> [] | Some ids \<Rightarrow> ad_iter_ids d ids)"
  have ids: "set ids = indexed ?idx prin"
    by (auto simp: ids_def indexed_def iter_ids split: option.splits)
  have own: "rules st i \<noteq> None" if "i \<in> set ids" for i
    using that ids idx unfolding index_ok_def by blast
  obtain s1 where s1: "same_rules st s1" "ok s1"
    "collect_rules d now ids st = (filter (\<lambda>r. \<not> vr_deleted r) (map (\<lambda>i. the (rules st i)) ids), s1)"
    using collect_rules_spec [OF st own] by blast
  have e1: "rules s1 = rules st" by (rule acl_rules_same [OF s1(1)])
  have pairs: "e \<in> set ?idx \<longleftrightarrow> map_of ?idx (fst e) = Some (snd e)" for e
    using idx map_of_eq_Some_iff [of ?idx "fst e" "snd e"] unfolding index_ok_def by simp
  have "\<forall>e \<in> set (ad_iter_index d ?idx). \<forall>i \<in> set (snd e). rules s1 i \<noteq> None"
  proof (intro ballI)
    fix e i assume "e \<in> set (ad_iter_index d ?idx)" "i \<in> set (snd e)"
    then show "rules s1 i \<noteq> None" using indexed_rules [OF idx, of "fst e" "snd e" i] pairs [of e] e1 by (auto simp: iter_index)
  qed
  then obtain ws s2 where s2: "same_rules s1 s2" "ok s2" "collect_patterns d now prin (ad_iter_index d ?idx) s1 = (ws, s2)"
    "set ws = {r. \<not> vr_deleted r \<and> (\<exists>e \<in> set ?idx. wildcard_match (fst e) prin \<and> (\<exists>i \<in> set (snd e). rules st i = Some r))}"
    using collect_patterns_spec [OF s1(2), of "ad_iter_index d ?idx" now prin] unfolding e1 iter_index by blast
  let ?rs = "filter (\<lambda>r. \<not> vr_deleted r) (map (\<lambda>i. the (rules st i)) ids) @ ws"
  have run: "acl_rules_for_principal d now prin st = (Ok ?rs, s2)"
    using s1(3) s2(3) by (auto simp: acl_rules_for_principal_def Let_def ids_def split: option.splits)
  have direct: "set (filter (\<lambda>r. \<not> vr_deleted r) (map (\<lambda>i. the (rules st i)) ids)) =
      {r. \<exists>i. rules st i = Some r \<and> \<not> vr_deleted r \<and> ar_principal (vr_rule r) = prin}"
  proof (intro equalityI subsetI)
    fix r assume "r \<in> {r. \<exists>i. rules st i = Some r \<and> \<not> vr_deleted r \<and> ar_principal (vr_rule r) = prin}"
    then obtain i where i: "rules st i = Some r" "\<not> vr_deleted r" "ar_principal (vr_rule r) = prin" by blast
    then have "i \<in> set ids" using index_ok_live [OF idx] ids by blast
    then show "r \<in> set (filter (\<lambda>r. \<not> vr_deleted r) (map (\<lambda>i. the (rules st i)) ids))" using i by force
  next
    fix r assume "r \<in> set (filter (\<lambda>r. \<not> vr_deleted r) (map (\<lambda>i. the (rules st i)) ids))"
    then obtain i where i: "i \<in> set ids" "r = the (rules st i)" "\<not> vr_deleted r" by auto
    then obtain r' where "rules st i = Some r'" "ar_principal (vr_rule r') = prin"
      using ids idx unfolding index_ok_def by blast
    then show "r \<in> {r. \<exists>i. rules st i = Some r \<and> \<not> vr_deleted r \<and> ar_principal (vr_rule r) = prin}" using i by auto
  qed
  have wild: "set ws = {r. \<exists>i. rules st i = Some r \<and> \<not> vr_deleted r \<and> wildcard_match (ar_principal (vr_rule r)) prin}"
    unfolding s2(4)
  proof (intro Collect_cong iffI)
    fix r assume "\<exists>i. rules st i = Some r \<and> \<not> vr_deleted r \<and> wildcard_match (ar_principal (vr_rule r)) prin"
    then obtain i where i: "rules st i = Some r" "\<not> vr_deleted r" "wildcard_match (ar_principal (vr_rule r)) prin" by blast
    then obtain js where "map_of ?idx (ar_principal (vr_rule r)) = Some js" "i \<in> set js"
      using index_ok_live [OF idx i(1,2)] by (auto simp: indexed_def split: option.splits)
    then show "\<not> vr_deleted r \<and> (\<exists>e \<in> set ?idx. wildcard_match (fst e) prin \<and> (\<exists>i \<in> set (snd e). rules st i = Some r))"
      using i pairs [of "(ar_principal (vr_rule r), js)"]
      by (intro conjI bexI [of _ "(ar_principal (vr_rule r), js)"] bexI [of _ i]) simp_all
  next
    fix r assume "\<not> vr_deleted r \<and> (\<exists>e \<in> set ?idx. wildcard_match (fst e) prin \<and> (\<exists>i \<in> set (snd e). rules st i = Some r))"
    then obtain e i where "\<not> vr_deleted r" "e \<in> set ?idx" "wildcard_match (fst e) prin" "i \<in> set (snd e)" "rules st i = Some r"
      by blast
    then show "\<exists>i. rules st i = Some r \<and> \<not> vr_deleted r \<and> wildcard_match (ar_principal (vr_rule r)) prin"
      using indexed_rules [OF idx, of "fst e" "snd e" i] pairs [of e] by auto
  qed
  have "set ?rs = {r. \<exists>i. rules st i = Some r \<and> \<not> vr_deleted r \<and>
      (ar_principal (vr_rule r) = prin \<or> wildcard_match (ar_principal (vr_rule r)) prin)}"
    unfolding set_append direct wild by blast
  then show ?thesis using run s2(2) same_rules_trans [OF s1(1) s2(1)] by blast
qed

text \<open>Loading everything finds each rule once.\<close>

lemma load_all_spec:
  assumes st: "ok st"
  shows "\<exists>rs. load_all_rules d st = Ok rs \<and> set rs = ran (rules st) \<and> distinct (map (ar_id \<circ> vr_rule) rs)"
proof -
  let ?dir = "rules_dir d" and ?c = "contents (as_objects st)"
  obtain i0 where "rule_id_ok d plain i0" using directory by blast
  then have "plain (?dir @ CHR ''/'' # i0 @ ''.json'')" by (simp add: rule_id_ok_def object_key_dir)
  from list_contents [OF store_okD(1) [OF st] this] obtain names f
    where l: "ad_list d (?dir @ ''/'') (as_objects st) = Ok (map f names)" and dn: "distinct names"
      and n: "\<forall>n \<in> set names. CHR ''/'' \<notin> set n \<and> plain (?dir @ CHR ''/'' # n) \<and>
           (case ?c (?dir @ CHR ''/'' # n) of Some b \<Rightarrow> op_get (ad_ops d) (f n) (as_objects st) = Ok b
              | None \<Rightarrow> \<exists>e. op_get (ad_ops d) (f n) (as_objects st) = Err e)"
      and all: "\<forall>n. CHR ''/'' \<notin> set n \<and> plain (?dir @ CHR ''/'' # n) \<and> ?c (?dir @ CHR ''/'' # n) \<noteq> None \<longrightarrow> n \<in> set names"
    by blast
  define h where "h n = (case ?c (?dir @ CHR ''/'' # n) of None \<Rightarrow> None | Some b \<Rightarrow>
      (case ad_from_json d b of Inl _ \<Rightarrow> None | Inr r \<Rightarrow> Some r))" for n
  have name: "\<exists>i. n = i @ ''.json'' \<and> rules st i = Some r \<and> ar_id (vr_rule r) = i"
    if hn: "h n = Some r" "n \<in> set names" for n r
  proof -
    obtain b where b: "?c (?dir @ CHR ''/'' # n) = Some b" "ad_from_json d b = Ok r"
      using hn(1) by (auto simp: h_def split: option.splits sum.splits)
    have pn: "CHR ''/'' \<notin> set n" "plain (?dir @ CHR ''/'' # n)" using n hn(2) by auto
    obtain i where "n = i @ ''.json''" "ar_id (vr_rule r) = i"
      using store_okD(4) [OF st pn b(1)] b(2) by auto
    then show ?thesis using b pn by (auto simp: acl_rules_def rule_id_ok_def object_key_dir)
  qed
  have read: "read_rules d (map f ns) (as_objects st) = List.map_filter h ns" if "set ns \<subseteq> set names" for ns
    using that
  proof (induction ns)
    case (Cons m ns)
    then show ?case
      using n by (cases "?c (?dir @ CHR ''/'' # m)") (auto simp: h_def List.map_filter_simps split: sum.splits)
  qed (simp add: List.map_filter_simps)
  have ids: "map (\<lambda>r. ar_id (vr_rule r) @ ''.json'') (List.map_filter h ns) = filter (\<lambda>n. h n \<noteq> None) ns"
    if "set ns \<subseteq> set names" for ns
    using that
  proof (induction ns)
    case (Cons m ns)
    then show ?case using name [of m] by (cases "h m") (auto simp: List.map_filter_simps)
  qed (simp add: List.map_filter_simps)
  have "distinct (map (\<lambda>r. ar_id (vr_rule r) @ ''.json'') (List.map_filter h names))"
    unfolding ids [OF subset_refl] using dn by simp
  then have "distinct (map (ar_id \<circ> vr_rule) (List.map_filter h names))"
    by (auto simp: distinct_map inj_on_def)
  moreover have "set (List.map_filter h names) = ran (rules st)"
  proof (intro equalityI subsetI)
    fix r assume "r \<in> set (List.map_filter h names)"
    then obtain m where "m \<in> set names" "h m = Some r" by (auto simp: List.map_filter_def)
    then show "r \<in> ran (rules st)" using name by (auto simp: ran_def)
  next
    fix r assume "r \<in> ran (rules st)"
    then obtain i where i: "rules st i = Some r" by (auto simp: ran_def)
    obtain b where b: "?c (get_rule_object_key d i) = Some b" "ad_from_json d b = Ok r"
      using rules_SomeD(4) [OF st i] by blast
    have "i @ ''.json'' \<in> set names"
      using all [rule_format, of "i @ ''.json''"] b(1) rules_SomeD(1) [OF st i]
      by (auto simp: rule_id_ok_def object_key_dir)
    moreover have "h (i @ ''.json'') = Some r" using b by (simp add: h_def object_key_dir)
    ultimately show "r \<in> set (List.map_filter h names)" by (force simp: List.map_filter_def)
  qed
  moreover have "load_all_rules d st = Ok (List.map_filter h names)"
    using l read [OF subset_refl] by (simp add: load_all_rules_def rules_dir_def)
  ultimately show ?thesis by blast
qed

text \<open>
  A restart with an empty cache finds the same rules, and rebuilds indices for them; the version
  counter is the largest version in use.
\<close>

lemma restart_spec:
  assumes st: "ok st" and c: "cinv c" "view c = Map.empty"
  shows "\<exists>st'. acl_storage_new d (as_objects st) c = Ok st' \<and> ok st' \<and> index_ok d (rules st') st' \<and>
    rules st' = rules st \<and> as_version_counter st' = Max (insert 0 (vr_version ` ran (rules st)))"
proof -
  obtain rs where rs: "load_all_rules d st = Ok rs" "set rs = ran (rules st)" using load_all_spec [OF st] by blast
  obtain ri pidx v where ix: "index_rules d rs ([], [], 0) = (ri, pidx, v)" by (metis prod_cases3)
  note i = index_rules_spec [OF ix]
  let ?st = "\<lparr>as_objects = as_objects st, as_cache = c, as_version_counter = v,
              as_rule_index = ri, as_principal_index = pidx\<rparr>"
  have new: "acl_storage_new d (as_objects st) c = Ok ?st"
    using rs(1) ix by (simp add: acl_storage_new_def initialize_indices_def load_all_rules_def split: sum.splits)
  have e: "rules ?st = rules st" by (simp add: acl_rules_def fun_eq_iff)
  have v: "v = Max (insert 0 (vr_version ` ran (rules st)))" using i rs(2) by simp
  have fin: "finite (vr_version ` ran (rules st))" using rs(2) by (metis finite_imageI finite_set)
  have "ok ?st"
    unfolding store_ok_def
  proof (intro conjI allI impI)
    fix n b assume n: "CHR ''/'' \<notin> set n" "plain (rules_dir d @ CHR ''/'' # n)"
      and b: "contents (as_objects ?st) (rules_dir d @ CHR ''/'' # n) = Some b"
    then obtain j r where r: "n = j @ ''.json''" "ad_from_json d b = Ok r" "ar_id (vr_rule r) = j"
      using store_okD(4) [OF st n] by auto
    then have "rules st j = Some r" using n b by (auto simp: acl_rules_def rule_id_ok_def object_key_dir)
    then have "vr_version r \<le> v" unfolding v using fin by (intro Max_ge) (auto simp: ran_def)
    then show "\<exists>i r. n = i @ ''.json'' \<and> ad_from_json d b = Ok r \<and> ar_id (vr_rule r) = i \<and>
        vr_version r \<le> as_version_counter ?st" using r by auto
  qed (use store_okD(1) [OF st] c in auto)
  moreover have "index_ok d (rules ?st) ?st"
    unfolding e index_ok_def
  proof (intro conjI allI impI)
    fix j
    have "j \<in> (ar_id \<circ> vr_rule) ` set rs \<longleftrightarrow> rules st j \<noteq> None"
      using rs(2) rules_SomeD(2) [OF st] by (force simp: ran_def image_iff)
    then show "map_of (as_rule_index ?st) j = (if rules st j = None then None else Some (get_rule_object_key d j))"
      using i by simp
  next
    fix p j assume "j \<in> indexed (as_principal_index ?st) p"
    then show "\<exists>r. rules st j = Some r \<and> ar_principal (vr_rule r) = p"
      using i rs(2) rules_SomeD(2) [OF st] by (auto simp: ran_def indexed_def)
  next
    fix j r assume "rules st j = Some r" "\<not> vr_deleted r"
    then show "j \<in> indexed (as_principal_index ?st) (ar_principal (vr_rule r))"
      using i rs(2) rules_SomeD(2) [OF st] by (auto simp: ran_def)
  qed (use i in auto)
  ultimately show ?thesis using new e v by auto
qed

lemma check_rules_spec:
  assumes "ok st" and "\<forall>e \<in> set ri. snd e = get_rule_object_key d (fst e) \<and> rules st (fst e) \<noteq> None"
  shows "\<exists>st'. same_rules st st' \<and> ok st' \<and> check_rules d now ri st = (Ok True, st')"
  using assms
proof (induction ri arbitrary: st)
  case (Cons e ri)
  obtain i k where e: "e = (i, k)" by force
  obtain r where r: "rules st i = Some r" "k = get_rule_object_key d i" using Cons.prems(2) e by auto
  note i = rules_SomeD [OF Cons.prems(1) r(1)]
  have ex: "ad_exists d k (as_objects st) = Ok True"
    using exists_contents [of k "as_objects st"] i(1,4) r(2) by (auto simp: rule_id_ok_def)
  obtain s1 where s1: "same_rules st s1" "ok s1" "acl_get_rule d now i st = (Ok (Some r), s1)"
    using get_rule_spec [OF Cons.prems(1) i(1), of now] r by auto
  have "\<forall>e \<in> set ri. snd e = get_rule_object_key d (fst e) \<and> rules s1 (fst e) \<noteq> None"
    using Cons.prems(2) acl_rules_same [OF s1(1)] by simp
  from Cons.IH [OF s1(2) this] obtain s2 where "same_rules s1 s2" "ok s2" "check_rules d now ri s1 = (Ok True, s2)" by blast
  then show ?case using same_rules_trans [OF s1(1)] s1(3) ex e by auto
qed auto

lemma validate_integrity_spec:
  assumes "ok st" and "index_ok d (rules st) st"
  shows "\<exists>st'. same_rules st st' \<and> ok st' \<and> acl_validate_integrity d now st = (Ok True, st')"
proof -
  have "\<forall>e \<in> set (ad_iter_rules d (as_rule_index st)). snd e = get_rule_object_key d (fst e) \<and> rules st (fst e) \<noteq> None"
  proof
    fix e assume "e \<in> set (ad_iter_rules d (as_rule_index st))"
    moreover have "distinct (map fst (as_rule_index st))" using assms(2) by (simp add: index_ok_def)
    ultimately have "map_of (as_rule_index st) (fst e) = Some (snd e)"
      by (simp add: iter_rules)
    then show "snd e = get_rule_object_key d (fst e) \<and> rules st (fst e) \<noteq> None"
      using assms(2) by (auto simp: index_ok_def split: if_splits)
  qed
  then show ?thesis unfolding acl_validate_integrity_def by (rule check_rules_spec [OF assms(1)])
qed

lemma version_ok_write:
  assumes st: "ok st" and r: "vr_version r = as_version_counter st + 1"
  shows "version_ok ((rules st)(i \<mapsto> r), as_version_counter st + 1)"
proof -
  have "finite (ran (rules st))" using load_all_spec [OF st] by (metis finite_set)
  then have fin: "finite (ran ((rules st)(i \<mapsto> r)))"
    by (rule rev_finite_subset [OF finite.insertI [of _ r]]) (auto simp: ran_def split: if_splits)
  have "vr_version x \<le> as_version_counter st + 1" if "x \<in> ran ((rules st)(i \<mapsto> r))" for x
    using that rules_SomeD(3) [OF st] r by (fastforce simp: ran_def split: if_splits)
  moreover have "r \<in> ran ((rules st)(i \<mapsto> r))" by (auto simp: ran_def)
  ultimately have "Max (insert 0 (vr_version ` ran ((rules st)(i \<mapsto> r)))) = as_version_counter st + 1"
    using fin r by (intro Max_eqI) (auto intro!: image_eqI [of _ _ r])
  then show ?thesis by (simp add: version_ok_def)
qed

abbreviation inv where "inv st \<equiv> acl_inv d contents plain tidy view cinv st"
abbreviation abs where "abs st \<equiv> acl_abs d contents plain st"

lemma inv_same:
  assumes "same_rules st st'" and "inv st" and "ok st'"
  shows "inv st' \<and> abs st' = abs st"
  using assms acl_rules_same [OF assms(1)] index_ok_same [OF assms(1)]
  by (simp add: acl_inv_def acl_abs_def same_rules_def)

lemma exec_spec:
  assumes inv: "inv st" and call: "call_ok d plain (\<lambda>c. cinv c \<and> view c = Map.empty) call (abs st)"
    and run: "acl_exec d call st = (reply, st')"
  shows "inv st' \<and> abs st' = spec_next call (abs st) \<and> spec_reply call (abs st) reply"
proof -
  have st: "ok st" and idx: "index_ok d (rules st) st" and ver: "version_ok (abs st)"
    using inv by (simp_all add: acl_inv_def)
  show ?thesis
  proof (cases call)
    case (CreateRule now ts uuid rule who desc)
    let ?i = "new_id uuid rule"
    have i: "?i = (if ar_id rule = [] then uuid else ar_id rule)" "rule_id_ok d plain ?i"
      using call CreateRule by (simp_all add: new_id_def acl_abs_def)
    show ?thesis
      using create_rule_spec [OF st idx i, of now ts who desc] run CreateRule inv
        version_ok_write [OF st, of "written rule ?i (as_version_counter st + 1) ts who desc" ?i]
      by (auto simp: acl_abs_def acl_inv_def written_def Let_def split: if_splits)
  next
    case (UpdateRule now ts i rule who desc)
    have i: "rule_id_ok d plain i" using call UpdateRule by (simp add: acl_abs_def)
    note u = update_rule_spec [OF st idx i, of now ts rule who desc]
    show ?thesis
    proof (cases "rules st i")
      case None
      then obtain s1 m where s1: "same_rules st s1" "ok s1" "acl_update_rule d now ts i rule who desc st = (Err (NotFound m), s1)"
        using u by auto
      then show ?thesis using run UpdateRule None inv_same [OF s1(1) inv s1(2)] by (auto simp: acl_abs_def)
    next
      case (Some old)
      then show ?thesis
        using u run UpdateRule call
          version_ok_write [OF st, of "written rule i (as_version_counter st + 1) ts who desc" i]
        by (auto simp: acl_abs_def acl_inv_def written_def)
    qed
  next
    case (DeleteRule now ts i who desc)
    have i: "rule_id_ok d plain i" using call DeleteRule by (simp add: acl_abs_def)
    note u = delete_rule_spec [OF st idx i, of now ts who desc]
    show ?thesis
    proof (cases "rules st i")
      case None
      then obtain s1 m where s1: "same_rules st s1" "ok s1" "acl_delete_rule d now ts i who desc st = (Err (NotFound m), s1)"
        using u by auto
      then show ?thesis using run DeleteRule None inv_same [OF s1(1) inv s1(2)] by (auto simp: acl_abs_def)
    next
      case (Some old)
      then show ?thesis
        using u run DeleteRule version_ok_write [OF st] by (auto simp: acl_abs_def acl_inv_def)
    qed
  next
    case (GetRule now i)
    have i: "rule_id_ok d plain i" using call GetRule by (simp add: acl_abs_def)
    obtain s1 where s1: "same_rules st s1" "ok s1"
      "case rules st i of Some r \<Rightarrow> acl_get_rule d now i st = (Ok (Some r), s1)
         | None \<Rightarrow> \<exists>m. acl_get_rule d now i st = (Err (NotFound m), s1)"
      using get_rule_spec [OF st i] by blast
    then show ?thesis
      using run GetRule inv_same [OF s1(1) inv s1(2)] by (cases "rules st i") (auto simp: acl_abs_def)
  next
    case (RulesForPrincipal now prin)
    obtain rs s1 where "same_rules st s1" "ok s1" "acl_rules_for_principal d now prin st = (Ok rs, s1)"
      "set rs = applicable (rules st) prin"
      using rules_for_principal_spec [OF st idx, of now prin] unfolding applicable_def by blast
    then show ?thesis using run RulesForPrincipal inv_same [of st s1] inv by (auto simp: acl_abs_def)
  next
    case (ValidateIntegrity now)
    obtain s1 where "same_rules st s1" "ok s1" "acl_validate_integrity d now st = (Ok True, s1)"
      using validate_integrity_spec [OF st idx] by blast
    then show ?thesis using run ValidateIntegrity inv_same [of st s1] inv by (auto simp: acl_abs_def)
  next
    case GetVersion
    then show ?thesis using run inv by (auto simp: acl_abs_def)
  next
    case (RulesSince w)
    obtain rs where rs: "load_all_rules d st = Ok rs" "set rs = ran (rules st)" "distinct (map (ar_id \<circ> vr_rule) rs)"
      using load_all_spec [OF st] by blast
    have "distinct (map (ar_id \<circ> vr_rule) (filter (\<lambda>r. w < vr_version r) rs))"
      using rs(3) by (simp add: distinct_map_filter)
    then show ?thesis using run RulesSince inv rs by (auto simp: acl_abs_def acl_rules_since_version_def)
  next
    case (Restart c)
    then have c: "cinv c" "view c = Map.empty" using call by (simp_all add: acl_abs_def)
    obtain s1 where s1: "acl_storage_new d (as_objects st) c = Ok s1" "ok s1" "index_ok d (rules s1) s1"
      "rules s1 = rules st" "as_version_counter s1 = Max (insert 0 (vr_version ` ran (rules st)))"
      using restart_spec [OF st c] by blast
    moreover have "as_version_counter s1 = as_version_counter st"
      using ver s1(5) by (simp add: version_ok_def acl_abs_def)
    ultimately show ?thesis using run Restart ver by (auto simp: acl_abs_def acl_inv_def)
  qed
qed

lemma run_spec:
  assumes "inv st" and "calls_ok d plain (\<lambda>c. cinv c \<and> view c = Map.empty) calls (abs st)"
    and "acl_run d calls st = (replies, st')"
  shows "inv st' \<and> abs st' = fold spec_next calls (abs st) \<and> replies_ok calls (abs st) replies"
  using assms
proof (induction calls arbitrary: st replies)
  case (Cons call calls)
  obtain reply s1 where e: "acl_exec d call st = (reply, s1)" by force
  obtain rest where r: "acl_run d calls s1 = (rest, st')" "replies = reply # rest"
    using Cons.prems(3) e by (auto split: prod.splits)
  have "inv s1" "abs s1 = spec_next call (abs st)" "spec_reply call (abs st) reply"
    using exec_spec [OF Cons.prems(1) _ e] Cons.prems(2) by simp_all
  moreover have "inv st' \<and> abs st' = fold spec_next calls (abs s1) \<and> replies_ok calls (abs s1) rest"
    using Cons.IH [OF \<open>inv s1\<close> _ r(1)] Cons.prems(2) \<open>abs s1 = spec_next call (abs st)\<close> by simp
  ultimately show ?case using r(2) by simp
qed simp

text \<open>A new storage on an empty object store.\<close>

lemma new_empty:
  assumes "tidy s" and "\<And>k. plain k \<Longrightarrow> contents s k = None" and "cinv c" and "view c = Map.empty"
  shows "\<exists>st. acl_storage_new d s c = Ok st \<and> inv st \<and> abs st = (Map.empty, 0)"
proof -
  let ?st = "\<lparr>as_objects = s, as_cache = c, as_version_counter = 0, as_rule_index = [], as_principal_index = []\<rparr>"
  have e: "rules ?st = Map.empty" using assms(2) by (auto simp: acl_rules_def rule_id_ok_def fun_eq_iff)
  have "ok ?st" using assms by (auto simp: store_ok_def)
  then obtain st' where "acl_storage_new d s c = Ok st'" "ok st'" "index_ok d (rules st') st'"
    "rules st' = Map.empty" "as_version_counter st' = 0"
    using restart_spec [of ?st c] assms(3,4) e by auto
  then show ?thesis by (auto simp: acl_inv_def acl_abs_def version_ok_def)
qed

end

section \<open>The storage on the local object store and the LRU cache\<close>

text \<open>The two trait objects of the storage, with the default key prefix.\<close>

definition local_deps ::
  "(string \<Rightarrow> local_fs \<Rightarrow> string list) \<Rightarrow> (bytes \<Rightarrow> 32 word) \<Rightarrow> (string \<Rightarrow> nat) \<Rightarrow>
   (local_fs, lru_cache) acl_deps \<Rightarrow> bool" where
  "local_deps readdir crc hash d \<longleftrightarrow>
     ad_ops d = local_ops crc \<and> ad_list d = local_list readdir \<and> ad_exists d = local_exists \<and>
     ad_cache d = lru_ops hash \<and> ad_key_prefix d = ''acl/''"

text \<open>What is relied on of \<open>serde_json\<close> and of the iteration of the standard hash maps.\<close>

definition libraries_ok :: "('o, 'c) acl_deps \<Rightarrow> bool" where
  "libraries_ok d \<longleftrightarrow>
     (\<forall>r. \<exists>data. ad_to_json d r = Ok data \<and> ad_from_json d data = Ok r) \<and>
     (\<forall>idx. set (ad_iter_index d idx) = set idx) \<and> (\<forall>ids. set (ad_iter_ids d ids) = set ids) \<and>
     (\<forall>ri. set (ad_iter_rules d ri) = set ri)"

text \<open>Ids that the local store keeps as they are.\<close>

lemma plain_rule_id:
  assumes "ad_key_prefix d = ''acl/''" and "list_all key_char i" and "CHR ''/'' \<notin> set i"
    and "\<not> sublist ''..'' (i @ ''.'')"
  shows "rule_id_ok d plain_key i"
proof -
  let ?k = "''acl/rules/'' @ i @ ''.json''"
  have "sublist ''..'' (i @ ''.json'') \<longleftrightarrow> sublist ''..'' (i @ ''.'')"
    by (auto simp: sublist_append sublist_Cons_right prefix_Cons Cons_eq_append_conv)
  then have "\<not> sublist ''..'' ?k" using assms(4) by (auto simp: sublist_Cons_right prefix_Cons)
  moreover have "list_all key_char ?k" using assms(2) by (simp add: key_char_def less_eq_char_def)
  ultimately have "key_to_path ?k = Ok ?k" by (intro key_to_path_plain) auto
  moreover have "split_on (CHR ''/'') ?k = [''acl'', ''rules'', i @ ''.json'']"
    using assms(3) split_on_none [of "CHR ''/''" "i @ ''.json''"] by simp
  ultimately show ?thesis
    using assms(1,3) by (auto simp: rule_id_ok_def get_rule_object_key_def plain_key_def)
qed

lemma local_backend:
  assumes "readdir_ok readdir" and d: "local_deps readdir crc hash d" and l: "libraries_ok d"
  shows "acl_backend d (\<lambda>fs :: local_fs. fs) plain_key (local_etag crc) tidy_fs (lru_view hash) lru_wf"
proof (intro acl_backend.intro acl_backend_axioms.intro)
  have "local_directory readdir" using assms(1) by (simp add: local_directory_def)
  then show "listing_store (ad_ops d) (\<lambda>fs :: local_fs. fs) plain_key (local_etag crc) (ad_list d) (ad_exists d) tidy_fs"
    using d local_directory.local_listing_store [of readdir crc] by (simp add: local_deps_def)
  show "cache (ad_cache d) (lru_view hash) lru_wf"
    using d lru.cache_axioms by (simp add: local_deps_def)
  show "\<exists>i. rule_id_ok d plain_key i"
    using d by (intro exI [of _ "''a''"] plain_rule_id) (simp_all add: local_deps_def key_char_def less_eq_char_def sublist_Cons_right)
qed (use l in \<open>simp_all add: libraries_ok_def\<close>)

text \<open>An instance of the parameters: \<open>n\<close> zero bytes encode the rule of number \<open>n\<close>.\<close>

instance resource_type :: countable by countable_datatype
instance acl_operation :: countable by countable_datatype
instance effect :: countable by countable_datatype

definition rule_tuple where
  "rule_tuple vr =
     (let r = vr_rule vr in
      ((ar_id r, ar_principal r, rp_resource_type (ar_resource r), rp_pattern (ar_resource r),
        ar_operations r, ar_effect r, ar_conditions r),
       vr_version vr, vr_timestamp vr, vr_created_by vr, vr_change_description vr, vr_deleted vr))"

definition tuple_rule where
  "tuple_rule t =
     (case t of ((i, p, rt, rp, ops, eff, conds), v, ts, who, desc, del) \<Rightarrow>
        \<lparr>vr_rule = \<lparr>ar_id = i, ar_principal = p, ar_resource = \<lparr>rp_resource_type = rt, rp_pattern = rp\<rparr>,
                    ar_operations = ops, ar_effect = eff, ar_conditions = conds\<rparr>,
         vr_version = v, vr_timestamp = ts, vr_created_by = who, vr_change_description = desc, vr_deleted = del\<rparr>)"

definition sample_deps :: "(bytes \<Rightarrow> 32 word) \<Rightarrow> (string \<Rightarrow> nat) \<Rightarrow> (local_fs, lru_cache) acl_deps" where
  "sample_deps crc hash =
     \<lparr>ad_ops = local_ops crc, ad_list = local_list sorted_readdir, ad_exists = local_exists,
      ad_cache = lru_ops hash, ad_key_prefix = ''acl/'',
      ad_to_json = (\<lambda>r. Ok (replicate (to_nat (rule_tuple r)) 0)),
      ad_from_json = (\<lambda>data. Ok (tuple_rule (from_nat (length data)))),
      ad_snapshot_json = (\<lambda>_. Ok []),
      ad_iter_index = id, ad_iter_ids = id, ad_iter_rules = id\<rparr>"

lemma sample_libraries_ok: "libraries_ok (sample_deps crc hash)"
  by (simp add: libraries_ok_def sample_deps_def rule_tuple_def tuple_rule_def Let_def)

lemma sample_local_deps: "local_deps sorted_readdir crc hash (sample_deps crc hash)"
  by (simp add: local_deps_def sample_deps_def)

interpretation local_acl: acl_backend "sample_deps crc hash" "\<lambda>fs :: local_fs. fs" plain_key "local_etag crc" tidy_fs
    "lru_view hash" lru_wf
  for crc hash
  by (rule local_backend [OF sorted_readdir_ok sample_local_deps sample_libraries_ok])

abbreviation (input) local_inv where
  "local_inv d hash st \<equiv> acl_inv d (\<lambda>fs :: local_fs. fs) plain_key tidy_fs (lru_view hash) lru_wf st"

abbreviation (input) local_abs where
  "local_abs d st \<equiv> acl_abs d (\<lambda>fs :: local_fs. fs) plain_key st"

abbreviation (input) fresh_cache where
  "fresh_cache hash c \<equiv> lru_wf c \<and> lru_view hash c = Map.empty"

lemma local_run:
  assumes "readdir_ok readdir" and "local_deps readdir crc hash d" and "libraries_ok d"
    and "calls_ok d plain_key (\<lambda>c. lru_wf c \<and> lru_view hash c = Map.empty) calls (Map.empty, 0)"
  shows "\<exists>st. acl_storage_new d Map.empty (lru_new mx) = Ok st \<and>
    (case acl_run d calls st of (replies, st') \<Rightarrow>
       replies_ok calls (Map.empty, 0) replies \<and>
       acl_abs d (\<lambda>fs. fs) plain_key st' = fold spec_next calls (Map.empty, 0) \<and>
       acl_inv d (\<lambda>fs. fs) plain_key tidy_fs (lru_view hash) lru_wf st')"
proof -
  note b = local_backend [OF assms(1-3)]
  obtain st where st: "acl_storage_new d Map.empty (lru_new mx) = Ok st" "local_inv d hash st" "local_abs d st = (Map.empty, 0)"
    using acl_backend.new_empty [OF b, of Map.empty "lru_new mx"] by (auto simp: tidy_fs_def)
  obtain replies st' where run: "acl_run d calls st = (replies, st')" by force
  show ?thesis
    using acl_backend.run_spec [OF b st(2) _ run] st run assms(4) by auto
qed

text \<open>
  C11. The ACL storage on the local object store and the LRU cache behaves as a map from ids to
  versioned rules: for every sequence of creations, updates, deletions, lookups, principal queries,
  integrity checks, version queries and restarts (with usable ids, and no update that revives a
  deleted rule for the principal it had), each reply is the one the map gives, whatever the cache has
  forgotten, and the stored rules and the version counter are those of the map.
\<close>

theorem acl_storage_refines:
  assumes "readdir_ok readdir" and "local_deps readdir crc hash d" and "libraries_ok d"
    and "calls_ok d plain_key (\<lambda>c. lru_wf c \<and> lru_view hash c = Map.empty) calls (Map.empty, 0)"
  shows "\<exists>st. acl_storage_new d Map.empty (lru_new mx) = Ok st \<and>
    (case acl_run d calls st of (replies, st') \<Rightarrow>
       replies_ok calls (Map.empty, 0) replies \<and>
       acl_abs d (\<lambda>fs. fs) plain_key st' = fold spec_next calls (Map.empty, 0) \<and>
       acl_inv d (\<lambda>fs. fs) plain_key tidy_fs (lru_view hash) lru_wf st')"
  by (rule local_run [OF assms])

definition sample_rule :: "string \<Rightarrow> string \<Rightarrow> effect \<Rightarrow> acl_rule" where
  "sample_rule i prin eff =
     \<lparr>ar_id = i, ar_principal = prin, ar_resource = \<lparr>rp_resource_type = RtTopic, rp_pattern = ''orders''\<rparr>,
      ar_operations = [OpRead], ar_effect = eff, ar_conditions = []\<rparr>"

definition sample_calls :: "lru_cache acl_call list" where
  "sample_calls =
     [CreateRule 1 7 ''r1'' (sample_rule [] ''team-*'' Allow) ''admin'' ''new'',
      CreateRule 2 8 [] (sample_rule ''r2'' ''bob'' Deny) ''admin'' ''new'',
      DeleteRule 3 9 ''r2'' ''admin'' ''old'', Restart (lru_new 64), RulesForPrincipal 4 ''team-a'']"

lemma sample_id_ok:
  "rule_id_ok (sample_deps crc hash) plain_key ''r1''" "rule_id_ok (sample_deps crc hash) plain_key ''r2''"
  using plain_rule_id [of "sample_deps crc hash" "''r1''"] plain_rule_id [of "sample_deps crc hash" "''r2''"]
  by (simp_all add: sample_deps_def key_char_def less_eq_char_def sublist_Cons_right)

lemma sample_calls_ok:
  "calls_ok (sample_deps crc hash) plain_key (\<lambda>c. lru_wf c \<and> lru_view hash c = Map.empty) sample_calls (Map.empty, 0)"
  by (simp add: sample_calls_def sample_rule_def new_id_def sample_id_ok Let_def)

lemma replies_ok_Nil: "replies_ok calls mv [] \<longleftrightarrow> calls = []"
  by (cases calls) auto

lemma replies_ok_last:
  "replies_ok (calls @ [call]) mv replies \<Longrightarrow> spec_reply call (fold spec_next calls mv) (last replies)"
  by (induction calls arbitrary: mv replies) (auto simp: replies_ok_Nil split: list.splits)

theorem acl_storage_refines_witness:
  "\<exists>st. acl_storage_new (sample_deps (\<lambda>_. 0) (\<lambda>_. 0)) Map.empty (lru_new 64) = Ok st \<and>
    (case acl_run (sample_deps (\<lambda>_. 0) (\<lambda>_. 0)) sample_calls st of (replies, st') \<Rightarrow>
       \<exists>rs. last replies = FoundRules (Ok rs) \<and>
            set rs = {written (sample_rule [] ''team-*'' Allow) ''r1'' 1 7 ''admin'' ''new''} \<and>
            snd (acl_abs (sample_deps (\<lambda>_. 0) (\<lambda>_. 0)) (\<lambda>fs. fs) plain_key st') = 3)"
proof -
  let ?d = "sample_deps (\<lambda>_. 0) (\<lambda>_. 0)"
  let ?m = "fold spec_next (butlast sample_calls) (Map.empty, 0)"
  have calls: "sample_calls = butlast sample_calls @ [RulesForPrincipal 4 ''team-a'']"
    by (simp add: sample_calls_def)
  have m: "\<exists>r2. vr_deleted r2 \<and>
      ?m = ([''r1'' \<mapsto> written (sample_rule [] ''team-*'' Allow) ''r1'' 1 7 ''admin'' ''new'', ''r2'' \<mapsto> r2], 3)"
    by (rule exI [of _ "(written (sample_rule ''r2'' ''bob'' Deny) ''r2'' 2 8 ''admin'' ''new'')\<lparr>vr_deleted := True,
            vr_version := 3, vr_timestamp := 9, vr_created_by := ''admin'', vr_change_description := ''old''\<rparr>"])
       (simp add: sample_calls_def sample_rule_def new_id_def Let_def numeral_2_eq_2 numeral_3_eq_3)
  have rules: "applicable (fst ?m) ''team-a'' = {written (sample_rule [] ''team-*'' Allow) ''r1'' 1 7 ''admin'' ''new''}"
    using m by (auto simp: applicable_def wildcard_match_def written_def sample_rule_def suffix_def append_eq_Cons_conv split: if_splits)
  from acl_storage_refines [OF sorted_readdir_ok sample_local_deps sample_libraries_ok sample_calls_ok, of "\<lambda>_. 0" "\<lambda>_. 0" 64]
  obtain st where st: "acl_storage_new ?d Map.empty (lru_new 64) = Ok st"
    and run: "case acl_run ?d sample_calls st of (replies, st') \<Rightarrow>
       replies_ok sample_calls (Map.empty, 0) replies \<and>
       acl_abs ?d (\<lambda>fs. fs) plain_key st' = fold spec_next sample_calls (Map.empty, 0) \<and>
       acl_inv ?d (\<lambda>fs. fs) plain_key tidy_fs (lru_view (\<lambda>_. 0)) lru_wf st'"
    by (elim exE conjE) (rule that)
  obtain replies st' where r: "acl_run ?d sample_calls st = (replies, st')" by force
  have "replies_ok (butlast sample_calls @ [RulesForPrincipal 4 ''team-a'']) (Map.empty, 0) replies"
    using run r calls by simp
  then have "spec_reply (RulesForPrincipal 4 ''team-a'' :: lru_cache acl_call) (fst ?m, snd ?m) (last replies)"
    unfolding prod.collapse by (rule replies_ok_last)
  then have "\<exists>rs. last replies = FoundRules (Ok rs) \<and> set rs = applicable (fst ?m) ''team-a''"
    by (simp only: spec_reply.simps)
  moreover have "fold spec_next sample_calls (Map.empty, 0) = ?m"
    by (subst calls) (cases ?m, simp)
  then have "snd (acl_abs ?d (\<lambda>fs. fs) plain_key st') = 3"
    using run r m by auto
  ultimately show ?thesis using st r rules by auto
qed

section \<open>Where the index and the rules disagree\<close>

text \<open>For a pattern with its star at an end, the index finds a rule exactly when the pattern matches.\<close>

lemma wildcard_match_glob:
  assumes "edge_pattern p"
  shows "p = s \<or> wildcard_match p s \<longleftrightarrow> glob p s"
  using assms
proof (cases rule: edge_pattern_cases)
  case literal
  then show ?thesis by (auto simp: wildcard_match_def glob_exact)
next
  case (leading q)
  have "\<not> suffix ''*'' p" if "q \<noteq> []"
    using that leading last_in_set [of q] by (metis last.simps last_snoc suffix_def)
  then show ?thesis
    using leading glob_middle [of "[]" q]
    by (cases "q = []") (auto simp: wildcard_match_def glob_star suffix_def dest: suffix_length_le)
next
  case (trailing q)
  have "q = [] \<or> \<not> prefix ''*'' p"
    using trailing by (cases q) auto
  then show ?thesis
    using trailing glob_middle [of q "[]"] by (auto simp: wildcard_match_def glob_star suffix_def prefix_def)
qed

text \<open>
  A pattern with its star inside is never found, although the compiled rule would match: the rule,
  also a denying one, has no effect.
\<close>

lemma middle_pattern_not_retrieved:
  assumes "star \<notin> set a" and "star \<notin> set b" and "a \<noteq> []" and "b \<noteq> []" and "star \<notin> set prin"
  shows "\<not> (a @ star # b = prin \<or> wildcard_match (a @ star # b) prin)"
proof -
  have "\<not> prefix ''*'' (a @ star # b)" using assms(1,3) by (cases a) auto
  moreover have "\<not> suffix ''*'' (a @ star # b)"
    using assms(2,4) last_in_set [of b] by (metis last_ConsR last_appendR last_snoc list.distinct(1) suffix_def)
  ultimately show ?thesis using assms(3-5) by (auto simp: wildcard_match_def append_eq_Cons_conv)
qed

text \<open>
  Two ids that differ only in characters the local store drops name one object, so that the second
  rule replaces the first.
\<close>

lemma ids_share_object:
  assumes "ad_key_prefix d = ''acl/''"
  shows "key_to_path (get_rule_object_key d ''a:b'') = Ok ''acl/rules/ab.json'' \<and>
         key_to_path (get_rule_object_key d ''ab'') = Ok ''acl/rules/ab.json''"
  using assms
  by (simp add: key_to_path_def get_rule_object_key_def key_char_def less_eq_char_def sublist_Cons_right Let_def)

text \<open>
  Updating a deleted rule does not bring it back: the update succeeds and the stored rule is no
  longer deleted, but when the principal stays the same the rule is not returned for its principal, so
  it has no effect until the next restart.
\<close>

lemma updated_after_delete_not_found:
  assumes "readdir_ok readdir" and "local_deps readdir crc hash d" and "libraries_ok d"
    and "acl_inv d (\<lambda>fs. fs) plain_key tidy_fs (lru_view hash) lru_wf st"
    and "acl_rules d (\<lambda>fs. fs) plain_key st i = Some old" and "\<not> vr_deleted old"
    and "ar_principal rule = ar_principal (vr_rule old)"
  shows "let st1 = snd (acl_delete_rule d now ts i who desc st);
             (r, st2) = acl_update_rule d now' ts' i rule who desc st1
         in r = Ok () \<and>
            (\<exists>r2. acl_rules d (\<lambda>fs. fs) plain_key st2 i = Some r2 \<and> \<not> vr_deleted r2 \<and>
                  ar_principal (vr_rule r2) = ar_principal rule) \<and>
            i \<notin> indexed (as_principal_index st2) (ar_principal rule)"
proof -
  note b = local_backend [OF assms(1-3)]
  let ?rules = "acl_rules d (\<lambda>fs. fs) plain_key"
  let ?ok = "store_ok d (\<lambda>fs. fs) plain_key tidy_fs (lru_view hash) lru_wf"
  have st: "?ok st" "index_ok d (?rules st) st" using assms(4) by (simp_all add: acl_inv_def)
  have i: "rule_id_ok d plain_key i" by (rule acl_backend.rules_SomeD(1) [OF b st(1) assms(5)])
  obtain st1 where st1: "?ok st1" "index_ok d (?rules st1) st1" "acl_delete_rule d now ts i who desc st = (Ok (), st1)"
    "i \<notin> indexed (as_principal_index st1) (ar_principal rule)"
    and old: "?rules st1 i = Some (old\<lparr>vr_deleted := True, vr_version := as_version_counter st + 1,
           vr_timestamp := ts, vr_created_by := who, vr_change_description := desc\<rparr>)"
    using acl_backend.delete_rule_spec [OF b st i, of now ts who desc] assms(5) by auto
  obtain st2 where "acl_update_rule d now' ts' i rule who desc st1 = (Ok (), st2)"
    "as_principal_index st2 = as_principal_index st1"
    "?rules st2 i = Some (written rule i (as_version_counter st1 + 1) ts' who desc)"
    using acl_backend.update_rule_spec [OF b st1(1,2) i, of now' ts' rule who desc] old assms(7)
    by (auto simp: written_def)
  with st1 show ?thesis by (simp add: written_def)
qed

section \<open>Listing and snapshots\<close>

text \<open>
  \<open>list_rules\<close> returns the accepted rules in order, up to the limit; the limit is looked at after a rule
  is taken, so a limit of zero gives one rule.
\<close>

lemma list_loop_take:
  "list_loop flt rules got =
     got @ (case rf_limit flt of
              None \<Rightarrow> filter (filter_accepts flt) rules
            | Some limit \<Rightarrow> take (max 1 (limit - length got)) (filter (filter_accepts flt) rules))"
proof (induction rules arbitrary: got)
  case (Cons rule rules)
  show ?case
  proof (cases "rf_limit flt")
    case None
    then show ?thesis using Cons.IH by (simp add: Let_def)
  next
    case (Some limit)
    have "max 1 (limit - length got) = Suc (max 1 (limit - Suc (length got)))" if "\<not> Suc (length got) \<ge> limit"
      using that by simp
    moreover have "max 1 (limit - length got) = 1" if "Suc (length got) \<ge> limit"
      using that by simp
    ultimately show ?thesis
      using Cons.IH [of got] Cons.IH [of "got @ [rule]"] Some
      by (cases "Suc (length got) \<ge> limit") (simp_all add: Let_def)
  qed
qed (simp split: option.splits)

text \<open>On the local store the ids \<open>list_snapshots\<close> returns start with a separator.\<close>

lemma snapshot_ids_have_slash:
  assumes "local_deps readdir crc hash d" and "readdir ''acl/snapshots'' (as_objects st) = [''s1.json'']"
  shows "acl_list_snapshots d st = Ok [''/s1'']"
proof -
  have "key_to_path ''acl/snapshots/'' = Ok ''acl/snapshots/''"
    by (simp add: key_to_path_def key_char_def less_eq_char_def sublist_Cons_right Let_def)
  then show ?thesis
    using assms by (simp add: local_deps_def acl_list_snapshots_def local_list_def norm_path_def List.map_filter_simps
        key_strip_prefix_def key_strip_suffix_def suffix_def append_eq_Cons_conv)
qed

text \<open>Restoring a snapshot writes its rules back but removes none, and leaves the cache as it is.\<close>

lemma restore_removes_nothing:
  assumes "sn_rules snap = []"
  shows "fst (acl_restore_snapshot d snap st) = Ok () \<and>
         as_objects (snd (acl_restore_snapshot d snap st)) = as_objects st \<and>
         as_cache (snd (acl_restore_snapshot d snap st)) = as_cache st \<and>
         as_principal_index (snd (acl_restore_snapshot d snap st)) = []"
  using assms by (simp add: acl_restore_snapshot_def)

end
