(* ===== verification/Acl_Manager.thy ===== *)
theory Acl_Manager
  imports Acl_Storage "HOL-Library.Log_Nat"
begin

text \<open>
  \<open>security/acl/raft.rs\<close> (the ACL state machine and the manager that submits operations to Raft)
  and \<open>security/acl/manager.rs\<close> (the two-level decision cache, the Bloom filter of the negative cache, the
  audit buffer, access evaluation). The storage behind both is the trait \<open>AclStorage\<close>, a record of
  methods; \<open>ObjectStorageAclStorage\<close> is the instance of \<open>Acl_Storage\<close>. Hash functions, the iteration order of a
  hash map, the serialisation of an operation and the clock readings are parameters or arguments.
  The methods of a manager are modelled one after the other.
\<close>

section \<open>The AclStorage interface\<close>

text \<open>
  The methods the manager uses; the first argument of a method is the clock reading its cache takes, and
  \<open>ts\<close> and \<open>uuid\<close> are the wall clock and the random id of a write.
\<close>

record 's storage_ops =
  so_create_rule :: "nat \<Rightarrow> nat \<Rightarrow> string \<Rightarrow> acl_rule \<Rightarrow> string \<Rightarrow> string \<Rightarrow> 's \<Rightarrow> string result \<times> 's"
  so_update_rule :: "nat \<Rightarrow> nat \<Rightarrow> string \<Rightarrow> acl_rule \<Rightarrow> string \<Rightarrow> string \<Rightarrow> 's \<Rightarrow> unit result \<times> 's"
  so_delete_rule :: "nat \<Rightarrow> nat \<Rightarrow> string \<Rightarrow> string \<Rightarrow> string \<Rightarrow> 's \<Rightarrow> unit result \<times> 's"
  so_get_rule :: "nat \<Rightarrow> string \<Rightarrow> 's \<Rightarrow> versioned_rule option result \<times> 's"
  so_rules_for_principal :: "nat \<Rightarrow> string \<Rightarrow> 's \<Rightarrow> versioned_rule list result \<times> 's"
  so_get_version :: "'s \<Rightarrow> nat result"
  so_create_snapshot :: "nat \<Rightarrow> string \<Rightarrow> 's \<Rightarrow> acl_snapshot result \<times> 's"
  so_restore_snapshot :: "acl_snapshot \<Rightarrow> 's \<Rightarrow> unit result \<times> 's"

definition object_acl_ops :: "('o, 'c) acl_deps \<Rightarrow> ('o, 'c) acl_storage storage_ops" where
  "object_acl_ops d =
     \<lparr>so_create_rule = acl_create_rule d, so_update_rule = acl_update_rule d, so_delete_rule = acl_delete_rule d,
      so_get_rule = acl_get_rule d, so_rules_for_principal = acl_rules_for_principal d,
      so_get_version = (\<lambda>st. Ok (as_version_counter st)),
      so_create_snapshot = acl_create_snapshot d, so_restore_snapshot = acl_restore_snapshot d\<rparr>"

section \<open>The state machine\<close>

datatype acl_raft_operation =
    CreateRuleOp acl_rule string string
  | UpdateRuleOp string acl_rule string string
  | DeleteRuleOp string string string
  | BatchOperation "acl_raft_operation list" string string

datatype acl_raft_result =
    Success string "string option" nat
  | Failure string string
  | BatchResult string "acl_raft_result list"

text \<open>
  One operation outside a batch: \<open>op_id\<close> and \<open>uuid\<close> are the two random ids it draws. The error
  of a failed operation is kept as its text (\<open>err_text\<close>, the derived \<open>Display\<close> of the error type).
\<close>

definition storage_outcome ::
  "(rustmq_error \<Rightarrow> string) \<Rightarrow> 's storage_ops \<Rightarrow> string \<Rightarrow> string result \<times> 's \<Rightarrow> acl_raft_result result \<times> 's" where
  "storage_outcome err_text so op_id out =
     (case out of
        (Inr rule_id, st) \<Rightarrow>
          (case so_get_version so st of
             Inl e \<Rightarrow> (Err e, st)
           | Inr version \<Rightarrow> (Ok (Success op_id (Some rule_id) version), st))
      | (Inl e, st) \<Rightarrow> (Ok (Failure op_id (err_text e)), st))"

fun apply_single ::
  "(rustmq_error \<Rightarrow> string) \<Rightarrow> 's storage_ops \<Rightarrow> nat \<Rightarrow> nat \<Rightarrow> string \<times> string \<Rightarrow> acl_raft_operation \<Rightarrow> 's \<Rightarrow> acl_raft_result result \<times> 's" where
  "apply_single err_text so now ts (op_id, uuid) (CreateRuleOp rule created_by description) st =
     storage_outcome err_text so op_id (so_create_rule so now ts uuid rule created_by description st)"
| "apply_single err_text so now ts (op_id, uuid) (UpdateRuleOp rule_id rule updated_by description) st =
     storage_outcome err_text so op_id (apfst (map_sum id (\<lambda>_. rule_id)) (so_update_rule so now ts rule_id rule updated_by description st))"
| "apply_single err_text so now ts (op_id, uuid) (DeleteRuleOp rule_id deleted_by description) st =
     storage_outcome err_text so op_id (apfst (map_sum id (\<lambda>_. rule_id)) (so_delete_rule so now ts rule_id deleted_by description st))"
| "apply_single err_text so now ts (op_id, uuid) (BatchOperation operations batch_id description) st =
     (Ok (Failure op_id ''Nested batch operations not supported''), st)"

fun apply_batch ::
  "(rustmq_error \<Rightarrow> string) \<Rightarrow> 's storage_ops \<Rightarrow> nat \<Rightarrow> nat \<Rightarrow> (nat \<Rightarrow> string \<times> string) \<Rightarrow> acl_raft_operation list \<Rightarrow> 's \<Rightarrow>
   acl_raft_result list result \<times> 's" where
  "apply_batch err_text so now ts ids [] st = (Ok [], st)"
| "apply_batch err_text so now ts ids (op # ops) st =
     (case apply_single err_text so now ts (ids 0) op st of
        (Inl e, st) \<Rightarrow> (Err e, st)
      | (Inr res, st) \<Rightarrow>
          (case apply_batch err_text so now ts (\<lambda>n. ids (Suc n)) ops st of
             (Inl e, st) \<Rightarrow> (Err e, st)
           | (Inr results, st) \<Rightarrow> (Ok (res # results), st)))"

fun apply_operation ::
  "(rustmq_error \<Rightarrow> string) \<Rightarrow> 's storage_ops \<Rightarrow> nat \<Rightarrow> nat \<Rightarrow> (nat \<Rightarrow> string \<times> string) \<Rightarrow> acl_raft_operation \<Rightarrow> 's \<Rightarrow>
   acl_raft_result result \<times> 's" where
  "apply_operation err_text so now ts ids (BatchOperation operations batch_id description) st =
     (case apply_batch err_text so now ts ids operations st of
        (Inl e, st) \<Rightarrow> (Err e, st)
      | (Inr results, st) \<Rightarrow> (Ok (BatchResult batch_id results), st))"
| "apply_operation err_text so now ts ids op st = apply_single err_text so now ts (ids 0) op st"

section \<open>The Raft manager\<close>

text \<open>
  \<open>pending_operations\<close> maps an operation id to the sending half of a channel; nothing is kept of a
  sender but its presence.
\<close>

record 's raft_acl =
  ra_storage :: 's
  ra_last_applied_index :: nat
  ra_pending :: "string list"

datatype 'a awaited = Returned 'a | Waiting

text \<open>
  \<open>submit_operation\<close>: \<open>encoded\<close> is the serialised operation and \<open>appended\<close> the answer of
  \<open>append_acl_operation\<close>. When both succeed the call waits for the channel of its id.
\<close>

definition submit_operation ::
  "bool \<Rightarrow> string \<Rightarrow> bytes result \<Rightarrow> (bytes \<Rightarrow> unit result) \<Rightarrow> 's raft_acl \<Rightarrow>
   acl_raft_result result awaited \<times> 's raft_acl" where
  "submit_operation is_leader operation_id encoded append_log ra =
     (if \<not> is_leader then (Returned (Err (NotLeader ''ACL operations must be submitted to the leader'')), ra)
      else
        (let ra = ra\<lparr>ra_pending := List.insert operation_id (ra_pending ra)\<rparr> in
         case encoded of
           Inl e \<Rightarrow> (Returned (Err e), ra)
         | Inr operation_data \<Rightarrow>
             (case append_log operation_data of
                Inl e \<Rightarrow> (Returned (Err e), ra)
              | Inr _ \<Rightarrow> (Waiting, ra))))"

definition apply_log_entry ::
  "(rustmq_error \<Rightarrow> string) \<Rightarrow> 's storage_ops \<Rightarrow> (bytes \<Rightarrow> acl_raft_operation result) \<Rightarrow> nat \<Rightarrow> nat \<Rightarrow> (nat \<Rightarrow> string \<times> string) \<Rightarrow> bytes \<Rightarrow>
   's raft_acl \<Rightarrow> unit result \<times> 's raft_acl" where
  "apply_log_entry err_text so decode now ts ids entry_data ra =
     (case decode entry_data of
        Inl e \<Rightarrow> (Err e, ra)
      | Inr operation \<Rightarrow>
          (case apply_operation err_text so now ts ids operation (ra_storage ra) of
             (Inl e, st) \<Rightarrow> (Err e, ra\<lparr>ra_storage := st\<rparr>)
           | (Inr _, st) \<Rightarrow> (Ok (), ra\<lparr>ra_storage := st\<rparr>)))"

definition raft_create_snapshot ::
  "'s storage_ops \<Rightarrow> nat \<Rightarrow> string \<Rightarrow> 's raft_acl \<Rightarrow> (acl_snapshot \<times> nat) result \<times> 's raft_acl" where
  "raft_create_snapshot so ts uuid ra =
     (case so_create_snapshot so ts uuid (ra_storage ra) of
        (Inl e, st) \<Rightarrow> (Err e, ra\<lparr>ra_storage := st\<rparr>)
      | (Inr snapshot, st) \<Rightarrow> (Ok (snapshot, ra_last_applied_index ra), ra\<lparr>ra_storage := st\<rparr>))"

definition raft_restore_snapshot ::
  "'s storage_ops \<Rightarrow> (acl_snapshot \<times> nat) result \<Rightarrow> 's raft_acl \<Rightarrow> unit result \<times> 's raft_acl" where
  "raft_restore_snapshot so decoded ra =
     (case decoded of
        Inl e \<Rightarrow> (Err e, ra)
      | Inr (snapshot, index) \<Rightarrow>
          (case so_restore_snapshot so snapshot (ra_storage ra) of
             (Inl e, st) \<Rightarrow> (Err e, ra\<lparr>ra_storage := st\<rparr>)
           | (Inr _, st) \<Rightarrow> (Ok (), ra\<lparr>ra_storage := st, ra_last_applied_index := index\<rparr>)))"

text \<open>What a caller makes of the result of a submitted operation.\<close>

definition created_id :: "acl_raft_result result \<Rightarrow> string result" where
  "created_id r =
     (case r of
        Inl e \<Rightarrow> Err e
      | Inr (Success _ (Some rule_id) _) \<Rightarrow> Ok rule_id
      | Inr (Failure _ error) \<Rightarrow> Err (AclEvaluation error)
      | Inr _ \<Rightarrow> Err (AclEvaluation ''Unexpected result type''))"

definition changed_rule :: "acl_raft_result result \<Rightarrow> unit result" where
  "changed_rule r =
     (case r of
        Inl e \<Rightarrow> Err e
      | Inr (Success _ _ _) \<Rightarrow> Ok ()
      | Inr (Failure _ error) \<Rightarrow> Err (AclEvaluation error)
      | Inr _ \<Rightarrow> Err (AclEvaluation ''Unexpected result type''))"

text \<open>The steps of a Raft manager.\<close>

inductive acl_raft_step ::
  "(rustmq_error \<Rightarrow> string) \<Rightarrow> 's storage_ops \<Rightarrow> (bytes \<Rightarrow> acl_raft_operation result) \<Rightarrow> 's raft_acl \<Rightarrow> 's raft_acl \<Rightarrow> bool"
  for err_text so decode where
  submit: "submit_operation ldr i enc ap ra = (r, ra') \<Longrightarrow> acl_raft_step err_text so decode ra ra'"
| applied: "apply_log_entry err_text so decode now ts ids data ra = (r, ra') \<Longrightarrow> acl_raft_step err_text so decode ra ra'"
| snapshot: "raft_create_snapshot so ts uuid ra = (r', ra') \<Longrightarrow> acl_raft_step err_text so decode ra ra'"
| restore: "raft_restore_snapshot so snap ra = (r'', ra') \<Longrightarrow> acl_raft_step err_text so decode ra ra'"
| read: "so_get_rule so now i (ra_storage ra) = (g, st) \<Longrightarrow> acl_raft_step err_text so decode ra (ra\<lparr>ra_storage := st\<rparr>)"
| rules: "so_rules_for_principal so now p (ra_storage ra) = (rs, st) \<Longrightarrow> acl_raft_step err_text so decode ra (ra\<lparr>ra_storage := st\<rparr>)"

text \<open>No step takes a sender out of the map, so a submitted operation waits for ever.\<close>

lemma pending_forever:
  assumes "rtranclp (acl_raft_step err_text so decode) ra ra'" and "i \<in> set (ra_pending ra)"
  shows "i \<in> set (ra_pending ra')"
  using assms
proof (induction rule: rtranclp_induct)
  case (step ra1 ra2)
  from step(2) have "set (ra_pending ra1) \<subseteq> set (ra_pending ra2)"
    by (cases rule: acl_raft_step.cases)
      (auto simp: submit_operation_def apply_log_entry_def raft_create_snapshot_def raft_restore_snapshot_def Let_def
         split: if_splits sum.splits prod.splits)
  then show ?case using step by blast
qed

lemma submitted_waits:
  assumes "ap data = Ok ()"
  shows "\<exists>ra'. submit_operation True i (Ok data) ap ra = (Waiting, ra') \<and> i \<in> set (ra_pending ra')"
  using assms by (simp add: submit_operation_def)

section \<open>The access manager\<close>

record acl_config =
  ac_cache_size_mb :: nat
  ac_cache_ttl_seconds :: nat
  ac_l2_shard_count :: "nat option"
  ac_bloom_filter_size :: nat
  ac_enable_audit_logging :: bool
  ac_negative_cache_enabled :: bool

text \<open>\<open>usize::next_power_of_two\<close>, and the shard count; \<open>target\<close> is the product of cores and multiplier.\<close>

definition next_power_of_two :: "nat \<Rightarrow> nat" where
  "next_power_of_two n = (if n \<le> 1 then 1 else 2 ^ (floorlog 2 (n - 1)))"

definition effective_l2_shard_count :: "nat \<Rightarrow> acl_config \<Rightarrow> nat" where
  "effective_l2_shard_count target cfg =
     (case ac_l2_shard_count cfg of
        Some manual_count \<Rightarrow> manual_count
      | None \<Rightarrow> min 512 (max 8 (next_power_of_two target)))"

record cached_entry =
  cd_entry :: acl_entry
  cd_cached_at :: nat
  cd_access_count :: nat
  cd_last_accessed :: nat

record cache_statistics =
  cs_l1_hits :: nat
  cs_l2_hits :: nat
  cs_l2_misses :: nat
  cs_bloom_filter_hits :: nat
  cs_total_requests :: nat

record audit_event =
  ev_timestamp :: nat
  ev_operation :: string
  ev_principal :: string
  ev_resource :: string
  ev_action :: string
  ev_result :: string
  ev_rule_id :: "string option"
  ev_metadata :: "(string \<times> string) list"

datatype permission = PermRead | PermWrite | PermAdmin | PermConnect | PermList

definition permission_of :: "acl_operation \<Rightarrow> permission" where
  "permission_of operation =
     (case operation of
        OpRead \<Rightarrow> PermRead | OpWrite \<Rightarrow> PermWrite | OpAdmin \<Rightarrow> PermAdmin | OpConnect \<Rightarrow> PermConnect
      | OpList \<Rightarrow> PermList | OpDescribe \<Rightarrow> PermRead | OpCluster \<Rightarrow> PermAdmin | OpAll \<Rightarrow> PermAdmin
      | OpDelete \<Rightarrow> PermAdmin | OpAlter \<Rightarrow> PermAdmin | OpCreate \<Rightarrow> PermAdmin)"

definition operation_of :: "permission \<Rightarrow> acl_operation" where
  "operation_of p =
     (case p of PermRead \<Rightarrow> OpRead | PermWrite \<Rightarrow> OpWrite | PermAdmin \<Rightarrow> OpAdmin
        | PermConnect \<Rightarrow> OpConnect | PermList \<Rightarrow> OpList)"

definition permission_text :: "permission \<Rightarrow> string" where
  "permission_text p =
     (case p of PermRead \<Rightarrow> ''Read'' | PermWrite \<Rightarrow> ''Write'' | PermAdmin \<Rightarrow> ''Admin''
        | PermConnect \<Rightarrow> ''Connect'' | PermList \<Rightarrow> ''List'')"

type_synonym decision_cache = "(string \<times> cached_entry) list"

record 's acl_manager =
  am_storage :: 's
  am_config :: acl_config
  am_l1_cache :: decision_cache
  am_l2_cache_shards :: "decision_cache list"
  am_bloom_filter :: "bool list option"
  am_audit_buffer :: "audit_event list"
  am_cache_stats :: cache_statistics

text \<open>The parameters: the regex crate, the two hash functions, the iteration order of a cache, and the storage.\<close>

record 's manager_env =
  me_regex :: regex_new
  me_hash :: "string \<Rightarrow> nat"
  me_bloom_hash :: "string \<Rightarrow> nat \<Rightarrow> nat"
  me_iter :: "decision_cache \<Rightarrow> decision_cache"
  me_store :: "'s storage_ops"

definition acl_manager_new :: "nat \<Rightarrow> acl_config \<Rightarrow> 's \<Rightarrow> 's acl_manager" where
  "acl_manager_new target cfg st =
     \<lparr>am_storage = st, am_config = cfg, am_l1_cache = [],
      am_l2_cache_shards = replicate (effective_l2_shard_count target cfg) [],
      am_bloom_filter = (if ac_negative_cache_enabled cfg then Some (replicate (ac_bloom_filter_size cfg) False) else None),
      am_audit_buffer = [],
      am_cache_stats = \<lparr>cs_l1_hits = 0, cs_l2_hits = 0, cs_l2_misses = 0, cs_bloom_filter_hits = 0, cs_total_requests = 0\<rparr>\<rparr>"

subsection \<open>The Bloom filter\<close>

definition bloom_index :: "(string \<Rightarrow> nat \<Rightarrow> nat) \<Rightarrow> string \<Rightarrow> bool list \<Rightarrow> nat \<Rightarrow> nat" where
  "bloom_index hash item bits seed = hash item seed mod length bits"

definition bloom_add :: "(string \<Rightarrow> nat \<Rightarrow> nat) \<Rightarrow> string \<Rightarrow> bool list \<Rightarrow> bool list" where
  "bloom_add hash item bits = fold (\<lambda>seed bs. bs[bloom_index hash item bs seed := True]) [0..<3] bits"

definition might_contain :: "(string \<Rightarrow> nat \<Rightarrow> nat) \<Rightarrow> string \<Rightarrow> bool list \<Rightarrow> bool" where
  "might_contain hash item bits = list_all (\<lambda>seed. bits ! bloom_index hash item bits seed) [0..<3]"

subsection \<open>The decision caches\<close>

definition find_lru_key :: "decision_cache \<Rightarrow> string option" where
  "find_lru_key tbl =
     (case tbl of
        [] \<Rightarrow> None
      | e # es \<Rightarrow> Some (fst (fold (\<lambda>x best. if cd_last_accessed (snd x) < cd_last_accessed (snd best) then x else best) es e)))"

definition check_l1_cache :: "string \<Rightarrow> 's acl_manager \<Rightarrow> cached_entry option" where
  "check_l1_cache key m = map_of (am_l1_cache m) key"

definition get_shard_index :: "'s manager_env \<Rightarrow> string \<Rightarrow> 's acl_manager \<Rightarrow> nat" where
  "get_shard_index env key m = me_hash env key mod length (am_l2_cache_shards m)"

definition check_l2_cache :: "'s manager_env \<Rightarrow> string \<Rightarrow> 's acl_manager \<Rightarrow> cached_entry option" where
  "check_l2_cache env key m = map_of (am_l2_cache_shards m ! get_shard_index env key m) key"

definition update_l1_cache :: "'s manager_env \<Rightarrow> string \<Rightarrow> cached_entry \<Rightarrow> 's acl_manager \<Rightarrow> 's acl_manager" where
  "update_l1_cache env key entry m =
     (let tbl = am_l1_cache m;
          tbl = (if length tbl \<ge> ac_cache_size_mb (am_config m) * 1024 * 1024 div 1000
                   then (case find_lru_key (me_iter env tbl) of
                           None \<Rightarrow> tbl | Some lru_key \<Rightarrow> AList.delete lru_key tbl)
                   else tbl)
      in m\<lparr>am_l1_cache := AList.update key entry tbl\<rparr>)"

definition update_l2_cache :: "'s manager_env \<Rightarrow> string \<Rightarrow> cached_entry \<Rightarrow> 's acl_manager \<Rightarrow> 's acl_manager" where
  "update_l2_cache env key entry m =
     (let i = get_shard_index env key m;
          shard = am_l2_cache_shards m ! i;
          shard = (if length shard \<ge> 1000
                   then (case me_iter env shard of [] \<Rightarrow> shard | (first_key, _) # _ \<Rightarrow> AList.delete first_key shard)
                   else shard)
      in m\<lparr>am_l2_cache_shards := (am_l2_cache_shards m)[i := AList.update key entry shard]\<rparr>)"

definition create_cached_entry :: "regex_new \<Rightarrow> nat \<Rightarrow> versioned_rule \<Rightarrow> cached_entry" where
  "create_cached_entry re now versioned =
     (let rule = vr_rule versioned;
          entry = (case from_rule re rule of
                     Some e \<Rightarrow> e
                   | None \<Rightarrow> \<lparr>ae_rule = rule, ae_principal_pattern = Exact (ar_principal rule),
                             ae_resource_pattern = Exact (rp_pattern (ar_resource rule))\<rparr>)
      in \<lparr>cd_entry = entry, cd_cached_at = now, cd_access_count = 0, cd_last_accessed = now\<rparr>)"

definition evaluate_cached_entry :: "cached_entry \<Rightarrow> string \<Rightarrow> string \<Rightarrow> acl_operation \<Rightarrow> acl_context \<Rightarrow> bool" where
  "evaluate_cached_entry cached prin resource operation cx =
     (if \<not> entry_matches (cd_entry cached) prin resource operation then False
      else if \<not> conditions_match (ae_rule (cd_entry cached)) cx then False
      else ar_effect (ae_rule (cd_entry cached)) = Allow)"

subsection \<open>The audit buffer\<close>

definition log_access_check ::
  "nat \<Rightarrow> string \<Rightarrow> string \<Rightarrow> string \<Rightarrow> bool \<Rightarrow> string option \<Rightarrow> acl_context \<Rightarrow> audit_event list \<Rightarrow> audit_event list" where
  "log_access_check ts prin resource action allowed rule_id cx buffer =
     (let event = \<lparr>ev_timestamp = ts, ev_operation = ''access_check'', ev_principal = prin, ev_resource = resource,
                   ev_action = action, ev_result = (if allowed then ''ALLOW'' else ''DENY''), ev_rule_id = rule_id,
                   ev_metadata = (case cx of None \<Rightarrow> [] | Some ctx \<Rightarrow> ctx)\<rparr>;
          buffer = buffer @ [event]
      in if length buffer > 10000 then tl buffer else buffer)"

subsection \<open>Access evaluation\<close>

definition access_key :: "string \<Rightarrow> string \<Rightarrow> permission \<Rightarrow> string" where
  "access_key prin resource operation = prin @ '':'' @ resource @ '':'' @ permission_text operation"

definition evaluate_access ::
  "'s manager_env \<Rightarrow> nat \<Rightarrow> nat \<Rightarrow> string \<Rightarrow> string \<Rightarrow> permission \<Rightarrow> acl_context \<Rightarrow> 's acl_manager \<Rightarrow>
   bool result \<times> 's acl_manager" where
  "evaluate_access env now ts prin resource operation cx m =
     (let m = m\<lparr>am_cache_stats := (am_cache_stats m)\<lparr>cs_total_requests := cs_total_requests (am_cache_stats m) + 1\<rparr>\<rparr>;
          key = access_key prin resource operation;
          op = operation_of operation;
          blocked = (ac_negative_cache_enabled (am_config m) \<and>
                     (case am_bloom_filter m of None \<Rightarrow> False
                        | Some bits \<Rightarrow> \<not> might_contain (me_bloom_hash env) key bits))
      in if blocked
         then (Ok False, m\<lparr>am_cache_stats := (am_cache_stats m)\<lparr>cs_bloom_filter_hits := cs_bloom_filter_hits (am_cache_stats m) + 1\<rparr>\<rparr>)
         else case check_l1_cache key m of
           Some cached \<Rightarrow>
             (Ok (evaluate_cached_entry cached prin resource op cx),
              m\<lparr>am_cache_stats := (am_cache_stats m)\<lparr>cs_l1_hits := cs_l1_hits (am_cache_stats m) + 1\<rparr>\<rparr>)
         | None \<Rightarrow>
             (case check_l2_cache env key m of
                Some cached \<Rightarrow>
                  (let m = m\<lparr>am_cache_stats := (am_cache_stats m)\<lparr>cs_l2_hits := cs_l2_hits (am_cache_stats m) + 1\<rparr>\<rparr>
                   in (Ok (evaluate_cached_entry cached prin resource op cx), update_l1_cache env key cached m))
              | None \<Rightarrow>
                  (let m = m\<lparr>am_cache_stats := (am_cache_stats m)\<lparr>cs_l2_misses := cs_l2_misses (am_cache_stats m) + 1\<rparr>\<rparr>
                   in case so_rules_for_principal (me_store env) now prin (am_storage m) of
                        (Inl e, st) \<Rightarrow> (Err e, m\<lparr>am_storage := st\<rparr>)
                      | (Inr rules, st) \<Rightarrow>
                          (let m = m\<lparr>am_storage := st\<rparr>;
                               decision = evaluate_rules (me_regex env) rules prin resource op cx;
                               m = (case rules of
                                      rule # _ \<Rightarrow>
                                        (let cached = create_cached_entry (me_regex env) now rule
                                         in update_l1_cache env key cached (update_l2_cache env key cached m))
                                    | [] \<Rightarrow>
                                        (case am_bloom_filter m of
                                           Some bits \<Rightarrow>
                                             if ac_negative_cache_enabled (am_config m)
                                             then m\<lparr>am_bloom_filter := Some (bloom_add (me_bloom_hash env) key bits)\<rparr> else m
                                         | None \<Rightarrow> m));
                               m = (if ac_enable_audit_logging (am_config m)
                                    then m\<lparr>am_audit_buffer :=
                                             log_access_check ts prin resource (permission_text operation) (is_allowed decision)
                                               (case rules of [] \<Rightarrow> None | rule # _ \<Rightarrow> Some (ar_id (vr_rule rule))) cx
                                               (am_audit_buffer m)\<rparr>
                                    else m)
                           in (Ok (is_allowed decision), m)))))"

definition invalidate_cache :: "'s manager_env \<Rightarrow> string list \<Rightarrow> 's acl_manager \<Rightarrow> 's acl_manager" where
  "invalidate_cache env keys m =
     (let m = m\<lparr>am_l1_cache := fold AList.delete keys (am_l1_cache m)\<rparr>;
          m = fold (\<lambda>key m. let i = get_shard_index env key m in
                     m\<lparr>am_l2_cache_shards := (am_l2_cache_shards m)[i := AList.delete key (am_l2_cache_shards m ! i)]\<rparr>) keys m
      in if ac_negative_cache_enabled (am_config m)
         then m\<lparr>am_bloom_filter := Some (replicate (ac_bloom_filter_size (am_config m)) False)\<rparr> else m)"

definition warm_rule :: "'s manager_env \<Rightarrow> nat \<Rightarrow> versioned_rule \<Rightarrow> 's acl_manager \<Rightarrow> 's acl_manager" where
  "warm_rule env now rule m =
     (if vr_deleted rule then m
      else (let key = ar_principal (vr_rule rule) @ '':'' @ rp_pattern (ar_resource (vr_rule rule)) @ '':*'';
                cached = create_cached_entry (me_regex env) now rule
            in update_l2_cache env key cached (update_l1_cache env key cached m)))"

fun warm_cache :: "'s manager_env \<Rightarrow> nat \<Rightarrow> string list \<Rightarrow> 's acl_manager \<Rightarrow> unit result \<times> 's acl_manager" where
  "warm_cache env now [] m = (Ok (), m)"
| "warm_cache env now (prin # principals) m =
     (case so_rules_for_principal (me_store env) now prin (am_storage m) of
        (Inl e, st) \<Rightarrow> (Err e, m\<lparr>am_storage := st\<rparr>)
      | (Inr rules, st) \<Rightarrow> warm_cache env now principals (fold (warm_rule env now) rules (m\<lparr>am_storage := st\<rparr>)))"

text \<open>\<open>now\<close> and the ttl are in the unit of the clock.\<close>

definition cleanup_expired_cache_entries :: "nat \<Rightarrow> nat \<Rightarrow> 's acl_manager \<Rightarrow> 's acl_manager" where
  "cleanup_expired_cache_entries now ttl m =
     m\<lparr>am_l1_cache := filter (\<lambda>(_, e). now - cd_cached_at e < ttl) (am_l1_cache m),
       am_l2_cache_shards := map (filter (\<lambda>(_, e). now - cd_cached_at e < ttl)) (am_l2_cache_shards m)\<rparr>"

definition flush_logs :: "'s acl_manager \<Rightarrow> 's acl_manager" where
  "flush_logs m = (if ac_enable_audit_logging (am_config m) then m\<lparr>am_audit_buffer := []\<rparr> else m)"

text \<open>
  The rule operations of the manager. \<open>outcome\<close> is what the submitted operation returned and \<open>st\<close>
  the storage then; the distribution to the brokers is a placeholder in the source that changes nothing.
\<close>

definition manager_create_rule ::
  "'s manager_env \<Rightarrow> acl_rule \<Rightarrow> acl_raft_result result \<Rightarrow> 's \<Rightarrow> 's acl_manager \<Rightarrow> acl_rule result \<times> 's acl_manager" where
  "manager_create_rule env rule outcome st m =
     (case validate_rule (me_regex env) rule of
        Inl e \<Rightarrow> (Err e, m)
      | Inr _ \<Rightarrow>
          (let m = m\<lparr>am_storage := st\<rparr> in
           case created_id outcome of
             Inl e \<Rightarrow> (Err e, m)
           | Inr rule_id \<Rightarrow>
               (Ok (rule\<lparr>ar_id := rule_id\<rparr>), invalidate_cache env [ar_principal rule @ '':*''] m)))"

definition manager_delete_rule ::
  "'s manager_env \<Rightarrow> nat \<Rightarrow> string \<Rightarrow> acl_raft_result result \<Rightarrow> 's \<Rightarrow> 's acl_manager \<Rightarrow> unit result \<times> 's acl_manager" where
  "manager_delete_rule env now rule_id outcome st m =
     (case so_get_rule (me_store env) now rule_id (am_storage m) of
        (Inl e, st0) \<Rightarrow> (Err e, m\<lparr>am_storage := st0\<rparr>)
      | (Inr None, st0) \<Rightarrow> (Err (AclEvaluation (''Rule '' @ rule_id @ '' not found'')), m\<lparr>am_storage := st0\<rparr>)
      | (Inr (Some rule), _) \<Rightarrow>
          (let m = m\<lparr>am_storage := st\<rparr> in
           case changed_rule outcome of
             Inl e \<Rightarrow> (Err e, m)
           | Inr _ \<Rightarrow> (Ok (), invalidate_cache env [ar_principal (vr_rule rule) @ '':*''] m)))"

definition manager_update_rule ::
  "'s manager_env \<Rightarrow> nat \<Rightarrow> string \<Rightarrow> acl_rule \<Rightarrow> acl_raft_result result \<Rightarrow> 's \<Rightarrow> 's acl_manager \<Rightarrow>
   acl_rule result \<times> 's acl_manager" where
  "manager_update_rule env now rule_id rule outcome st m =
     (case validate_rule (me_regex env) rule of
        Inl e \<Rightarrow> (Err e, m)
      | Inr _ \<Rightarrow>
          (case so_get_rule (me_store env) now rule_id (am_storage m) of
             (Inl e, st0) \<Rightarrow> (Err e, m\<lparr>am_storage := st0\<rparr>)
           | (Inr None, st0) \<Rightarrow> (Err (AclEvaluation (''Rule '' @ rule_id @ '' not found'')), m\<lparr>am_storage := st0\<rparr>)
           | (Inr (Some old), _) \<Rightarrow>
               (let m = m\<lparr>am_storage := st\<rparr> in
                case changed_rule outcome of
                  Inl e \<Rightarrow> (Err e, m)
                | Inr _ \<Rightarrow>
                    (let keys = [ar_principal rule @ '':*''] @
                                (if ar_principal (vr_rule old) \<noteq> ar_principal rule then [ar_principal (vr_rule old) @ '':*''] else [])
                     in (Ok (rule\<lparr>ar_id := rule_id\<rparr>), invalidate_cache env keys m)))))"

section \<open>Runs of a manager\<close>

datatype 's manager_call =
    Access nat nat string string permission acl_context
  | Invalidate "string list"
  | Warm nat "string list"
  | Cleanup nat nat
  | Flush
  | Create_rule acl_rule "acl_raft_result result" 's
  | Update_rule nat string acl_rule "acl_raft_result result" 's
  | Delete_rule nat string "acl_raft_result result" 's

fun manager_exec :: "'s manager_env \<Rightarrow> 's manager_call \<Rightarrow> 's acl_manager \<Rightarrow> 's acl_manager" where
  "manager_exec env (Access now ts prin resource operation cx) m = snd (evaluate_access env now ts prin resource operation cx m)"
| "manager_exec env (Invalidate keys) m = invalidate_cache env keys m"
| "manager_exec env (Warm now principals) m = snd (warm_cache env now principals m)"
| "manager_exec env (Cleanup now ttl) m = cleanup_expired_cache_entries now ttl m"
| "manager_exec env Flush m = flush_logs m"
| "manager_exec env (Create_rule rule outcome st) m = snd (manager_create_rule env rule outcome st m)"
| "manager_exec env (Update_rule now i rule outcome st) m = snd (manager_update_rule env now i rule outcome st m)"
| "manager_exec env (Delete_rule now i outcome st) m = snd (manager_delete_rule env now i outcome st m)"

subsection \<open>The caches stay bounded\<close>

definition l1_limit :: "acl_config \<Rightarrow> nat" where
  "l1_limit cfg = max 1 (ac_cache_size_mb cfg * 1024 * 1024 div 1000)"

definition manager_bounded :: "'s acl_manager \<Rightarrow> bool" where
  "manager_bounded m \<longleftrightarrow>
     length (am_l1_cache m) \<le> l1_limit (am_config m) \<and>
     list_all (\<lambda>shard. length shard \<le> 1000) (am_l2_cache_shards m) \<and>
     length (am_audit_buffer m) \<le> 10000"

lemma length_AList_delete: "length (AList.delete k xs) \<le> length xs"
  by (simp add: AList.delete_eq)

lemma length_AList_delete_less: "k \<in> fst ` set xs \<Longrightarrow> length (AList.delete k xs) < length xs"
  unfolding AList.delete_eq using length_filter_less [of _ xs "\<lambda>(k', _). k \<noteq> k'"] by fastforce

lemma length_AList_update: "length (AList.update k v xs) \<le> Suc (length xs)"
  by (induction xs) auto

lemma find_lru_key_in:
  assumes "find_lru_key tbl = Some k"
  shows "k \<in> fst ` set tbl"
proof -
  have "fold (\<lambda>x best. if cd_last_accessed (snd x) < cd_last_accessed (snd best) then x else best) es e \<in> set (e # es)"
    for es and e :: "string \<times> cached_entry"
    by (induction es arbitrary: e) auto
  then show ?thesis using assms by (cases tbl) (force simp: find_lru_key_def)+
qed

lemma find_lru_key_None: "find_lru_key tbl = None \<longleftrightarrow> tbl = []"
  by (cases tbl) (auto simp: find_lru_key_def)

definition iter_ok :: "'s manager_env \<Rightarrow> bool" where
  "iter_ok env \<longleftrightarrow> (\<forall>tbl. set (me_iter env tbl) = set tbl)"

lemma update_l1_other [simp]:
  "am_config (update_l1_cache env k e m) = am_config m"
  "am_l2_cache_shards (update_l1_cache env k e m) = am_l2_cache_shards m"
  "am_audit_buffer (update_l1_cache env k e m) = am_audit_buffer m"
  "am_bloom_filter (update_l1_cache env k e m) = am_bloom_filter m"
  "am_storage (update_l1_cache env k e m) = am_storage m"
  by (simp_all add: update_l1_cache_def Let_def)

lemma update_l2_other [simp]:
  "am_config (update_l2_cache env k e m) = am_config m"
  "am_l1_cache (update_l2_cache env k e m) = am_l1_cache m"
  "am_audit_buffer (update_l2_cache env k e m) = am_audit_buffer m"
  "am_bloom_filter (update_l2_cache env k e m) = am_bloom_filter m"
  "am_storage (update_l2_cache env k e m) = am_storage m"
  "length (am_l2_cache_shards (update_l2_cache env k e m)) = length (am_l2_cache_shards m)"
  by (simp_all add: update_l2_cache_def Let_def)

lemma update_l1_length:
  assumes "iter_ok env" and "length (am_l1_cache m) \<le> l1_limit (am_config m)"
  shows "length (am_l1_cache (update_l1_cache env k e m)) \<le> l1_limit (am_config m)"
proof -
  let ?t = "am_l1_cache m" and ?lim = "ac_cache_size_mb (am_config m) * 1024 * 1024 div 1000"
  define t where "t = (if length ?t \<ge> ?lim
                   then (case find_lru_key (me_iter env ?t) of None \<Rightarrow> ?t | Some k \<Rightarrow> AList.delete k ?t) else ?t)"
  have "Suc (length t) \<le> l1_limit (am_config m)"
  proof (cases "length ?t \<ge> ?lim")
    case True
    show ?thesis
    proof (cases "find_lru_key (me_iter env ?t)")
      case None
      then have "set ?t = {}" using assms(1) by (metis find_lru_key_None iter_ok_def list.set(1))
      then show ?thesis using None True by (simp add: t_def l1_limit_def)
    next
      case (Some k)
      have "k \<in> fst ` set ?t" using find_lru_key_in [OF Some] assms(1) by (simp add: iter_ok_def)
      then show ?thesis
        using length_AList_delete_less [of k ?t] Some True assms(2) by (simp add: t_def)
    qed
  qed (simp add: t_def l1_limit_def)
  then have "length (AList.update k e t) \<le> l1_limit (am_config m)"
    using length_AList_update [of k e t] by simp
  then show ?thesis by (simp add: update_l1_cache_def Let_def t_def)
qed

lemma update_l2_length:
  assumes "iter_ok env" and "list_all (\<lambda>shard. length shard \<le> 1000) (am_l2_cache_shards m)"
  shows "list_all (\<lambda>shard. length shard \<le> 1000) (am_l2_cache_shards (update_l2_cache env k e m))"
proof (cases "get_shard_index env k m < length (am_l2_cache_shards m)")
  case True
  let ?t = "am_l2_cache_shards m ! get_shard_index env k m"
  define t where "t = (if length ?t \<ge> 1000
      then (case me_iter env ?t of [] \<Rightarrow> ?t | (first_key, _) # _ \<Rightarrow> AList.delete first_key ?t) else ?t)"
  have len: "length ?t \<le> 1000" using assms(2) True by (simp add: list_all_length)
  have "length t < 1000"
  proof (cases "length ?t \<ge> 1000")
    case True
    have s: "set (me_iter env ?t) = set ?t" using assms(1) by (simp add: iter_ok_def)
    show ?thesis
    proof (cases "me_iter env ?t")
      case Nil
      then show ?thesis using s True by simp
    next
      case (Cons x xs)
      then have "fst x \<in> fst ` set ?t" using s by (metis image_eqI list.set_intros(1))
      then show ?thesis using length_AList_delete_less [of "fst x" ?t] Cons True len by (cases x) (simp add: t_def)
    qed
  qed (simp add: t_def)
  then have "length (AList.update k e t) \<le> 1000"
    using length_AList_update [of k e t] by simp
  then show ?thesis
    using assms(2) by (auto simp: update_l2_cache_def Let_def t_def [symmetric] list_all_iff dest!: set_update_subset_insert [THEN subsetD])
next
  case False
  then show ?thesis using assms(2) by (simp add: update_l2_cache_def Let_def list_update_beyond)
qed

lemma log_access_check_length: "length b \<le> 10000 \<Longrightarrow> length (log_access_check ts p r a ok i cx b) \<le> 10000"
  by (simp add: log_access_check_def Let_def)

lemma bounded_update:
  assumes "iter_ok env" and "manager_bounded m"
  shows "manager_bounded (update_l1_cache env k e m)" and "manager_bounded (update_l2_cache env k e m)"
  using assms update_l1_length [OF assms(1), of m k e] update_l2_length [OF assms(1), of m k e]
  by (simp_all add: manager_bounded_def)

lemma bounded_cong:
  "am_l1_cache m' = am_l1_cache m \<Longrightarrow> am_config m' = am_config m \<Longrightarrow> am_l2_cache_shards m' = am_l2_cache_shards m \<Longrightarrow>
   am_audit_buffer m' = am_audit_buffer m \<Longrightarrow> manager_bounded m' = manager_bounded m"
  by (simp add: manager_bounded_def)

text \<open>The five ways a request is answered; \<open>counted\<close> stands for the statistics, which nothing reads.\<close>

definition access_blocked :: "'s manager_env \<Rightarrow> string \<Rightarrow> 's acl_manager \<Rightarrow> bool" where
  "access_blocked env key m \<longleftrightarrow>
     ac_negative_cache_enabled (am_config m) \<and>
     (case am_bloom_filter m of None \<Rightarrow> False | Some bits \<Rightarrow> \<not> might_contain (me_bloom_hash env) key bits)"

definition remember ::
  "'s manager_env \<Rightarrow> nat \<Rightarrow> string \<Rightarrow> versioned_rule list \<Rightarrow> 's acl_manager \<Rightarrow> 's acl_manager" where
  "remember env now key rules m =
     (case rules of
        rule # _ \<Rightarrow>
          (let cached = create_cached_entry (me_regex env) now rule
           in update_l1_cache env key cached (update_l2_cache env key cached m))
      | [] \<Rightarrow>
          (case am_bloom_filter m of
             Some bits \<Rightarrow>
               if ac_negative_cache_enabled (am_config m)
               then m\<lparr>am_bloom_filter := Some (bloom_add (me_bloom_hash env) key bits)\<rparr> else m
           | None \<Rightarrow> m))"

definition audited :: "audit_event list \<Rightarrow> 's acl_manager \<Rightarrow> 's acl_manager" where
  "audited buffer m = (if ac_enable_audit_logging (am_config m) then m\<lparr>am_audit_buffer := buffer\<rparr> else m)"

lemma remember_other [simp]:
  "am_config (remember env now k rs m) = am_config m"
  "am_audit_buffer (remember env now k rs m) = am_audit_buffer m"
  "am_storage (remember env now k rs m) = am_storage m"
  by (auto simp: remember_def Let_def split: list.splits option.splits)

lemma evaluate_access_cases:
  obtains (blocked) s where "access_blocked env (access_key p r op) m"
      "evaluate_access env now ts p r op cx m = (Ok False, m\<lparr>am_cache_stats := s\<rparr>)"
  | (l1) s cached where "\<not> access_blocked env (access_key p r op) m" "check_l1_cache (access_key p r op) m = Some cached"
      "evaluate_access env now ts p r op cx m =
         (Ok (evaluate_cached_entry cached p r (operation_of op) cx), m\<lparr>am_cache_stats := s\<rparr>)"
  | (l2) s cached where "\<not> access_blocked env (access_key p r op) m" "check_l1_cache (access_key p r op) m = None"
      "check_l2_cache env (access_key p r op) m = Some cached"
      "evaluate_access env now ts p r op cx m =
         (Ok (evaluate_cached_entry cached p r (operation_of op) cx),
          update_l1_cache env (access_key p r op) cached (m\<lparr>am_cache_stats := s\<rparr>))"
  | (failed) s e st where "\<not> access_blocked env (access_key p r op) m" "check_l1_cache (access_key p r op) m = None"
      "check_l2_cache env (access_key p r op) m = None"
      "so_rules_for_principal (me_store env) now p (am_storage m) = (Err e, st)"
      "evaluate_access env now ts p r op cx m = (Err e, m\<lparr>am_cache_stats := s, am_storage := st\<rparr>)"
  | (miss) s rules st buffer where "\<not> access_blocked env (access_key p r op) m" "check_l1_cache (access_key p r op) m = None"
      "check_l2_cache env (access_key p r op) m = None"
      "so_rules_for_principal (me_store env) now p (am_storage m) = (Ok rules, st)"
      "length (am_audit_buffer m) \<le> 10000 \<longrightarrow> length buffer \<le> 10000"
      "evaluate_access env now ts p r op cx m =
         (Ok (is_allowed (evaluate_rules (me_regex env) rules p r (operation_of op) cx)),
          audited buffer (remember env now (access_key p r op) rules (m\<lparr>am_cache_stats := s, am_storage := st\<rparr>)))"
proof -
  let ?k = "access_key p r op"
  let ?m = "m\<lparr>am_cache_stats := (am_cache_stats m)\<lparr>cs_total_requests := cs_total_requests (am_cache_stats m) + 1\<rparr>\<rparr>"
  have same: "check_l1_cache ?k ?m = check_l1_cache ?k m" "check_l2_cache env ?k ?m = check_l2_cache env ?k m"
    by (simp_all add: check_l1_cache_def check_l2_cache_def get_shard_index_def)
  note defs = evaluate_access_def Let_def access_blocked_def [symmetric]
  show thesis
  proof (cases "access_blocked env ?k m")
    case True
    then show thesis by (intro blocked) (auto simp: evaluate_access_def Let_def access_blocked_def)
  next
    case nb: False
    then have b: "\<not> (ac_negative_cache_enabled (am_config ?m) \<and>
        (case am_bloom_filter ?m of None \<Rightarrow> False | Some bits \<Rightarrow> \<not> might_contain (me_bloom_hash env) ?k bits))"
      by (simp add: access_blocked_def)
    show thesis
    proof (cases "check_l1_cache ?k m")
      case (Some cached)
      show thesis
        by (rule l1 [OF nb Some]) (unfold evaluate_access_def Let_def if_not_P [OF b] same Some, simp)
    next
      case n1: None
      show thesis
      proof (cases "check_l2_cache env ?k m")
        case (Some cached)
        show thesis
          by (rule l2 [OF nb n1 Some]) (unfold evaluate_access_def Let_def if_not_P [OF b] same n1 Some, simp)
      next
        case n2: None
        obtain res st where q: "so_rules_for_principal (me_store env) now p (am_storage m) = (res, st)" by force
        show thesis
        proof (cases res)
          case (Inl e)
          show thesis
            by (rule failed [OF nb n1 n2 q [unfolded Inl]])
               (unfold evaluate_access_def Let_def if_not_P [OF b] same n1 n2, simp add: q Inl)
        next
          case (Inr rules)
          define buffer where "buffer = log_access_check ts p r (permission_text op)
              (is_allowed (evaluate_rules (me_regex env) rules p r (operation_of op) cx))
              (case rules of [] \<Rightarrow> None | rule # _ \<Rightarrow> Some (ar_id (vr_rule rule))) cx (am_audit_buffer m)"
          have len: "length (am_audit_buffer m) \<le> 10000 \<longrightarrow> length buffer \<le> 10000"
            by (simp add: buffer_def log_access_check_length)
          show thesis
            by (rule miss [where s = "(am_cache_stats m)\<lparr>cs_total_requests := Suc (cs_total_requests (am_cache_stats m)),
                    cs_l2_misses := Suc (cs_l2_misses (am_cache_stats m))\<rparr>", OF nb n1 n2 q [unfolded Inr] len])
               (unfold evaluate_access_def Let_def if_not_P [OF b] same n1 n2 remember_def [unfolded Let_def, symmetric],
                simp add: q Inr audited_def buffer_def)
        qed
      qed
    qed
  qed
qed

lemma remember_bounded: "iter_ok env \<Longrightarrow> manager_bounded m \<Longrightarrow> manager_bounded (remember env now k rs m)"
  by (auto simp: remember_def Let_def bounded_update split: list.splits option.splits)
     (simp_all add: manager_bounded_def)

lemma access_bounded:
  assumes "iter_ok env" and m: "manager_bounded m"
  shows "manager_bounded (snd (evaluate_access env now ts p r op cx m))"
proof -
  have st: "manager_bounded (m\<lparr>am_cache_stats := s\<rparr>)" "manager_bounded (m\<lparr>am_cache_stats := s, am_storage := st\<rparr>)" for s st
    using m by (simp_all add: manager_bounded_def)
  show ?thesis
  proof (cases rule: evaluate_access_cases [where env = env and p = p and r = r and op = op and m = m and now = now and ts = ts and cx = cx])
    case (miss s rules str buffer)
    then have "manager_bounded (remember env now (access_key p r op) rules (m\<lparr>am_cache_stats := s, am_storage := str\<rparr>))"
      using remember_bounded [OF assms(1) st(2)] by blast
    moreover have "length buffer \<le> 10000" using miss(5) m by (simp add: manager_bounded_def)
    ultimately show ?thesis using miss(6) by (simp add: audited_def manager_bounded_def)
  qed (use st bounded_update [OF assms(1)] in auto)
qed

lemma invalidate_bounded:
  assumes "manager_bounded m"
  shows "manager_bounded (invalidate_cache env keys m)"
proof -
  let ?del = "\<lambda>key m. let i = get_shard_index env key m in
     m\<lparr>am_l2_cache_shards := (am_l2_cache_shards m)[i := AList.delete key (am_l2_cache_shards m ! i)]\<rparr>"
  have l1: "length (fold AList.delete keys t) \<le> length t" for t :: decision_cache
    by (induction keys arbitrary: t) (auto intro: order_trans [OF _ length_AList_delete])
  have one: "manager_bounded (?del key m)" if "manager_bounded m" for key and m :: "'a acl_manager"
  proof (cases "get_shard_index env key m < length (am_l2_cache_shards m)")
    case True
    then have "length (AList.delete key (am_l2_cache_shards m ! get_shard_index env key m)) \<le> 1000"
      using that by (intro order_trans [OF length_AList_delete]) (simp add: manager_bounded_def list_all_length)
    then show ?thesis
      using that by (auto simp: manager_bounded_def Let_def list_all_iff dest!: set_update_subset_insert [THEN subsetD])
  next
    case False
    then show ?thesis using that by (simp add: Let_def list_update_beyond manager_bounded_def)
  qed
  have "manager_bounded (fold ?del keys m)" if "manager_bounded m" for m :: "'a acl_manager"
    using that by (induction keys arbitrary: m) (auto simp: one)
  moreover have "manager_bounded (m\<lparr>am_l1_cache := fold AList.delete keys (am_l1_cache m)\<rparr>)"
    using assms l1 [of "am_l1_cache m"] by (simp add: manager_bounded_def)
  ultimately have "manager_bounded (fold ?del keys (m\<lparr>am_l1_cache := fold AList.delete keys (am_l1_cache m)\<rparr>))" by blast
  then show ?thesis by (simp add: invalidate_cache_def Let_def manager_bounded_def)
qed

lemma warm_bounded:
  assumes "iter_ok env" and "manager_bounded m"
  shows "manager_bounded (snd (warm_cache env now ps m))"
  using assms(2)
proof (induction ps arbitrary: m)
  case (Cons p ps)
  have rules: "manager_bounded (fold (warm_rule env now) rules m)" if "manager_bounded m" for rules m
    using that by (induction rules arbitrary: m) (auto simp: warm_rule_def Let_def bounded_update [OF assms(1)])
  have "manager_bounded (m\<lparr>am_storage := st\<rparr>)" for st using Cons.prems by (simp add: manager_bounded_def)
  then show ?case using Cons.IH rules by (auto split: prod.splits sum.splits)
qed simp

lemma exec_bounded:
  assumes "iter_ok env" and m: "manager_bounded m"
  shows "manager_bounded (manager_exec env call m)"
proof -
  have st: "manager_bounded (m\<lparr>am_storage := st\<rparr>)" for st using m by (simp add: manager_bounded_def)
  show ?thesis
  proof (cases call)
    case (Access now ts p r op cx)
    then show ?thesis using access_bounded [OF assms] by simp
  next
    case (Invalidate keys)
    then show ?thesis using invalidate_bounded [OF m] by simp
  next
    case (Warm now ps)
    then show ?thesis using warm_bounded [OF assms] by simp
  next
    case (Cleanup now ttl)
    then show ?thesis
      using m by (auto simp: cleanup_expired_cache_entries_def manager_bounded_def list_all_iff
                       intro: order_trans [OF length_filter_le])
  next
    case Flush
    then show ?thesis using m by (simp add: flush_logs_def manager_bounded_def)
  next
    case (Create_rule rule outcome str)
    then show ?thesis
      using m st invalidate_bounded by (auto simp: manager_create_rule_def Let_def split: sum.splits)
  next
    case (Update_rule now i rule outcome str)
    then show ?thesis
      using m st invalidate_bounded
      by (auto simp: manager_update_rule_def Let_def split: sum.splits prod.splits option.splits)
  next
    case (Delete_rule now i outcome str)
    then show ?thesis
      using m st invalidate_bounded
      by (auto simp: manager_delete_rule_def Let_def split: sum.splits prod.splits option.splits)
  qed
qed

lemma fold_shards_config [simp]:
  "am_config (fold (\<lambda>key m. m\<lparr>am_l2_cache_shards := f key m\<rparr>) keys m) = am_config m"
  by (induction keys arbitrary: m) auto

lemma invalidate_other [simp]: "am_config (invalidate_cache env keys m) = am_config m"
  by (simp add: invalidate_cache_def Let_def)

lemma fold_warm_config [simp]: "am_config (fold (warm_rule env now) rules m) = am_config m"
  by (induction rules arbitrary: m) (auto simp: warm_rule_def Let_def)

lemma warm_config [simp]: "am_config (snd (warm_cache env now ps m)) = am_config m"
proof (induction ps arbitrary: m)
  case (Cons p ps)
  then show ?case by (auto split: prod.splits sum.splits)
qed simp

lemma exec_config [simp]: "am_config (manager_exec env call m) = am_config m"
proof (cases call)
  case (Access now ts p r op cx)
  then show ?thesis
    by (cases rule: evaluate_access_cases [where env = env and p = p and r = r and op = op and m = m and now = now and ts = ts and cx = cx])
       (auto simp: audited_def)
qed (auto simp: cleanup_expired_cache_entries_def flush_logs_def manager_create_rule_def manager_update_rule_def
       manager_delete_rule_def Let_def split: sum.splits prod.splits option.splits)

text \<open>
  C37. Whatever is asked of an access manager, its memory stays bounded: the first-level cache never holds
  more than \<open>cache_size_mb * 1048576 / 1000\<close> entries (at least one), each shard of the second
  level at most 1000, and the audit buffer at most 10000 events.
\<close>

theorem manager_memory_bounded:
  assumes "\<forall>tbl. set (me_iter env tbl) = set tbl"
  shows "let m = fold (manager_exec env) calls (acl_manager_new target cfg st) in
         length (am_l1_cache m) \<le> max 1 (ac_cache_size_mb cfg * 1024 * 1024 div 1000) \<and>
         list_all (\<lambda>shard. length shard \<le> 1000) (am_l2_cache_shards m) \<and>
         length (am_audit_buffer m) \<le> 10000"
proof -
  have "manager_bounded (acl_manager_new target cfg st)"
    by (simp add: manager_bounded_def acl_manager_new_def list_all_iff)
  moreover have "manager_bounded (fold (manager_exec env) calls m)" if "manager_bounded m" for m
    using that
  proof (induction calls arbitrary: m)
    case (Cons call calls)
    then show ?case using exec_bounded [of env m call] assms by (simp add: iter_ok_def)
  qed simp
  ultimately have "manager_bounded (fold (manager_exec env) calls (acl_manager_new target cfg st))" by blast
  moreover have "am_config (fold (manager_exec env) calls m) = am_config m" for m
    by (induction calls arbitrary: m) auto
  ultimately show ?thesis by (simp add: manager_bounded_def l1_limit_def acl_manager_new_def Let_def)
qed

definition sample_env :: "'s storage_ops \<Rightarrow> 's manager_env" where
  "sample_env so = \<lparr>me_regex = (\<lambda>_. None), me_hash = length, me_bloom_hash = (\<lambda>s i. length s + i), me_iter = id, me_store = so\<rparr>"

definition sample_acl_config :: "bool \<Rightarrow> acl_config" where
  "sample_acl_config negative =
     \<lparr>ac_cache_size_mb = 1, ac_cache_ttl_seconds = 300, ac_l2_shard_count = Some 2, ac_bloom_filter_size = 7,
      ac_enable_audit_logging = True, ac_negative_cache_enabled = negative\<rparr>"

text \<open>A storage that always answers with the same rules.\<close>

definition constant_store :: "versioned_rule list \<Rightarrow> unit storage_ops" where
  "constant_store rules =
     \<lparr>so_create_rule = (\<lambda>_ _ _ _ _ _ st. (Ok [], st)), so_update_rule = (\<lambda>_ _ _ _ _ _ st. (Ok (), st)),
      so_delete_rule = (\<lambda>_ _ _ _ _ st. (Ok (), st)), so_get_rule = (\<lambda>_ _ st. (Ok None, st)),
      so_rules_for_principal = (\<lambda>_ _ st. (Ok rules, st)), so_get_version = (\<lambda>_. Ok 0),
      so_create_snapshot = (\<lambda>_ _ st. (Err (AclEvaluation []), st)), so_restore_snapshot = (\<lambda>_ st. (Ok (), st))\<rparr>"

theorem manager_memory_bounded_witness:
  "let m = fold (manager_exec (sample_env (constant_store [])))
             [Access 1 1 ''bob'' ''orders'' PermRead None, Warm 2 [''bob''], Cleanup 400 300] (acl_manager_new 0 (sample_acl_config False) ())
   in length (am_l1_cache m) \<le> 1048 \<and> list_all (\<lambda>shard. length shard \<le> 1000) (am_l2_cache_shards m) \<and>
      length (am_audit_buffer m) \<le> 10000"
  using manager_memory_bounded [of "sample_env (constant_store [])"
      "[Access 1 1 ''bob'' ''orders'' PermRead None, Warm 2 [''bob''], Cleanup 400 300]" 0 "sample_acl_config False" "()"]
  by (simp add: sample_env_def sample_acl_config_def Let_def)

subsection \<open>The negative cache\<close>

definition never_seen :: "'s acl_manager \<Rightarrow> bool" where
  "never_seen m \<longleftrightarrow> ac_negative_cache_enabled (am_config m) \<and> 0 < ac_bloom_filter_size (am_config m) \<and>
     am_bloom_filter m = Some (replicate (ac_bloom_filter_size (am_config m)) False)"

lemma never_seen_blocked: "never_seen m \<Longrightarrow> access_blocked env k m"
  by (simp add: never_seen_def access_blocked_def might_contain_def bloom_index_def list_all_iff) (rule exI [of _ 0], simp)

lemma fold_bloom [simp]:
  "am_bloom_filter (fold (warm_rule env now) rules m) = am_bloom_filter m"
  by (induction rules arbitrary: m) (auto simp: warm_rule_def Let_def)

lemma invalidate_never_seen: "never_seen m \<Longrightarrow> never_seen (invalidate_cache env keys m)"
  by (simp add: invalidate_cache_def never_seen_def Let_def)

lemma exec_never_seen:
  assumes m: "never_seen m"
  shows "never_seen (manager_exec env call m)"
proof -
  have st: "never_seen (m\<lparr>am_storage := st\<rparr>)" for st using m by (simp add: never_seen_def)
  show ?thesis
  proof (cases call)
    case (Access now ts p r op cx)
    then show ?thesis
      using never_seen_blocked [OF m, of env] m
      by (cases rule: evaluate_access_cases [where env = env and p = p and r = r and op = op and m = m and now = now and ts = ts and cx = cx])
         (auto simp: never_seen_def)
  next
    case (Warm now ps)
    have "never_seen (snd (warm_cache env now ps m))" if "never_seen m" for m
      using that
    proof (induction ps arbitrary: m)
      case (Cons p ps)
      have "never_seen (fold (warm_rule env now) rules (m\<lparr>am_storage := str\<rparr>))" for rules str
        using Cons.prems by (simp add: never_seen_def)
      moreover have "never_seen (m\<lparr>am_storage := str\<rparr>)" for str using Cons.prems by (simp add: never_seen_def)
      ultimately show ?case using Cons.IH by (auto split: prod.splits sum.splits)
    qed simp
    then show ?thesis using m Warm by simp
  next
    case (Create_rule rule outcome str)
    then show ?thesis
      using m st invalidate_never_seen by (auto simp: manager_create_rule_def Let_def split: sum.splits)
  next
    case (Update_rule now i rule outcome str)
    then show ?thesis
      using m st invalidate_never_seen
      by (auto simp: manager_update_rule_def Let_def split: sum.splits prod.splits option.splits)
  next
    case (Delete_rule now i outcome str)
    then show ?thesis
      using m st invalidate_never_seen
      by (auto simp: manager_delete_rule_def Let_def split: sum.splits prod.splits option.splits)
  qed (use m invalidate_never_seen in \<open>auto simp: cleanup_expired_cache_entries_def flush_logs_def never_seen_def\<close>)
qed

text \<open>
  C39. With negative caching on, which is the default, an access manager denies every request for ever: the
  Bloom filter starts empty, an item that is not in it is refused before the rules are read, and only a
  request that gets past it adds anything to it.
\<close>

theorem negative_cache_denies_everything:
  assumes "ac_negative_cache_enabled cfg" and "0 < ac_bloom_filter_size cfg"
  shows "fst (evaluate_access env now ts p r op cx (fold (manager_exec env) calls (acl_manager_new target cfg st))) = Ok False"
proof -
  have "never_seen (acl_manager_new target cfg st)"
    using assms by (simp add: never_seen_def acl_manager_new_def)
  moreover have "never_seen (fold (manager_exec env) calls m)" if "never_seen m" for m
    using that by (induction calls arbitrary: m) (auto simp: exec_never_seen)
  ultimately have "access_blocked env (access_key p r op) (fold (manager_exec env) calls (acl_manager_new target cfg st))"
    using never_seen_blocked by blast
  then show ?thesis
    by (cases rule: evaluate_access_cases [where env = env and p = p and r = r and op = op and now = now and ts = ts and cx = cx
            and m = "fold (manager_exec env) calls (acl_manager_new target cfg st)"]) auto
qed

definition sample_versioned :: "string \<Rightarrow> effect \<Rightarrow> versioned_rule" where
  "sample_versioned i eff =
     \<lparr>vr_rule = sample_rule i ''bob'' eff, vr_version = 1, vr_timestamp = 0, vr_created_by = ''admin'',
      vr_change_description = [], vr_deleted = False\<rparr>"

theorem negative_cache_denies_everything_witness:
  "is_allowed (evaluate_rules (\<lambda>_. None) [sample_versioned ''r1'' Allow] ''bob'' ''orders'' OpRead None) \<and>
   fst (evaluate_access (sample_env (constant_store [sample_versioned ''r1'' Allow])) 2 2 ''bob'' ''orders'' PermRead None
          (fold (manager_exec (sample_env (constant_store [sample_versioned ''r1'' Allow])))
             [Access 1 1 ''bob'' ''orders'' PermRead None] (acl_manager_new 0 (sample_acl_config True) ()))) = Ok False"
  using negative_cache_denies_everything [of "sample_acl_config True" "sample_env (constant_store [sample_versioned ''r1'' Allow])" 2 2
      "''bob''" "''orders''" PermRead None "[Access 1 1 ''bob'' ''orders'' PermRead None]" 0 "()"]
  by (simp add: sample_acl_config_def sample_versioned_def sample_rule_def evaluate_rules_def from_rule_def compile_def
      regex_specials_def entry_matches_def applies_to_operation_def conditions_match_def is_allowed_def)

section \<open>Decisions from the stored rules\<close>

text \<open>What the manager relies on: the storage returns the rules that can concern a principal.\<close>

locale acl_source =
  fixes so :: "'s storage_ops" and rules :: "'s \<Rightarrow> string \<rightharpoonup> versioned_rule" and sinv :: "'s \<Rightarrow> bool"
  assumes for_principal: "sinv st \<Longrightarrow>
      \<exists>rs st'. so_rules_for_principal so now p st = (Ok rs, st') \<and> set rs = applicable (rules st) p \<and>
               rules st' = rules st \<and> sinv st'"

definition some_stored ::
  "effect \<Rightarrow> (string \<rightharpoonup> versioned_rule) \<Rightarrow> string \<Rightarrow> string \<Rightarrow> acl_operation \<Rightarrow> acl_context \<Rightarrow> bool" where
  "some_stored eff m p r op cx \<longleftrightarrow>
     (\<exists>i vr. m i = Some vr \<and> ar_effect (vr_rule vr) = eff \<and> rule_applies vr p r op cx)"

definition all_simple :: "(string \<rightharpoonup> versioned_rule) \<Rightarrow> bool" where
  "all_simple m \<longleftrightarrow> (\<forall>i vr. m i = Some vr \<longrightarrow> simple_rule (vr_rule vr))"

lemma some_rule_applicable:
  assumes "all_simple m" and "set rs = applicable m p"
  shows "some_rule eff rs p r op cx \<longleftrightarrow> some_stored eff m p r op cx"
proof
  assume "some_stored eff m p r op cx"
  then obtain i vr where vr: "m i = Some vr" "ar_effect (vr_rule vr) = eff" "rule_applies vr p r op cx"
    by (auto simp: some_stored_def)
  then have "edge_pattern (ar_principal (vr_rule vr))" "glob (ar_principal (vr_rule vr)) p" "\<not> vr_deleted vr"
    using assms(1) by (auto simp: all_simple_def simple_rule_def rule_applies_def)
  then have "vr \<in> applicable m p"
    using vr(1) wildcard_match_glob unfolding applicable_def by blast
  then show "some_rule eff rs p r op cx" using assms(2) vr by (auto simp: some_rule_def)
qed (use assms(2) in \<open>auto simp: some_rule_def some_stored_def applicable_def\<close>)

lemma evaluate_applicable:
  assumes "all_simple m" and "set rs = applicable m p"
  shows "is_allowed (evaluate_rules re rs p r op cx) \<longleftrightarrow>
         some_stored Allow m p r op cx \<and> \<not> some_stored Deny m p r op cx"
proof -
  have s: "list_all (\<lambda>vr. simple_rule (vr_rule vr)) rs"
    using assms by (auto simp: list_all_iff applicable_def all_simple_def)
  have "(find (\<lambda>vr. ar_effect (vr_rule vr) = Deny \<and> rule_applies vr p r op cx) rs = None) \<longleftrightarrow> \<not> some_rule Deny rs p r op cx"
    by (auto simp: find_None_iff some_rule_def)
  then show ?thesis
    unfolding evaluate_rules_spec [OF s] some_rule_applicable [OF assms, symmetric]
    by (auto simp: is_allowed_def split: option.splits)
qed

context acl_source
begin

lemma uncached_decision:
  assumes "me_store env = so" and "sinv (am_storage m)" and "all_simple (rules (am_storage m))"
    and "\<not> ac_negative_cache_enabled (am_config m)"
    and "check_l1_cache (access_key p r op) m = None" and "check_l2_cache env (access_key p r op) m = None"
  shows "fst (evaluate_access env now ts p r op cx m) =
         Ok (some_stored Allow (rules (am_storage m)) p r (operation_of op) cx \<and>
             \<not> some_stored Deny (rules (am_storage m)) p r (operation_of op) cx)"
proof -
  obtain rs st where q: "so_rules_for_principal so now p (am_storage m) = (Ok rs, st)"
    "set rs = applicable (rules (am_storage m)) p"
    using for_principal [OF assms(2)] by blast
  have nb: "\<not> access_blocked env (access_key p r op) m" using assms(4) by (simp add: access_blocked_def)
  show ?thesis
    using evaluate_applicable [OF assms(3) q(2)] nb assms(1,5,6) q(1)
    by (cases rule: evaluate_access_cases [where env = env and p = p and r = r and op = op and m = m and now = now and ts = ts and cx = cx])
       auto
qed

end

lemma object_source:
  assumes "acl_backend d contents plain tag_of tidy view cinv"
  shows "acl_source (object_acl_ops d) (acl_rules d contents plain) (acl_inv d contents plain tidy view cinv)"
proof
  fix st :: "('a, 'b) acl_storage" and now p
  assume inv: "acl_inv d contents plain tidy view cinv st"
  then have st: "store_ok d contents plain tidy view cinv st" "index_ok d (acl_rules d contents plain st) st"
    by (simp_all add: acl_inv_def)
  obtain rs st' where r: "same_rules st st'" "store_ok d contents plain tidy view cinv st'"
    "acl_rules_for_principal d now p st = (Ok rs, st')" "set rs = applicable (acl_rules d contents plain st) p"
    using acl_backend.rules_for_principal_spec [OF assms st, of now p] unfolding applicable_def by blast
  then show "\<exists>rs st'. so_rules_for_principal (object_acl_ops d) now p st = (Ok rs, st') \<and>
      set rs = applicable (acl_rules d contents plain st) p \<and>
      acl_rules d contents plain st' = acl_rules d contents plain st \<and> acl_inv d contents plain tidy view cinv st'"
    using acl_backend.inv_same [OF assms r(1) inv r(2)] acl_rules_same [OF r(1)] by (auto simp: object_acl_ops_def)
qed

interpretation local_source: acl_source "object_acl_ops (sample_deps crc hash)"
    "acl_rules (sample_deps crc hash) (\<lambda>fs :: local_fs. fs) plain_key"
    "acl_inv (sample_deps crc hash) (\<lambda>fs :: local_fs. fs) plain_key tidy_fs (lru_view hash) lru_wf"
  for crc hash
  by (rule object_source) (rule local_backend [OF sorted_readdir_ok sample_local_deps sample_libraries_ok])


lemma sample_state:
  "\<exists>st. acl_inv (sample_deps (\<lambda>_. 0) (\<lambda>_. 0)) (\<lambda>fs. fs) plain_key tidy_fs (lru_view (\<lambda>_. 0)) lru_wf st \<and>
        acl_rules (sample_deps (\<lambda>_. 0) (\<lambda>_. 0)) (\<lambda>fs. fs) plain_key st =
          [''r1'' \<mapsto> written (sample_rule [] ''team-*'' Allow) ''r1'' 1 7 ''admin'' ''new'']"
proof -
  let ?d = "sample_deps (\<lambda>_. 0) (\<lambda>_. 0)"
  let ?call = "CreateRule 1 7 ''r1'' (sample_rule [] ''team-*'' Allow) ''admin'' ''new'' :: lru_cache acl_call"
  have ok: "calls_ok ?d plain_key (\<lambda>c. lru_wf c \<and> lru_view (\<lambda>_. 0) c = Map.empty) [?call] (Map.empty, 0)"
    by (simp add: sample_rule_def new_id_def sample_id_ok)
  obtain st where "local_inv ?d (\<lambda>_. 0) st"
    "local_abs ?d st = fold spec_next [?call] (Map.empty, 0)"
    using local_run [OF sorted_readdir_ok sample_local_deps sample_libraries_ok ok, of 64] by (auto split: prod.splits)
  then show ?thesis by (auto simp: acl_abs_def new_id_def sample_rule_def Let_def)
qed


section \<open>Decisions from the caches\<close>

lemma check_l1_update: "check_l1_cache k (update_l1_cache env k e m) = Some e"
  by (simp add: check_l1_cache_def update_l1_cache_def Let_def update_conv')

lemma cached_decision:
  assumes "\<not> ac_negative_cache_enabled (am_config m)" and "check_l1_cache (access_key p r op) m = Some cached"
  shows "fst (evaluate_access env now ts p r op cx m) = Ok (evaluate_cached_entry cached p r (operation_of op) cx)"
proof -
  have nb: "\<not> access_blocked env (access_key p r op) m" using assms(1) by (simp add: access_blocked_def)
  show ?thesis
    using assms nb
    by (cases rule: evaluate_access_cases [where env = env and p = p and r = r and op = op and m = m and now = now and ts = ts and cx = cx])
       auto
qed

lemma audited_other [simp]:
  "am_config (audited b m) = am_config m" "check_l1_cache k (audited b m) = check_l1_cache k m"
  by (auto simp: audited_def check_l1_cache_def)

lemma cached_entry_simple:
  assumes "simple_rule (vr_rule vr)" and "\<not> vr_deleted vr"
  shows "evaluate_cached_entry (create_cached_entry re now vr) p r op cx \<longleftrightarrow>
         ar_effect (vr_rule vr) = Allow \<and> rule_applies vr p r op cx"
proof -
  obtain e where "from_rule re (vr_rule vr) = Some e" "ae_rule e = vr_rule vr"
    "\<And>p n op. entry_matches e p n op \<longleftrightarrow>
       glob (ar_principal (vr_rule vr)) p \<and> glob (rp_pattern (ar_resource (vr_rule vr))) n \<and> op \<in> set (ar_operations (vr_rule vr))"
    using from_rule_simple [OF assms(1), of re] by blast
  then show ?thesis
    using assms(2) by (auto simp: create_cached_entry_def evaluate_cached_entry_def Let_def rule_applies_def conditions_match_all)
qed

text \<open>After a miss, the next answer for the same key is that of the first rule of the list alone.\<close>

lemma second_decision:
  fixes m :: "'s acl_manager"
  assumes "\<not> ac_negative_cache_enabled (am_config m)"
    and "check_l1_cache (access_key p r op) m = None" and "check_l2_cache env (access_key p r op) m = None"
    and "so_rules_for_principal (me_store env) now p (am_storage m) = (Ok (vr # rs), st)"
  shows "fst (evaluate_access env now ts p r op cx m) = Ok (is_allowed (evaluate_rules (me_regex env) (vr # rs) p r (operation_of op) cx))"
    and "fst (evaluate_access env now' ts' p r op cx' (snd (evaluate_access env now ts p r op cx m))) =
         Ok (evaluate_cached_entry (create_cached_entry (me_regex env) now vr) p r (operation_of op) cx')"
    and "check_l1_cache (access_key p r op) (snd (evaluate_access env now ts p r op cx m)) = Some (create_cached_entry (me_regex env) now vr)"
    and "am_config (snd (evaluate_access env now ts p r op cx m)) = am_config m"
proof -
  have nb: "\<not> access_blocked env (access_key p r op) m" using assms(1) by (simp add: access_blocked_def)
  obtain s b where e: "evaluate_access env now ts p r op cx m =
      (Ok (is_allowed (evaluate_rules (me_regex env) (vr # rs) p r (operation_of op) cx)),
       audited b (remember env now (access_key p r op) (vr # rs) (m\<lparr>am_cache_stats := s, am_storage := st\<rparr>)))"
    using assms(2-4) nb
    by (cases rule: evaluate_access_cases [where env = env and p = p and r = r and op = op and m = m and now = now and ts = ts and cx = cx])
       auto
  then show "fst (evaluate_access env now ts p r op cx m) = Ok (is_allowed (evaluate_rules (me_regex env) (vr # rs) p r (operation_of op) cx))"
    by simp
  show l: "check_l1_cache (access_key p r op) (snd (evaluate_access env now ts p r op cx m)) =
      Some (create_cached_entry (me_regex env) now vr)"
    unfolding e by (simp add: remember_def Let_def check_l1_update)
  show "am_config (snd (evaluate_access env now ts p r op cx m)) = am_config m" unfolding e by simp
  show "fst (evaluate_access env now' ts' p r op cx' (snd (evaluate_access env now ts p r op cx m))) =
         Ok (evaluate_cached_entry (create_cached_entry (me_regex env) now vr) p r (operation_of op) cx')"
    by (rule cached_decision [OF _ l]) (use assms(1) e in simp)
qed



text \<open>The key under which rule changes are invalidated is the key of no decision.\<close>

lemma invalidated_key_unused: "q @ '':*'' \<noteq> access_key p r op"
proof
  assume "q @ '':*'' = access_key p r op"
  then have "last (q @ '':*'') = last (access_key p r op)" by simp
  then show False by (cases op) (simp_all add: access_key_def permission_text_def)
qed

lemma fold_shards_l1 [simp]:
  "am_l1_cache (fold (\<lambda>key m. m\<lparr>am_l2_cache_shards := f key m\<rparr>) keys m) = am_l1_cache m"
  by (induction keys arbitrary: m) auto

lemma invalidate_keeps:
  assumes "k \<notin> set keys"
  shows "check_l1_cache k (invalidate_cache env keys m) = check_l1_cache k m"
proof -
  have "map_of (fold AList.delete keys t) k = map_of t k" for t :: decision_cache
    using assms by (induction keys arbitrary: t) (auto simp: delete_conv')
  then show ?thesis by (simp add: check_l1_cache_def invalidate_cache_def Let_def)
qed

definition is_rule_change :: "'s manager_call \<Rightarrow> bool" where
  "is_rule_change call =
     (case call of Create_rule _ _ _ \<Rightarrow> True | Update_rule _ _ _ _ _ \<Rightarrow> True | Delete_rule _ _ _ _ \<Rightarrow> True | _ \<Rightarrow> False)"

text \<open>
  Deleting or replacing a rule does not revoke the decisions cached from it: with negative caching
  off, a request that is answered from the first-level cache gets the same answer after the rule operations of
  the manager as before, whatever the rules then are.
\<close>

theorem rule_changes_keep_cached_decisions:
  assumes "\<not> ac_negative_cache_enabled (am_config m)" and "check_l1_cache (access_key p r op) m = Some cached"
    and "list_all is_rule_change calls"
  shows "fst (evaluate_access env now ts p r op cx (fold (manager_exec env) calls m)) =
         fst (evaluate_access env now' ts' p r op cx m)"
proof -
  have one: "check_l1_cache (access_key p r op) (manager_exec env call m) = check_l1_cache (access_key p r op) m"
    if "is_rule_change call" for call m
  proof -
    have keys: "access_key p r op \<notin> set [q @ '':*'']" "access_key p r op \<notin> set [q @ '':*'', q' @ '':*'']"
      for q q' using invalidated_key_unused [of q p r op] invalidated_key_unused [of q' p r op] by auto
    have st: "check_l1_cache k (m\<lparr>am_storage := st\<rparr>) = check_l1_cache k m" for k st by (simp add: check_l1_cache_def)
    show ?thesis
      using that
      by (cases call)
         (auto simp: manager_create_rule_def manager_update_rule_def manager_delete_rule_def Let_def
            invalidate_keeps [OF keys(1)] invalidate_keeps [OF keys(2)] st is_rule_change_def
            split: sum.splits prod.splits option.splits)
  qed
  have "check_l1_cache (access_key p r op) (fold (manager_exec env) calls m) = Some cached"
    using assms(2,3) by (induction calls arbitrary: m) (auto simp: one)
  moreover have "am_config (fold (manager_exec env) calls m) = am_config m"
    by (induction calls arbitrary: m) auto
  ultimately show ?thesis using assms(1,2) by (simp add: cached_decision)
qed

theorem rule_changes_keep_cached_decisions_witness:
  "let m = snd (evaluate_access (sample_env (constant_store [sample_versioned ''r1'' Allow])) 1 1 ''bob'' ''orders'' PermRead None
                  (acl_manager_new 0 (sample_acl_config False) ()))
   in fst (evaluate_access (sample_env (constant_store [])) 3 3 ''bob'' ''orders'' PermRead None
             (fold (manager_exec (sample_env (constant_store []))) [Delete_rule 2 ''r1'' (Ok (Success ''op'' (Some ''r1'') 2)) ()] m)) =
      Ok True"
proof -
  let ?env = "sample_env (constant_store [sample_versioned ''r1'' Allow])" and ?start = "acl_manager_new 0 (sample_acl_config False) ()"
  let ?m = "snd (evaluate_access ?env 1 1 ''bob'' ''orders'' PermRead None ?start)"
  let ?cached = "create_cached_entry (\<lambda>_. None) 1 (sample_versioned ''r1'' Allow)"
  let ?calls = "[Delete_rule 2 ''r1'' (Ok (Success ''op'' (Some ''r1'') 2)) ()]"
  have start: "\<not> ac_negative_cache_enabled (am_config ?start)" "check_l1_cache k ?start = None" "check_l2_cache ?env k ?start = None" for k
    by (simp_all add: acl_manager_new_def sample_acl_config_def check_l1_cache_def check_l2_cache_def get_shard_index_def
        effective_l2_shard_count_def)
  have q: "so_rules_for_principal (me_store ?env) 1 ''bob'' (am_storage ?start) = (Ok [sample_versioned ''r1'' Allow], ())"
    by (simp add: sample_env_def constant_store_def)
  note sd = second_decision(3,4) [where r = "''orders''" and op = PermRead and ts = 1 and cx = None, OF start q]
  have m: "\<not> ac_negative_cache_enabled (am_config ?m)" "check_l1_cache (access_key ''bob'' ''orders'' PermRead) ?m = Some ?cached"
    using sd start(1) by (simp_all add: sample_env_def)
  have "evaluate_cached_entry ?cached ''bob'' ''orders'' (operation_of PermRead) None"
    by (subst cached_entry_simple)
       (simp_all add: simple_rule_def sample_versioned_def sample_rule_def edge_pattern_def plain_pattern_def regex_specials_def
          rule_applies_def operation_of_def)
  then have "fst (evaluate_access ?env 2 2 ''bob'' ''orders'' PermRead None ?m) = Ok True"
    using cached_decision [OF m] by simp
  then show ?thesis
    using rule_changes_keep_cached_decisions [OF m, of ?calls "sample_env (constant_store [])" 3 3 None 2 2] cached_decision [OF m]
    by (simp add: Let_def is_rule_change_def)
qed

end
