(* ===== verification/Acl_Replicas.thy ===== *)
theory Acl_Replicas
  imports Acl_Manager
begin

text \<open>
  Replicated ACL state: every controller applies the operations of the Raft log to its own storage
  (\<open>apply_operation\<close> of \<open>security/acl/raft.rs\<close>), with its own clock and its own random ids. The
  refinement of \<open>Acl_Storage\<close> turns the states of two replicas into states of the abstract map, where
  they can be compared.
\<close>

section \<open>A replica\<close>

text \<open>The readings a replica takes for one log entry: cache clock, wall clock, and pairs of random ids.\<close>

type_synonym tick = "nat \<times> nat \<times> (nat \<Rightarrow> string \<times> string)"

fun replica_run ::
  "(rustmq_error \<Rightarrow> string) \<Rightarrow> 's storage_ops \<Rightarrow> (nat \<Rightarrow> tick) \<Rightarrow> acl_raft_operation list \<Rightarrow> 's \<Rightarrow> 's" where
  "replica_run err_text so ticks [] st = st"
| "replica_run err_text so ticks (op # ops) st =
     (let (now, ts, ids) = ticks 0 in
      replica_run err_text so (\<lambda>n. ticks (Suc n)) ops (snd (apply_operation err_text so now ts ids op st)))"

section \<open>Log entries as storage calls\<close>

text \<open>A batch inside a batch is refused; it stands for a call without effect.\<close>

fun call_of :: "nat \<Rightarrow> nat \<Rightarrow> string \<Rightarrow> acl_raft_operation \<Rightarrow> 'c acl_call" where
  "call_of now ts uuid (CreateRuleOp rule who desc) = CreateRule now ts uuid rule who desc"
| "call_of now ts uuid (UpdateRuleOp i rule who desc) = UpdateRule now ts i rule who desc"
| "call_of now ts uuid (DeleteRuleOp i who desc) = DeleteRule now ts i who desc"
| "call_of now ts uuid (BatchOperation ops i desc) = GetVersion"

fun batch_calls :: "nat \<Rightarrow> nat \<Rightarrow> (nat \<Rightarrow> string \<times> string) \<Rightarrow> acl_raft_operation list \<Rightarrow> 'c acl_call list" where
  "batch_calls now ts ids [] = []"
| "batch_calls now ts ids (op # ops) = call_of now ts (snd (ids 0)) op # batch_calls now ts (\<lambda>n. ids (Suc n)) ops"

definition members :: "acl_raft_operation \<Rightarrow> acl_raft_operation list" where
  "members op = (case op of BatchOperation ops _ _ \<Rightarrow> ops | _ \<Rightarrow> [op])"

fun log_calls :: "(nat \<Rightarrow> tick) \<Rightarrow> acl_raft_operation list \<Rightarrow> 'c acl_call list" where
  "log_calls ticks [] = []"
| "log_calls ticks (op # ops) =
     (let (now, ts, ids) = ticks 0 in batch_calls now ts ids (members op) @ log_calls (\<lambda>n. ticks (Suc n)) ops)"

lemma apply_single_call:
  "\<exists>r. apply_single err_text (object_acl_ops d) now ts i op st = (Ok r, snd (acl_exec d (call_of now ts (snd i) op) st))"
  by (cases op; cases i)
     (auto simp: storage_outcome_def object_acl_ops_def apfst_def map_prod_def split: prod.splits sum.splits)

lemma apply_batch_calls:
  "\<exists>rs. apply_batch err_text (object_acl_ops d) now ts ids ops st = (Ok rs, snd (acl_run d (batch_calls now ts ids ops) st))"
proof (induction ops arbitrary: ids st)
  case (Cons op ops)
  obtain reply s1 where e: "acl_exec d (call_of now ts (snd (ids 0)) op) st = (reply, s1)" by force
  obtain r where r: "apply_single err_text (object_acl_ops d) now ts (ids 0) op st = (Ok r, s1)"
    using apply_single_call [of err_text d now ts "ids 0" op st] e by auto
  obtain rs where rs: "apply_batch err_text (object_acl_ops d) now ts (\<lambda>n. ids (Suc n)) ops s1 =
      (Ok rs, snd (acl_run d (batch_calls now ts (\<lambda>n. ids (Suc n)) ops) s1))"
    using Cons.IH by blast
  show ?case by (simp add: r rs e split: prod.splits)
qed simp

lemma acl_run_snd: "snd (acl_run d (c # cs) st) = snd (acl_run d cs (snd (acl_exec d c st)))"
  by (simp split: prod.splits)

lemma apply_operation_calls:
  "snd (apply_operation err_text (object_acl_ops d) now ts ids op st) = snd (acl_run d (batch_calls now ts ids (members op)) st)"
proof (cases op)
  case (BatchOperation ops i desc)
  then show ?thesis
    using apply_batch_calls [of err_text d now ts ids ops st] by (auto simp: members_def)
qed (use apply_single_call [of err_text d now ts "ids 0" op st] in \<open>auto simp: members_def acl_run_snd simp del: acl_run.simps(2) acl_exec.simps\<close>)

lemma acl_run_append: "snd (acl_run d (xs @ ys) st) = snd (acl_run d ys (snd (acl_run d xs st)))"
  by (induction xs arbitrary: st) (auto simp: acl_run_snd simp del: acl_run.simps(2))

lemma replica_run_calls: "replica_run err_text (object_acl_ops d) ticks ops st = snd (acl_run d (log_calls ticks ops) st)"
  by (induction ops arbitrary: ticks st) (auto simp: apply_operation_calls acl_run_append split: prod.splits)

section \<open>Agreement\<close>

definition untimed :: "versioned_rule \<Rightarrow> versioned_rule" where
  "untimed r = r\<lparr>vr_timestamp := 0\<rparr>"

definition agree :: "acl_model \<Rightarrow> acl_model \<Rightarrow> bool" where
  "agree mv mv' \<longleftrightarrow> snd mv = snd mv' \<and> (\<forall>i. map_option untimed (fst mv i) = map_option untimed (fst mv' i))"

text \<open>The operations whose effect does not depend on a random id: every created rule has its own.\<close>

definition explicit_id :: "acl_raft_operation \<Rightarrow> bool" where
  "explicit_id op = (case op of CreateRuleOp rule _ _ \<Rightarrow> ar_id rule \<noteq> [] | _ \<Rightarrow> True)"

lemma agreeD:
  assumes "agree (m, v) (m', v')"
  shows "v' = v" and "m i = None \<longleftrightarrow> m' i = None"
    and "m i = Some r \<Longrightarrow> m' i = Some r' \<Longrightarrow> untimed r = untimed r'"
    and "map_option untimed (m i) = map_option untimed (m' i)"
proof -
  have i: "map_option untimed (m i) = map_option untimed (m' i)" using assms by (simp add: agree_def)
  show "v' = v" using assms by (simp add: agree_def)
  show "map_option untimed (m i) = map_option untimed (m' i)" by (rule i)
  show "m i = None \<longleftrightarrow> m' i = None" using i by (cases "m i"; cases "m' i") auto
  show "m i = Some r \<Longrightarrow> m' i = Some r' \<Longrightarrow> untimed r = untimed r'" using i by simp
qed

lemma agree_write:
  "agree (m, v) (m', v) \<Longrightarrow> untimed r = untimed r' \<Longrightarrow> agree (m(i \<mapsto> r), w) (m'(i \<mapsto> r'), w)"
  by (simp add: agree_def)

lemma untimed_written: "untimed (written rule i v ts who desc) = untimed (written rule i v ts' who desc)"
  by (simp add: untimed_def written_def)

lemma untimed_fields:
  assumes "untimed r = untimed r'"
  shows "vr_deleted r = vr_deleted r'" and "vr_rule r = vr_rule r'"
    and "untimed (r\<lparr>vr_deleted := b, vr_version := v, vr_timestamp := ts, vr_created_by := w, vr_change_description := s\<rparr>) =
         untimed (r'\<lparr>vr_deleted := b, vr_version := v, vr_timestamp := ts', vr_created_by := w, vr_change_description := s\<rparr>)"
  using assms by (cases r; cases r'; simp add: untimed_def)+

lemma spec_next_agree:
  assumes a: "agree (m, v) (m', v')" and op: "explicit_id op"
  shows "agree (spec_next (call_of now ts uuid op :: 'c acl_call) (m, v)) (spec_next (call_of now' ts' uuid' op :: 'e acl_call) (m', v'))"
proof (cases op)
  case (CreateRuleOp rule who desc)
  then have "new_id uuid rule = ar_id rule" "new_id uuid' rule = ar_id rule" using op by (simp_all add: explicit_id_def new_id_def)
  then show ?thesis
    using CreateRuleOp a agreeD(1,2) [OF a] agree_write [OF _ untimed_written] by (auto simp: Let_def)
next
  case (UpdateRuleOp i rule who desc)
  then show ?thesis using a agreeD(1,2) [OF a] agree_write [OF _ untimed_written] by auto
next
  case (DeleteRuleOp i who desc)
  show ?thesis
  proof (cases "m i")
    case None
    then show ?thesis using DeleteRuleOp a agreeD(2) [OF a, of i] by simp
  next
    case (Some r)
    then obtain r' where r': "m' i = Some r'" using agreeD(2) [OF a, of i] by auto
    note u = untimed_fields(3) [OF agreeD(3) [OF a Some r']]
    show ?thesis using DeleteRuleOp Some r' a agreeD(1) [OF a] agree_write [OF _ u] by auto
  qed
qed (use a in simp)

lemma call_ok_agree:
  assumes a: "agree (m, v) (m', v')" and op: "explicit_id op" and p: "ad_key_prefix d' = ad_key_prefix d"
    and c: "call_ok d plain fresh (call_of now ts uuid op :: 'c acl_call) (m, v)"
  shows "call_ok d' plain fresh' (call_of now' ts' uuid' op :: 'e acl_call) (m', v')"
proof -
  have i: "rule_id_ok d' plain j = rule_id_ok d plain j" for j
    using p by (simp add: rule_id_ok_def get_rule_object_key_def)
  show ?thesis
  proof (cases op)
    case (UpdateRuleOp j rule who desc)
    show ?thesis
    proof (cases "m j")
      case None
      then show ?thesis using UpdateRuleOp c i agreeD(2) [OF a, of j] by simp
    next
      case (Some r)
      then obtain r' where r': "m' j = Some r'" using agreeD(2) [OF a, of j] by auto
      show ?thesis using UpdateRuleOp c i Some r' untimed_fields(1,2) [OF agreeD(3) [OF a Some r']] by simp
    qed
  qed (use c op i in \<open>auto simp: explicit_id_def new_id_def\<close>)
qed

lemma batch_agree:
  assumes "agree mv mv'" and "list_all explicit_id ops" and p: "ad_key_prefix d' = ad_key_prefix d"
    and "calls_ok d plain fresh (batch_calls now ts ids ops :: 'c acl_call list) mv"
  shows "agree (fold spec_next (batch_calls now ts ids ops :: 'c acl_call list) mv)
               (fold spec_next (batch_calls now' ts' ids' ops :: 'e acl_call list) mv') \<and>
         calls_ok d' plain fresh' (batch_calls now' ts' ids' ops :: 'e acl_call list) mv'"
  using assms(1,2,4)
proof (induction ops arbitrary: mv mv' ids ids')
  case (Cons op ops)
  let ?c = "call_of now ts (snd (ids 0)) op :: 'c acl_call" and ?e = "call_of now' ts' (snd (ids' 0)) op :: 'e acl_call"
  have a: "agree (fst mv, snd mv) (fst mv', snd mv')" using Cons.prems(1) by simp
  have "agree (spec_next ?c mv) (spec_next ?e mv')"
    using spec_next_agree [OF a, of op now ts "snd (ids 0)" now' ts' "snd (ids' 0)"] Cons.prems(2) by simp
  moreover have "call_ok d' plain fresh' ?e mv'"
    using call_ok_agree [OF a _ p, of op plain fresh now ts "snd (ids 0)" fresh' now' ts' "snd (ids' 0)"] Cons.prems(2,3) by simp
  ultimately show ?case
    using Cons.IH [of "spec_next ?c mv" "spec_next ?e mv'" "\<lambda>n. ids (Suc n)" "\<lambda>n. ids' (Suc n)"] Cons.prems(2,3) by simp
qed simp

lemma calls_ok_append:
  "calls_ok d plain fresh (xs @ ys) mv \<longleftrightarrow> calls_ok d plain fresh xs mv \<and> calls_ok d plain fresh ys (fold spec_next xs mv)"
  by (induction xs arbitrary: mv) auto

lemma log_agree:
  assumes "agree mv mv'" and "list_all (\<lambda>op. list_all explicit_id (members op)) ops" and p: "ad_key_prefix d' = ad_key_prefix d"
    and "calls_ok d plain fresh (log_calls ticks ops :: 'c acl_call list) mv"
  shows "agree (fold spec_next (log_calls ticks ops :: 'c acl_call list) mv)
               (fold spec_next (log_calls ticks' ops :: 'e acl_call list) mv') \<and>
         calls_ok d' plain fresh' (log_calls ticks' ops :: 'e acl_call list) mv'"
  using assms(1,2,4)
proof (induction ops arbitrary: mv mv' ticks ticks')
  case (Cons op ops)
  obtain now ts ids where t: "ticks 0 = (now, ts, ids)" by (metis prod_cases3)
  obtain now' ts' ids' where t': "ticks' 0 = (now', ts', ids')" by (metis prod_cases3)
  let ?b = "batch_calls now ts ids (members op) :: 'c acl_call list" and ?b' = "batch_calls now' ts' ids' (members op) :: 'e acl_call list"
  have ok: "calls_ok d plain fresh ?b mv"
    "calls_ok d plain fresh (log_calls (\<lambda>n. ticks (Suc n)) ops :: 'c acl_call list) (fold spec_next ?b mv)"
    using Cons.prems(3) t by (simp_all add: calls_ok_append)
  have b: "agree (fold spec_next ?b mv) (fold spec_next ?b' mv')" "calls_ok d' plain fresh' ?b' mv'"
    using batch_agree [OF Cons.prems(1) _ p ok(1), where now' = now' and ts' = ts' and ids' = ids'] Cons.prems(2) by auto
  show ?case
    using Cons.IH [OF b(1) _ ok(2), of "\<lambda>n. ticks' (Suc n)"] Cons.prems(2) b(2) t t' by (simp add: calls_ok_append)
qed simp


definition sample_acl_log :: "acl_raft_operation list" where
  "sample_acl_log =
     [CreateRuleOp (sample_rule ''r1'' ''team-*'' Allow) ''admin'' ''new'',
      BatchOperation [CreateRuleOp (sample_rule ''r2'' ''bob'' Deny) ''admin'' ''new'',
                      DeleteRuleOp ''r1'' ''admin'' ''old''] ''b1'' ''batch'']"


text \<open>
  A rule without an id gets one at random when the entry is applied, so each replica stores it
  under its own.
\<close>

lemma generated_ids_diverge:
  assumes "u1 \<noteq> u2" and "ar_id rule = []"
  shows "\<not> agree (spec_next (call_of now ts u1 (CreateRuleOp rule who desc) :: 'c acl_call) (Map.empty, 0))
                 (spec_next (call_of now' ts' u2 (CreateRuleOp rule who desc) :: 'e acl_call) (Map.empty, 0))"
  using assms by (auto simp: agree_def new_id_def Let_def)

end
