(* ===== verification/Rate_Config.thy ===== *)
theory Rate_Config
  imports RMQ_Types
begin

text \<open>
  The configuration of the admin rate limiter, \<open>src/config/rate_limiting.rs\<close>: its records,
  their defaults and their validation. Rates and capacities (\<open>u32\<close>) and times in seconds
  (\<open>u64\<close>) are only compared here, so they are \<open>nat\<close>.
\<close>

section \<open>Configuration records\<close>

record global_rate_limits =
  gl_requests_per_second :: nat
  gl_burst_capacity :: nat
  gl_window_size_secs :: nat

record per_ip_rate_limits =
  ip_enabled :: bool
  ip_requests_per_second :: nat
  ip_burst_capacity :: nat
  ip_window_size_secs :: nat
  ip_max_tracked_ips :: nat
  ip_expiry_secs :: nat

record endpoint_category_limits =
  cl_enabled :: bool
  cl_requests_per_second :: nat
  cl_burst_capacity :: nat
  cl_window_size_secs :: nat
  cl_endpoint_patterns :: "string list"

record endpoint_rate_limits =
  er_health :: endpoint_category_limits
  er_read_operations :: endpoint_category_limits
  er_write_operations :: endpoint_category_limits
  er_cluster_operations :: endpoint_category_limits

record rate_limit_cleanup_config =
  rc_enabled :: bool
  rc_cleanup_interval_secs :: nat
  rc_max_age_secs :: nat
  rc_max_cleanup_per_run :: nat

record rate_limit_config =
  rl_enabled :: bool
  rl_global :: global_rate_limits
  rl_per_ip :: per_ip_rate_limits
  rl_endpoints :: endpoint_rate_limits
  rl_cleanup :: rate_limit_cleanup_config

section \<open>Defaults\<close>

definition default_global_limits :: global_rate_limits where
  "default_global_limits =
     \<lparr>gl_requests_per_second = 1000, gl_burst_capacity = 2000, gl_window_size_secs = 60\<rparr>"

definition default_per_ip_limits :: per_ip_rate_limits where
  "default_per_ip_limits =
     \<lparr>ip_enabled = True, ip_requests_per_second = 50, ip_burst_capacity = 100,
      ip_window_size_secs = 60, ip_max_tracked_ips = 10000, ip_expiry_secs = 3600\<rparr>"

definition default_endpoint_limits :: endpoint_rate_limits where
  "default_endpoint_limits =
     \<lparr>er_health = \<lparr>cl_enabled = True, cl_requests_per_second = 100, cl_burst_capacity = 200,
        cl_window_size_secs = 60, cl_endpoint_patterns = [''/health'', ''/api/v1/health'']\<rparr>,
      er_read_operations = \<lparr>cl_enabled = True, cl_requests_per_second = 30, cl_burst_capacity = 60,
        cl_window_size_secs = 60,
        cl_endpoint_patterns = [''/api/v1/cluster'', ''/api/v1/topics'', ''/api/v1/topics/*'',
          ''/api/v1/brokers'']\<rparr>,
      er_write_operations = \<lparr>cl_enabled = True, cl_requests_per_second = 10, cl_burst_capacity = 20,
        cl_window_size_secs = 60,
        cl_endpoint_patterns = [''POST:/api/v1/topics'', ''DELETE:/api/v1/topics/*'']\<rparr>,
      er_cluster_operations = \<lparr>cl_enabled = True, cl_requests_per_second = 5, cl_burst_capacity = 10,
        cl_window_size_secs = 60,
        cl_endpoint_patterns = [''/api/v1/cluster/rebalance'', ''/api/v1/cluster/scale'',
          ''/api/v1/brokers/*/decommission'']\<rparr>\<rparr>"

definition default_rate_cleanup :: rate_limit_cleanup_config where
  "default_rate_cleanup =
     \<lparr>rc_enabled = True, rc_cleanup_interval_secs = 300, rc_max_age_secs = 3600,
      rc_max_cleanup_per_run = 1000\<rparr>"

definition default_rate_limits :: rate_limit_config where
  "default_rate_limits =
     \<lparr>rl_enabled = True, rl_global = default_global_limits, rl_per_ip = default_per_ip_limits,
      rl_endpoints = default_endpoint_limits, rl_cleanup = default_rate_cleanup\<rparr>"

lemmas rate_defaults = default_global_limits_def default_per_ip_limits_def
  default_endpoint_limits_def default_rate_cleanup_def default_rate_limits_def

section \<open>Validation\<close>

text \<open>A sequence of guarded early returns: the first condition that holds gives its error.\<close>

fun first_error :: "(bool \<times> string) list \<Rightarrow> unit result" where
  "first_error [] = Ok ()"
| "first_error ((bad, msg) # rest) = (if bad then Err (InvalidConfig msg) else first_error rest)"

lemma first_error_Ok: "first_error checks = Ok () \<longleftrightarrow> (\<forall>(bad, msg) \<in> set checks. \<not> bad)"
  by (induction checks rule: first_error.induct) auto

text \<open>The operator \<open>?\<close> on two results without a value.\<close>

definition and_then :: "unit result \<Rightarrow> unit result \<Rightarrow> unit result" where
  "and_then a b = (case a of Inl e \<Rightarrow> Err e | Inr u \<Rightarrow> b)"

lemma and_then_Ok [simp]: "and_then a b = Ok () \<longleftrightarrow> a = Ok () \<and> b = Ok ()"
  by (auto simp: and_then_def split: sum.splits)

definition validate_global :: "global_rate_limits \<Rightarrow> unit result" where
  "validate_global self = first_error
     [(gl_requests_per_second self = 0,
        ''rate_limiting.global.requests_per_second must be greater than 0''),
      (gl_burst_capacity self = 0,
        ''rate_limiting.global.burst_capacity must be greater than 0''),
      (gl_burst_capacity self < gl_requests_per_second self,
        ''rate_limiting.global.burst_capacity must be >= requests_per_second''),
      (gl_window_size_secs self = 0,
        ''rate_limiting.global.window_size_secs must be greater than 0''),
      (gl_requests_per_second self > 1000000,
        ''rate_limiting.global.requests_per_second exceeds reasonable limit (1M RPS)'')]"

definition validate_per_ip :: "per_ip_rate_limits \<Rightarrow> unit result" where
  "validate_per_ip self =
     (if ip_enabled self then first_error
       [(ip_requests_per_second self = 0,
          ''rate_limiting.per_ip.requests_per_second must be greater than 0''),
        (ip_burst_capacity self = 0,
          ''rate_limiting.per_ip.burst_capacity must be greater than 0''),
        (ip_burst_capacity self < ip_requests_per_second self,
          ''rate_limiting.per_ip.burst_capacity must be >= requests_per_second''),
        (ip_window_size_secs self = 0,
          ''rate_limiting.per_ip.window_size_secs must be greater than 0''),
        (ip_max_tracked_ips self = 0,
          ''rate_limiting.per_ip.max_tracked_ips must be greater than 0''),
        (ip_expiry_secs self = 0,
          ''rate_limiting.per_ip.ip_expiry_secs must be greater than 0''),
        (ip_max_tracked_ips self > 1000000,
          ''rate_limiting.per_ip.max_tracked_ips exceeds reasonable limit (1M IPs)'')]
      else Ok ())"

text \<open>\<open>str::trim\<close> then \<open>is_empty\<close>: the string has white space only.\<close>

definition is_white :: "char \<Rightarrow> bool" where
  "is_white c \<longleftrightarrow> (of_char c :: nat) \<in> {9, 10, 11, 12, 13, 32}"

definition validate_category :: "endpoint_category_limits \<Rightarrow> string \<Rightarrow> unit result" where
  "validate_category self category_name =
     (let field = (\<lambda>t. ''rate_limiting.endpoints.'' @ category_name @ t) in
      if cl_enabled self then first_error
       [(cl_requests_per_second self = 0, field ''.requests_per_second must be greater than 0''),
        (cl_burst_capacity self = 0, field ''.burst_capacity must be greater than 0''),
        (cl_burst_capacity self < cl_requests_per_second self,
          field ''.burst_capacity must be >= requests_per_second''),
        (cl_window_size_secs self = 0, field ''.window_size_secs must be greater than 0''),
        (cl_endpoint_patterns self = [], field ''.endpoint_patterns cannot be empty when enabled''),
        (\<exists>p \<in> set (cl_endpoint_patterns self). \<forall>c \<in> set p. is_white c,
          field ''.endpoint_patterns contains empty pattern'')]
      else Ok ())"

definition validate_endpoints :: "endpoint_rate_limits \<Rightarrow> unit result" where
  "validate_endpoints self =
     and_then (validate_category (er_health self) ''health'')
       (and_then (validate_category (er_read_operations self) ''read_operations'')
         (and_then (validate_category (er_write_operations self) ''write_operations'')
           (validate_category (er_cluster_operations self) ''cluster_operations'')))"

definition validate_rate_cleanup :: "rate_limit_cleanup_config \<Rightarrow> unit result" where
  "validate_rate_cleanup self =
     (if rc_enabled self then first_error
       [(rc_cleanup_interval_secs self = 0,
          ''rate_limiting.cleanup.cleanup_interval_secs must be greater than 0''),
        (rc_max_age_secs self = 0,
          ''rate_limiting.cleanup.max_age_secs must be greater than 0''),
        (rc_max_cleanup_per_run self = 0,
          ''rate_limiting.cleanup.max_cleanup_per_run must be greater than 0''),
        (rc_cleanup_interval_secs self < 10,
          ''rate_limiting.cleanup.cleanup_interval_secs should be at least 10 seconds''),
        (rc_max_cleanup_per_run self > 100000,
          ''rate_limiting.cleanup.max_cleanup_per_run exceeds reasonable limit (100K)'')]
      else Ok ())"

definition validate_rate_limits :: "rate_limit_config \<Rightarrow> unit result" where
  "validate_rate_limits self =
     and_then (validate_global (rl_global self))
       (and_then (validate_per_ip (rl_per_ip self))
         (and_then (validate_endpoints (rl_endpoints self))
           (validate_rate_cleanup (rl_cleanup self))))"

section \<open>What validation ensures\<close>

lemma validate_global_Ok:
  "validate_global g = Ok () \<Longrightarrow> 0 < gl_requests_per_second g \<and> 0 < gl_burst_capacity g"
  by (simp add: validate_global_def split: if_splits)

lemma validate_per_ip_Ok:
  "validate_per_ip p = Ok () \<Longrightarrow> ip_enabled p \<Longrightarrow>
   0 < ip_requests_per_second p \<and> 0 < ip_burst_capacity p"
  by (simp add: validate_per_ip_def split: if_splits)

lemma validate_category_Ok:
  "validate_category k n = Ok () \<Longrightarrow> cl_enabled k \<Longrightarrow>
   0 < cl_requests_per_second k \<and> 0 < cl_burst_capacity k"
  by (simp add: validate_category_def Let_def split: if_splits)

lemma default_rate_limits_valid: "validate_rate_limits default_rate_limits = Ok ()"
  by (simp add: validate_rate_limits_def validate_global_def validate_per_ip_def
      validate_endpoints_def validate_category_def validate_rate_cleanup_def rate_defaults
      Let_def is_white_def)

end
