(* ===== verification/Rate_Limiter.thy ===== *)
theory Rate_Limiter
  imports Rate_Config "HOL-Library.Sublist"
begin

text \<open>
  The rate limiter of the admin API, \<open>src/admin/rate_limiter.rs\<close>: the global, per-address and
  per-category limiters, the cleanup of limiters that were not used for a while, the
  classification of endpoints, the client address taken from the request, and the reply to a
  limited request.

  A single limiter is the third-party crate \<open>governor\<close>: a parameter with a constructor (rate,
  burst and creation time) and a check (time and state to a verdict and a new state). What the
  limiter relies on is \<open>quota_respected\<close>, the crate's promise on one limiter. Parsing an address
  is a parameter too. Times are nanoseconds of the monotonic clock; the readings a request takes
  while it passes the limiters are one instant. The order in which the concurrent map is
  traversed by a cleanup is an argument.
\<close>

section \<open>State\<close>

datatype ip_addr = V4 "32 word" | V6 "128 word"

datatype endpoint_category = Health | ReadOperations | WriteOperations | ClusterOperations

record 'l governor =
  gov_direct :: "nat \<Rightarrow> nat \<Rightarrow> nat \<Rightarrow> 'l"
  gov_check :: "nat \<Rightarrow> 'l \<Rightarrow> bool \<times> 'l"

record 'l ip_rate_limiter =
  il_limiter :: 'l
  il_last_access :: nat
  il_request_count :: nat

record 'l rate_limiter_manager =
  rm_config :: rate_limit_config
  rm_global_limiter :: "'l option"
  rm_ip_limiters :: "(ip_addr \<times> 'l ip_rate_limiter) list"
  rm_category_limiters :: "(endpoint_category \<times> 'l) list"
  rm_last_cleanup :: nat
  rm_cleanup_running :: bool

record rate_limit_error =
  re_error :: string
  re_retry_after :: nat
  re_limit :: nat
  re_remaining :: nat
  re_reset_time :: nat

record rate_limit_info =
  ri_category :: endpoint_category
  ri_client_ip :: ip_addr
  ri_endpoint :: string
  ri_method :: string

datatype rate_outcome = Admitted | Limited rate_limit_error | Panicked

text \<open>The clock readings of one request: the monotonic clock for the limiters, the two readings
  and the Unix time that \<open>calculate_reset_time\<close> takes.\<close>

record clock_readings =
  ck_now :: nat
  ck_from :: nat
  ck_until :: nat
  ck_unix :: nat

abbreviation nanos :: nat where
  "nanos \<equiv> 1000000000"

section \<open>Construction\<close>

definition make_limiter ::
  "'l governor \<Rightarrow> nat \<Rightarrow> nat \<Rightarrow> nat \<Rightarrow> string \<Rightarrow> string \<Rightarrow> 'l result" where
  "make_limiter gv rps burst now rps_msg burst_msg =
     (if rps = 0 then Err (InvalidConfig rps_msg)
      else if burst = 0 then Err (InvalidConfig burst_msg)
      else Ok (gov_direct gv rps burst now))"

definition create_category_limiter ::
  "'l governor \<Rightarrow> nat \<Rightarrow> endpoint_category_limits \<Rightarrow> 'l result" where
  "create_category_limiter gv now category_config =
     make_limiter gv (cl_requests_per_second category_config) (cl_burst_capacity category_config) now
       ''category requests_per_second must be greater than 0''
       ''category burst_capacity must be greater than 0''"

definition add_category ::
  "'l governor \<Rightarrow> nat \<Rightarrow> endpoint_category \<times> endpoint_category_limits \<Rightarrow>
   (endpoint_category \<times> 'l) list result \<Rightarrow> (endpoint_category \<times> 'l) list result" where
  "add_category gv now entry acc =
     (case acc of Inl e \<Rightarrow> Err e
      | Inr limiters \<Rightarrow>
          if cl_enabled (snd entry)
          then (case create_category_limiter gv now (snd entry) of Inl e \<Rightarrow> Err e
                | Inr l \<Rightarrow> Ok (AList.update (fst entry) l limiters))
          else Ok limiters)"

fun limits_of :: "endpoint_rate_limits \<Rightarrow> endpoint_category \<Rightarrow> endpoint_category_limits" where
  "limits_of e Health = er_health e"
| "limits_of e ReadOperations = er_read_operations e"
| "limits_of e WriteOperations = er_write_operations e"
| "limits_of e ClusterOperations = er_cluster_operations e"

definition rate_manager_new ::
  "'l governor \<Rightarrow> rate_limit_config \<Rightarrow> nat \<Rightarrow> 'l rate_limiter_manager result" where
  "rate_manager_new gv config now =
     (case validate_rate_limits config of Inl e \<Rightarrow> Err e
      | Inr _ \<Rightarrow>
     (case (if rl_enabled config \<and> gl_requests_per_second (rl_global config) > 0
            then (case make_limiter gv (gl_requests_per_second (rl_global config))
                         (gl_burst_capacity (rl_global config)) now
                         ''global requests_per_second must be greater than 0''
                         ''global burst_capacity must be greater than 0'' of
                    Inl e \<Rightarrow> Err e | Inr l \<Rightarrow> Ok (Some l))
            else Ok None) of Inl e \<Rightarrow> Err e
      | Inr global_limiter \<Rightarrow>
     (case (if rl_enabled config
            then fold (add_category gv now)
                   (map (\<lambda>k. (k, limits_of (rl_endpoints config) k))
                      [Health, ReadOperations, WriteOperations, ClusterOperations]) (Ok [])
            else Ok []) of Inl e \<Rightarrow> Err e
      | Inr category_limiters \<Rightarrow>
          Ok \<lparr>rm_config = config, rm_global_limiter = global_limiter, rm_ip_limiters = [],
              rm_category_limiters = category_limiters, rm_last_cleanup = now,
              rm_cleanup_running = False\<rparr>)))"

section \<open>Checking a request\<close>

text \<open>The division by the rate panics when the rate is zero.\<close>

definition calculate_retry_after :: "nat \<Rightarrow> nat option" where
  "calculate_retry_after requests_per_second =
     (if requests_per_second = 0 then None else Some (max 1 (60 div requests_per_second)))"

definition calculate_reset_time :: "clock_readings \<Rightarrow> nat \<Rightarrow> nat" where
  "calculate_reset_time ck retry_after =
     (ck_from ck + retry_after * nanos - ck_until ck) div nanos + ck_unix ck"

definition limited :: "clock_readings \<Rightarrow> string \<Rightarrow> nat \<Rightarrow> rate_outcome" where
  "limited ck msg limit =
     (case calculate_retry_after limit of None \<Rightarrow> Panicked
      | Some retry_after \<Rightarrow>
          Limited \<lparr>re_error = msg, re_retry_after = retry_after, re_limit = limit, re_remaining = 0,
                   re_reset_time = calculate_reset_time ck retry_after\<rparr>)"

text \<open>\<open>None\<close>: the \<open>unwrap\<close> of a zero rate or burst panics.\<close>

definition check_ip_rate_limit ::
  "'l governor \<Rightarrow> nat \<Rightarrow> ip_addr \<Rightarrow> 'l rate_limiter_manager \<Rightarrow>
   (bool \<times> 'l rate_limiter_manager) option" where
  "check_ip_rate_limit gv now client_ip m =
     (let cfg = rl_per_ip (rm_config m);
          entry = (case map_of (rm_ip_limiters m) client_ip of
              Some il \<Rightarrow> Some il
            | None \<Rightarrow>
                if ip_requests_per_second cfg = 0 \<or> ip_burst_capacity cfg = 0 then None
                else Some \<lparr>il_limiter = gov_direct gv (ip_requests_per_second cfg) (ip_burst_capacity cfg) now,
                           il_last_access = now, il_request_count = 0\<rparr>)
      in case entry of None \<Rightarrow> None
         | Some il \<Rightarrow>
             (let (ok, l) = gov_check gv now (il_limiter il) in
              Some (ok, m\<lparr>rm_ip_limiters :=
                AList.update client_ip (il\<lparr>il_limiter := l\<rparr>) (rm_ip_limiters m)\<rparr>)))"

fun category_message :: "endpoint_category \<Rightarrow> string" where
  "category_message Health = ''Health rate limit exceeded''"
| "category_message ReadOperations = ''ReadOperations rate limit exceeded''"
| "category_message WriteOperations = ''WriteOperations rate limit exceeded''"
| "category_message ClusterOperations = ''ClusterOperations rate limit exceeded''"

definition check_category_rate_limit ::
  "'l governor \<Rightarrow> clock_readings \<Rightarrow> endpoint_category \<Rightarrow> 'l rate_limiter_manager \<Rightarrow>
   rate_outcome \<times> 'l rate_limiter_manager" where
  "check_category_rate_limit gv ck category m =
     (case map_of (rm_category_limiters m) category of None \<Rightarrow> (Admitted, m)
      | Some limiter \<Rightarrow>
          (let (ok, l) = gov_check gv (ck_now ck) limiter;
               m' = m\<lparr>rm_category_limiters := AList.update category l (rm_category_limiters m)\<rparr>
           in if ok then (Admitted, m')
              else (limited ck (category_message category)
                      (cl_requests_per_second (limits_of (rl_endpoints (rm_config m)) category)), m')))"

definition update_ip_access ::
  "nat \<Rightarrow> ip_addr \<Rightarrow> 'l rate_limiter_manager \<Rightarrow> 'l rate_limiter_manager" where
  "update_ip_access now client_ip m =
     (case map_of (rm_ip_limiters m) client_ip of None \<Rightarrow> m
      | Some il \<Rightarrow>
          m\<lparr>rm_ip_limiters := AList.update client_ip
              (il\<lparr>il_last_access := now, il_request_count := il_request_count il + 1\<rparr>) (rm_ip_limiters m)\<rparr>)"

text \<open>The spawned cleanup runs later; until it ends the flag is set.\<close>

definition maybe_trigger_cleanup :: "nat \<Rightarrow> 'l rate_limiter_manager \<Rightarrow> 'l rate_limiter_manager" where
  "maybe_trigger_cleanup now m =
     (if \<not> rm_cleanup_running m \<and>
         (now - rm_last_cleanup m) div nanos \<ge> rc_cleanup_interval_secs (rl_cleanup (rm_config m))
      then m\<lparr>rm_cleanup_running := True, rm_last_cleanup := now\<rparr>
      else m)"

definition check_global_limit ::
  "'l governor \<Rightarrow> nat \<Rightarrow> 'l rate_limiter_manager \<Rightarrow> bool \<times> 'l rate_limiter_manager" where
  "check_global_limit gv now m =
     (case rm_global_limiter m of None \<Rightarrow> (True, m)
      | Some l \<Rightarrow> (let (ok, l') = gov_check gv now l in (ok, m\<lparr>rm_global_limiter := Some l'\<rparr>)))"

definition check_rate_limit ::
  "'l governor \<Rightarrow> clock_readings \<Rightarrow> rate_limit_info \<Rightarrow> 'l rate_limiter_manager \<Rightarrow>
   rate_outcome \<times> 'l rate_limiter_manager" where
  "check_rate_limit gv ck info m =
     (let cfg = rm_config m; ip = ri_client_ip info; now = ck_now ck in
      if \<not> rl_enabled cfg then (Admitted, m)
      else (let (ok, m1) = check_global_limit gv now m in
        if \<not> ok then (limited ck ''Global rate limit exceeded'' (gl_requests_per_second (rl_global cfg)), m1)
        else (case (if ip_enabled (rl_per_ip cfg) then check_ip_rate_limit gv now ip m1 else Some (True, m1)) of
            None \<Rightarrow> (Panicked, m1)
          | Some (ok2, m2) \<Rightarrow>
              if \<not> ok2
              then (limited ck ''Per-IP rate limit exceeded'' (ip_requests_per_second (rl_per_ip cfg)), m2)
              else (let (r, m3) = check_category_rate_limit gv ck (ri_category info) m2 in
                if r \<noteq> Admitted then (r, m3)
                else (Admitted, maybe_trigger_cleanup now (update_ip_access now ip m3))))))"

section \<open>Cleanup\<close>

fun cleanup_scan ::
  "nat \<Rightarrow> nat \<Rightarrow> nat \<Rightarrow> ip_addr list \<Rightarrow> (ip_addr \<times> 'l ip_rate_limiter) list \<Rightarrow>
   (ip_addr \<times> 'l ip_rate_limiter) list" where
  "cleanup_scan max_age now budget [] m = m"
| "cleanup_scan max_age now budget (ip # ips) m =
     (case map_of m ip of None \<Rightarrow> cleanup_scan max_age now budget ips m
      | Some il \<Rightarrow>
          if budget = 0 \<or> now - il_last_access il < max_age
          then cleanup_scan max_age now budget ips m
          else cleanup_scan max_age now (budget - 1) ips (AList.delete ip m))"

definition perform_cleanup ::
  "nat \<Rightarrow> ip_addr list \<Rightarrow> 'l rate_limiter_manager \<Rightarrow> 'l rate_limiter_manager" where
  "perform_cleanup now ips m =
     m\<lparr>rm_ip_limiters := cleanup_scan (rc_max_age_secs (rl_cleanup (rm_config m)) * nanos) now
         (rc_max_cleanup_per_run (rl_cleanup (rm_config m))) ips (rm_ip_limiters m)\<rparr>"

definition spawned_cleanup ::
  "nat \<Rightarrow> ip_addr list \<Rightarrow> 'l rate_limiter_manager \<Rightarrow> 'l rate_limiter_manager" where
  "spawned_cleanup now ips m =
     (if rm_cleanup_running m then (perform_cleanup now ips m)\<lparr>rm_cleanup_running := False\<rparr> else m)"

definition cleanup_tick ::
  "nat \<Rightarrow> ip_addr list \<Rightarrow> 'l rate_limiter_manager \<Rightarrow> 'l rate_limiter_manager" where
  "cleanup_tick now ips m =
     (if rc_enabled (rl_cleanup (rm_config m)) then perform_cleanup now ips m else m)"

section \<open>Endpoints and clients\<close>

definition path_matches :: "string \<Rightarrow> string \<Rightarrow> bool" where
  "path_matches path pat =
     (if suffix ''/*'' pat then prefix (take (length pat - 2) pat) path
      else if CHR ''*'' \<in> set pat then False
      else path = pat)"

definition ascii_lower :: "char \<Rightarrow> char" where
  "ascii_lower c = (if (65 :: nat) \<le> of_char c \<and> of_char c \<le> (90 :: nat)
                    then char_of (of_char c + 32 :: nat) else c)"

definition matches_pattern :: "string \<Rightarrow> string \<Rightarrow> string \<Rightarrow> bool" where
  "matches_pattern meth path pat =
     (if CHR '':'' \<in> set pat
      then map ascii_lower meth = map ascii_lower (takeWhile (\<lambda>c. c \<noteq> CHR '':'') pat) \<and>
           path_matches path (tl (dropWhile (\<lambda>c. c \<noteq> CHR '':'') pat))
      else path_matches path pat)"

definition categorize_endpoint :: "rate_limit_config \<Rightarrow> string \<Rightarrow> string \<Rightarrow> endpoint_category" where
  "categorize_endpoint config meth path =
     (let e = rl_endpoints config in
      if list_ex (matches_pattern meth path) (cl_endpoint_patterns (er_health e)) then Health
      else if list_ex (matches_pattern meth path) (cl_endpoint_patterns (er_cluster_operations e))
      then ClusterOperations
      else if meth \<in> {''POST'', ''DELETE'', ''PUT'', ''PATCH''} \<and>
              list_ex (matches_pattern meth path) (cl_endpoint_patterns (er_write_operations e))
      then WriteOperations
      else ReadOperations)"

definition trim_white :: "string \<Rightarrow> string" where
  "trim_white s = rev (dropWhile is_white (rev (dropWhile is_white s)))"

record http_request =
  rq_forwarded :: "string option"
  rq_real_ip :: "string option"
  rq_remote :: "ip_addr option"
  rq_method :: string
  rq_path :: string

definition extract_client_ip :: "(string \<Rightarrow> ip_addr option) \<Rightarrow> http_request \<Rightarrow> ip_addr" where
  "extract_client_ip parse_ip rq =
     (case Option.bind (rq_forwarded rq)
             (\<lambda>s. parse_ip (trim_white (takeWhile (\<lambda>c. c \<noteq> CHR '','') s))) of
        Some ip \<Rightarrow> ip
      | None \<Rightarrow>
          (case Option.bind (rq_real_ip rq) parse_ip of
             Some ip \<Rightarrow> ip
           | None \<Rightarrow> (case rq_remote rq of Some ip \<Rightarrow> ip | None \<Rightarrow> V4 0x7F000001)))"

definition request_info ::
  "(string \<Rightarrow> ip_addr option) \<Rightarrow> rate_limit_config \<Rightarrow> http_request \<Rightarrow> rate_limit_info" where
  "request_info parse_ip config rq =
     \<lparr>ri_category = categorize_endpoint config (rq_method rq) (rq_path rq),
      ri_client_ip = extract_client_ip parse_ip rq, ri_endpoint = rq_path rq, ri_method = rq_method rq\<rparr>"

definition rate_limit_filter ::
  "'l governor \<Rightarrow> (string \<Rightarrow> ip_addr option) \<Rightarrow> clock_readings \<Rightarrow> http_request \<Rightarrow>
   'l rate_limiter_manager \<Rightarrow> rate_outcome \<times> 'l rate_limiter_manager" where
  "rate_limit_filter gv parse_ip ck rq m = check_rate_limit gv ck (request_info parse_ip (rm_config m) rq) m"

section \<open>Replies and statistics\<close>

record limit_reply =
  rp_status :: nat
  rp_error :: string
  rp_headers :: "(string \<times> nat) list"

text \<open>The argument is the rejection if it is one of this filter, \<open>None\<close> for every other one.\<close>

definition handle_rate_limit_rejection :: "rate_limit_error option \<Rightarrow> limit_reply" where
  "handle_rate_limit_rejection rejection =
     (case rejection of
        Some e \<Rightarrow> \<lparr>rp_status = 429, rp_error = re_error e,
          rp_headers = [(''X-RateLimit-Limit'', re_limit e), (''X-RateLimit-Remaining'', re_remaining e),
            (''X-RateLimit-Reset'', re_reset_time e), (''Retry-After'', re_retry_after e)]\<rparr>
      | None \<Rightarrow> \<lparr>rp_status = 500, rp_error = ''Internal server error'', rp_headers = []\<rparr>)"

record rate_limit_stats =
  rs_active_ip_limiters :: nat
  rs_active_category_limiters :: nat
  rs_total_requests :: nat
  rs_config_enabled :: bool

definition rate_stats :: "'l rate_limiter_manager \<Rightarrow> rate_limit_stats" where
  "rate_stats m =
     \<lparr>rs_active_ip_limiters = length (rm_ip_limiters m),
      rs_active_category_limiters = length (rm_category_limiters m),
      rs_total_requests = weight il_request_count (rm_ip_limiters m),
      rs_config_enabled = rl_enabled (rm_config m)\<rparr>"

section \<open>Runs\<close>

datatype rate_event =
    Arrive clock_readings http_request
  | SpawnedCleanup nat "ip_addr list"
  | CleanupTick nat "ip_addr list"

fun event_time :: "rate_event \<Rightarrow> nat" where
  "event_time (Arrive ck rq) = ck_now ck"
| "event_time (SpawnedCleanup now ips) = now"
| "event_time (CleanupTick now ips) = now"

text \<open>A run leaves, for each request in order, its instant, client, category and outcome.\<close>

type_synonym rate_log = "(nat \<times> ip_addr \<times> endpoint_category \<times> rate_outcome) list"

fun rate_run ::
  "'l governor \<Rightarrow> (string \<Rightarrow> ip_addr option) \<Rightarrow> rate_event list \<Rightarrow> 'l rate_limiter_manager \<Rightarrow>
   rate_log \<times> 'l rate_limiter_manager" where
  "rate_run gv parse_ip [] m = ([], m)"
| "rate_run gv parse_ip (Arrive ck rq # evs) m =
     (let info = request_info parse_ip (rm_config m) rq;
          (r, m') = rate_limit_filter gv parse_ip ck rq m;
          (lg, m'') = rate_run gv parse_ip evs m'
      in ((ck_now ck, ri_client_ip info, ri_category info, r) # lg, m''))"
| "rate_run gv parse_ip (SpawnedCleanup now ips # evs) m = rate_run gv parse_ip evs (spawned_cleanup now ips m)"
| "rate_run gv parse_ip (CleanupTick now ips # evs) m = rate_run gv parse_ip evs (cleanup_tick now ips m)"

text \<open>The instants of the admitted requests that satisfy a condition on client and category.\<close>

definition admitted_times :: "(ip_addr \<Rightarrow> endpoint_category \<Rightarrow> bool) \<Rightarrow> rate_log \<Rightarrow> nat list" where
  "admitted_times P lg = map fst (filter (\<lambda>(t, ip, k, r). P ip k \<and> r = Admitted) lg)"

section \<open>The promise of a limiter\<close>

text \<open>
  A sequence of admitted instants conforms to a burst and a replenish interval when every window
  between two admitted instants holds no more than the burst and one for each interval that
  passed. \<open>Quota::per_second\<close> replenishes one cell in the whole nanoseconds of a second divided
  by the rate.
\<close>

definition conforms :: "nat \<Rightarrow> nat \<Rightarrow> nat list \<Rightarrow> bool" where
  "conforms burst interval T \<longleftrightarrow>
     (\<forall>j < length T. \<forall>i \<le> j. interval * (Suc j - i) \<le> interval * burst + (T ! j - T ! i))"

definition replenish :: "nat \<Rightarrow> nat" where
  "replenish requests_per_second = nanos div requests_per_second"

fun limiter_run :: "'l governor \<Rightarrow> nat list \<Rightarrow> 'l \<Rightarrow> nat list \<times> 'l" where
  "limiter_run gv [] l = ([], l)"
| "limiter_run gv (t # ts) l =
     (let (ok, l') = gov_check gv t l; (T, l'') = limiter_run gv ts l'
      in (if ok then t # T else T, l''))"

definition quota_respected :: "'l governor \<Rightarrow> bool" where
  "quota_respected gv \<longleftrightarrow>
     (\<forall>rps burst t0 ts. 0 < rps \<longrightarrow> 0 < burst \<longrightarrow> sorted (t0 # ts) \<longrightarrow>
        conforms burst (replenish rps) (fst (limiter_run gv ts (gov_direct gv rps burst t0))))"

lemma le_plus_diff: "s \<le> t \<Longrightarrow> x \<le> y + (t - s) \<longleftrightarrow> x + s \<le> y + (t :: nat)"
  by linarith

lemma conforms_Nil [simp]: "conforms b d []"
  by (simp add: conforms_def)

lemma conforms_between:
  "conforms b d T \<Longrightarrow> i \<le> j \<Longrightarrow> j < length T \<Longrightarrow> d * (Suc j - i) \<le> d * b + (T ! j - T ! i)"
  by (simp add: conforms_def)

text \<open>A window of a subsequence is part of the window of the sequence with the same ends.\<close>

lemma subseq_embedding:
  "subseq xs ys \<Longrightarrow> \<exists>f. strict_mono_on {..<length xs} f \<and>
     (\<forall>i < length xs. f i < length ys \<and> ys ! f i = xs ! i)"
proof (induction rule: list_emb.induct)
  case (list_emb_Nil ys)
  then show ?case by (simp add: strict_mono_on_def)
next
  case (list_emb_Cons xs ys y)
  then obtain f where f: "strict_mono_on {..<length xs} f"
    "\<forall>i < length xs. f i < length ys \<and> ys ! f i = xs ! i" by blast
  show ?case
    by (rule exI [of _ "\<lambda>i. Suc (f i)"]) (use f in \<open>simp add: strict_mono_on_def\<close>)
next
  case (list_emb_Cons2 x y xs ys)
  then obtain f where f: "strict_mono_on {..<length xs} f"
    "\<forall>i < length xs. f i < length ys \<and> ys ! f i = xs ! i" by blast
  show ?case
    by (rule exI [of _ "\<lambda>i. case i of 0 \<Rightarrow> 0 | Suc k \<Rightarrow> Suc (f k)"])
      (use f list_emb_Cons2 in \<open>auto simp: strict_mono_on_def nth_Cons split: nat.splits\<close>)
qed

lemma strict_mono_gap:
  fixes f :: "nat \<Rightarrow> nat"
  assumes "strict_mono_on {..<n} f" "i \<le> j" "j < n" shows "j - i \<le> f j - f i \<and> f i \<le> f j"
  using assms(2,3)
proof (induction j rule: dec_induct)
  case base
  then show ?case by simp
next
  case (step j)
  then have "f j < f (Suc j)" using assms(1) by (simp add: strict_mono_on_def)
  with step show ?case by linarith
qed

lemma conforms_subseq:
  assumes "conforms b d T" "subseq S T" shows "conforms b d S"
proof -
  obtain f where f: "strict_mono_on {..<length S} f"
    "\<forall>i < length S. f i < length T \<and> T ! f i = S ! i" using subseq_embedding [OF assms(2)] by blast
  have "d * (Suc j - i) \<le> d * b + (S ! j - S ! i)" if "i \<le> j" "j < length S" for i j
  proof -
    have g: "j - i \<le> f j - f i" "f i \<le> f j" using strict_mono_gap [OF f(1) that] by auto
    then have "d * (Suc (f j) - f i) \<le> d * b + (T ! f j - T ! f i)"
      by (intro conforms_between [OF assms(1)]) (use f(2) that in auto)
    moreover have "Suc j - i \<le> Suc (f j) - f i" using g that by linarith
    then have "d * (Suc j - i) \<le> d * (Suc (f j) - f i)" by (rule mult_le_mono2)
    ultimately have "d * (Suc j - i) \<le> d * b + (T ! f j - T ! f i)" by (rule order_trans [rotated])
    moreover have "T ! f j = S ! j" "T ! f i = S ! i" using f(2) that by auto
    ultimately show ?thesis by simp
  qed
  then show ?thesis by (simp add: conforms_def)
qed

text \<open>Two conforming sequences with a gap in which the whole burst is replenished.\<close>

lemma conforms_append:
  assumes S: "conforms b d S" and T: "conforms b d T"
    and gap: "\<forall>s \<in> set S. \<forall>t \<in> set T. s + b * d \<le> t" and mono: "sorted S" "sorted T"
  shows "conforms b d (S @ T)"
proof -
  have "d * (Suc j - i) \<le> d * b + ((S @ T) ! j - (S @ T) ! i)" if "i \<le> j" "j < length (S @ T)" for i j
  proof (cases "j < length S \<or> length S \<le> i")
    case True
    then show ?thesis
    proof
      assume "j < length S"
      then show ?thesis using conforms_between [OF S] that by (simp add: nth_append)
    next
      assume i: "length S \<le> i"
      have "d * (Suc (j - length S) - (i - length S)) \<le> d * b + (T ! (j - length S) - T ! (i - length S))"
        using conforms_between [OF T, of "i - length S" "j - length S"] that i by simp
      moreover have "Suc (j - length S) - (i - length S) = Suc j - i" using i that by linarith
      ultimately show ?thesis using i that by (simp add: nth_append)
    qed
  next
    case False
    define n where "n = length S"
    have n: "i < n" "n \<le> j" using False by (auto simp: n_def)
    have a: "d * (Suc (n - 1) - i) \<le> d * b + (S ! (n - 1) - S ! i)"
      using conforms_between [OF S, of i "n - 1"] n by (simp add: n_def)
    have c: "d * (Suc (j - n) - 0) \<le> d * b + (T ! (j - n) - T ! 0)"
      using conforms_between [OF T, of 0 "j - n"] n that by (simp add: n_def)
    have "S ! (n - 1) \<in> set S" "T ! 0 \<in> set T" using n that by (auto simp: n_def intro!: nth_mem)
    then have e: "S ! (n - 1) + b * d \<le> T ! 0" using gap by blast
    have m1: "S ! i \<le> S ! (n - 1)" using mono(1) n by (simp add: n_def sorted_iff_nth_mono)
    have m2: "T ! 0 \<le> T ! (j - n)" using mono(2) n that by (simp add: n_def sorted_iff_nth_mono)
    have a': "d * (Suc (n - 1) - i) + S ! i \<le> d * b + S ! (n - 1)" using a le_plus_diff [OF m1] by blast
    have c': "d * (Suc (j - n) - 0) + T ! 0 \<le> d * b + T ! (j - n)" using c le_plus_diff [OF m2] by blast
    have e': "S ! (n - 1) + d * b \<le> T ! 0" using e by (simp add: mult.commute)
    have "Suc j - i = (Suc (n - 1) - i) + (Suc (j - n) - 0)" using n by linarith
    then have "d * (Suc j - i) = d * (Suc (n - 1) - i) + d * (Suc (j - n) - 0)"
      by (metis add_mult_distrib2)
    with a' c' e' have "d * (Suc j - i) + S ! i \<le> d * b + T ! (j - n)" by linarith
    moreover have "S ! i \<le> T ! (j - n)" using m1 m2 e' by linarith
    ultimately have "d * (Suc j - i) \<le> d * b + (T ! (j - n) - S ! i)" using le_plus_diff by blast
    with n show ?thesis by (simp add: nth_append n_def)
  qed
  then show ?thesis by (simp add: conforms_def)
qed

lemma limiter_run_append:
  "limiter_run gv (ts @ us) l =
     (fst (limiter_run gv ts l) @ fst (limiter_run gv us (snd (limiter_run gv ts l))),
      snd (limiter_run gv us (snd (limiter_run gv ts l))))"
  by (induction ts arbitrary: l) (auto simp: Let_def case_prod_beta)

lemma limiter_run_set: "set (fst (limiter_run gv ts l)) \<subseteq> set ts"
proof (induction ts arbitrary: l)
  case (Cons t ts)
  show ?case using Cons [of "snd (gov_check gv t l)"] by (auto simp: Let_def case_prod_beta)
qed simp

lemma limiter_run_sorted: "sorted ts \<Longrightarrow> sorted (fst (limiter_run gv ts l))"
proof (induction ts arbitrary: l)
  case (Cons t ts)
  then show ?case using limiter_run_set [of gv ts "snd (gov_check gv t l)"]
    by (auto simp: Let_def case_prod_beta)
qed simp

section \<open>The limiter as a generic cell rate algorithm\<close>

text \<open>The textbook algorithm satisfies the promise: the state is the interval, the burst and the
  theoretical arrival time of the next cell.\<close>

definition gcra :: "(nat \<times> nat \<times> nat) governor" where
  "gcra = \<lparr>gov_direct = (\<lambda>rps burst now. (replenish rps, burst, now)),
           gov_check = (\<lambda>now (d, b, tat).
             if max tat now + d \<le> now + b * d then (True, (d, b, max tat now + d))
             else (False, (d, b, tat)))\<rparr>"

lemma gcra_check:
  "gov_check gcra now (d, b, tat) =
     (if max tat now + d \<le> now + b * d then (True, (d, b, max tat now + d)) else (False, (d, b, tat)))"
  by (simp add: gcra_def)

lemma gcra_run:
  "conforms b d (fst (limiter_run gcra ts (d, b, tat))) \<and>
   (\<forall>j < length (fst (limiter_run gcra ts (d, b, tat))).
      tat + d * Suc j \<le> fst (limiter_run gcra ts (d, b, tat)) ! j + b * d)"
proof (induction ts arbitrary: tat)
  case (Cons t ts)
  show ?case
  proof (cases "max tat t + d \<le> t + b * d")
    case True
    define T where "T = fst (limiter_run gcra ts (d, b, max tat t + d))"
    have run: "fst (limiter_run gcra (t # ts) (d, b, tat)) = t # T"
      using True by (simp add: gcra_check T_def case_prod_beta)
    have IH: "conforms b d T" "\<And>j. j < length T \<Longrightarrow> max tat t + d + d * Suc j \<le> T ! j + b * d"
      using Cons [of "max tat t + d"] by (auto simp: T_def)
    have later: "tat + d * Suc j \<le> (t # T) ! j + b * d" if "j < length (t # T)" for j
      using that True IH(2) [of "j - 1"] by (cases j) auto
    have "d * (Suc j - i) \<le> d * b + ((t # T) ! j - (t # T) ! i)" if "i \<le> j" "j < length (t # T)" for i j
    proof (cases i)
      case 0
      have "t + d \<le> t + b * d" using True max.cobounded2 [of t tat] by linarith
      moreover have "t + d + d * Suc l \<le> T ! l + b * d" if "l < length T" for l
        using IH(2) [OF that] max.cobounded2 [of t tat] by linarith
      then have "d + d * Suc l \<le> b * d + (T ! l - t)" if "l < length T" for l
        using that by fastforce
      ultimately show ?thesis using that 0 by (cases j) (auto simp: mult.commute [of b d])
    next
      case (Suc k)
      with that obtain l where "j = Suc l" by (cases j) auto
      with Suc that show ?thesis using conforms_between [OF IH(1), of k l] by simp
    qed
    with later run show ?thesis by (simp add: conforms_def)
  next
    case False
    with Cons [of tat] show ?thesis by (simp add: gcra_check case_prod_beta)
  qed
qed simp

lemma gcra_respected: "quota_respected gcra"
  using gcra_run by (auto simp: quota_respected_def gcra_def)

section \<open>Tracking one limiter\<close>

text \<open>A limiter made at or after \<open>lo\<close> whose last check was at or before \<open>now\<close> and that admitted
  \<open>T\<close>.\<close>

definition tracks :: "'l governor \<Rightarrow> nat \<Rightarrow> nat \<Rightarrow> nat \<Rightarrow> nat \<Rightarrow> nat list \<Rightarrow> 'l \<Rightarrow> bool" where
  "tracks gv rps burst lo now T l \<longleftrightarrow>
     (\<exists>t0 ts. lo \<le> t0 \<and> sorted (t0 # ts) \<and> (\<forall>t \<in> set (t0 # ts). t \<le> now) \<and>
        limiter_run gv ts (gov_direct gv rps burst t0) = (T, l))"

lemma tracks_new: "lo \<le> now \<Longrightarrow> tracks gv rps burst lo now [] (gov_direct gv rps burst now)"
  unfolding tracks_def by (rule exI [of _ now], rule exI [of _ "[]"]) simp

lemma tracks_later: "tracks gv rps burst lo t T l \<Longrightarrow> t \<le> now \<Longrightarrow> tracks gv rps burst lo now T l"
  unfolding tracks_def using order_trans by blast

lemma tracks_check:
  assumes "tracks gv rps burst lo t T l" "t \<le> now" "gov_check gv now l = (ok, l')"
  shows "tracks gv rps burst lo now (if ok then T @ [now] else T) l'"
proof -
  obtain t0 ts where h: "lo \<le> t0" "sorted (t0 # ts)" "\<forall>x \<in> set (t0 # ts). x \<le> t"
    "limiter_run gv ts (gov_direct gv rps burst t0) = (T, l)"
    using assms(1) unfolding tracks_def by blast
  have "sorted (t0 # (ts @ [now]))" "\<forall>x \<in> set (t0 # (ts @ [now])). x \<le> now"
    using h(2,3) assms(2) by (auto simp: sorted_append)
  moreover have "limiter_run gv (ts @ [now]) (gov_direct gv rps burst t0) = (if ok then T @ [now] else T, l')"
    using h(4) assms(3) by (simp add: limiter_run_append)
  ultimately show ?thesis using h(1) unfolding tracks_def by blast
qed

lemma tracks_range:
  assumes "tracks gv rps burst lo now T l" "t \<in> set T" shows "lo \<le> t \<and> t \<le> now"
proof -
  obtain t0 ts where h: "lo \<le> t0" "sorted (t0 # ts)" "\<forall>x \<in> set (t0 # ts). x \<le> now"
    "limiter_run gv ts (gov_direct gv rps burst t0) = (T, l)"
    using assms(1) unfolding tracks_def by blast
  then have "t \<in> set ts" using limiter_run_set [of gv ts "gov_direct gv rps burst t0"] assms(2) by auto
  with h show ?thesis by auto
qed

lemma tracks_sorted:
  assumes "tracks gv rps burst lo now T l" shows "sorted T"
proof -
  obtain t0 ts where h: "sorted (t0 # ts)" "limiter_run gv ts (gov_direct gv rps burst t0) = (T, l)"
    using assms unfolding tracks_def by blast
  then show ?thesis using limiter_run_sorted [of ts gv "gov_direct gv rps burst t0"] by simp
qed

lemma tracks_conforms:
  assumes "quota_respected gv" "0 < rps" "0 < burst" "tracks gv rps burst lo now T l"
  shows "conforms burst (replenish rps) T"
proof -
  obtain t0 ts where h: "sorted (t0 # ts)" "limiter_run gv ts (gov_direct gv rps burst t0) = (T, l)"
    using assms(4) unfolding tracks_def by blast
  have "conforms burst (replenish rps) (fst (limiter_run gv ts (gov_direct gv rps burst t0)))"
    using assms(1-3) h(1) unfolding quota_respected_def by blast
  with h(2) show ?thesis by simp
qed

end
