(* ===== verification/Rate_Limits.thy ===== *)
theory Rate_Limits
  imports Rate_Limiter
begin

text \<open>
  What the admin rate limiter guarantees over whole runs: requests from any clients, spawned
  cleanups and the ticks of the cleanup task, in any order. The limits of all three kinds hold in
  every window of a run, although cleanups replace limiters by fresh ones, if a limiter is kept
  long enough to replenish its burst. A validated configuration never panics. The theory also shows
  where the limiter falls short of its documentation.
\<close>

section \<open>Invariants of a run\<close>

locale rate_invariant =
  fixes gv :: "'l governor" and parse_ip :: "string \<Rightarrow> ip_addr option"
    and Inv :: "'l rate_limiter_manager \<Rightarrow> rate_log \<Rightarrow> nat \<Rightarrow> bool"
  assumes arrive: "Inv m lg t \<Longrightarrow> t \<le> ck_now ck \<Longrightarrow> check_rate_limit gv ck info m = (r, m') \<Longrightarrow>
      Inv m' (lg @ [(ck_now ck, ri_client_ip info, ri_category info, r)]) (ck_now ck)"
    and clean: "Inv m lg t \<Longrightarrow> t \<le> now \<Longrightarrow> Inv (perform_cleanup now ips m) lg now"
    and idle: "Inv m lg t \<Longrightarrow> t \<le> now \<Longrightarrow> Inv m lg now"
    and flag: "Inv m lg t \<Longrightarrow> Inv (m\<lparr>rm_cleanup_running := b\<rparr>) lg t"
begin

lemma spawned: "Inv m lg t \<Longrightarrow> t \<le> now \<Longrightarrow> Inv (spawned_cleanup now ips m) lg now"
  by (simp add: spawned_cleanup_def clean idle flag)

lemma ticked: "Inv m lg t \<Longrightarrow> t \<le> now \<Longrightarrow> Inv (cleanup_tick now ips m) lg now"
  by (simp add: cleanup_tick_def clean idle)

lemma run:
  "Inv m lg t \<Longrightarrow> sorted (t # map event_time evs) \<Longrightarrow>
   \<exists>t'. Inv (snd (rate_run gv parse_ip evs m)) (lg @ fst (rate_run gv parse_ip evs m)) t'"
proof (induction evs arbitrary: m lg t)
  case Nil
  then show ?case by auto
next
  case (Cons ev evs)
  have order: "t \<le> event_time ev" "sorted (event_time ev # map event_time evs)"
    using Cons.prems(2) by auto
  show ?case
  proof (cases ev)
    case (Arrive ck rq)
    define info where "info = request_info parse_ip (rm_config m) rq"
    obtain r m' where rm: "check_rate_limit gv ck info m = (r, m')" by fastforce
    have "Inv m' (lg @ [(ck_now ck, ri_client_ip info, ri_category info, r)]) (ck_now ck)"
      using arrive [OF Cons.prems(1) _ rm] order Arrive by simp
    from Cons.IH [OF this] order Arrive rm show ?thesis
      by (simp add: rate_limit_filter_def info_def Let_def case_prod_beta)
  next
    case (SpawnedCleanup now ips)
    with Cons.IH [OF spawned [OF Cons.prems(1)]] order show ?thesis by simp
  next
    case (CleanupTick now ips)
    with Cons.IH [OF ticked [OF Cons.prems(1)]] order show ?thesis by simp
  qed
qed

end

section \<open>What one request does to each limiter\<close>

lemma limited_not_admitted [simp]: "limited ck msg limit \<noteq> Admitted"
  by (simp add: limited_def split: option.splits)

lemma not_limited_admitted [simp]: "Admitted \<noteq> limited ck msg limit"
  using limited_not_admitted by metis

lemma trigger_fields [simp]:
  "rm_config (maybe_trigger_cleanup now m) = rm_config m"
  "rm_global_limiter (maybe_trigger_cleanup now m) = rm_global_limiter m"
  "rm_ip_limiters (maybe_trigger_cleanup now m) = rm_ip_limiters m"
  "rm_category_limiters (maybe_trigger_cleanup now m) = rm_category_limiters m"
  by (simp_all add: maybe_trigger_cleanup_def)

lemma access_fields [simp]:
  "rm_config (update_ip_access now ip m) = rm_config m"
  "rm_global_limiter (update_ip_access now ip m) = rm_global_limiter m"
  "rm_category_limiters (update_ip_access now ip m) = rm_category_limiters m"
  by (simp_all add: update_ip_access_def split: option.splits)

lemma check_ip_fields:
  assumes "check_ip_rate_limit gv now ip m = Some (ok, m')"
  shows "rm_config m' = rm_config m" "rm_global_limiter m' = rm_global_limiter m"
    "rm_category_limiters m' = rm_category_limiters m"
  using assms by (auto simp: check_ip_rate_limit_def Let_def case_prod_beta split: option.splits if_splits)

lemma check_category_fields:
  assumes "check_category_rate_limit gv ck k m = (r, m')"
  shows "rm_config m' = rm_config m" "rm_global_limiter m' = rm_global_limiter m"
    "rm_ip_limiters m' = rm_ip_limiters m"
  using assms by (auto simp: check_category_rate_limit_def Let_def case_prod_beta split: option.splits if_splits)

lemma check_global_fields:
  assumes "check_global_limit gv now m = (ok, m')"
  shows "rm_config m' = rm_config m" "rm_ip_limiters m' = rm_ip_limiters m"
    "rm_category_limiters m' = rm_category_limiters m"
  using assms by (auto simp: check_global_limit_def Let_def case_prod_beta split: option.splits)

text \<open>A request ends at the global limiter, at the limiter of its address, at the limiter of its
  category, or is admitted.\<close>

lemma check_rate_limit_cases [consumes 2, case_names Global Panic Ip Category Pass]:
  assumes "check_rate_limit gv ck info m = (r, m')" and "rl_enabled (rm_config m)"
  obtains "check_global_limit gv (ck_now ck) m = (False, m')"
      "r = limited ck ''Global rate limit exceeded'' (gl_requests_per_second (rl_global (rm_config m)))"
  | "check_global_limit gv (ck_now ck) m = (True, m')" "ip_enabled (rl_per_ip (rm_config m))"
      "check_ip_rate_limit gv (ck_now ck) (ri_client_ip info) m' = None" "r = Panicked"
  | m1 where "check_global_limit gv (ck_now ck) m = (True, m1)" "ip_enabled (rl_per_ip (rm_config m))"
      "check_ip_rate_limit gv (ck_now ck) (ri_client_ip info) m1 = Some (False, m')"
      "r = limited ck ''Per-IP rate limit exceeded'' (ip_requests_per_second (rl_per_ip (rm_config m)))"
  | m1 m2 where "check_global_limit gv (ck_now ck) m = (True, m1)"
      "(if ip_enabled (rl_per_ip (rm_config m)) then check_ip_rate_limit gv (ck_now ck) (ri_client_ip info) m1
        else Some (True, m1)) = Some (True, m2)"
      "check_category_rate_limit gv ck (ri_category info) m2 = (r, m')" "r \<noteq> Admitted"
  | m1 m2 m3 where "check_global_limit gv (ck_now ck) m = (True, m1)"
      "(if ip_enabled (rl_per_ip (rm_config m)) then check_ip_rate_limit gv (ck_now ck) (ri_client_ip info) m1
        else Some (True, m1)) = Some (True, m2)"
      "check_category_rate_limit gv ck (ri_category info) m2 = (Admitted, m3)" "r = Admitted"
      "m' = maybe_trigger_cleanup (ck_now ck) (update_ip_access (ck_now ck) (ri_client_ip info) m3)"
proof -
  obtain ok m1 where g: "check_global_limit gv (ck_now ck) m = (ok, m1)" by fastforce
  define p where "p = (if ip_enabled (rl_per_ip (rm_config m))
    then check_ip_rate_limit gv (ck_now ck) (ri_client_ip info) m1 else Some (True, m1))"
  show thesis
  proof (cases ok)
    case False
    with g assms show thesis by (intro that(1)) (auto simp: check_rate_limit_def)
  next
    case True
    with g have g: "check_global_limit gv (ck_now ck) m = (True, m1)" by simp
    show thesis
    proof (cases p)
      case None
      with g assms have "m' = m1" "r = Panicked" "ip_enabled (rl_per_ip (rm_config m))"
        by (auto simp: check_rate_limit_def p_def Let_def split: if_splits)
      with g None show thesis by (intro that(2)) (auto simp: p_def)
    next
      case (Some q)
      then obtain ok2 m2 where q: "p = Some (ok2, m2)" by (cases q) auto
      show thesis
      proof (cases ok2)
        case False
        with g q assms have "m' = m2" "ip_enabled (rl_per_ip (rm_config m))"
          "r = limited ck ''Per-IP rate limit exceeded'' (ip_requests_per_second (rl_per_ip (rm_config m)))"
          by (auto simp: check_rate_limit_def p_def Let_def split: if_splits)
        with g q False show thesis by (intro that(3)) (auto simp: p_def)
      next
        case True
        obtain s m3 where c: "check_category_rate_limit gv ck (ri_category info) m2 = (s, m3)" by fastforce
        have p: "(if ip_enabled (rl_per_ip (rm_config m))
          then check_ip_rate_limit gv (ck_now ck) (ri_client_ip info) m1 else Some (True, m1)) = Some (True, m2)"
          using q True by (simp add: p_def)
        show thesis
        proof (cases "s = Admitted")
          case True
          with g p c assms show thesis by (intro that(5)) (auto simp: check_rate_limit_def Let_def)
        next
          case False
          with g p c assms show thesis by (intro that(4)) (auto simp: check_rate_limit_def Let_def)
        qed
      qed
    qed
  qed
qed

lemma request_config:
  "check_rate_limit gv ck info m = (r, m') \<Longrightarrow> rm_config m' = rm_config m"
proof (cases "rl_enabled (rm_config m)")
  case True
  assume "check_rate_limit gv ck info m = (r, m')"
  from this True show ?thesis
    by (cases rule: check_rate_limit_cases)
      (auto simp: check_global_fields check_ip_fields check_category_fields split: if_splits)
qed (simp add: check_rate_limit_def Let_def)

lemma request_global:
  assumes "check_rate_limit gv ck info m = (r, m')" "rl_enabled (rm_config m)"
    and "rm_global_limiter m = Some l" and "gov_check gv (ck_now ck) l = (ok, l')"
  shows "rm_global_limiter m' = Some l' \<and> (r = Admitted \<longrightarrow> ok)"
proof -
  have g: "check_global_limit gv (ck_now ck) m = (ok, m\<lparr>rm_global_limiter := Some l'\<rparr>)"
    using assms(3,4) by (simp add: check_global_limit_def)
  from assms(1,2) show ?thesis
    by (cases rule: check_rate_limit_cases)
      (auto simp: g check_ip_fields check_category_fields split: if_splits)
qed

lemma request_category:
  assumes "check_rate_limit gv ck info m = (r, m')" "rl_enabled (rm_config m)"
    and "map_of (rm_category_limiters m) k = Some l" and "gov_check gv (ck_now ck) l = (ok, l')"
  shows "(map_of (rm_category_limiters m') k = Some l' \<and> (r = Admitted \<longrightarrow> ok)) \<or>
    (map_of (rm_category_limiters m') k = Some l \<and> \<not> (ri_category info = k \<and> r = Admitted))"
proof -
  have step: "(map_of (rm_category_limiters m2) k = Some l' \<and> (s = Admitted \<longrightarrow> ok)) \<or>
      (map_of (rm_category_limiters m2) k = Some l \<and> \<not> (ri_category info = k \<and> s = Admitted))"
    if "check_category_rate_limit gv ck (ri_category info) m1 = (s, m2)"
      "rm_category_limiters m1 = rm_category_limiters m" for m1 m2 s
    using that assms(3,4)
    by (auto simp: check_category_rate_limit_def update_Some_unfold Let_def split: option.splits if_splits prod.splits)
  have cats: "rm_category_limiters m2 = rm_category_limiters m"
    if "check_global_limit gv (ck_now ck) m = (True, m1)"
      "(if ip_enabled (rl_per_ip (rm_config m)) then check_ip_rate_limit gv (ck_now ck) (ri_client_ip info) m1
        else Some (True, m1)) = Some (True, m2)" for m1 m2
    using that check_global_fields [OF that(1)] by (auto simp: check_ip_fields split: if_splits)
  from assms(1,2) show ?thesis
  proof (cases rule: check_rate_limit_cases)
    case Global
    then show ?thesis using assms(3) check_global_fields [OF Global(1)] by simp
  next
    case Panic
    then show ?thesis using assms(3) check_global_fields [OF Panic(1)] by simp
  next
    case (Ip m1)
    then show ?thesis using assms(3) check_global_fields [OF Ip(1)] check_ip_fields [OF Ip(3)] by simp
  next
    case (Category m1 m2)
    then show ?thesis using step [OF Category(3) cats [OF Category(1,2)]] by simp
  next
    case (Pass m1 m2 m3)
    then show ?thesis using step [OF Pass(3) cats [OF Pass(1,2)]] by simp
  qed
qed

definition ip_entry :: "'l governor \<Rightarrow> nat \<Rightarrow> ip_addr \<Rightarrow> 'l rate_limiter_manager \<Rightarrow> 'l ip_rate_limiter" where
  "ip_entry gv now ip m =
     (case map_of (rm_ip_limiters m) ip of Some il \<Rightarrow> il
      | None \<Rightarrow> \<lparr>il_limiter = gov_direct gv (ip_requests_per_second (rl_per_ip (rm_config m)))
                  (ip_burst_capacity (rl_per_ip (rm_config m))) now, il_last_access = now, il_request_count = 0\<rparr>)"

lemma check_ip_entry:
  assumes "check_ip_rate_limit gv now ip m = Some (ok, m')"
    and "gov_check gv now (il_limiter (ip_entry gv now ip m)) = (ok', l')"
  shows "ok = ok'" "map_of (rm_ip_limiters m') ip = Some ((ip_entry gv now ip m)\<lparr>il_limiter := l'\<rparr>)"
    "ip' \<noteq> ip \<Longrightarrow> map_of (rm_ip_limiters m') ip' = map_of (rm_ip_limiters m) ip'"
  using assms by (auto simp: check_ip_rate_limit_def ip_entry_def Let_def case_prod_beta update_conv'
      split: option.splits if_splits)

lemma ip_entry_cong:
  "rm_config m' = rm_config m \<Longrightarrow> rm_ip_limiters m' = rm_ip_limiters m \<Longrightarrow>
   ip_entry gv now ip m' = ip_entry gv now ip m"
  by (simp add: ip_entry_def split: option.splits)

lemma request_ip:
  assumes "check_rate_limit gv ck info m = (r, m')" "rl_enabled (rm_config m)"
    and "ip_enabled (rl_per_ip (rm_config m))"
    and "gov_check gv (ck_now ck) (il_limiter (ip_entry gv (ck_now ck) ip m)) = (ok, l')"
  shows "(map_of (rm_ip_limiters m') ip = map_of (rm_ip_limiters m) ip \<and> \<not> (ri_client_ip info = ip \<and> r = Admitted)) \<or>
    (ri_client_ip info = ip \<and> (r = Admitted \<longrightarrow> ok) \<and>
     (\<exists>il. map_of (rm_ip_limiters m') ip = Some il \<and> il_limiter il = l' \<and>
        il_last_access il = (if r = Admitted then ck_now ck else il_last_access (ip_entry gv (ck_now ck) ip m))))"
  using assms(1,2)
proof (cases rule: check_rate_limit_cases)
  case Global
  then show ?thesis using check_global_fields [OF Global(1)] by simp
next
  case Panic
  then show ?thesis using check_global_fields [OF Panic(1)] by simp
next
  case (Ip m1)
  note f = check_global_fields [OF Ip(1)]
  then have e: "ip_entry gv (ck_now ck) ip m1 = ip_entry gv (ck_now ck) ip m" by (intro ip_entry_cong)
  show ?thesis
  proof (cases "ri_client_ip info = ip")
    case True
    with Ip(3,4) show ?thesis using check_ip_entry(2) [of gv "ck_now ck" ip m1 False m'] assms(4) e by simp
  next
    case False
    obtain ok1 l1 where "gov_check gv (ck_now ck) (il_limiter (ip_entry gv (ck_now ck) (ri_client_ip info) m1)) = (ok1, l1)"
      by fastforce
    from check_ip_entry(3) [OF Ip(3) this] False f show ?thesis by auto
  qed
next
  case (Category m1 m2)
  note f = check_global_fields [OF Category(1)]
  then have e: "ip_entry gv (ck_now ck) ip m1 = ip_entry gv (ck_now ck) ip m" by (intro ip_entry_cong)
  have i: "check_ip_rate_limit gv (ck_now ck) (ri_client_ip info) m1 = Some (True, m2)"
    using Category(2) assms(3) by simp
  note c = check_category_fields [OF Category(3)]
  show ?thesis
  proof (cases "ri_client_ip info = ip")
    case True
    with i Category(4) c show ?thesis using check_ip_entry(1,2) [of gv "ck_now ck" ip m1 True m2] assms(4) e by simp
  next
    case False
    obtain ok1 l1 where "gov_check gv (ck_now ck) (il_limiter (ip_entry gv (ck_now ck) (ri_client_ip info) m1)) = (ok1, l1)"
      by fastforce
    from check_ip_entry(3) [OF i this] False f c show ?thesis by auto
  qed
next
  case (Pass m1 m2 m3)
  note f = check_global_fields [OF Pass(1)]
  then have e: "ip_entry gv (ck_now ck) ip m1 = ip_entry gv (ck_now ck) ip m" by (intro ip_entry_cong)
  have i: "check_ip_rate_limit gv (ck_now ck) (ri_client_ip info) m1 = Some (True, m2)"
    using Pass(2) assms(3) by simp
  note c = check_category_fields [OF Pass(3)]
  show ?thesis
  proof (cases "ri_client_ip info = ip")
    case True
    with i c have "map_of (rm_ip_limiters m3) ip = Some ((ip_entry gv (ck_now ck) ip m)\<lparr>il_limiter := l'\<rparr>)" "ok"
      using check_ip_entry(1,2) [of gv "ck_now ck" ip m1 True m2] assms(4) e by auto
    with Pass(4,5) True show ?thesis by (simp add: update_ip_access_def update_conv')
  next
    case False
    obtain ok1 l1 where "gov_check gv (ck_now ck) (il_limiter (ip_entry gv (ck_now ck) (ri_client_ip info) m1)) = (ok1, l1)"
      by fastforce
    from check_ip_entry(3) [OF i this] False f c Pass(5) show ?thesis
      by (auto simp: update_ip_access_def update_conv' split: option.splits)
  qed
qed

section \<open>The limits hold\<close>

lemma admitted_times_Nil [simp]: "admitted_times Q [] = []"
  by (simp add: admitted_times_def)

lemma admitted_times_snoc:
  "admitted_times Q (lg @ [(t, ip, k, r)]) =
     admitted_times Q lg @ (if Q ip k \<and> r = Admitted then [t] else [])"
  by (simp add: admitted_times_def)

lemma subseq_mem: "subseq xs ys \<Longrightarrow> set xs \<subseteq> set ys"
  by (induction rule: list_emb.induct) auto

lemma subseq_sorted: "subseq xs ys \<Longrightarrow> sorted ys \<Longrightarrow> sorted xs"
proof (induction rule: list_emb.induct)
  case (list_emb_Cons2 x y xs ys)
  then show ?case using subseq_mem [of xs ys] by auto
qed auto

lemma track_step:
  assumes "tracks gv rps burst lo t T l" "t \<le> now" "gov_check gv now l = (ok, l')"
    and "subseq A T" "adm \<longrightarrow> ok"
  shows "\<exists>T'. tracks gv rps burst lo now T' l' \<and> subseq (A @ (if adm then [now] else [])) T'"
proof -
  have "subseq (A @ (if adm then [now] else [])) (if ok then T @ [now] else T)"
    using assms(4,5) by (auto intro: list_emb_append_mono list_emb_append2)
  with tracks_check [OF assms(1-3)] show ?thesis by blast
qed

lemma cleanup_fields [simp]:
  "rm_config (perform_cleanup now ips m) = rm_config m"
  "rm_global_limiter (perform_cleanup now ips m) = rm_global_limiter m"
  "rm_category_limiters (perform_cleanup now ips m) = rm_category_limiters m"
  by (simp_all add: perform_cleanup_def)

definition global_inv :: "'l governor \<Rightarrow> 'l rate_limiter_manager \<Rightarrow> rate_log \<Rightarrow> nat \<Rightarrow> bool" where
  "global_inv gv m lg t \<longleftrightarrow> rl_enabled (rm_config m) \<and>
     (\<exists>T l. rm_global_limiter m = Some l \<and>
        tracks gv (gl_requests_per_second (rl_global (rm_config m))) (gl_burst_capacity (rl_global (rm_config m))) 0 t T l \<and>
        subseq (admitted_times (\<lambda>ip k. True) lg) T)"

lemma global_inv_later: "global_inv gv m lg t \<Longrightarrow> t \<le> now \<Longrightarrow> global_inv gv m lg now"
  unfolding global_inv_def by (elim conjE exE, intro conjI exI) (assumption | erule (1) tracks_later)+

interpretation global_run: rate_invariant gv parse_ip "global_inv gv" for gv parse_ip
proof (standard, goal_cases)
  case (1 m lg t ck info r m')
  then obtain T l where h: "rm_global_limiter m = Some l" "rl_enabled (rm_config m)"
    "tracks gv (gl_requests_per_second (rl_global (rm_config m))) (gl_burst_capacity (rl_global (rm_config m))) 0 t T l"
    "subseq (admitted_times (\<lambda>ip k. True) lg) T" unfolding global_inv_def by blast
  obtain ok l' where c: "gov_check gv (ck_now ck) l = (ok, l')" by fastforce
  have g: "rm_global_limiter m' = Some l'" "r = Admitted \<longrightarrow> ok"
    using request_global [OF 1(3) h(2,1) c] by auto
  from track_step [OF h(3) 1(2) c h(4) g(2)] g(1) h(2) request_config [OF 1(3)]
  show ?case by (simp add: global_inv_def admitted_times_snoc)
next
  case (2 m lg t now ips)
  then have "global_inv gv m lg now" by (rule global_inv_later)
  then show ?case by (simp add: global_inv_def)
next
  case (3 m lg t now)
  then show ?case by (rule global_inv_later)
next
  case 4
  then show ?case by (simp add: global_inv_def)
qed

definition category_inv ::
  "endpoint_category \<Rightarrow> 'l governor \<Rightarrow> 'l rate_limiter_manager \<Rightarrow> rate_log \<Rightarrow> nat \<Rightarrow> bool" where
  "category_inv k gv m lg t \<longleftrightarrow> rl_enabled (rm_config m) \<and>
     (\<exists>T l. map_of (rm_category_limiters m) k = Some l \<and>
        tracks gv (cl_requests_per_second (limits_of (rl_endpoints (rm_config m)) k))
          (cl_burst_capacity (limits_of (rl_endpoints (rm_config m)) k)) 0 t T l \<and>
        subseq (admitted_times (\<lambda>ip k'. k' = k) lg) T)"

lemma category_inv_later: "category_inv k gv m lg t \<Longrightarrow> t \<le> now \<Longrightarrow> category_inv k gv m lg now"
  unfolding category_inv_def by (elim conjE exE, intro conjI exI) (assumption | erule (1) tracks_later)+

interpretation category_run: rate_invariant gv parse_ip "category_inv k gv" for gv parse_ip k
proof (standard, goal_cases)
  case (1 m lg t ck info r m')
  then obtain T l where h: "map_of (rm_category_limiters m) k = Some l" "rl_enabled (rm_config m)"
    "tracks gv (cl_requests_per_second (limits_of (rl_endpoints (rm_config m)) k))
       (cl_burst_capacity (limits_of (rl_endpoints (rm_config m)) k)) 0 t T l"
    "subseq (admitted_times (\<lambda>ip k'. k' = k) lg) T" unfolding category_inv_def by blast
  obtain ok l' where c: "gov_check gv (ck_now ck) l = (ok, l')" by fastforce
  from request_category [OF 1(3) h(2,1) c] show ?case
  proof
    assume g: "map_of (rm_category_limiters m') k = Some l' \<and> (r = Admitted \<longrightarrow> ok)"
    then have "ri_category info = k \<and> r = Admitted \<longrightarrow> ok" by blast
    from track_step [OF h(3) 1(2) c h(4) this] g h(2) request_config [OF 1(3)]
    show ?thesis by (simp add: category_inv_def admitted_times_snoc)
  next
    assume g: "map_of (rm_category_limiters m') k = Some l \<and> \<not> (ri_category info = k \<and> r = Admitted)"
    with tracks_later [OF h(3) 1(2)] h(2,4) request_config [OF 1(3)]
    show ?thesis by (auto simp: category_inv_def admitted_times_snoc)
  qed
next
  case (2 m lg t now ips)
  then have "category_inv k gv m lg now" by (rule category_inv_later)
  then show ?case by (simp add: category_inv_def)
next
  case (3 m lg t now)
  then show ?case by (rule category_inv_later)
next
  case 4
  then show ?case by (simp add: category_inv_def)
qed

text \<open>
  The limiters one address had one after the other: what the earlier ones admitted conforms and
  lies at least one whole burst before the present one was made; what the present one admitted is
  part of what its limiter let through.
\<close>

definition ip_epochs ::
  "'l governor \<Rightarrow> nat \<Rightarrow> nat \<Rightarrow> nat \<Rightarrow> nat list \<Rightarrow> 'l ip_rate_limiter option \<Rightarrow> bool" where
  "ip_epochs gv rps burst t A entry \<longleftrightarrow>
     (case entry of
        None \<Rightarrow> sorted A \<and> conforms burst (replenish rps) A \<and> (\<forall>a \<in> set A. a + burst * replenish rps \<le> t)
      | Some il \<Rightarrow>
          il_last_access il \<le> t \<and> (\<forall>a \<in> set A. a \<le> il_last_access il) \<and>
          (\<exists>old cur T lo. A = old @ cur \<and> sorted old \<and> conforms burst (replenish rps) old \<and>
             (\<forall>a \<in> set old. a + burst * replenish rps \<le> lo) \<and> subseq cur T \<and>
             tracks gv rps burst lo t T (il_limiter il)))"

lemma ip_epochs_conform:
  assumes "ip_epochs gv rps burst t A entry" "quota_respected gv" "0 < rps" "0 < burst"
  shows "sorted A \<and> conforms burst (replenish rps) A"
proof (cases entry)
  case None
  with assms show ?thesis by (simp add: ip_epochs_def)
next
  case (Some il)
  with assms(1) obtain old cur T lo where h: "A = old @ cur" "sorted old"
    "conforms burst (replenish rps) old" "\<forall>a \<in> set old. a + burst * replenish rps \<le> lo"
    "subseq cur T" "tracks gv rps burst lo t T (il_limiter il)" by (auto simp: ip_epochs_def)
  have cur: "conforms burst (replenish rps) cur"
    using conforms_subseq [OF tracks_conforms [OF assms(2-4) h(6)] h(5)] .
  have mono: "sorted cur" using h(5) tracks_sorted [OF h(6)] by (rule subseq_sorted)
  have gap: "a + burst * replenish rps \<le> x" if "a \<in> set old" "x \<in> set cur" for a x
  proof -
    have "x \<in> set T" using subseq_mem [OF h(5)] that(2) by blast
    then have "lo \<le> x" using tracks_range [OF h(6)] by blast
    with h(4) that(1) show ?thesis by fastforce
  qed
  then have "sorted A" using h(1,2) mono by (fastforce simp: sorted_append)
  with conforms_append [OF h(3) cur _ h(2) mono] gap h(1) show ?thesis by blast
qed

lemma ip_epochs_later: "ip_epochs gv rps burst t A entry \<Longrightarrow> t \<le> now \<Longrightarrow> ip_epochs gv rps burst now A entry"
proof (cases entry)
  case None
  assume "ip_epochs gv rps burst t A entry" "t \<le> now"
  with None show ?thesis by (fastforce simp: ip_epochs_def)
next
  case (Some il)
  assume a: "ip_epochs gv rps burst t A entry" "t \<le> now"
  with Some obtain old cur T lo where h: "A = old @ cur" "sorted old"
    "conforms burst (replenish rps) old" "\<forall>a \<in> set old. a + burst * replenish rps \<le> lo"
    "subseq cur T" "tracks gv rps burst lo t T (il_limiter il)" by (auto simp: ip_epochs_def)
  have "tracks gv rps burst lo now T (il_limiter il)" using tracks_later [OF h(6) a(2)] .
  with h(1-5) a Some show ?thesis by (auto simp: ip_epochs_def)
qed

lemma ip_epochs_check:
  assumes "ip_epochs gv rps burst t A (map_of (rm_ip_limiters m) ip)" "t \<le> now"
    and cfg: "ip_requests_per_second (rl_per_ip (rm_config m)) = rps" "ip_burst_capacity (rl_per_ip (rm_config m)) = burst"
    and c: "gov_check gv now (il_limiter (ip_entry gv now ip m)) = (ok, il_limiter il)" "adm \<longrightarrow> ok"
    and la: "il_last_access il = (if adm then now else il_last_access (ip_entry gv now ip m))"
  shows "ip_epochs gv rps burst now (A @ (if adm then [now] else [])) (Some il)"
proof -
  obtain old cur T lo where h: "A = old @ cur" "sorted old" "conforms burst (replenish rps) old"
    "\<forall>a \<in> set old. a + burst * replenish rps \<le> lo" "subseq cur T"
    "tracks gv rps burst lo now T (il_limiter (ip_entry gv now ip m))"
    "il_last_access (ip_entry gv now ip m) \<le> now" "\<forall>a \<in> set A. a \<le> il_last_access (ip_entry gv now ip m)"
  proof (cases "map_of (rm_ip_limiters m) ip")
    case None
    then have "tracks gv rps burst t now [] (il_limiter (ip_entry gv now ip m))"
      using tracks_new [OF assms(2)] cfg by (simp add: ip_entry_def)
    moreover have "\<forall>a \<in> set A. a \<le> now" using None assms(1,2) by (fastforce simp: ip_epochs_def)
    ultimately show thesis using None assms(1) that [of A "[]" t "[]"]
      by (simp add: ip_epochs_def ip_entry_def)
  next
    case (Some il0)
    then have e: "ip_entry gv now ip m = il0" by (simp add: ip_entry_def)
    have "ip_epochs gv rps burst now A (Some il0)" using ip_epochs_later [OF assms(1,2)] Some by simp
    with e show thesis using that by (auto simp: ip_epochs_def)
  qed
  obtain T' where T': "tracks gv rps burst lo now T' (il_limiter il)"
    "subseq (cur @ (if adm then [now] else [])) T'"
    using track_step [OF h(6) order_refl c(1) h(5) c(2)] by blast
  have "\<forall>a \<in> set (A @ (if adm then [now] else [])). a \<le> il_last_access il" "il_last_access il \<le> now"
    using h(7,8) la by (fastforce split: if_splits)+
  moreover have "A @ (if adm then [now] else []) = old @ (cur @ (if adm then [now] else []))"
    using h(1) by simp
  ultimately show ?thesis using h(2-4) T' unfolding ip_epochs_def option.case by blast
qed

lemma ip_epochs_clean:
  assumes "ip_epochs gv rps burst t A (Some il)" "t \<le> now" "quota_respected gv" "0 < rps" "0 < burst"
    and "burst * replenish rps \<le> max_age" "max_age \<le> now - il_last_access il"
  shows "ip_epochs gv rps burst now A None"
proof -
  have "il_last_access il \<le> now" "\<forall>a \<in> set A. a \<le> il_last_access il"
    using assms(1,2) by (auto simp: ip_epochs_def)
  with assms(6,7) have "\<forall>a \<in> set A. a + burst * replenish rps \<le> now" by fastforce
  with ip_epochs_conform [OF assms(1,3,4,5)] show ?thesis by (simp add: ip_epochs_def)
qed

lemma cleanup_scan_lookup:
  "map_of (cleanup_scan max_age now budget ips m) ip = map_of m ip \<or>
   (map_of (cleanup_scan max_age now budget ips m) ip = None \<and>
    (\<exists>il. map_of m ip = Some il \<and> max_age \<le> now - il_last_access il))"
proof (induction max_age now budget ips m rule: cleanup_scan.induct)
  case (2 max_age now budget i ips m)
  show ?case
  proof (cases "map_of m i")
    case None
    with 2(1) show ?thesis by simp
  next
    case (Some il)
    show ?thesis
    proof (cases "budget = 0 \<or> now - il_last_access il < max_age")
      case True
      with Some 2(2) [OF Some True] show ?thesis by simp
    next
      case False
      with Some 2(3) [OF Some False] show ?thesis by (auto simp: delete_conv' split: if_splits)
    qed
  qed
qed simp

definition ip_inv :: "ip_addr \<Rightarrow> 'l governor \<Rightarrow> 'l rate_limiter_manager \<Rightarrow> rate_log \<Rightarrow> nat \<Rightarrow> bool" where
  "ip_inv ip gv m lg t \<longleftrightarrow>
     (let cfg = rl_per_ip (rm_config m); rps = ip_requests_per_second cfg; burst = ip_burst_capacity cfg in
      rl_enabled (rm_config m) \<and> ip_enabled cfg \<and> 0 < rps \<and> 0 < burst \<and> quota_respected gv \<and>
      burst * replenish rps \<le> rc_max_age_secs (rl_cleanup (rm_config m)) * nanos \<and>
      ip_epochs gv rps burst t (admitted_times (\<lambda>i k. i = ip) lg) (map_of (rm_ip_limiters m) ip))"

lemma ip_inv_later: "ip_inv ip gv m lg t \<Longrightarrow> t \<le> now \<Longrightarrow> ip_inv ip gv m lg now"
  by (auto simp: ip_inv_def Let_def ip_epochs_later)

interpretation ip_run: rate_invariant gv parse_ip "ip_inv ip gv" for gv parse_ip ip
proof (standard, goal_cases)
  case (1 m lg t ck info r m')
  define rps where "rps = ip_requests_per_second (rl_per_ip (rm_config m))"
  define burst where "burst = ip_burst_capacity (rl_per_ip (rm_config m))"
  have h: "rl_enabled (rm_config m)" "ip_enabled (rl_per_ip (rm_config m))"
    "ip_epochs gv rps burst t (admitted_times (\<lambda>i k. i = ip) lg) (map_of (rm_ip_limiters m) ip)"
    using 1(1) by (auto simp: ip_inv_def Let_def rps_def burst_def)
  obtain ok l' where c: "gov_check gv (ck_now ck) (il_limiter (ip_entry gv (ck_now ck) ip m)) = (ok, l')" by fastforce
  have "ip_epochs gv rps burst (ck_now ck)
      (admitted_times (\<lambda>i k. i = ip) lg @ (if ri_client_ip info = ip \<and> r = Admitted then [ck_now ck] else []))
      (map_of (rm_ip_limiters m') ip)"
    using request_ip [OF 1(3) h(1,2) c]
  proof (elim disjE conjE exE)
    assume "map_of (rm_ip_limiters m') ip = map_of (rm_ip_limiters m) ip"
      and "\<not> (ri_client_ip info = ip \<and> r = Admitted)"
    with ip_epochs_later [OF h(3) 1(2)] show ?thesis by auto
  next
    fix il
    assume a: "ri_client_ip info = ip" "r = Admitted \<longrightarrow> ok" "map_of (rm_ip_limiters m') ip = Some il"
      "il_limiter il = l'"
      "il_last_access il = (if r = Admitted then ck_now ck else il_last_access (ip_entry gv (ck_now ck) ip m))"
    with ip_epochs_check [OF h(3) 1(2) _ _ _ a(2) a(5)] c show ?thesis by (simp add: rps_def burst_def)
  qed
  with 1(1) request_config [OF 1(3)] show ?case
    by (simp add: ip_inv_def Let_def rps_def burst_def admitted_times_snoc)
next
  case (2 m lg t now ips)
  then have later: "ip_inv ip gv m lg now" by (rule ip_inv_later)
  from cleanup_scan_lookup [of "rc_max_age_secs (rl_cleanup (rm_config m)) * nanos" now
      "rc_max_cleanup_per_run (rl_cleanup (rm_config m))" ips "rm_ip_limiters m" ip]
  show ?case
  proof (elim disjE conjE exE)
    fix il
    assume a: "map_of (cleanup_scan (rc_max_age_secs (rl_cleanup (rm_config m)) * nanos) now
        (rc_max_cleanup_per_run (rl_cleanup (rm_config m))) ips (rm_ip_limiters m)) ip = None"
      "map_of (rm_ip_limiters m) ip = Some il"
      "rc_max_age_secs (rl_cleanup (rm_config m)) * nanos \<le> now - il_last_access il"
    show ?thesis using later a(1,2) ip_epochs_clean [OF _ order_refl _ _ _ _ a(3)]
      by (auto simp: ip_inv_def Let_def perform_cleanup_def)
  qed (use later in \<open>simp add: ip_inv_def Let_def perform_cleanup_def\<close>)
next
  case (3 m lg t now)
  then show ?case by (rule ip_inv_later)
next
  case 4
  then show ?case by (simp add: ip_inv_def)
qed

section \<open>Managers made from a configuration\<close>

lemma validated_rates:
  assumes "validate_rate_limits c = Ok ()"
  shows "0 < gl_requests_per_second (rl_global c)" "0 < gl_burst_capacity (rl_global c)"
    "ip_enabled (rl_per_ip c) \<Longrightarrow> 0 < ip_requests_per_second (rl_per_ip c)"
    "ip_enabled (rl_per_ip c) \<Longrightarrow> 0 < ip_burst_capacity (rl_per_ip c)"
    "cl_enabled (limits_of (rl_endpoints c) k) \<Longrightarrow> 0 < cl_requests_per_second (limits_of (rl_endpoints c) k)"
    "cl_enabled (limits_of (rl_endpoints c) k) \<Longrightarrow> 0 < cl_burst_capacity (limits_of (rl_endpoints c) k)"
proof -
  have v: "validate_global (rl_global c) = Ok ()" "validate_per_ip (rl_per_ip c) = Ok ()"
    "validate_category (er_health (rl_endpoints c)) ''health'' = Ok ()"
    "validate_category (er_read_operations (rl_endpoints c)) ''read_operations'' = Ok ()"
    "validate_category (er_write_operations (rl_endpoints c)) ''write_operations'' = Ok ()"
    "validate_category (er_cluster_operations (rl_endpoints c)) ''cluster_operations'' = Ok ()"
    using assms by (simp_all add: validate_rate_limits_def validate_endpoints_def)
  show "0 < gl_requests_per_second (rl_global c)" "0 < gl_burst_capacity (rl_global c)"
    using validate_global_Ok [OF v(1)] by auto
  show "0 < ip_requests_per_second (rl_per_ip c)" "0 < ip_burst_capacity (rl_per_ip c)"
    if "ip_enabled (rl_per_ip c)" using validate_per_ip_Ok [OF v(2) that] by auto
  show "0 < cl_requests_per_second (limits_of (rl_endpoints c) k)"
    "0 < cl_burst_capacity (limits_of (rl_endpoints c) k)" if "cl_enabled (limits_of (rl_endpoints c) k)"
    using that v(3-6) by (cases k; auto dest: validate_category_Ok)+
qed

lemma add_category_valid:
  "(cl_enabled lim \<Longrightarrow> 0 < cl_requests_per_second lim \<and> 0 < cl_burst_capacity lim) \<Longrightarrow>
   add_category gv now (k, lim) (Ok acc) =
     Ok (if cl_enabled lim
         then AList.update k (gov_direct gv (cl_requests_per_second lim) (cl_burst_capacity lim) now) acc
         else acc)"
  by (auto simp: add_category_def create_category_limiter_def make_limiter_def)

lemma rate_manager_new_valid:
  assumes "validate_rate_limits c = Ok ()"
  obtains m where "rate_manager_new gv c t0 = Ok m" "rm_config m = c" "rm_ip_limiters m = []"
    "rl_enabled c \<Longrightarrow> rm_global_limiter m =
       Some (gov_direct gv (gl_requests_per_second (rl_global c)) (gl_burst_capacity (rl_global c)) t0)"
    "\<And>k. map_of (rm_category_limiters m) k =
       (if rl_enabled c \<and> cl_enabled (limits_of (rl_endpoints c) k)
        then Some (gov_direct gv (cl_requests_per_second (limits_of (rl_endpoints c) k))
               (cl_burst_capacity (limits_of (rl_endpoints c) k)) t0) else None)"
proof -
  note rates = validated_rates [OF assms]
  define add where "add k acc = (if cl_enabled (limits_of (rl_endpoints c) k)
    then AList.update k (gov_direct gv (cl_requests_per_second (limits_of (rl_endpoints c) k))
           (cl_burst_capacity (limits_of (rl_endpoints c) k)) t0) acc else acc)" for k acc
  define cats where "cats = (if rl_enabled c
    then add ClusterOperations (add WriteOperations (add ReadOperations (add Health []))) else [])"
  have step: "add_category gv t0 (k, limits_of (rl_endpoints c) k) (Ok acc) = Ok (add k acc)" for k acc
    using rates(5,6) [of k] by (simp add: add_category_valid add_def)
  have "fold (add_category gv t0) (map (\<lambda>k. (k, limits_of (rl_endpoints c) k))
      [Health, ReadOperations, WriteOperations, ClusterOperations]) (Ok []) =
      Ok (add ClusterOperations (add WriteOperations (add ReadOperations (add Health []))))"
    by (simp only: list.map fold_simps step)
  then have new: "rate_manager_new gv c t0 =
      Ok \<lparr>rm_config = c,
          rm_global_limiter = (if rl_enabled c then Some (gov_direct gv (gl_requests_per_second (rl_global c))
            (gl_burst_capacity (rl_global c)) t0) else None),
          rm_ip_limiters = [], rm_category_limiters = cats, rm_last_cleanup = t0, rm_cleanup_running = False\<rparr>"
    using rates(1,2) assms by (simp add: rate_manager_new_def make_limiter_def cats_def)
  have lookup: "map_of (add k acc) k' = (if k' = k \<and> cl_enabled (limits_of (rl_endpoints c) k)
      then Some (gov_direct gv (cl_requests_per_second (limits_of (rl_endpoints c) k))
             (cl_burst_capacity (limits_of (rl_endpoints c) k)) t0) else map_of acc k')" for k k' acc
    by (simp add: add_def update_conv')
  have "map_of cats k = (if rl_enabled c \<and> cl_enabled (limits_of (rl_endpoints c) k)
        then Some (gov_direct gv (cl_requests_per_second (limits_of (rl_endpoints c) k))
               (cl_burst_capacity (limits_of (rl_endpoints c) k)) t0) else None)" for k
    by (cases k) (simp_all add: cats_def lookup)
  with new show thesis by (intro that) auto
qed

lemma rate_manager_new_validates: "rate_manager_new gv c t0 = Ok m \<Longrightarrow> validate_rate_limits c = Ok ()"
  by (simp add: rate_manager_new_def split: sum.splits)

text \<open>A manager made from an enabled configuration starts in the three invariants.\<close>

lemma rate_manager_new_invariants:
  assumes new: "rate_manager_new gv c t0 = Ok m" and on: "rl_enabled c" and law: "quota_respected gv"
  shows "rm_config m = c" "global_inv gv m [] t0"
    "cl_enabled (limits_of (rl_endpoints c) k) \<Longrightarrow> category_inv k gv m [] t0"
    "ip_enabled (rl_per_ip c) \<Longrightarrow>
     ip_burst_capacity (rl_per_ip c) * replenish (ip_requests_per_second (rl_per_ip c))
       \<le> rc_max_age_secs (rl_cleanup c) * nanos \<Longrightarrow> ip_inv ip gv m [] t0"
proof -
  note v = rate_manager_new_validates [OF new]
  obtain m0 where m0: "rate_manager_new gv c t0 = Ok m0" "rm_config m0 = c" "rm_ip_limiters m0 = []"
    "rl_enabled c \<Longrightarrow> rm_global_limiter m0 =
       Some (gov_direct gv (gl_requests_per_second (rl_global c)) (gl_burst_capacity (rl_global c)) t0)"
    "\<And>k. map_of (rm_category_limiters m0) k =
       (if rl_enabled c \<and> cl_enabled (limits_of (rl_endpoints c) k)
        then Some (gov_direct gv (cl_requests_per_second (limits_of (rl_endpoints c) k))
               (cl_burst_capacity (limits_of (rl_endpoints c) k)) t0) else None)"
    using rate_manager_new_valid [OF v] by blast
  with new have m: "m0 = m" by simp
  note m0 = m0 [unfolded m]
  show "rm_config m = c" by (rule m0(2))
  show "global_inv gv m [] t0" using m0(2) m0(4) [OF on] on tracks_new [of 0 t0]
    by (auto simp: global_inv_def)
  show "category_inv k gv m [] t0" if "cl_enabled (limits_of (rl_endpoints c) k)"
    using m0(2) m0(5) [of k] on that tracks_new [of 0 t0] by (auto simp: category_inv_def)
  show "ip_inv ip gv m [] t0" if "ip_enabled (rl_per_ip c)"
    "ip_burst_capacity (rl_per_ip c) * replenish (ip_requests_per_second (rl_per_ip c))
       \<le> rc_max_age_secs (rl_cleanup c) * nanos"
    using m0(2,3) on law that validated_rates(3,4) [OF v] by (simp add: ip_inv_def Let_def ip_epochs_def)
qed

lemma global_inv_conforms:
  assumes "global_inv gv m lg t" "quota_respected gv" "validate_rate_limits (rm_config m) = Ok ()"
  shows "conforms (gl_burst_capacity (rl_global (rm_config m)))
           (replenish (gl_requests_per_second (rl_global (rm_config m)))) (admitted_times (\<lambda>ip k. True) lg)"
  using assms(1) unfolding global_inv_def
  by (elim conjE exE) (rule conforms_subseq [OF tracks_conforms [OF assms(2) validated_rates(1,2) [OF assms(3)]]])

lemma category_inv_conforms:
  assumes "category_inv k gv m lg t" "quota_respected gv" "validate_rate_limits (rm_config m) = Ok ()"
    and "cl_enabled (limits_of (rl_endpoints (rm_config m)) k)"
  shows "conforms (cl_burst_capacity (limits_of (rl_endpoints (rm_config m)) k))
           (replenish (cl_requests_per_second (limits_of (rl_endpoints (rm_config m)) k)))
           (admitted_times (\<lambda>ip k'. k' = k) lg)"
  using assms(1) unfolding category_inv_def
  by (elim conjE exE) (rule conforms_subseq [OF tracks_conforms [OF assms(2) validated_rates(5,6) [OF assms(3,4)]]])

lemma ip_inv_conforms:
  assumes "ip_inv ip gv m lg t"
  shows "conforms (ip_burst_capacity (rl_per_ip (rm_config m)))
           (replenish (ip_requests_per_second (rl_per_ip (rm_config m)))) (admitted_times (\<lambda>i k. i = ip) lg)"
  using assms ip_epochs_conform unfolding ip_inv_def Let_def by blast

lemma rate_run_config: "rm_config (snd (rate_run gv parse_ip evs m)) = rm_config m"
proof (induction gv parse_ip evs m rule: rate_run.induct)
  case (2 gv parse_ip ck rq evs m)
  obtain r m' where "rate_limit_filter gv parse_ip ck rq m = (r, m')" by fastforce
  with 2 request_config show ?case by (fastforce simp: Let_def case_prod_beta rate_limit_filter_def)
qed (auto simp: spawned_cleanup_def cleanup_tick_def)

section \<open>Properties\<close>

text \<open>A small configuration and a client, for concrete runs.\<close>

definition small_category :: endpoint_category_limits where
  "small_category = \<lparr>cl_enabled = True, cl_requests_per_second = 1, cl_burst_capacity = 3,
     cl_window_size_secs = 60, cl_endpoint_patterns = [''/health'']\<rparr>"

definition small_rate_limits :: "nat \<Rightarrow> rate_limit_config" where
  "small_rate_limits max_age =
     \<lparr>rl_enabled = True,
      rl_global = \<lparr>gl_requests_per_second = 2, gl_burst_capacity = 4, gl_window_size_secs = 60\<rparr>,
      rl_per_ip = \<lparr>ip_enabled = True, ip_requests_per_second = 1, ip_burst_capacity = 2,
        ip_window_size_secs = 60, ip_max_tracked_ips = 1, ip_expiry_secs = 3600\<rparr>,
      rl_endpoints = \<lparr>er_health = small_category, er_read_operations = small_category,
        er_write_operations = small_category, er_cluster_operations = small_category\<rparr>,
      rl_cleanup = \<lparr>rc_enabled = True, rc_cleanup_interval_secs = 300, rc_max_age_secs = max_age,
        rc_max_cleanup_per_run = 10\<rparr>\<rparr>"

definition sample_request :: "nat \<Rightarrow> nat \<Rightarrow> rate_event" where
  "sample_request now host = Arrive \<lparr>ck_now = now, ck_from = now, ck_until = now, ck_unix = 0\<rparr>
     \<lparr>rq_forwarded = None, rq_real_ip = None, rq_remote = Some (V4 (word_of_nat host)),
      rq_method = ''GET'', rq_path = ''/api/v1/topics''\<rparr>"

lemma small_rate_limits_valid: "0 < age \<Longrightarrow> validate_rate_limits (small_rate_limits age) = Ok ()"
  by (simp add: validate_rate_limits_def validate_global_def validate_per_ip_def
      validate_endpoints_def validate_category_def validate_rate_cleanup_def small_rate_limits_def
      small_category_def Let_def is_white_def)

lemmas rate_evaluation = rate_manager_new_def small_rate_limits_valid make_limiter_def add_category_def
  create_category_limiter_def small_rate_limits_def small_category_def sample_request_def
  rate_limit_filter_def request_info_def extract_client_ip_def categorize_endpoint_def matches_pattern_def
  path_matches_def suffix_def check_rate_limit_def check_global_limit_def check_ip_rate_limit_def
  check_category_rate_limit_def limited_def calculate_retry_after_def calculate_reset_time_def
  update_ip_access_def maybe_trigger_cleanup_def cleanup_tick_def perform_cleanup_def gcra_def replenish_def
  admitted_times_def Let_def

definition small_manager :: "nat \<Rightarrow> (nat \<times> nat \<times> nat) rate_limiter_manager" where
  "small_manager age = \<lparr>rm_config = small_rate_limits age, rm_global_limiter = Some (500000000, 4, 0),
     rm_ip_limiters = [],
     rm_category_limiters = [(Health, (1000000000, 3, 0)), (ReadOperations, (1000000000, 3, 0)),
       (WriteOperations, (1000000000, 3, 0)), (ClusterOperations, (1000000000, 3, 0))],
     rm_last_cleanup = 0, rm_cleanup_running = False\<rparr>"

lemma small_manager_new: "0 < age \<Longrightarrow> rate_manager_new gcra (small_rate_limits age) 0 = Ok (small_manager age)"
  by (simp add: rate_manager_new_def small_rate_limits_valid)
    (simp add: rate_evaluation small_manager_def)

text \<open>C23. In every run of the rate limiter of the admin API, whatever requests and cleanups it
  consists of, the admitted requests conform to the limits: in every window between two admitted
  requests there are at most the burst and one for each replenish interval that passed. This holds
  for all requests together, for each endpoint category with a limit, and for each client address,
  although a cleanup replaces the limiter of an address by a fresh one, if limiters are kept for the
  time in which a burst is replenished. The only assumption is what the limiter crate promises of one
  limiter.\<close>

theorem rate_limits_hold:
  assumes "quota_respected gv" "rate_manager_new gv c t0 = Ok m" "rl_enabled c"
    and "sorted (t0 # map event_time evs)"
  shows "conforms (gl_burst_capacity (rl_global c)) (replenish (gl_requests_per_second (rl_global c)))
      (admitted_times (\<lambda>i k'. True) (fst (rate_run gv parse_ip evs m))) \<and>
    (cl_enabled (limits_of (rl_endpoints c) k) \<longrightarrow>
      conforms (cl_burst_capacity (limits_of (rl_endpoints c) k))
        (replenish (cl_requests_per_second (limits_of (rl_endpoints c) k)))
        (admitted_times (\<lambda>i k'. k' = k) (fst (rate_run gv parse_ip evs m)))) \<and>
    (ip_enabled (rl_per_ip c) \<and>
     ip_burst_capacity (rl_per_ip c) * replenish (ip_requests_per_second (rl_per_ip c))
       \<le> rc_max_age_secs (rl_cleanup c) * nanos \<longrightarrow>
      conforms (ip_burst_capacity (rl_per_ip c)) (replenish (ip_requests_per_second (rl_per_ip c)))
        (admitted_times (\<lambda>i k'. i = ip) (fst (rate_run gv parse_ip evs m))))"
proof (intro conjI impI)
  note v = rate_manager_new_validates [OF assms(2)]
  note start = rate_manager_new_invariants [OF assms(2,3,1)]
  have cfg: "rm_config (snd (rate_run gv parse_ip evs m)) = c" using rate_run_config start(1) by metis
  show "conforms (gl_burst_capacity (rl_global c)) (replenish (gl_requests_per_second (rl_global c)))
      (admitted_times (\<lambda>i k'. True) (fst (rate_run gv parse_ip evs m)))"
    using global_run.run [OF start(2) assms(4), of parse_ip] global_inv_conforms [OF _ assms(1)] v cfg
    by fastforce
  show "conforms (cl_burst_capacity (limits_of (rl_endpoints c) k))
      (replenish (cl_requests_per_second (limits_of (rl_endpoints c) k)))
      (admitted_times (\<lambda>i k'. k' = k) (fst (rate_run gv parse_ip evs m)))"
    if "cl_enabled (limits_of (rl_endpoints c) k)"
    using category_run.run [OF start(3) [OF that] assms(4), of parse_ip]
      category_inv_conforms [OF _ assms(1), of k] v cfg that by fastforce
  show "conforms (ip_burst_capacity (rl_per_ip c)) (replenish (ip_requests_per_second (rl_per_ip c)))
      (admitted_times (\<lambda>i k'. i = ip) (fst (rate_run gv parse_ip evs m)))"
    if "ip_enabled (rl_per_ip c) \<and>
      ip_burst_capacity (rl_per_ip c) * replenish (ip_requests_per_second (rl_per_ip c))
       \<le> rc_max_age_secs (rl_cleanup c) * nanos"
    using ip_run.run [OF start(4) assms(4), of ip parse_ip] ip_inv_conforms [of ip] cfg that by fastforce
qed

theorem rate_limits_hold_witness:
  "conforms 2 1000000000 (admitted_times (\<lambda>i k'. i = V4 7) (fst (rate_run gcra (\<lambda>s. None)
     [sample_request 5 7, sample_request 5 7, sample_request 5 7] (small_manager 2)))) \<and>
   admitted_times (\<lambda>i k'. i = V4 7) (fst (rate_run gcra (\<lambda>s. None)
     [sample_request 5 7, sample_request 5 7, sample_request 5 7] (small_manager 2))) = [5, 5]"
proof
  show "conforms 2 1000000000 (admitted_times (\<lambda>i k'. i = V4 7) (fst (rate_run gcra (\<lambda>s. None)
     [sample_request 5 7, sample_request 5 7, sample_request 5 7] (small_manager 2))))"
    using rate_limits_hold [OF gcra_respected small_manager_new [of 2],
        of "[sample_request 5 7, sample_request 5 7, sample_request 5 7]" "\<lambda>s. None" Health "V4 7"]
    by (simp add: small_rate_limits_def sample_request_def replenish_def)
  show "admitted_times (\<lambda>i k'. i = V4 7) (fst (rate_run gcra (\<lambda>s. None)
     [sample_request 5 7, sample_request 5 7, sample_request 5 7] (small_manager 2))) = [5, 5]"
    by (simp add: rate_evaluation small_manager_def)
qed

text \<open>No outcome of a run is a panic: the divisors and the unwrapped rates are those validation
  checks, and a category has a limiter only if it is enabled.\<close>

definition panic_inv :: "'l rate_limiter_manager \<Rightarrow> rate_log \<Rightarrow> nat \<Rightarrow> bool" where
  "panic_inv m lg t \<longleftrightarrow> validate_rate_limits (rm_config m) = Ok () \<and>
     (\<forall>k. map_of (rm_category_limiters m) k \<noteq> None \<longrightarrow> cl_enabled (limits_of (rl_endpoints (rm_config m)) k)) \<and>
     Panicked \<notin> (\<lambda>(t, ip, k, r). r) ` set lg"

lemma limited_not_panicked: "0 < limit \<Longrightarrow> limited ck msg limit \<noteq> Panicked"
  by (simp add: limited_def calculate_retry_after_def)

lemma check_category_not_panicked:
  assumes "check_category_rate_limit gv ck k m = (r, m')"
    and "\<forall>k. map_of (rm_category_limiters m) k \<noteq> None \<longrightarrow> 0 < cl_requests_per_second (limits_of (rl_endpoints (rm_config m)) k)"
  shows "r \<noteq> Panicked" "map_of (rm_category_limiters m') k' = None \<longleftrightarrow> map_of (rm_category_limiters m) k' = None"
  using assms limited_not_panicked
  by (auto simp: check_category_rate_limit_def Let_def case_prod_beta update_conv' split: option.splits if_splits)

lemma request_not_panicked:
  assumes "check_rate_limit gv ck info m = (r, m')" and v: "validate_rate_limits (rm_config m) = Ok ()"
    and cats: "\<forall>k. map_of (rm_category_limiters m) k \<noteq> None \<longrightarrow> cl_enabled (limits_of (rl_endpoints (rm_config m)) k)"
  shows "r \<noteq> Panicked \<and> (\<forall>k. map_of (rm_category_limiters m') k = None \<longleftrightarrow> map_of (rm_category_limiters m) k = None)"
proof (cases "rl_enabled (rm_config m)")
  case False
  with assms(1) show ?thesis by (simp add: check_rate_limit_def Let_def)
next
  case True
  note rates = validated_rates [OF v]
  have pos: "\<forall>k. map_of (rm_category_limiters m) k \<noteq> None \<longrightarrow>
      0 < cl_requests_per_second (limits_of (rl_endpoints (rm_config m)) k)"
    using cats rates(5) by blast
  have same: "rm_category_limiters m2 = rm_category_limiters m \<and> rm_config m2 = rm_config m"
    if "check_global_limit gv (ck_now ck) m = (True, m1)"
      "(if ip_enabled (rl_per_ip (rm_config m)) then check_ip_rate_limit gv (ck_now ck) (ri_client_ip info) m1
        else Some (True, m1)) = Some (True, m2)" for m1 m2
    using that check_global_fields [OF that(1)] by (auto simp: check_ip_fields split: if_splits)
  from assms(1) True show ?thesis
  proof (cases rule: check_rate_limit_cases)
    case Global
    then show ?thesis using rates(1) check_global_fields [OF Global(1)] by (simp add: limited_not_panicked)
  next
    case Panic
    then show ?thesis using rates(3,4) check_global_fields [OF Panic(1)]
      by (auto simp: check_ip_rate_limit_def Let_def case_prod_beta split: option.splits if_splits)
  next
    case (Ip m1)
    then show ?thesis using rates(3) check_global_fields [OF Ip(1)] check_ip_fields [OF Ip(3)]
      by (simp add: limited_not_panicked)
  next
    case (Category m1 m2)
    then show ?thesis using check_category_not_panicked [OF Category(3)] same [OF Category(1,2)] pos by simp
  next
    case (Pass m1 m2 m3)
    then show ?thesis using check_category_not_panicked [OF Pass(3)] same [OF Pass(1,2)] pos by simp
  qed
qed

interpretation panic_run: rate_invariant gv parse_ip panic_inv for gv parse_ip
proof (standard, goal_cases)
  case (1 m lg t ck info r m')
  then show ?case using request_not_panicked [OF 1(3)] request_config [OF 1(3)] by (auto simp: panic_inv_def)
qed (simp_all add: panic_inv_def)

text \<open>C32. A validated configuration gives a rate limiter, and no request to it panics in any run:
  neither the unwrapped rates of a new limiter nor the division by the rate of a refused request can
  be reached with a zero.\<close>

theorem validated_limiter_never_panics:
  assumes "validate_rate_limits c = Ok ()" "sorted (t0 # map event_time evs)"
  shows "\<exists>m. rate_manager_new gv c t0 = Ok m \<and>
    Panicked \<notin> (\<lambda>(t, ip, k, r). r) ` set (fst (rate_run gv parse_ip evs m))"
proof -
  obtain m where m: "rate_manager_new gv c t0 = Ok m" "rm_config m = c"
    "\<And>k. map_of (rm_category_limiters m) k =
       (if rl_enabled c \<and> cl_enabled (limits_of (rl_endpoints c) k)
        then Some (gov_direct gv (cl_requests_per_second (limits_of (rl_endpoints c) k))
               (cl_burst_capacity (limits_of (rl_endpoints c) k)) t0) else None)"
    using rate_manager_new_valid [OF assms(1)] by blast
  then have "panic_inv m [] t0" using assms(1) by (simp add: panic_inv_def)
  from panic_run.run [OF this assms(2), of gv parse_ip] m(1) show ?thesis by (auto simp: panic_inv_def)
qed

theorem validated_limiter_never_panics_witness:
  "\<exists>m. rate_manager_new gcra default_rate_limits 1 = Ok m \<and>
    Panicked \<notin> (\<lambda>(t, ip, k, r). r) ` set (fst (rate_run gcra (\<lambda>s. None) [sample_request 5 7, sample_request 6 7] m))"
  using validated_limiter_never_panics [OF default_rate_limits_valid,
      of 1 "[sample_request 5 7, sample_request 6 7]" gcra "\<lambda>s. None"]
  by (simp add: sample_request_def)

section \<open>Where the limiter falls short\<close>

text \<open>The default configuration lists the decommissioning of a broker among the cluster operations,
  but a pattern with a star inside matches nothing, so such a request is counted as a read.\<close>

lemma decommission_counts_as_read:
  "categorize_endpoint default_rate_limits meth (''/api/v1/brokers/'' @ broker @ ''/decommission'') = ReadOperations"
  by (simp add: categorize_endpoint_def matches_pattern_def path_matches_def suffix_def rate_defaults Let_def)

text \<open>A pattern that ends in a star after a separator also matches paths without the separator.\<close>

lemma star_ignores_separator: "path_matches (''/api/v1/topics'' @ rest) ''/api/v1/topics/*''"
  by (simp add: path_matches_def suffix_def)

text \<open>The global limiter is asked first and is charged for requests that the limiter of their
  address then refuses: one client that is over its own limit uses up the limit of all.\<close>

lemma refused_requests_exhaust_global_limit:
  "map (\<lambda>(t, ip, k, r). (ip, case r of Limited e \<Rightarrow> re_error e | _ \<Rightarrow> '''')) (fst (rate_run gcra (\<lambda>s. None)
     [sample_request 5 7, sample_request 5 7, sample_request 5 7, sample_request 5 7, sample_request 5 8]
     (small_manager 2))) =
   [(V4 7, ''''), (V4 7, ''''), (V4 7, ''Per-IP rate limit exceeded''),
    (V4 7, ''Per-IP rate limit exceeded''), (V4 8, ''Global rate limit exceeded'')]"
  by (simp add: rate_evaluation small_manager_def)

text \<open>The bound on the number of tracked addresses is validated and never used.\<close>

lemma tracked_ips_exceed_limit:
  "length (rm_ip_limiters (snd (rate_run gcra (\<lambda>s. None)
     [sample_request 5 7, sample_request 5 8, sample_request 5 9] (small_manager 2)))) = 3 \<and>
   ip_max_tracked_ips (rl_per_ip (rm_config (small_manager 2))) = 1"
  by (simp add: rate_evaluation small_manager_def)

text \<open>Validation accepts a maximal age shorter than the time in which a burst is replenished. A
  cleanup then renews the burst: four requests of one address pass within a second, where a burst of
  two and one request per second allow three.\<close>

lemma short_max_age_renews_burst:
  "admitted_times (\<lambda>i k. i = V4 7) (fst (rate_run gcra (\<lambda>s. None)
     [sample_request 0 7, sample_request 0 7, CleanupTick 1000000000 [V4 7],
      sample_request 1000000000 7, sample_request 1000000000 7] (small_manager 1))) =
   [0, 0, 1000000000, 1000000000] \<and>
   \<not> conforms 2 1000000000 [0, 0, 1000000000, 1000000000]"
proof
  show "\<not> conforms 2 1000000000 [0, 0, 1000000000, 1000000000]"
    using conforms_between [of 2 1000000000 "[0, 0, 1000000000, 1000000000]" 0 3] by auto
qed (simp add: rate_evaluation small_manager_def)

text \<open>The time of the reset is measured between two readings of the clock, so it is a second early
  as soon as the clock moves between them.\<close>

lemma reset_time_early:
  assumes "ck_from ck < ck_until ck" "ck_until ck \<le> ck_from ck + nanos" "0 < retry"
  shows "calculate_reset_time ck retry = retry - 1 + ck_unix ck"
proof -
  define gap where "gap = ck_until ck - ck_from ck"
  have gap: "0 < gap" "gap \<le> nanos" using assms by (auto simp: gap_def)
  have "ck_from ck + retry * nanos - ck_until ck = (retry - 1) * nanos + (nanos - gap)"
    using assms gap by (cases retry) (auto simp: gap_def)
  moreover have "((retry - 1) * nanos + (nanos - gap)) div nanos = retry - 1"
    using gap by (intro div_nat_eqI) auto
  ultimately show ?thesis by (simp add: calculate_reset_time_def)
qed

end
