(* ===== verification/Controller_State.thy ===== *)
theory Controller_State
  imports RMQ_Types "HOL-Library.Sublist"
begin

text \<open>
  The storage that the controller gives to the openraft library (\<open>controller/openraft_storage.rs\<close>): the replicated state
  machine of topics, brokers and partition assignments with its snapshots, and the log storage with its cache and its log
  files. openraft itself is not modelled: its types \<open>LogId\<close>, \<open>Entry\<close> and \<open>LogState\<close> are data here, a membership entry
  is opaque. serde_json, bincode and crc32fast are arguments; a clock reading comes with each applied entry.
\<close>

section \<open>Data\<close>

type_synonym node_id = nat

record topic_config =
  tc_retention_ms :: "nat option"
  tc_segment_bytes :: "nat option"
  tc_compression_type :: "string option"

record topic_info =
  ti_name :: string
  ti_partitions :: nat
  ti_replication_factor :: nat
  ti_config :: topic_config
  ti_created_at :: int

record broker_info =
  bi_id :: broker_id
  bi_host :: string
  bi_port_quic :: nat
  bi_port_rpc :: nat
  bi_rack_id :: string

record partition_assignment =
  pa_leader :: broker_id
  pa_replicas :: "broker_id list"
  pa_in_sync_replicas :: "broker_id list"
  pa_leader_epoch :: nat

datatype app_data =
    CreateTopic string nat nat topic_config
  | DeleteTopic string
  | AddBroker broker_info
  | RemoveBroker broker_id
  | UpdatePartitionAssignment topic_partition partition_assignment

record app_data_response =
  ar_success :: bool
  ar_error_message :: "string option"
  ar_data :: "string option"

record log_id =
  li_term :: nat
  li_node :: node_id
  li_index :: nat

datatype entry_payload = Blank | Normal app_data | Membership

record raft_entry =
  en_log_id :: log_id
  en_payload :: entry_payload

record snapshot_data =
  sd_topics :: "(string \<times> topic_info) list"
  sd_brokers :: "(broker_id \<times> broker_info) list"
  sd_partition_assignments :: "(topic_partition \<times> partition_assignment) list"
  sd_last_applied_log :: "log_id option"
  sd_snapshot_version :: nat

definition snapshot_data_default :: snapshot_data where
  "snapshot_data_default = \<lparr>sd_topics = [], sd_brokers = [], sd_partition_assignments = [], sd_last_applied_log = None, sd_snapshot_version = 0\<rparr>"

section \<open>The state machine\<close>

definition succeeded :: "string option \<Rightarrow> app_data_response" where
  "succeeded data = \<lparr>ar_success = True, ar_error_message = None, ar_data = data\<rparr>"

definition failed :: "string \<Rightarrow> app_data_response" where
  "failed msg = \<lparr>ar_success = False, ar_error_message = Some msg, ar_data = None\<rparr>"

fun apply_app_data :: "int \<Rightarrow> app_data \<Rightarrow> snapshot_data \<Rightarrow> app_data_response \<times> snapshot_data" where
  "apply_app_data now (CreateTopic name partitions replication_factor config) s =
     (if map_of (sd_topics s) name \<noteq> None then (failed (''Topic '' @ name @ '' already exists''), s)
      else (succeeded (Some (''Topic '' @ name @ '' created'')),
            s\<lparr>sd_topics := bt_insert name \<lparr>ti_name = name, ti_partitions = partitions, ti_replication_factor = replication_factor,
                ti_config = config, ti_created_at = now\<rparr> (sd_topics s)\<rparr>))"
| "apply_app_data now (DeleteTopic name) s =
     (if map_of (sd_topics s) name \<noteq> None
      then (succeeded (Some (''Topic '' @ name @ '' deleted'')),
            s\<lparr>sd_topics := bt_remove name (sd_topics s),
              sd_partition_assignments := filter (\<lambda>(tp, a). tp_topic tp \<noteq> name) (sd_partition_assignments s)\<rparr>)
      else (failed (''Topic '' @ name @ '' not found''), s))"
| "apply_app_data now (AddBroker broker) s =
     (succeeded (Some (''Broker '' @ bi_id broker @ '' added'')), s\<lparr>sd_brokers := bt_insert (bi_id broker) broker (sd_brokers s)\<rparr>)"
| "apply_app_data now (RemoveBroker b) s =
     (if map_of (sd_brokers s) b \<noteq> None
      then (succeeded (Some (''Broker '' @ b @ '' removed'')), s\<lparr>sd_brokers := bt_remove b (sd_brokers s)\<rparr>)
      else (failed (''Broker '' @ b @ '' not found''), s))"
| "apply_app_data now (UpdatePartitionAssignment tp a) s =
     (succeeded (Some (''Partition assignment updated for '' @ show_tp tp)),
      s\<lparr>sd_partition_assignments := bt_insert tp a (sd_partition_assignments s)\<rparr>)"

record state_machine =
  sm_state :: snapshot_data
  sm_last_applied :: "log_id option"
  sm_applied_since :: nat

fun apply_payload :: "int \<Rightarrow> entry_payload \<Rightarrow> snapshot_data \<Rightarrow> app_data_response \<times> snapshot_data" where
  "apply_payload now Blank s = (succeeded None, s)"
| "apply_payload now (Normal app_data) s = apply_app_data now app_data s"
| "apply_payload now Membership s = (succeeded (Some ''Membership change applied''), s)"

definition apply_entry :: "int \<times> raft_entry \<Rightarrow> app_data_response list \<times> state_machine \<Rightarrow> app_data_response list \<times> state_machine" where
  "apply_entry ne acc =
     (let (now, e) = ne; (responses, sm) = acc;
          (response, s) = apply_payload now (en_payload e) (sm_state sm)
      in (responses @ [response],
          sm\<lparr>sm_state := s\<lparr>sd_last_applied_log := Some (en_log_id e)\<rparr>, sm_last_applied := Some (en_log_id e)\<rparr>))"

text \<open>\<open>apply\<close>: the responses, the new state, and whether a background task is started that saves a snapshot.\<close>

definition sm_apply :: "nat \<Rightarrow> (int \<times> raft_entry) list \<Rightarrow> state_machine \<Rightarrow> app_data_response list \<times> bool \<times> state_machine" where
  "sm_apply snapshot_threshold entries sm =
     (let (responses, sm1) = fold apply_entry entries ([], sm);
          since = sm_applied_since sm1 + length responses;
          save = (since \<ge> snapshot_threshold)
      in (responses, save, sm1\<lparr>sm_applied_since := (if save then 0 else since)\<rparr>))"

text \<open>bincode on the two snapshot types; the type of the encoded bytes is left open.\<close>

type_synonym snapshot_payload = "snapshot_data \<times> log_id option"

record 'b snapshot_codec =
  sk_data :: "snapshot_data \<Rightarrow> 'b"
  sk_undata :: "'b \<Rightarrow> snapshot_data option"
  sk_payload :: "snapshot_payload \<Rightarrow> 'b"
  sk_unpayload :: "'b \<Rightarrow> snapshot_payload option"

text \<open>\<open>snapshot.bin\<close> is written to a temporary name and renamed, so it holds the old or the new contents.\<close>

definition sm_save_snapshot :: "'b snapshot_codec \<Rightarrow> state_machine \<Rightarrow> 'b" where
  "sm_save_snapshot k sm = sk_data k (sm_state sm)"

definition sm_new :: "'b snapshot_codec \<Rightarrow> 'b option \<Rightarrow> state_machine" where
  "sm_new k snapshot_file =
     (let s = (case Option.bind snapshot_file (sk_undata k) of None \<Rightarrow> snapshot_data_default | Some s \<Rightarrow> s)
      in \<lparr>sm_state = s, sm_last_applied = None, sm_applied_since = 0\<rparr>)"

definition get_snapshot_builder :: "'b snapshot_codec \<Rightarrow> state_machine \<Rightarrow> 'b" where
  "get_snapshot_builder k sm = sk_payload k (sm_state sm, sm_last_applied sm)"

record 'b raft_snapshot =
  sp_last_log_id :: "log_id option"
  sp_bytes :: 'b

definition build_snapshot :: "'b snapshot_codec \<Rightarrow> 'b \<Rightarrow> 'b raft_snapshot result" where
  "build_snapshot k data =
     (case sk_unpayload k data of
        None \<Rightarrow> Err (Io ''InvalidData'')
      | Some (d, last_log_id) \<Rightarrow> Ok \<lparr>sp_last_log_id = last_log_id, sp_bytes = data\<rparr>)"

definition install_snapshot :: "'b snapshot_codec \<Rightarrow> 'b \<Rightarrow> state_machine \<Rightarrow> unit result \<times> state_machine" where
  "install_snapshot k bs sm =
     (case sk_unpayload k bs of
        None \<Rightarrow> (Err (Io ''InvalidData''), sm)
      | Some (d, last_log_id) \<Rightarrow> (Ok (), sm\<lparr>sm_state := d, sm_last_applied := last_log_id\<rparr>))"

definition get_current_snapshot :: "'b snapshot_codec \<Rightarrow> state_machine \<Rightarrow> 'b raft_snapshot option" where
  "get_current_snapshot k sm =
     (case sm_last_applied sm of
        None \<Rightarrow> None
      | Some l \<Rightarrow> Some \<lparr>sp_last_log_id = Some l, sp_bytes = sk_data k (sm_state sm)\<rparr>)"

section \<open>The log storage\<close>

record storage_config =
  st_sync_write :: bool
  st_cache_size :: nat

record log_state =
  ls_last_log_id :: "log_id option"
  ls_last_purged_log_id :: "log_id option"

text \<open>
  The log files, by name, each a list of lines; the file that is open for writing; and the lines still in the buffer of
  the writer.
\<close>

record log_storage =
  lo_state :: log_state
  lo_entries_cache :: "(nat \<times> raft_entry) list"
  lo_files :: "(string \<times> string list) list"
  lo_writer :: "string option"
  lo_buffer :: "string list"

record line_codec =
  lk_vec :: "raft_entry \<Rightarrow> bytes"
  lk_crc :: "bytes \<Rightarrow> nat"
  lk_line :: "raft_entry \<Rightarrow> nat \<Rightarrow> int \<Rightarrow> string"
  lk_unline :: "string \<Rightarrow> (raft_entry \<times> nat) option"

definition blank_line :: "string \<Rightarrow> bool" where
  "blank_line line \<longleftrightarrow> (\<forall>c \<in> set line. of_char c \<in> {9, 10, 11, 12, 13, 32 :: nat})"

definition load_line :: "line_codec \<Rightarrow> string \<Rightarrow> raft_entry list" where
  "load_line k line =
     (if blank_line line then []
      else (case lk_unline k line of
              None \<Rightarrow> []
            | Some (e, checksum) \<Rightarrow> if lk_crc k (lk_vec k e) = checksum then [e] else []))"

definition load_entries_from_file :: "line_codec \<Rightarrow> string list \<Rightarrow> raft_entry list" where
  "load_entries_from_file k lines = concat (map (load_line k) lines)"

definition cache_insert :: "raft_entry \<Rightarrow> (nat \<times> raft_entry) list \<Rightarrow> (nat \<times> raft_entry) list" where
  "cache_insert e cache = bt_insert (li_index (en_log_id e)) e cache"

definition load_wal_entries :: "line_codec \<Rightarrow> (string \<times> string list) list \<Rightarrow> (nat \<times> raft_entry) list" where
  "load_wal_entries k files =
     (let wal_files = filter (\<lambda>(name, lines). prefix ''wal_'' name \<and> suffix ''.log'' name) files
      in fold cache_insert (concat (map (\<lambda>(name, lines). load_entries_from_file k lines) wal_files)) [])"

definition log_storage_new :: "line_codec \<Rightarrow> (string \<times> string list) list \<Rightarrow> log_storage" where
  "log_storage_new k files =
     \<lparr>lo_state = \<lparr>ls_last_log_id = None, ls_last_purged_log_id = None\<rparr>, lo_entries_cache = load_wal_entries k files,
      lo_files = files, lo_writer = None, lo_buffer = []\<rparr>"

definition get_wal_writer :: "nat \<Rightarrow> log_storage \<Rightarrow> string \<times> log_storage" where
  "get_wal_writer timestamp s =
     (case lo_writer s of
        Some name \<Rightarrow> (name, s)
      | None \<Rightarrow>
          (let name = ''wal_'' @ show_nat timestamp @ ''.log''
           in (name, s\<lparr>lo_writer := Some name, lo_files := bt_insert name (hm_entry [] (lo_files s) name) (lo_files s)\<rparr>)))"

definition flush_writer :: "string \<Rightarrow> log_storage \<Rightarrow> log_storage" where
  "flush_writer name s = s\<lparr>lo_files := bt_insert name (hm_entry [] (lo_files s) name @ lo_buffer s) (lo_files s), lo_buffer := []\<rparr>"

definition write_to_wal :: "line_codec \<Rightarrow> storage_config \<Rightarrow> nat \<Rightarrow> (int \<times> raft_entry) list \<Rightarrow> log_storage \<Rightarrow> log_storage" where
  "write_to_wal k config timestamp entries s =
     (let (name, s1) = get_wal_writer timestamp s;
          lines = map (\<lambda>(now, e). lk_line k e (lk_crc k (lk_vec k e)) now) entries;
          s2 = s1\<lparr>lo_buffer := lo_buffer s1 @ lines\<rparr>
      in if st_sync_write config then flush_writer name s2 else s2)"

definition log_append :: "line_codec \<Rightarrow> storage_config \<Rightarrow> nat \<Rightarrow> (int \<times> raft_entry) list \<Rightarrow> log_storage \<Rightarrow> log_storage" where
  "log_append k config timestamp entries s =
     (if entries = [] then s
      else
        (let s1 = write_to_wal k config timestamp entries s;
             cache = fold cache_insert (map snd entries) (lo_entries_cache s1);
             excess = length cache - st_cache_size config;
             cache' = fold bt_remove (map fst (take excess cache)) cache
         in s1\<lparr>lo_entries_cache := cache',
               lo_state := (lo_state s1)\<lparr>ls_last_log_id := Some (en_log_id (snd (last entries)))\<rparr>\<rparr>))"

definition log_truncate :: "log_id \<Rightarrow> log_storage \<Rightarrow> log_storage" where
  "log_truncate l s =
     (let cache = fold bt_remove (filter (\<lambda>i. i \<ge> li_index l) (map fst (lo_entries_cache s))) (lo_entries_cache s);
          last_id = (case ls_last_log_id (lo_state s) of
                       None \<Rightarrow> None
                     | Some last_id \<Rightarrow>
                         if li_index last_id \<ge> li_index l
                         then (if cache = [] then None else Some (en_log_id (snd (last cache))))
                         else Some last_id)
      in s\<lparr>lo_entries_cache := cache, lo_state := (lo_state s)\<lparr>ls_last_log_id := last_id\<rparr>\<rparr>)"

definition log_purge :: "log_id \<Rightarrow> log_storage \<Rightarrow> log_storage" where
  "log_purge l s =
     s\<lparr>lo_entries_cache := fold bt_remove (filter (\<lambda>i. i \<le> li_index l) (map fst (lo_entries_cache s))) (lo_entries_cache s),
       lo_state := (lo_state s)\<lparr>ls_last_purged_log_id := Some l\<rparr>\<rparr>"

datatype bound = Included nat | Excluded nat | Unbounded

function read_range :: "(nat \<times> raft_entry) list \<Rightarrow> nat \<Rightarrow> nat \<Rightarrow> raft_entry list" where
  "read_range cache i end_bound =
     (if i < end_bound
      then (case map_of cache i of None \<Rightarrow> [] | Some e \<Rightarrow> e # read_range cache (i + 1) end_bound)
      else [])"
  by pat_completeness auto
termination by (relation "measure (\<lambda>(cache, i, end_bound). end_bound - i)") auto

declare read_range.simps [simp del]

definition try_get_log_entries :: "bound \<Rightarrow> bound \<Rightarrow> log_storage \<Rightarrow> raft_entry list" where
  "try_get_log_entries start stop s =
     (let start_bound = (case start of Included i \<Rightarrow> i | Excluded i \<Rightarrow> (i + 1) mod 2 ^ 64 | Unbounded \<Rightarrow> 0);
          end_bound = (case stop of Included i \<Rightarrow> (i + 1) mod 2 ^ 64 | Excluded i \<Rightarrow> i | Unbounded \<Rightarrow> u64_max)
      in read_range (lo_entries_cache s) start_bound end_bound)"

text \<open>\<open>save_vote\<close>, \<open>read_vote\<close>, \<open>save_committed\<close> and \<open>read_committed\<close> keep nothing.\<close>

definition save_vote :: "'v \<Rightarrow> log_storage \<Rightarrow> log_storage" where
  "save_vote vote s = s"

definition read_vote :: "log_storage \<Rightarrow> 'v option" where
  "read_vote s = None"

definition save_committed :: "log_id option \<Rightarrow> log_storage \<Rightarrow> log_storage" where
  "save_committed committed s = s"

definition read_committed :: "log_storage \<Rightarrow> log_id option" where
  "read_committed s = None"

definition get_log_state :: "log_storage \<Rightarrow> log_state" where
  "get_log_state s = lo_state s"


section \<open>Replicas agree\<close>

text \<open>
  The only input of the state machine that is not in the log is the clock: \<open>created_at\<close> of a topic is read when the entry
  is applied. The specification applies a log with the clock at zero, to a state from which the clock has been erased.
\<close>

definition erase_topic :: "topic_info \<Rightarrow> topic_info" where
  "erase_topic t = t\<lparr>ti_created_at := 0\<rparr>"

definition erase :: "snapshot_data \<Rightarrow> snapshot_data" where
  "erase s = s\<lparr>sd_topics := map (\<lambda>(k, t). (k, erase_topic t)) (sd_topics s)\<rparr>"

type_synonym machine_spec = "snapshot_data \<times> log_id option"

definition abs_sm :: "state_machine \<Rightarrow> machine_spec" where
  "abs_sm sm = (erase (sm_state sm), sm_last_applied sm)"

definition spec_entry :: "raft_entry \<Rightarrow> machine_spec \<Rightarrow> machine_spec" where
  "spec_entry e st = ((snd (apply_payload 0 (en_payload e) (fst st)))\<lparr>sd_last_applied_log := Some (en_log_id e)\<rparr>, Some (en_log_id e))"

fun spec_responses :: "raft_entry list \<Rightarrow> machine_spec \<Rightarrow> app_data_response list" where
  "spec_responses [] st = []"
| "spec_responses (e # es) st = fst (apply_payload 0 (en_payload e) (fst st)) # spec_responses es (spec_entry e st)"

fun apply_batches :: "nat \<Rightarrow> (int \<times> raft_entry) list list \<Rightarrow> state_machine \<Rightarrow> app_data_response list \<times> state_machine" where
  "apply_batches threshold [] sm = ([], sm)"
| "apply_batches threshold (b # bs) sm =
     (let (r, save, sm1) = sm_apply threshold b sm; (rs, sm2) = apply_batches threshold bs sm1 in (r @ rs, sm2))"

definition entries_of :: "(int \<times> raft_entry) list list \<Rightarrow> raft_entry list" where
  "entries_of bs = map snd (concat bs)"

lemma bt_insert_map_values:
  "map (\<lambda>(k, v). (k, f v)) (bt_insert k v t) = bt_insert k (f v) (map (\<lambda>(k, v). (k, f v)) t)"
  by (induction t) (auto split: prod.splits)

lemma bt_remove_map_values:
  "map (\<lambda>(k, v). (k, f v)) (bt_remove k t) = bt_remove k (map (\<lambda>(k, v). (k, f v)) t)"
  by (induction t) (auto simp: bt_remove_def split: prod.splits)

lemma map_of_erase [simp]: "map_of (sd_topics (erase s)) name = map_option erase_topic (map_of (sd_topics s) name)"
  by (simp add: erase_def map_of_map)

lemma erase_other [simp]:
  "sd_brokers (erase s) = sd_brokers s" "sd_partition_assignments (erase s) = sd_partition_assignments s"
  "sd_last_applied_log (erase s) = sd_last_applied_log s" "sd_snapshot_version (erase s) = sd_snapshot_version s"
  by (simp_all add: erase_def)

lemma erase_set_last [simp]: "erase (s\<lparr>sd_last_applied_log := l\<rparr>) = (erase s)\<lparr>sd_last_applied_log := l\<rparr>"
  by (simp add: erase_def)

lemma erase_default [simp]: "erase snapshot_data_default = snapshot_data_default"
  by (simp add: erase_def snapshot_data_default_def)

lemma apply_app_data_refines:
  "fst (apply_app_data now c s) = fst (apply_app_data 0 c (erase s)) \<and>
   erase (snd (apply_app_data now c s)) = snd (apply_app_data 0 c (erase s))"
  by (cases c)
    (auto simp: erase_def bt_insert_map_values bt_remove_map_values erase_topic_def map_of_map succeeded_def failed_def)

lemma apply_payload_refines:
  "fst (apply_payload now p s) = fst (apply_payload 0 p (erase s)) \<and>
   erase (snd (apply_payload now p s)) = snd (apply_payload 0 p (erase s))"
  using apply_app_data_refines [of now _ s] by (cases p) simp_all

lemma fold_apply_entry:
  "fold apply_entry es (rs, sm) = (rs', sm') \<Longrightarrow>
     rs' = rs @ spec_responses (map snd es) (abs_sm sm) \<and> abs_sm sm' = fold spec_entry (map snd es) (abs_sm sm) \<and>
     sm_applied_since sm' = sm_applied_since sm"
proof (induction es arbitrary: rs sm)
  case (Cons ne es)
  obtain now e where ne: "ne = (now, e)" by (cases ne)
  obtain r s where p: "apply_payload now (en_payload e) (sm_state sm) = (r, s)" by fastforce
  have spec: "apply_payload 0 (en_payload e) (erase (sm_state sm)) = (r, erase s)"
    using apply_payload_refines [of now "en_payload e" "sm_state sm"] by (simp add: p prod_eq_iff)
  let ?sm = "sm\<lparr>sm_state := s\<lparr>sd_last_applied_log := Some (en_log_id e)\<rparr>, sm_last_applied := Some (en_log_id e)\<rparr>"
  have "fold apply_entry es (rs @ [r], ?sm) = (rs', sm')"
    using Cons.prems by (simp add: ne p apply_entry_def [of "(now, e)"])
  moreover have "abs_sm ?sm = spec_entry e (abs_sm sm)" by (simp add: spec spec_entry_def abs_sm_def)
  ultimately show ?case using Cons.IH [of "rs @ [r]" ?sm] by (simp add: ne spec abs_sm_def)
qed simp

lemma sm_apply_refines:
  assumes "sm_apply th es sm = (rs, save, sm')"
  shows "rs = spec_responses (map snd es) (abs_sm sm) \<and> abs_sm sm' = fold spec_entry (map snd es) (abs_sm sm)"
proof -
  obtain rs1 sm1 where f: "fold apply_entry es ([], sm) = (rs1, sm1)" by (cases "fold apply_entry es ([], sm)")
  have "rs = rs1" "abs_sm sm' = abs_sm sm1"
    using assms by (auto simp: sm_apply_def f Let_def abs_sm_def)
  then show ?thesis using fold_apply_entry [OF f] by simp
qed

lemma spec_responses_append:
  "spec_responses (es @ es') st = spec_responses es st @ spec_responses es' (fold spec_entry es st)"
  by (induction es arbitrary: st) simp_all

lemma apply_batches_refines:
  "apply_batches th bs sm = (rs, sm') \<Longrightarrow>
     rs = spec_responses (entries_of bs) (abs_sm sm) \<and> abs_sm sm' = fold spec_entry (entries_of bs) (abs_sm sm)"
proof (induction bs arbitrary: sm rs)
  case (Cons b bs)
  obtain r save sm1 where a: "sm_apply th b sm = (r, save, sm1)" by (cases "sm_apply th b sm")
  obtain rs2 where b: "apply_batches th bs sm1 = (rs2, sm')" using Cons.prems by (auto simp: a split: prod.splits)
  show ?case
    using Cons.prems sm_apply_refines [OF a] Cons.IH [OF b]
    by (simp add: a b entries_of_def spec_responses_append)
qed (simp add: entries_of_def)

lemma install_built_snapshot:
  assumes "\<And>p. sk_unpayload k (sk_payload k p) = Some p"
  shows "\<exists>sp. build_snapshot k (get_snapshot_builder k sm) = Ok sp \<and> sp_last_log_id sp = sm_last_applied sm \<and>
    (\<exists>sm'. install_snapshot k (sp_bytes sp) fresh = (Ok (), sm') \<and> abs_sm sm' = abs_sm sm)"
  by (simp add: build_snapshot_def get_snapshot_builder_def install_snapshot_def assms abs_sm_def)

section \<open>Applying a log again\<close>

text \<open>
  What one command does to one topic, one broker and one partition assignment. A whole log acts on a topic as a constant,
  as the identity, or as a default, on a broker as a constant or as the identity; all of these are idempotent. On an
  assignment the log acts idempotently only if it never assigns a partition of a topic that does not exist.
\<close>

fun topic_step :: "string \<Rightarrow> app_data \<Rightarrow> topic_info option \<Rightarrow> topic_info option" where
  "topic_step t (CreateTopic name ps rf config) x =
     (if name = t \<and> x = None
      then Some \<lparr>ti_name = name, ti_partitions = ps, ti_replication_factor = rf, ti_config = config, ti_created_at = 0\<rparr> else x)"
| "topic_step t (DeleteTopic name) x = (if name = t then None else x)"
| "topic_step t c x = x"

fun broker_step :: "broker_id \<Rightarrow> app_data \<Rightarrow> broker_info option \<Rightarrow> broker_info option" where
  "broker_step b (AddBroker info) x = (if bi_id info = b then Some info else x)"
| "broker_step b (RemoveBroker b') x = (if b' = b then None else x)"
| "broker_step b c x = x"

fun assignment_step ::
  "topic_partition \<Rightarrow> app_data \<Rightarrow> topic_info option \<times> partition_assignment option \<Rightarrow> topic_info option \<times> partition_assignment option"
where
  "assignment_step tp (DeleteTopic name) (x, a) = (topic_step (tp_topic tp) (DeleteTopic name) x, if name = tp_topic tp \<and> x \<noteq> None then None else a)"
| "assignment_step tp (UpdatePartitionAssignment tp' a') (x, a) = (x, if tp' = tp then Some a' else a)"
| "assignment_step tp c (x, a) = (topic_step (tp_topic tp) c x, a)"

definition commands :: "raft_entry list \<Rightarrow> app_data list" where
  "commands es = concat (map (\<lambda>e. case en_payload e of Normal c \<Rightarrow> [c] | _ \<Rightarrow> []) es)"

fun assigns_existing :: "raft_entry list \<Rightarrow> machine_spec \<Rightarrow> bool" where
  "assigns_existing [] st = True"
| "assigns_existing (e # es) st =
     ((case en_payload e of
         Normal (UpdatePartitionAssignment tp a) \<Rightarrow> map_of (sd_topics (fst st)) (tp_topic tp) \<noteq> None
       | _ \<Rightarrow> True) \<and> assigns_existing es (spec_entry e st))"

fun registered :: "topic_partition \<Rightarrow> app_data list \<Rightarrow> topic_info option \<Rightarrow> bool" where
  "registered tp [] x = True"
| "registered tp (c # cs) x =
     ((case c of UpdatePartitionAssignment tp' a \<Rightarrow> tp' = tp \<longrightarrow> x \<noteq> None | _ \<Rightarrow> True) \<and> registered tp cs (topic_step (tp_topic tp) c x))"

lemma commands_simps [simp]:
  "commands [] = []"
  "commands (e # es) = (case en_payload e of Normal c \<Rightarrow> [c] | _ \<Rightarrow> []) @ commands es"
  "commands (es @ es') = commands es @ commands es'"
  by (simp_all add: commands_def)

lemma map_of_assignments_retain:
  "map_of (filter (\<lambda>(tp, a). tp_topic tp \<noteq> name) m) tp = (if tp_topic tp = name then None else map_of m tp)"
  by (induction m) auto

lemma apply_app_data_steps:
  "map_of (sd_topics (snd (apply_app_data 0 c s))) t = topic_step t c (map_of (sd_topics s) t)"
  "map_of (sd_brokers (snd (apply_app_data 0 c s))) b = broker_step b c (map_of (sd_brokers s) b)"
  "(map_of (sd_topics (snd (apply_app_data 0 c s))) (tp_topic tp), map_of (sd_partition_assignments (snd (apply_app_data 0 c s))) tp) =
     assignment_step tp c (map_of (sd_topics s) (tp_topic tp), map_of (sd_partition_assignments s) tp)"
  by (cases c; auto simp: map_of_assignments_retain)+

lemma spec_entry_steps:
  "map_of (sd_topics (fst (spec_entry e st))) t = fold (topic_step t) (commands [e]) (map_of (sd_topics (fst st)) t)"
  "map_of (sd_brokers (fst (spec_entry e st))) b = fold (broker_step b) (commands [e]) (map_of (sd_brokers (fst st)) b)"
  "(map_of (sd_topics (fst (spec_entry e st))) (tp_topic tp), map_of (sd_partition_assignments (fst (spec_entry e st))) tp) =
     fold (assignment_step tp) (commands [e]) (map_of (sd_topics (fst st)) (tp_topic tp), map_of (sd_partition_assignments (fst st)) tp)"
  using apply_app_data_steps [where s = "fst st"] by (cases "en_payload e"; simp add: spec_entry_def)+

lemma fold_spec_entry_steps:
  "map_of (sd_topics (fst (fold spec_entry es st))) t = fold (topic_step t) (commands es) (map_of (sd_topics (fst st)) t)"
  "map_of (sd_brokers (fst (fold spec_entry es st))) b = fold (broker_step b) (commands es) (map_of (sd_brokers (fst st)) b)"
  "(map_of (sd_topics (fst (fold spec_entry es st))) (tp_topic tp), map_of (sd_partition_assignments (fst (fold spec_entry es st))) tp) =
     fold (assignment_step tp) (commands es) (map_of (sd_topics (fst st)) (tp_topic tp), map_of (sd_partition_assignments (fst st)) tp)"
proof (induction es rule: rev_induct)
  case (snoc e es)
  { case 1 show ?case using snoc.IH(1) spec_entry_steps(1) by (simp del: commands_simps(2)) }
  { case 2 show ?case using snoc.IH(2) spec_entry_steps(2) by (simp del: commands_simps(2)) }
  { case 3 show ?case using snoc.IH(3) spec_entry_steps(3) by (simp del: commands_simps(2)) }
qed simp_all

lemma topics_idempotent:
  "fold (topic_step t) cs (fold (topic_step t) cs x) = fold (topic_step t) cs x"
proof -
  have "(\<exists>v. \<forall>x. fold (topic_step t) cs x = v) \<or> (\<forall>x. fold (topic_step t) cs x = x) \<or>
        (\<exists>v. \<forall>x. fold (topic_step t) cs x = (case x of None \<Rightarrow> Some v | Some y \<Rightarrow> Some y))"
  proof (induction cs rule: rev_induct)
    case (snoc c cs) then show ?case by (cases c) (auto split: option.splits)
  qed simp
  then show ?thesis by (cases x) (elim disjE exE; simp)+
qed

lemma brokers_idempotent:
  "fold (broker_step b) cs (fold (broker_step b) cs x) = fold (broker_step b) cs x"
proof -
  have "(\<exists>v. \<forall>x. fold (broker_step b) cs x = v) \<or> (\<forall>x. fold (broker_step b) cs x = x)"
  proof (induction cs rule: rev_induct)
    case (snoc c cs) then show ?case by (cases c) auto
  qed simp
  then show ?thesis by auto
qed

lemma fst_assignment_step: "fst (fold (assignment_step tp) cs xa) = fold (topic_step (tp_topic tp)) cs (fst xa)"
proof (induction cs arbitrary: xa)
  case (Cons c cs)
  have "fst (assignment_step tp c xa) = topic_step (tp_topic tp) c (fst xa)" by (cases c; cases xa) auto
  with Cons show ?case by simp
qed simp

definition orphan_free :: "topic_info option \<times> partition_assignment option \<Rightarrow> bool" where
  "orphan_free xa \<longleftrightarrow> (fst xa = None \<longrightarrow> snd xa = None)"

definition replayed ::
  "partition_assignment option \<Rightarrow> topic_info option \<times> partition_assignment option \<Rightarrow> topic_info option \<times> partition_assignment option \<Rightarrow> bool"
where
  "replayed a xa1 xa2 \<longleftrightarrow> xa1 = xa2 \<or>
     (fst xa1 \<noteq> None \<longrightarrow> fst xa2 \<noteq> None) \<and> orphan_free xa1 \<and> orphan_free xa2 \<and> (snd xa2 = snd xa1 \<or> snd xa1 = None \<and> snd xa2 = a)"

lemma assignment_step_replayed:
  assumes "replayed a xa1 xa2" "registered tp (c # cs) (fst xa1)"
  shows "replayed a (assignment_step tp c xa1) (assignment_step tp c xa2)"
  using assms by (cases c; cases xa1; cases xa2) (auto simp: replayed_def orphan_free_def)

lemma fold_assignment_replayed:
  "replayed a xa1 xa2 \<Longrightarrow> registered tp cs (fst xa1) \<Longrightarrow>
     replayed a (fold (assignment_step tp) cs xa1) (fold (assignment_step tp) cs xa2)"
proof (induction cs arbitrary: xa1 xa2)
  case (Cons c cs)
  have "fst (assignment_step tp c xa1) = topic_step (tp_topic tp) c (fst xa1)"
    using fst_assignment_step [of tp "[c]" xa1] by simp
  then show ?case using Cons.IH assignment_step_replayed [OF Cons.prems] Cons.prems(2) by simp
qed simp

lemma fold_assignment_orphan_free:
  "orphan_free xa \<Longrightarrow> registered tp cs (fst xa) \<Longrightarrow> orphan_free (fold (assignment_step tp) cs xa)"
proof (induction cs arbitrary: xa)
  case (Cons c cs)
  have "fst (assignment_step tp c xa) = topic_step (tp_topic tp) c (fst xa)"
    using fst_assignment_step [of tp "[c]" xa] by simp
  moreover have "orphan_free (assignment_step tp c xa)"
    using Cons.prems by (cases c; cases xa) (auto simp: orphan_free_def)
  ultimately show ?case using Cons.IH Cons.prems(2) by simp
qed simp

lemma assignments_idempotent:
  assumes "registered tp cs None"
  shows "fold (assignment_step tp) cs (fold (assignment_step tp) cs (None, None)) = fold (assignment_step tp) cs (None, None)"
proof -
  let ?f = "fold (assignment_step tp) cs (None, None)"
  have "orphan_free ?f" using fold_assignment_orphan_free [of "(None, None)"] assms by (simp add: orphan_free_def)
  then have "replayed (snd ?f) (None, None) ?f" by (auto simp: replayed_def orphan_free_def)
  then have "replayed (snd ?f) ?f (fold (assignment_step tp) cs ?f)"
    using fold_assignment_replayed assms by fastforce
  then have "snd (fold (assignment_step tp) cs ?f) = snd ?f" by (auto simp: replayed_def)
  moreover have "fst (fold (assignment_step tp) cs ?f) = fst ?f"
    by (simp add: fst_assignment_step topics_idempotent)
  ultimately show ?thesis by (simp add: prod_eq_iff)
qed

lemma assigns_existing_registered:
  "assigns_existing es st \<Longrightarrow> registered tp (commands es) (map_of (sd_topics (fst st)) (tp_topic tp))"
proof (induction es arbitrary: st)
  case (Cons e es)
  have "registered tp (commands es) (fold (topic_step (tp_topic tp)) (commands [e]) (map_of (sd_topics (fst st)) (tp_topic tp)))"
    using Cons by (simp only: spec_entry_steps(1) [symmetric]) simp
  with Cons.prems show ?case by (auto split: entry_payload.splits app_data.splits)
qed simp

definition machine_wf :: "machine_spec \<Rightarrow> bool" where
  "machine_wf st \<longleftrightarrow> bt_wf (sd_topics (fst st)) \<and> bt_wf (sd_brokers (fst st)) \<and> bt_wf (sd_partition_assignments (fst st))"

lemma spec_entry_wf: "machine_wf st \<Longrightarrow> machine_wf (spec_entry e st)"
proof -
  have "bt_wf (sd_topics (snd (apply_app_data 0 c s))) \<and> bt_wf (sd_brokers (snd (apply_app_data 0 c s))) \<and>
        bt_wf (sd_partition_assignments (snd (apply_app_data 0 c s)))"
    if "machine_wf (s, l)" for c s l
    using that by (cases c) (auto simp: machine_wf_def)
  then show "machine_wf st \<Longrightarrow> ?thesis"
    by (cases st; cases "en_payload e") (auto simp: machine_wf_def spec_entry_def)
qed

lemma fold_spec_entry_wf: "machine_wf st \<Longrightarrow> machine_wf (fold spec_entry es st)"
  by (induction es arbitrary: st) (simp_all add: spec_entry_wf)

lemma bt_wf_eqI:
  assumes "bt_wf m" "bt_wf m'" "map_of m = map_of m'"
  shows "m = m'"
proof -
  have keys: "map fst m = map fst m'"
    using assms by (intro strict_sorted_equal) (auto simp: bt_wf_def dom_map_of_conv_image_fst [symmetric])
  have "m = map (\<lambda>k. (k, the (map_of m k))) (map fst m)" if "bt_wf m" for m :: "('a \<times> 'b) list"
    using bt_wf_distinct [OF that] by (auto intro!: map_idI [symmetric])
  then show ?thesis using assms keys by metis
qed

lemma spec_entry_rest:
  "sd_snapshot_version (fst (fold spec_entry es st)) = sd_snapshot_version (fst st)"
  "sd_last_applied_log (fst (fold spec_entry es st)) = (if es = [] then sd_last_applied_log (fst st) else Some (en_log_id (last es)))"
  "snd (fold spec_entry es st) = (if es = [] then snd st else Some (en_log_id (last es)))"
proof (induction es rule: rev_induct)
  case (snoc e es)
  have "sd_snapshot_version (snd (apply_app_data 0 c s)) = sd_snapshot_version s" for c s by (cases c) simp_all
  then have "sd_snapshot_version (snd (apply_payload 0 p s)) = sd_snapshot_version s" for p s by (cases p) simp_all
  note ver = this
  { case 1 show ?case using snoc.IH(1) by (simp add: spec_entry_def ver) }
  { case 2 show ?case by (simp add: spec_entry_def) }
  { case 3 show ?case by (simp add: spec_entry_def) }
qed simp_all

lemma replay_idempotent:
  assumes "assigns_existing es (snapshot_data_default, None)" "es \<noteq> []"
  shows "fold spec_entry es (fst (fold spec_entry es (snapshot_data_default, None)), None) =
    fold spec_entry es (snapshot_data_default, None)"
proof -
  let ?st = "(snapshot_data_default, None :: log_id option)"
  let ?a = "fold spec_entry es (fst (fold spec_entry es ?st), None)" and ?b = "fold spec_entry es ?st"
  have wf: "machine_wf ?b" by (intro fold_spec_entry_wf) (simp add: machine_wf_def snapshot_data_default_def)
  then have wf': "machine_wf ?a" by (intro fold_spec_entry_wf) (simp add: machine_wf_def)
  have "map_of (sd_topics (fst ?a)) = map_of (sd_topics (fst ?b))"
    by (simp add: fun_eq_iff fold_spec_entry_steps topics_idempotent)
  moreover have "map_of (sd_brokers (fst ?a)) = map_of (sd_brokers (fst ?b))"
    by (simp add: fun_eq_iff fold_spec_entry_steps brokers_idempotent)
  moreover have "map_of (sd_partition_assignments (fst ?a)) tp = map_of (sd_partition_assignments (fst ?b)) tp" for tp
  proof -
    have "registered tp (commands es) None"
      using assigns_existing_registered [OF assms(1), of tp] by (simp add: snapshot_data_default_def)
    from assignments_idempotent [OF this] show ?thesis
      using fold_spec_entry_steps(3) [of es "(fst ?b, None)" tp] fold_spec_entry_steps(3) [of es ?st tp]
      by (simp add: snapshot_data_default_def prod_eq_iff)
  qed
  ultimately have "fst ?a = fst ?b"
    using wf wf' assms(2) by (simp add: machine_wf_def spec_entry_rest bt_wf_eqI fun_eq_iff)
  moreover have "snd ?a = snd ?b" using assms(2) by (simp add: spec_entry_rest)
  ultimately show ?thesis by (simp add: prod_eq_iff)
qed

section \<open>The log storage is a log\<close>

text \<open>
  What openraft expects of the storage: a log whose entries have consecutive indexes, to which it appends, from which it
  truncates a suffix and purges a prefix, with the id of the last entry, or of the last purged entry if there is none.
\<close>

record raft_log =
  rg_first :: nat
  rg_entries :: "raft_entry list"
  rg_purged :: "log_id option"

definition raft_log_empty :: raft_log where
  "raft_log_empty = \<lparr>rg_first = 0, rg_entries = [], rg_purged = None\<rparr>"

datatype log_op = Append nat "(int \<times> raft_entry) list" | Truncate log_id | Purge log_id

fun log_step :: "line_codec \<Rightarrow> storage_config \<Rightarrow> log_op \<Rightarrow> log_storage \<Rightarrow> log_storage" where
  "log_step k config (Append timestamp entries) s = log_append k config timestamp entries s"
| "log_step k config (Truncate l) s = log_truncate l s"
| "log_step k config (Purge l) s = log_purge l s"

fun raft_log_step :: "log_op \<Rightarrow> raft_log \<Rightarrow> raft_log" where
  "raft_log_step (Append timestamp entries) g = g\<lparr>rg_entries := rg_entries g @ map snd entries\<rparr>"
| "raft_log_step (Truncate l) g = g\<lparr>rg_entries := take (li_index l - rg_first g) (rg_entries g)\<rparr>"
| "raft_log_step (Purge l) g =
     g\<lparr>rg_first := Suc (li_index l), rg_entries := drop (Suc (li_index l) - rg_first g) (rg_entries g), rg_purged := Some l\<rparr>"

definition raft_log_last :: "raft_log \<Rightarrow> log_id option" where
  "raft_log_last g = (if rg_entries g = [] then rg_purged g else Some (en_log_id (last (rg_entries g))))"

fun consecutive :: "nat \<Rightarrow> raft_entry list \<Rightarrow> bool" where
  "consecutive i [] = True"
| "consecutive i (e # es) = (li_index (en_log_id e) = i \<and> consecutive (Suc i) es)"

text \<open>
  The calls openraft makes: entries are appended right after the last one, nothing at or below a purged index is truncated,
  and what is purged is in the log. The bound on the number of entries is the size of the cache. The storage is also asked
  not to truncate to an empty log once something has been purged, where it would answer that it never had an entry.
\<close>

fun valid_op :: "nat \<Rightarrow> log_op \<Rightarrow> raft_log \<Rightarrow> bool" where
  "valid_op bound (Append timestamp entries) g =
     (consecutive (rg_first g + length (rg_entries g)) (map snd entries) \<and> length (rg_entries g) + length entries \<le> bound)"
| "valid_op bound (Truncate l) g =
     (rg_first g \<le> li_index l \<and> (rg_purged g = None \<or> rg_first g < li_index l \<or> rg_entries g = []))"
| "valid_op bound (Purge l) g =
     (rg_first g \<le> li_index l \<and> li_index l - rg_first g < length (rg_entries g) \<and>
      en_log_id (rg_entries g ! (li_index l - rg_first g)) = l)"

fun valid_ops :: "nat \<Rightarrow> log_op list \<Rightarrow> raft_log \<Rightarrow> bool" where
  "valid_ops bound [] g = True"
| "valid_ops bound (op # ops) g = (valid_op bound op g \<and> valid_ops bound ops (raft_log_step op g))"

definition raft_log_rel :: "log_storage \<Rightarrow> raft_log \<Rightarrow> bool" where
  "raft_log_rel s g \<longleftrightarrow> lo_entries_cache s = enumerate (rg_first g) (rg_entries g) \<and> consecutive (rg_first g) (rg_entries g) \<and>
     lo_state s = \<lparr>ls_last_log_id = raft_log_last g, ls_last_purged_log_id = rg_purged g\<rparr> \<and>
     (\<forall>l. rg_purged g = Some l \<longrightarrow> rg_first g = Suc (li_index l))"

lemma bt_insert_snoc: "\<forall>x \<in> set t. fst x < k \<Longrightarrow> bt_insert k v t = t @ [(k, v)]"
  by (induction t) auto

lemma fold_bt_remove: "fold bt_remove ks t = filter (\<lambda>e. fst e \<notin> set ks) t"
  by (induction ks arbitrary: t) (auto simp: bt_remove_def intro: filter_cong)

lemma fold_bt_remove_keys: "fold bt_remove (filter P (map fst t)) t = filter (\<lambda>e. \<not> P (fst e)) t"
  by (auto simp: fold_bt_remove intro!: filter_cong)

lemma enumerate_fst: "x \<in> set (enumerate f es) \<Longrightarrow> f \<le> fst x \<and> fst x < f + length es"
  by (auto simp: in_set_enumerate_eq)

lemma fold_cache_insert_enumerate:
  "consecutive (f + length es) es' \<Longrightarrow> fold cache_insert es' (enumerate f es) = enumerate f (es @ es')"
proof (induction es' arbitrary: es)
  case (Cons e es')
  have "cache_insert e (enumerate f es) = enumerate f (es @ [e])"
    using Cons.prems by (simp add: cache_insert_def bt_insert_snoc enumerate_fst enumerate_append_eq)
  then show ?case using Cons.IH [of "es @ [e]"] Cons.prems by simp
qed simp

lemma consecutive_append: "consecutive i (es @ es') \<longleftrightarrow> consecutive i es \<and> consecutive (i + length es) es'"
  by (induction es arbitrary: i) auto

lemma consecutive_nth: "consecutive i es \<Longrightarrow> n < length es \<Longrightarrow> li_index (en_log_id (es ! n)) = i + n"
  by (induction es arbitrary: i n) (auto simp: nth_Cons split: nat.splits)

lemma consecutive_take: "consecutive i es \<Longrightarrow> consecutive i (take n es)"
  by (metis append_take_drop_id consecutive_append)

lemma consecutive_drop: "consecutive i es \<Longrightarrow> n \<le> length es \<Longrightarrow> consecutive (i + n) (drop n es)"
  by (metis append_take_drop_id consecutive_append length_take min.absorb2)

lemma enumerate_filter_less: "filter (\<lambda>x. fst x < i) (enumerate f es) = enumerate f (take (i - f) es)"
proof (induction es arbitrary: f)
  case (Cons e es)
  show ?case
  proof (cases "f < i")
    case True then show ?thesis using Cons [of "Suc f"] by (simp add: take_Cons' Suc_diff_Suc [symmetric])
  next
    case False then show ?thesis using enumerate_fst [of _ "Suc f" es] by (force simp: filter_empty_conv)
  qed
qed simp

lemma enumerate_filter_greater:
  "f \<le> Suc i \<Longrightarrow> filter (\<lambda>x. i < fst x) (enumerate f es) = enumerate (Suc i) (drop (Suc i - f) es)"
proof (induction es arbitrary: f)
  case (Cons e es)
  show ?case
  proof (cases "f \<le> i")
    case True then show ?thesis using Cons.IH [of "Suc f"] by (simp add: Suc_diff_le)
  next
    case False
    then have "f = Suc i" using Cons.prems by simp
    then show ?thesis using enumerate_fst [of _ "Suc f" es] by (auto simp: filter_id_conv dest!: enumerate_fst)
  qed
qed simp

lemma log_append_rel:
  assumes "raft_log_rel s g" "valid_op (st_cache_size config) (Append timestamp entries) g"
  shows "raft_log_rel (log_append k config timestamp entries s) (raft_log_step (Append timestamp entries) g)"
proof (cases "entries = []")
  case True
  then show ?thesis using assms by (simp add: log_append_def)
next
  case False
  let ?c = "enumerate (rg_first g) (rg_entries g @ map snd entries)"
  obtain s1 where s1: "s1 = write_to_wal k config timestamp entries s" by simp
  have w: "lo_entries_cache s1 = lo_entries_cache s \<and> lo_state s1 = lo_state s"
    by (auto simp: s1 write_to_wal_def get_wal_writer_def flush_writer_def Let_def split: option.splits)
  have c: "fold cache_insert (map snd entries) (lo_entries_cache s1) = ?c"
    using assms w by (simp add: raft_log_rel_def fold_cache_insert_enumerate)
  have "length ?c - st_cache_size config = 0" using assms(2) by simp
  then have "lo_entries_cache (log_append k config timestamp entries s) = ?c"
    using False by (simp add: log_append_def Let_def s1 [symmetric] c)
  moreover have "lo_state (log_append k config timestamp entries s) =
      (lo_state s)\<lparr>ls_last_log_id := Some (en_log_id (snd (last entries)))\<rparr>"
    using False w by (simp add: log_append_def Let_def s1 [symmetric])
  ultimately show ?thesis
    using assms False by (simp add: raft_log_rel_def consecutive_append raft_log_last_def last_map)
qed

lemma last_enumerate: "es \<noteq> [] \<Longrightarrow> snd (last (enumerate f es)) = last es"
  using last_map [of "enumerate f es" snd] by (cases es) simp_all

lemma log_truncate_rel:
  assumes rel: "raft_log_rel s g" and valid: "valid_op bound (Truncate l) g"
  shows "raft_log_rel (log_truncate l s) (raft_log_step (Truncate l) g)"
proof -
  let ?f = "rg_first g" and ?es = "rg_entries g"
  let ?new = "take (li_index l - ?f) ?es"
  have cache: "fold bt_remove (filter (\<lambda>i. i \<ge> li_index l) (map fst (lo_entries_cache s))) (lo_entries_cache s) = enumerate ?f ?new"
    unfolding fold_bt_remove_keys using rel by (simp add: raft_log_rel_def enumerate_filter_less not_le)
  have last_new: "snd (last (enumerate ?f ?new)) = last ?new" if "?new \<noteq> []"
    using that by (rule last_enumerate)
  have "enumerate f xs = [] \<longleftrightarrow> xs = []" for f and xs :: "raft_entry list" by (cases xs) simp_all
  then have trunc: "log_truncate l s = s\<lparr>lo_entries_cache := enumerate ?f ?new, lo_state := (lo_state s)\<lparr>ls_last_log_id :=
      (case ls_last_log_id (lo_state s) of
         None \<Rightarrow> None
       | Some last_id \<Rightarrow>
           if li_index last_id \<ge> li_index l then (if ?new = [] then None else Some (en_log_id (last ?new))) else Some last_id)\<rparr>\<rparr>"
    unfolding log_truncate_def Let_def cache using last_new by (simp split: option.splits)
  have "ls_last_log_id (lo_state (log_truncate l s)) = raft_log_last (raft_log_step (Truncate l) g)"
  proof (cases "?es = []")
    case True
    with rel valid show ?thesis by (auto simp: raft_log_rel_def trunc raft_log_last_def split: option.splits)
  next
    case False
    then have idx: "li_index (en_log_id (last ?es)) = ?f + (length ?es - 1)"
      using rel consecutive_nth [of ?f ?es "length ?es - 1"] by (simp add: raft_log_rel_def last_conv_nth)
    have "rg_purged g = None" if "?new = []" using that False valid by auto
    moreover have "?new = ?es" if "\<not> li_index l \<le> ?f + (length ?es - 1)" using that False by (cases ?es) simp_all
    ultimately show ?thesis
      using rel False idx by (cases "li_index l \<le> ?f + (length ?es - 1)") (simp_all add: raft_log_rel_def trunc raft_log_last_def)
  qed
  then show ?thesis using rel by (simp add: raft_log_rel_def trunc consecutive_take)
qed

lemma log_purge_rel:
  assumes rel: "raft_log_rel s g" and valid: "valid_op bound (Purge l) g"
  shows "raft_log_rel (log_purge l s) (raft_log_step (Purge l) g)"
proof -
  let ?f = "rg_first g" and ?es = "rg_entries g"
  let ?n = "Suc (li_index l) - ?f"
  have n: "?n \<le> length ?es" "?f + ?n = Suc (li_index l)" using valid by auto
  have cache: "fold bt_remove (filter (\<lambda>i. i \<le> li_index l) (map fst (lo_entries_cache s))) (lo_entries_cache s) =
      enumerate (Suc (li_index l)) (drop ?n ?es)"
    unfolding fold_bt_remove_keys using rel valid by (simp add: raft_log_rel_def enumerate_filter_greater not_le)
  have "raft_log_last (raft_log_step (Purge l) g) = raft_log_last g"
  proof (cases "drop ?n ?es = []")
    case True
    then have "length ?es = ?n" "?es \<noteq> []" using n valid by auto
    then have "last ?es = ?es ! (li_index l - ?f)" using valid by (simp add: last_conv_nth Suc_diff_le)
    then show ?thesis using True valid \<open>?es \<noteq> []\<close> by (simp add: raft_log_last_def)
  next
    case False
    then show ?thesis by (auto simp: raft_log_last_def)
  qed
  then show ?thesis
    unfolding log_purge_def cache using rel n consecutive_drop [of ?f ?es ?n] by (simp add: raft_log_rel_def)
qed

lemma log_run_rel:
  "raft_log_rel s g \<Longrightarrow> valid_ops (st_cache_size config) ops g \<Longrightarrow> raft_log_rel (fold (log_step k config) ops s) (fold raft_log_step ops g)"
proof (induction ops arbitrary: s g)
  case (Cons op ops)
  have "raft_log_rel (log_step k config op s) (raft_log_step op g)"
    using Cons.prems by (cases op) (auto intro: log_append_rel log_truncate_rel log_purge_rel simp del: valid_op.simps raft_log_step.simps)
  then show ?case using Cons by simp
qed simp

lemma map_of_enumerate: "map_of (enumerate f es) i = (if f \<le> i \<and> i - f < length es then Some (es ! (i - f)) else None)"
proof (induction es arbitrary: f)
  case (Cons e es)
  then show ?case by (auto simp: nth_Cons' Suc_diff_le)
qed simp

lemma read_range_enumerate: "f \<le> i \<Longrightarrow> read_range (enumerate f es) i j = take (j - i) (drop (i - f) es)"
proof (induction "enumerate f es" i j rule: read_range.induct)
  case (1 i j)
  show ?case
  proof (cases "i < j \<and> i - f < length es")
    case True
    then have "take (j - i) (drop (i - f) es) = es ! (i - f) # take (j - Suc i) (drop (Suc i - f) es)"
      using 1(2) by (simp add: Cons_nth_drop_Suc [symmetric] take_Cons' Suc_diff_le)
    then show ?thesis using True 1 by (simp add: read_range.simps [of _ i j] map_of_enumerate)
  next
    case False
    then show ?thesis using 1(2) by (auto simp: read_range.simps [of _ i j] map_of_enumerate)
  qed
qed


section \<open>A restart of the log storage\<close>

text \<open>The entries an operation hands to the log files, and the files of a storage whose process has just one of them.\<close>

fun appended :: "log_op \<Rightarrow> raft_entry list" where
  "appended (Append timestamp entries) = map snd entries"
| "appended _ = []"

text \<open>What the log files rely on: a line is parsed back to the entry and the checksum it was made of, and is not blank.\<close>

definition codec_ok :: "line_codec \<Rightarrow> raft_entry \<Rightarrow> bool" where
  "codec_ok k e \<longleftrightarrow>
     (\<forall>now. lk_unline k (lk_line k e (lk_crc k (lk_vec k e)) now) = Some (e, lk_crc k (lk_vec k e)) \<and>
            \<not> blank_line (lk_line k e (lk_crc k (lk_vec k e)) now))"

definition files_hold :: "line_codec \<Rightarrow> raft_entry list \<Rightarrow> log_storage \<Rightarrow> bool" where
  "files_hold k es s \<longleftrightarrow> lo_buffer s = [] \<and>
     (lo_writer s = None \<and> lo_files s = [] \<and> es = [] \<or>
      (\<exists>name lines. lo_writer s = Some name \<and> lo_files s = [(name, lines)] \<and> prefix ''wal_'' name \<and> suffix ''.log'' name \<and>
         load_entries_from_file k lines = es))"

lemma load_written_lines:
  assumes "\<forall>e \<in> snd ` set entries. codec_ok k e"
  shows "load_entries_from_file k (map (\<lambda>(now, e). lk_line k e (lk_crc k (lk_vec k e)) now) entries) = map snd entries"
  using assms by (induction entries) (auto simp: load_entries_from_file_def load_line_def codec_ok_def)

lemma write_to_wal_files:
  assumes laws: "\<forall>e \<in> snd ` set entries. codec_ok k e"
    and sync: "st_sync_write config" and hold: "files_hold k es s"
  shows "files_hold k (es @ map snd entries) (write_to_wal k config timestamp entries s)"
proof (cases "lo_writer s")
  case None
  have "prefix ''wal_'' (''wal_'' @ show_nat timestamp @ ''.log'')" "suffix ''.log'' (''wal_'' @ show_nat timestamp @ ''.log'')"
    by (simp_all add: suffix_def)
  with None hold load_written_lines [OF laws] sync show ?thesis
    by (simp add: files_hold_def write_to_wal_def get_wal_writer_def flush_writer_def hm_entry_def Let_def)
next
  case (Some name)
  then obtain lines where f: "lo_files s = [(name, lines)]" "load_entries_from_file k lines = es"
    using hold by (auto simp: files_hold_def)
  have "load_entries_from_file k (lines @ ls) = es @ load_entries_from_file k ls" for ls
    using f(2) by (simp add: load_entries_from_file_def)
  with Some f hold load_written_lines [OF laws] sync show ?thesis
    by (simp add: files_hold_def write_to_wal_def get_wal_writer_def flush_writer_def hm_entry_def Let_def)
qed

lemma log_step_files:
  assumes laws: "\<forall>e \<in> set (appended op). codec_ok k e"
    and sync: "st_sync_write config" and hold: "files_hold k es s"
  shows "files_hold k (es @ appended op) (log_step k config op s)"
proof (cases op)
  case (Append timestamp entries)
  have "files_hold k (es @ map snd entries) (write_to_wal k config timestamp entries s)"
    using write_to_wal_files [OF _ sync hold] laws Append by simp
  with hold Append show ?thesis by (auto simp: log_append_def Let_def files_hold_def)
qed (use hold in \<open>simp_all add: files_hold_def log_truncate_def log_purge_def Let_def\<close>)

lemma log_run_files:
  assumes sync: "st_sync_write config"
  shows "\<forall>e \<in> set (concat (map appended ops)). codec_ok k e \<Longrightarrow> files_hold k es s \<Longrightarrow>
    files_hold k (es @ concat (map appended ops)) (fold (log_step k config) ops s)"
proof (induction ops arbitrary: es s)
  case (Cons op ops)
  have "files_hold k (es @ appended op) (log_step k config op s)"
    using log_step_files [OF _ sync Cons.prems(2)] Cons.prems(1) by simp
  with Cons.IH [of "es @ appended op"] Cons.prems(1) show ?case by simp
qed simp

lemma load_wal_entries_hold: "files_hold k es s \<Longrightarrow> load_wal_entries k (lo_files s) = fold cache_insert es []"
  by (auto simp: files_hold_def load_wal_entries_def)

section \<open>Properties\<close>

text \<open>C10. The replicas of the controller agree. Nodes that start from the same state and apply the same entries, in any
  batches, at any times and with any snapshot threshold, give the same responses and reach the same topics, brokers,
  assignments and last applied id, up to the creation time of topics; a node that installs a snapshot built by one of them
  goes on to agree with a node that applied the entries itself.\<close>

theorem replicas_converge:
  assumes codec: "\<And>p. sk_unpayload k (sk_payload k p) = Some p"
    and same: "entries_of bs1 = entries_of bs2" and later: "entries_of cs1 = entries_of cs2"
    and a: "apply_batches th1 bs1 sm = (r1, a)" and b: "apply_batches th2 bs2 sm = (r2, b)"
    and built: "build_snapshot k (get_snapshot_builder k a) = Ok sp"
    and c: "apply_batches th3 cs1 (snd (install_snapshot k (sp_bytes sp) fresh)) = (r3, c)"
    and d: "apply_batches th4 cs2 b = (r4, d)"
  shows "r1 = r2 \<and> erase (sm_state a) = erase (sm_state b) \<and> sm_last_applied a = sm_last_applied b \<and>
    sp_last_log_id sp = sm_last_applied b \<and> fst (install_snapshot k (sp_bytes sp) fresh) = Ok () \<and>
    r3 = r4 \<and> erase (sm_state c) = erase (sm_state d) \<and> sm_last_applied c = sm_last_applied d"
proof -
  have ab: "r1 = r2 \<and> abs_sm a = abs_sm b"
    using apply_batches_refines [OF a] apply_batches_refines [OF b] same by simp
  have inst: "sp_last_log_id sp = sm_last_applied a" "fst (install_snapshot k (sp_bytes sp) fresh) = Ok ()"
      "abs_sm (snd (install_snapshot k (sp_bytes sp) fresh)) = abs_sm a"
    using install_built_snapshot [OF codec, of a fresh] built by auto
  have cd: "r3 = r4 \<and> abs_sm c = abs_sm d"
    using apply_batches_refines [OF c] apply_batches_refines [OF d] later ab inst(3) by simp
  show ?thesis using ab cd inst by (simp add: abs_sm_def)
qed

text \<open>C20. A node that restarts from its saved snapshot does not know which entry it applied last and is given the whole
  log again. Applying the entries of the snapshot a second time is harmless, if the log never assigns a partition of a
  topic that does not exist: the node ends in the state, up to creation times, of a node that never restarted.\<close>

theorem replay_after_restart:
  assumes codec: "\<And>d. sk_undata k (sk_data k d) = Some d"
    and before: "apply_batches th bs (sm_new k None) = (r1, a)"
    and restarted: "sm = sm_new k (Some (sm_save_snapshot k a))"
    and again: "entries_of cs = entries_of bs @ rest" "apply_batches th cs sm = (r2, b)"
    and never: "apply_batches th' ds (sm_new k None) = (r3, c)" "entries_of ds = entries_of bs @ rest"
    and existing: "assigns_existing (entries_of bs) (snapshot_data_default, None)"
  shows "sm_last_applied sm = None \<and> erase (sm_state b) = erase (sm_state c) \<and> sm_last_applied b = sm_last_applied c"
proof -
  let ?st = "(snapshot_data_default, None :: log_id option)"
  have init: "abs_sm (sm_new k None) = ?st" by (simp add: abs_sm_def sm_new_def)
  have sm: "sm_state sm = sm_state a" "sm_last_applied sm = None"
    using restarted codec by (simp_all add: sm_new_def sm_save_snapshot_def)
  then have "abs_sm sm = (fst (fold spec_entry (entries_of bs) ?st), None)"
    using apply_batches_refines [OF before] by (simp add: init) (simp add: abs_sm_def prod_eq_iff)
  then have "fold spec_entry (entries_of bs) (abs_sm sm) = fold spec_entry (entries_of bs) ?st"
    using replay_idempotent [OF existing] by (cases "entries_of bs = []") simp_all
  then have "abs_sm b = abs_sm c"
    using apply_batches_refines [OF again(2)] apply_batches_refines [OF never(1)] again(1) never(2) init by simp
  then show ?thesis using sm by (simp add: abs_sm_def)
qed


text \<open>A restart of the log storage undoes every truncation and purge, and forgets the rest: the cache then holds, for
  each index, the last entry that was ever appended with it, while the ids of the last and the last purged entry, the vote
  and the committed id are gone.\<close>

theorem restart_undoes_truncation:
  assumes laws: "\<forall>e \<in> set (concat (map appended ops)). codec_ok k e"
    and sync: "st_sync_write config" and s: "s = fold (log_step k config) ops (log_storage_new k [])"
  shows "lo_entries_cache (log_storage_new k (lo_files s)) = fold cache_insert (concat (map appended ops)) [] \<and>
    get_log_state (log_storage_new k (lo_files s)) = \<lparr>ls_last_log_id = None, ls_last_purged_log_id = None\<rparr> \<and>
    read_vote (save_vote vote (log_storage_new k (lo_files s))) = None \<and>
    read_committed (save_committed committed (log_storage_new k (lo_files s))) = None"
proof -
  have "files_hold k [] (log_storage_new k [])" by (simp add: files_hold_def log_storage_new_def)
  from log_run_files [OF sync laws this] have "files_hold k (concat (map appended ops)) s" by (simp add: s)
  then have "load_wal_entries k (lo_files s) = fold cache_insert (concat (map appended ops)) []" by (rule load_wal_entries_hold)
  then show ?thesis
    by (simp add: get_log_state_def log_storage_new_def read_vote_def save_vote_def read_committed_def save_committed_def)
qed

section \<open>Instances\<close>

definition sample_snapshot_codec :: "(snapshot_data + snapshot_payload) snapshot_codec" where
  "sample_snapshot_codec =
     \<lparr>sk_data = Inl, sk_undata = (\<lambda>b. case b of Inl d \<Rightarrow> Some d | _ \<Rightarrow> None),
      sk_payload = Inr, sk_unpayload = (\<lambda>b. case b of Inr p \<Rightarrow> Some p | _ \<Rightarrow> None)\<rparr>"

definition sample_entry :: "nat \<Rightarrow> nat \<Rightarrow> app_data \<Rightarrow> raft_entry" where
  "sample_entry term i c = \<lparr>en_log_id = \<lparr>li_term = term, li_node = 1, li_index = i\<rparr>, en_payload = Normal c\<rparr>"

definition sample_create :: raft_entry where
  "sample_create = sample_entry 1 0 (CreateTopic ''t'' 1 1 \<lparr>tc_retention_ms = None, tc_segment_bytes = None, tc_compression_type = None\<rparr>)"

definition sample_assign :: raft_entry where
  "sample_assign = sample_entry 1 1 (UpdatePartitionAssignment (TopicPartition ''t'' 0)
     \<lparr>pa_leader = ''b1'', pa_replicas = [''b1''], pa_in_sync_replicas = [''b1''], pa_leader_epoch = 1\<rparr>)"

definition sample_delete :: raft_entry where
  "sample_delete = sample_entry 1 2 (DeleteTopic ''t'')"

definition sample_line_codec :: line_codec where
  "sample_line_codec =
     \<lparr>lk_vec = (\<lambda>e. []), lk_crc = (\<lambda>b. 0),
      lk_line = (\<lambda>e c now. case li_index (en_log_id e) of 0 \<Rightarrow> ''#0'' | Suc 0 \<Rightarrow> ''#1'' | _ \<Rightarrow> ''#2''),
      lk_unline = (\<lambda>line. map_option (\<lambda>e. (e, 0))
        (map_of [(''#0'', sample_create), (''#1'', sample_assign), (''#2'', sample_delete)] line))\<rparr>"

lemmas sample_entries = sample_create_def sample_assign_def sample_delete_def sample_entry_def

lemma sample_snapshot_codec_laws [simp]:
  "sk_unpayload sample_snapshot_codec (sk_payload sample_snapshot_codec p) = Some p"
  "sk_undata sample_snapshot_codec (sk_data sample_snapshot_codec d) = Some d"
  by (simp_all add: sample_snapshot_codec_def)

theorem replicas_converge_witness:
  "\<exists>r1 a r2 b sp r3 c r4 d.
     apply_batches 1000 [[(5, sample_create), (6, sample_assign)]] (sm_new sample_snapshot_codec None) = (r1, a) \<and>
     apply_batches 1 [[(7, sample_create)], [(9, sample_assign)]] (sm_new sample_snapshot_codec None) = (r2, b) \<and>
     build_snapshot sample_snapshot_codec (get_snapshot_builder sample_snapshot_codec a) = Ok sp \<and>
     apply_batches 1000 [[(10, sample_delete)]] (snd (install_snapshot sample_snapshot_codec (sp_bytes sp) (sm_new sample_snapshot_codec None))) = (r3, c) \<and>
     apply_batches 1 [[(11, sample_delete)]] b = (r4, d) \<and> sm_state a \<noteq> sm_state b \<and>
     r1 = r2 \<and> erase (sm_state a) = erase (sm_state b) \<and> r3 = r4 \<and> erase (sm_state c) = erase (sm_state d)"
proof -
  obtain r1 a where a: "apply_batches 1000 [[(5, sample_create), (6, sample_assign)]] (sm_new sample_snapshot_codec None) = (r1, a)"
    by fastforce
  obtain r2 b where b: "apply_batches 1 [[(7, sample_create)], [(9, sample_assign)]] (sm_new sample_snapshot_codec None) = (r2, b)"
    by fastforce
  have ne: "sm_state a \<noteq> sm_state b"
    using a b by (auto simp: sample_entries sm_apply_def apply_entry_def sm_new_def snapshot_data_default_def Let_def split: if_splits)
  obtain sp where sp: "build_snapshot sample_snapshot_codec (get_snapshot_builder sample_snapshot_codec a) = Ok sp"
    by (simp add: build_snapshot_def get_snapshot_builder_def)
  obtain r3 c where c: "apply_batches 1000 [[(10, sample_delete)]]
      (snd (install_snapshot sample_snapshot_codec (sp_bytes sp) (sm_new sample_snapshot_codec None))) = (r3, c)"
    by fastforce
  obtain r4 d where d: "apply_batches 1 [[(11, sample_delete)]] b = (r4, d)" by fastforce
  have "entries_of [[(5, sample_create), (6, sample_assign)]] = entries_of [[(7, sample_create)], [(9, sample_assign)]]"
    "entries_of [[(10, sample_delete)]] = entries_of [[(11, sample_delete)]]"
    by (simp_all add: entries_of_def)
  from replicas_converge [OF _ this a b sp c d] a b sp c d ne show ?thesis by auto
qed

theorem replay_after_restart_witness:
  "\<exists>r1 a r2 b r3 c.
     apply_batches 1000 [[(5, sample_create), (6, sample_assign)]] (sm_new sample_snapshot_codec None) = (r1, a) \<and>
     apply_batches 1000 [[(7, sample_create), (7, sample_assign), (8, sample_delete)]]
       (sm_new sample_snapshot_codec (Some (sm_save_snapshot sample_snapshot_codec a))) = (r2, b) \<and>
     apply_batches 1000 [[(5, sample_create), (6, sample_assign), (8, sample_delete)]] (sm_new sample_snapshot_codec None) = (r3, c) \<and>
     sd_topics (sm_state a) \<noteq> [] \<and> erase (sm_state b) = erase (sm_state c) \<and> sm_last_applied b = sm_last_applied c"
proof -
  obtain r1 a where a: "apply_batches 1000 [[(5, sample_create), (6, sample_assign)]] (sm_new sample_snapshot_codec None) = (r1, a)"
    by fastforce
  have ne: "sd_topics (sm_state a) \<noteq> []"
    using a by (auto simp: sample_entries sm_apply_def apply_entry_def sm_new_def snapshot_data_default_def Let_def split: if_splits)
  obtain r2 b where b: "apply_batches 1000 [[(7, sample_create), (7, sample_assign), (8, sample_delete)]]
      (sm_new sample_snapshot_codec (Some (sm_save_snapshot sample_snapshot_codec a))) = (r2, b)" by fastforce
  obtain r3 c where c: "apply_batches 1000 [[(5, sample_create), (6, sample_assign), (8, sample_delete)]] (sm_new sample_snapshot_codec None) = (r3, c)"
    by fastforce
  have es: "entries_of [[(7, sample_create), (7, sample_assign), (8, sample_delete)]] =
      entries_of [[(5, sample_create), (6, sample_assign)]] @ [sample_delete]"
    "entries_of [[(5, sample_create), (6, sample_assign), (8, sample_delete)]] =
      entries_of [[(5, sample_create), (6, sample_assign)]] @ [sample_delete]"
    by (simp_all add: entries_of_def)
  have "assigns_existing (entries_of [[(5, sample_create), (6, sample_assign)]]) (snapshot_data_default, None)"
    by (simp add: entries_of_def sample_entries spec_entry_def snapshot_data_default_def)
  from replay_after_restart [OF _ a refl es(1) b c es(2) this] a b c ne show ?thesis by auto
qed


theorem restart_undoes_truncation_witness:
  "let config = \<lparr>st_sync_write = True, st_cache_size = 3\<rparr>;
       ops = [Append 0 [(0, sample_create), (0, sample_assign)], Truncate (en_log_id sample_create)];
       s = fold (log_step sample_line_codec config) ops (log_storage_new sample_line_codec [])
   in lo_entries_cache s = [] \<and>
      lo_entries_cache (log_storage_new sample_line_codec (lo_files s)) = [(0, sample_create), (1, sample_assign)]"
proof -
  let ?c = "\<lparr>st_sync_write = True, st_cache_size = 3\<rparr>"
  let ?ops = "[Append 0 [(0, sample_create), (0, sample_assign)], Truncate (en_log_id sample_create)]"
  let ?s = "fold (log_step sample_line_codec ?c) ?ops (log_storage_new sample_line_codec [])"
  have "\<forall>e \<in> set (concat (map appended ?ops)). codec_ok sample_line_codec e"
    by (simp add: codec_ok_def sample_line_codec_def sample_create_def sample_assign_def sample_entry_def blank_line_def)
  then have "lo_entries_cache (log_storage_new sample_line_codec (lo_files ?s)) = fold cache_insert (concat (map appended ?ops)) []"
    by (rule restart_undoes_truncation [where vote = "0 :: nat" and committed = None, THEN conjunct1]) simp_all
  moreover have "lo_entries_cache ?s = []"
    by (simp add: log_append_def log_truncate_def Let_def cache_insert_def sample_entries bt_remove_def log_storage_new_def load_wal_entries_def
        write_to_wal_def get_wal_writer_def flush_writer_def)
  ultimately show ?thesis by (simp add: Let_def cache_insert_def sample_entries)
qed

text \<open>Without the condition on assignments a replay does change the state: an assignment made before its topic was created
  survives the first application of the log and not the second.\<close>

lemma replay_of_orphan_assignment:
  "let es = [sample_assign, sample_delete, sample_create];
       a = fst (fold spec_entry es (snapshot_data_default, None)); b = fst (fold spec_entry es (a, None))
   in sd_partition_assignments a \<noteq> [] \<and> sd_partition_assignments b = []"
  by (simp add: sample_entries spec_entry_def snapshot_data_default_def Let_def bt_remove_def)

end
