(* ===== verification/Controller_Service.thy ===== *)
theory Controller_Service
  imports Controller_State "HOL-Library.Multiset"
begin

text \<open>
  The controller service (\<open>controller/service.rs\<close>): cluster metadata, creation of topics with the assignment of their
  partitions to brokers, a simplified Raft role, the slots that limit how many brokers are decommissioned at a time, and the
  broker calls of \<open>controller/broker_management_service.rs\<close>. Load scores are \<open>f64\<close> in the code: here they are a linearly
  ordered type with the operations the code performs as arguments, so NaN is excluded. The iteration order of the broker
  map, clock readings and fresh ids are arguments. \<open>PartitionAssignment\<close>, \<open>TopicInfo\<close> and \<open>TopicConfig\<close> are those of
  \<open>Controller_State\<close>.
\<close>

section \<open>Metadata\<close>

record metadata =
  mm_topics :: "(string \<times> topic_info) list"
  mm_brokers :: "(broker_id \<times> broker_info) list"
  mm_partition_assignments :: "(topic_partition \<times> partition_assignment) list"

definition metadata_new :: metadata where
  "metadata_new = \<lparr>mm_topics = [], mm_brokers = [], mm_partition_assignments = []\<rparr>"

definition mm_create_topic :: "topic_info \<Rightarrow> metadata \<Rightarrow> unit result \<times> metadata" where
  "mm_create_topic t m =
     (if map_of (mm_topics m) (ti_name t) \<noteq> None then (Err (TopicAlreadyExists (ti_name t)), m)
      else (Ok (), m\<lparr>mm_topics := AList.update (ti_name t) t (mm_topics m)\<rparr>))"

definition mm_delete_topic :: "string \<Rightarrow> metadata \<Rightarrow> unit result \<times> metadata" where
  "mm_delete_topic name m =
     (if map_of (mm_topics m) name = None then (Err (TopicNotFound name), m)
      else (Ok (), m\<lparr>mm_topics := AList.delete name (mm_topics m),
                    mm_partition_assignments := filter (\<lambda>(tp, a). tp_topic tp \<noteq> name) (mm_partition_assignments m)\<rparr>))"

definition mm_add_broker :: "broker_info \<Rightarrow> metadata \<Rightarrow> metadata" where
  "mm_add_broker b m = m\<lparr>mm_brokers := AList.update (bi_id b) b (mm_brokers m)\<rparr>"

definition mm_remove_broker :: "broker_id \<Rightarrow> metadata \<Rightarrow> unit result \<times> metadata" where
  "mm_remove_broker b m =
     (if map_of (mm_brokers m) b = None then (Err (BrokerNotFound b), m)
      else (Ok (), m\<lparr>mm_brokers := AList.delete b (mm_brokers m)\<rparr>))"

definition mm_get_topics :: "metadata \<Rightarrow> topic_info list" where
  "mm_get_topics m = map snd (mm_topics m)"

definition mm_get_brokers :: "(broker_info list \<Rightarrow> broker_info list) \<Rightarrow> metadata \<Rightarrow> broker_info list" where
  "mm_get_brokers order m = order (map snd (mm_brokers m))"

definition mm_assign_partition :: "topic_partition \<Rightarrow> partition_assignment \<Rightarrow> metadata \<Rightarrow> metadata" where
  "mm_assign_partition tp a m = m\<lparr>mm_partition_assignments := AList.update tp a (mm_partition_assignments m)\<rparr>"

section \<open>Raft state\<close>

datatype cluster_command =
    CmdCreateTopic string nat nat topic_config
  | CmdDeleteTopic string
  | CmdAddBroker broker_info
  | CmdRemoveBroker broker_id
  | CmdReassignPartitions "(topic_partition \<times> partition_assignment) list"

record cluster_log_entry =
  le_term :: nat
  le_index :: nat
  le_command :: cluster_command
  le_timestamp :: int

record raft_state =
  rf_current_term :: nat
  rf_voted_for :: "string option"
  rf_is_leader :: bool
  rf_current_leader :: "string option"
  rf_log_entries :: "cluster_log_entry list"
  rf_peers :: "string list"

definition raft_state_new :: "string list \<Rightarrow> raft_state" where
  "raft_state_new peers =
     \<lparr>rf_current_term = 0, rf_voted_for = None, rf_is_leader = False, rf_current_leader = None, rf_log_entries = [], rf_peers = peers\<rparr>"

definition increment_term :: "raft_state \<Rightarrow> nat \<times> raft_state" where
  "increment_term r = (let t = (rf_current_term r + 1) mod 2 ^ 64 in (t, r\<lparr>rf_current_term := t\<rparr>))"

definition get_last_log_index :: "raft_state \<Rightarrow> nat" where
  "get_last_log_index r = length (rf_log_entries r)"

definition get_last_log_term :: "raft_state \<Rightarrow> nat" where
  "get_last_log_term r = (if rf_log_entries r = [] then 0 else le_term (last (rf_log_entries r)))"

definition start_election :: "string \<Rightarrow> raft_state \<Rightarrow> bool \<times> raft_state" where
  "start_election node_id r =
     (let (new_term, r1) = increment_term r;
          r2 = r1\<lparr>rf_voted_for := Some node_id, rf_is_leader := False\<rparr>;
          votes = 1;
          total_nodes = length (rf_peers r2) + 1;
          majority = total_nodes div 2 + 1
      in if votes \<ge> majority then (True, r2\<lparr>rf_is_leader := True, rf_current_leader := Some node_id\<rparr>) else (False, r2))"

record vote_request =
  vq_term :: nat
  vq_candidate_id :: string
  vq_last_log_index :: nat
  vq_last_log_term :: nat

record vote_response =
  vp_term :: nat
  vp_vote_granted :: bool

text \<open>
  \<open>handle_vote_request\<close> holds no lock: after it has read \<open>voted_for\<close> it awaits the log, so other handlers may run before it
  writes its vote. \<open>later\<close> is what they do to the state.
\<close>

definition handle_vote_request :: "(raft_state \<Rightarrow> raft_state) \<Rightarrow> vote_request \<Rightarrow> raft_state \<Rightarrow> vote_response \<times> raft_state" where
  "handle_vote_request later q r =
     (if vq_term q < rf_current_term r then (\<lparr>vp_term = rf_current_term r, vp_vote_granted = False\<rparr>, r)
      else
        (let r1 = (if vq_term q > rf_current_term r
                   then r\<lparr>rf_current_term := vq_term q, rf_voted_for := None, rf_is_leader := False\<rparr> else r);
             can_vote = (rf_voted_for r1 = None \<or> rf_voted_for r1 = Some (vq_candidate_id q));
             r2 = (if can_vote then later r1 else r1);
             log_ok = (vq_last_log_term q > get_last_log_term r2 \<or>
                       (vq_last_log_term q = get_last_log_term r2 \<and> vq_last_log_index q \<ge> get_last_log_index r2))
         in if can_vote \<and> log_ok
            then (\<lparr>vp_term = vq_term q, vp_vote_granted = True\<rparr>, r2\<lparr>rf_voted_for := Some (vq_candidate_id q)\<rparr>)
            else (\<lparr>vp_term = rf_current_term r2, vp_vote_granted = False\<rparr>, r2)))"

record append_entries_request =
  aq_term :: nat
  aq_leader_id :: string
  aq_prev_log_index :: nat
  aq_prev_log_term :: nat
  aq_entries :: "cluster_log_entry list"
  aq_leader_commit :: nat

record append_entries_response =
  ap_term :: nat
  ap_success :: bool
  ap_match_index :: "nat option"

definition handle_append_entries :: "append_entries_request \<Rightarrow> raft_state \<Rightarrow> append_entries_response \<times> raft_state" where
  "handle_append_entries q r =
     (if aq_term q < rf_current_term r then (\<lparr>ap_term = rf_current_term r, ap_success = False, ap_match_index = None\<rparr>, r)
      else (\<lparr>ap_term = aq_term q, ap_success = True, ap_match_index = Some ((aq_prev_log_index q + length (aq_entries q)) mod 2 ^ 64)\<rparr>,
            r\<lparr>rf_current_term := aq_term q, rf_is_leader := False, rf_current_leader := Some (aq_leader_id q)\<rparr>))"

section \<open>Decommissioning slots\<close>

record decommission_slot =
  ds_operation_id :: string
  ds_broker_id :: string
  ds_acquired_at :: nat
  ds_expires_at :: nat
  ds_requester :: string

record slot_acquisition_result =
  sa_operation_id :: string
  sa_slot_token :: string
  sa_expires_at :: nat

text \<open>Instants are in nanoseconds. The permits of the semaphore, the active operations, and the limit given at the start, which only error messages use.\<close>

record slot_manager =
  sl_permits :: nat
  sl_active :: "(string \<times> decommission_slot) list"
  sl_max_concurrent :: nat

definition slot_manager_new :: "nat \<Rightarrow> slot_manager" where
  "slot_manager_new n = \<lparr>sl_permits = n, sl_active = [], sl_max_concurrent = n\<rparr>"

text \<open>\<open>acquire_slot\<close> in its three steps: the check under the read lock, the permit, and the entry under the write lock.\<close>

definition check_slot :: "string \<Rightarrow> slot_manager \<Rightarrow> unit result" where
  "check_slot broker m =
     (if \<exists>(k, slot) \<in> set (sl_active m). ds_broker_id slot = broker
      then Err (InvalidOperation (''Broker '' @ broker @ '' is already being decommissioned'')) else Ok ())"

definition take_permit :: "slot_manager \<Rightarrow> unit result \<times> slot_manager" where
  "take_permit m =
     (if sl_permits m = 0
      then (Err (ResourceExhausted (''Maximum concurrent decommissions ('' @ show_nat (sl_max_concurrent m) @
              '') reached. Please wait for ongoing operations to complete.'')), m)
      else (Ok (), m\<lparr>sl_permits := sl_permits m - 1\<rparr>))"

definition insert_slot :: "string \<Rightarrow> string \<Rightarrow> nat \<Rightarrow> string \<Rightarrow> string \<Rightarrow> slot_manager \<Rightarrow> slot_acquisition_result \<times> slot_manager" where
  "insert_slot operation_id slot_token now broker requester m =
     (let expires_at = now + 3600 * 10 ^ 9;
          slot = \<lparr>ds_operation_id = operation_id, ds_broker_id = broker, ds_acquired_at = now, ds_expires_at = expires_at, ds_requester = requester\<rparr>
      in (\<lparr>sa_operation_id = operation_id, sa_slot_token = slot_token, sa_expires_at = expires_at\<rparr>,
          m\<lparr>sl_active := AList.update operation_id slot (sl_active m)\<rparr>))"

definition acquire_slot ::
  "string \<Rightarrow> string \<Rightarrow> nat \<Rightarrow> string \<Rightarrow> string \<Rightarrow> slot_manager \<Rightarrow> slot_acquisition_result result \<times> slot_manager"
where
  "acquire_slot operation_id slot_token now broker requester m =
     (case check_slot broker m of
        Inl e \<Rightarrow> (Err e, m)
      | Inr _ \<Rightarrow>
          (case take_permit m of
             (Inl e, m1) \<Rightarrow> (Err e, m1)
           | (Inr _, m1) \<Rightarrow> (let (res, m2) = insert_slot operation_id slot_token now broker requester m1 in (Ok res, m2))))"

definition remove_slot :: "string \<Rightarrow> slot_manager \<Rightarrow> unit result \<times> slot_manager" where
  "remove_slot operation_id m =
     (if map_of (sl_active m) operation_id = None
      then (Err (NotFound (''Decommission operation '' @ operation_id @ '' not found'')), m)
      else (Ok (), m\<lparr>sl_active := AList.delete operation_id (sl_active m)\<rparr>))"

definition add_permits :: "nat \<Rightarrow> slot_manager \<Rightarrow> slot_manager" where
  "add_permits n m = m\<lparr>sl_permits := sl_permits m + n\<rparr>"

definition release_slot :: "string \<Rightarrow> slot_manager \<Rightarrow> unit result \<times> slot_manager" where
  "release_slot operation_id m =
     (case remove_slot operation_id m of (Inl e, m1) \<Rightarrow> (Err e, m1) | (Inr _, m1) \<Rightarrow> (Ok (), add_permits 1 m1))"

fun remove_permits :: "nat \<Rightarrow> slot_manager \<Rightarrow> unit result \<times> slot_manager" where
  "remove_permits 0 m = (Ok (), m)"
| "remove_permits (Suc n) m =
     (if sl_permits m = 0
      then (Err (InvalidOperation ''Cannot reduce decommission limit while operations are active''), m)
      else remove_permits n (m\<lparr>sl_permits := sl_permits m - 1\<rparr>))"

definition update_max_concurrent :: "nat \<Rightarrow> slot_manager \<Rightarrow> unit result \<times> slot_manager" where
  "update_max_concurrent new_max m =
     (let current_active = length (sl_active m)
      in if current_active > new_max
         then (Err (InvalidOperation (''Cannot reduce limit to '' @ show_nat new_max @ '' while '' @ show_nat current_active @
                 '' decommissions are active'')), m)
         else
           (let current_max = sl_permits m + current_active
            in if new_max > current_max then (Ok (), add_permits (new_max - current_max) m)
               else if new_max < current_max then remove_permits (current_max - new_max) m
               else (Ok (), m)))"

definition expire_slot :: "string \<Rightarrow> slot_manager \<Rightarrow> slot_manager" where
  "expire_slot operation_id m =
     (if map_of (sl_active m) operation_id = None then m
      else add_permits 1 (m\<lparr>sl_active := AList.delete operation_id (sl_active m)\<rparr>))"

definition cleanup_turn :: "nat \<Rightarrow> slot_manager \<Rightarrow> slot_manager" where
  "cleanup_turn now m =
     (let expired_slots = map fst (filter (\<lambda>(k, slot). now > ds_expires_at slot) (sl_active m))
      in fold expire_slot expired_slots m)"

section \<open>The service\<close>

datatype broker_status = Healthy | Draining | Unhealthy | Removed

text \<open>The arithmetic on load scores: the default \<open>0.0\<close>, \<open>f64::INFINITY\<close>, \<open>base + 0.1 * count\<close>, and the moving average.\<close>

record 's score_ops =
  so_zero :: 's
  so_infinity :: 's
  so_effective :: "'s \<Rightarrow> nat \<Rightarrow> 's"
  so_ewma :: "'s \<Rightarrow> 's \<Rightarrow> 's"

record 's controller_service =
  cs_decommission_manager :: slot_manager
  cs_max_concurrent_decommissions :: nat
  cs_raft_state :: raft_state
  cs_metadata_manager :: metadata
  cs_node_id :: string
  cs_broker_load_scores :: "(broker_id \<times> 's) list"
  cs_broker_heartbeats :: "(broker_id \<times> int) list"
  cs_broker_statuses :: "(broker_id \<times> broker_status) list"
  cs_internal_topics_created :: bool

definition service_new :: "string \<Rightarrow> string list \<Rightarrow> nat \<Rightarrow> 's controller_service" where
  "service_new node_id peers max_concurrent =
     \<lparr>cs_decommission_manager = slot_manager_new max_concurrent, cs_max_concurrent_decommissions = max_concurrent,
      cs_raft_state = raft_state_new peers, cs_metadata_manager = metadata_new, cs_node_id = node_id, cs_broker_load_scores = [],
      cs_broker_heartbeats = [], cs_broker_statuses = [], cs_internal_topics_created = False\<rparr>"

definition ensure_internal_topics :: "int \<Rightarrow> 's controller_service \<Rightarrow> 's controller_service" where
  "ensure_internal_topics now s =
     (if cs_internal_topics_created s then s
      else if \<not> rf_is_leader (cs_raft_state s) then s
      else
        (let m = cs_metadata_manager s;
             info = \<lparr>ti_name = ''__consumer_offsets'', ti_partitions = 50, ti_replication_factor = 3,
                     ti_config = \<lparr>tc_retention_ms = None, tc_segment_bytes = Some 104857600, tc_compression_type = Some ''lz4''\<rparr>,
                     ti_created_at = now\<rparr>;
             m' = (if \<exists>t \<in> set (mm_get_topics m). ti_name t = ''__consumer_offsets'' then m else snd (mm_create_topic info m))
         in s\<lparr>cs_metadata_manager := m', cs_internal_topics_created := True\<rparr>))"

definition health_check_turn :: "int \<Rightarrow> 's controller_service \<Rightarrow> 's controller_service" where
  "health_check_turn now s =
     (let stale = map fst (filter (\<lambda>(b, last_hb). now - last_hb > 30 * 10 ^ 9) (cs_broker_heartbeats s))
      in s\<lparr>cs_broker_statuses := fold (\<lambda>b m. AList.update b Unhealthy m) stale (cs_broker_statuses s)\<rparr>)"

record create_topic_request =
  cq_name :: string
  cq_partitions :: nat
  cq_replication_factor :: nat
  cq_config :: "topic_config option"

record service_response =
  sv_success :: bool
  sv_error_message :: "string option"
  sv_leader_hint :: "string option"

definition refuse :: "string \<Rightarrow> 's controller_service \<Rightarrow> service_response" where
  "refuse msg s = \<lparr>sv_success = False, sv_error_message = Some msg, sv_leader_hint = rf_current_leader (cs_raft_state s)\<rparr>"

definition accept :: "'s controller_service \<Rightarrow> service_response" where
  "accept s = \<lparr>sv_success = True, sv_error_message = None, sv_leader_hint = rf_current_leader (cs_raft_state s)\<rparr>"

definition weighted_replicas ::
  "('s::linorder) score_ops \<Rightarrow> nat \<Rightarrow> broker_info list \<Rightarrow> (broker_id \<times> 's) list \<Rightarrow> (broker_id \<times> nat) list \<Rightarrow>
   broker_id list \<times> (broker_id \<times> nat) list"
where
  "weighted_replicas so rf brokers scores topic_assignments =
     (let candidate_scores = map (\<lambda>b. (bi_id b, so_effective so (hm_entry (so_zero so) scores (bi_id b)) (hm_entry 0 topic_assignments (bi_id b)))) brokers;
          replicas = map fst (take rf (sort_key snd candidate_scores))
      in (replicas, fold (\<lambda>b c. AList.update b (hm_entry 0 c b + 1) c) replicas topic_assignments))"

definition round_robin_replicas :: "nat \<Rightarrow> broker_info list \<Rightarrow> nat \<Rightarrow> broker_id list" where
  "round_robin_replicas rf brokers p =
     (let start_broker = p mod length brokers in map (\<lambda>i. bi_id (brokers ! ((start_broker + i) mod length brokers))) [0..<rf])"

text \<open>
  The loop over the partitions. The flag is False when the code panics: on a remainder by the number of brokers when there
  is none, and on the first replica when the replication factor is zero. What was assigned before stays.
\<close>

fun assign_partitions ::
  "('s::linorder) score_ops \<Rightarrow> nat \<Rightarrow> broker_info list \<Rightarrow> (broker_id \<times> 's) list \<Rightarrow> string \<Rightarrow> nat list \<Rightarrow> (broker_id \<times> nat) list \<Rightarrow> metadata \<Rightarrow>
   bool \<times> metadata"
where
  "assign_partitions so rf brokers scores name [] counts m = (True, m)"
| "assign_partitions so rf brokers scores name (p # ps) counts m =
     (if scores = [] \<and> brokers = [] then (False, m)
      else
        (let (replicas, counts') = (if scores \<noteq> [] then weighted_replicas so rf brokers scores counts
                                    else (round_robin_replicas rf brokers p, counts))
         in case replicas of
              [] \<Rightarrow> (False, m)
            | leader # _ \<Rightarrow>
                assign_partitions so rf brokers scores name ps counts'
                  (mm_assign_partition (TopicPartition name p)
                     \<lparr>pa_leader = leader, pa_replicas = replicas, pa_in_sync_replicas = replicas, pa_leader_epoch = 1\<rparr> m)))"

definition default_topic_config :: topic_config where
  "default_topic_config = \<lparr>tc_retention_ms = Some 86400000, tc_segment_bytes = Some 1073741824, tc_compression_type = Some ''lz4''\<rparr>"

text \<open>The response is None when the handler panics.\<close>

definition create_topic ::
  "('s::linorder) score_ops \<Rightarrow> (broker_info list \<Rightarrow> broker_info list) \<Rightarrow> int \<Rightarrow> create_topic_request \<Rightarrow> 's controller_service \<Rightarrow>
   service_response option \<times> 's controller_service"
where
  "create_topic so order now q s =
     (if prefix ''__'' (cq_name q)
      then (Some (refuse (''Cannot manually create internal topics starting with '' @ [CHR 0x27] @ ''__'' @ [CHR 0x27]) s), s)
      else if \<not> rf_is_leader (cs_raft_state s) then (Some (refuse ''Not the leader'' s), s)
      else
        (let info = \<lparr>ti_name = cq_name q, ti_partitions = cq_partitions q, ti_replication_factor = cq_replication_factor q,
                     ti_config = (case cq_config q of None \<Rightarrow> default_topic_config | Some c \<Rightarrow> c), ti_created_at = now\<rparr>
         in case mm_create_topic info (cs_metadata_manager s) of
              (Inl e, m) \<Rightarrow> (Some (refuse (''Failed to create topic: Topic already exists: '' @ cq_name q) s), s)
            | (Inr _, m) \<Rightarrow>
                (let brokers = mm_get_brokers order m; s1 = s\<lparr>cs_metadata_manager := m\<rparr>
                 in if length brokers < cq_replication_factor q
                    then (Some (refuse ''Not enough brokers for replication factor'' s1), s1)
                    else
                      (let (ok, m') = assign_partitions so (cq_replication_factor q) brokers (cs_broker_load_scores s) (cq_name q)
                                        [0..<cq_partitions q] [] m;
                           s2 = s\<lparr>cs_metadata_manager := m'\<rparr>
                       in (if ok then Some (accept s2) else None, s2)))))"

definition delete_topic :: "string \<Rightarrow> 's controller_service \<Rightarrow> service_response \<times> 's controller_service" where
  "delete_topic name s =
     (if prefix ''__'' name
      then (refuse (''Cannot delete internal topics starting with '' @ [CHR 0x27] @ ''__'' @ [CHR 0x27]) s, s)
      else if \<not> rf_is_leader (cs_raft_state s) then (refuse ''Not the leader'' s, s)
      else case mm_delete_topic name (cs_metadata_manager s) of
             (Inl e, m) \<Rightarrow> (refuse (''Failed to delete topic: Topic not found: '' @ name) s, s)
           | (Inr _, m) \<Rightarrow> (accept s, s\<lparr>cs_metadata_manager := m\<rparr>))"

definition register_broker :: "broker_info \<Rightarrow> 's controller_service \<Rightarrow> service_response \<times> 's controller_service" where
  "register_broker b s =
     (if \<not> rf_is_leader (cs_raft_state s) then (refuse ''Not the leader'' s, s)
      else (accept s, s\<lparr>cs_metadata_manager := mm_add_broker b (cs_metadata_manager s)\<rparr>))"

definition update_scaling_config :: "nat \<Rightarrow> 's controller_service \<Rightarrow> unit result \<times> 's controller_service" where
  "update_scaling_config new_max s =
     (if new_max = 0 then (Err (InvalidConfig ''max_concurrent_decommissions must be greater than 0''), s)
      else if new_max > 10 then (Err (InvalidConfig ''max_concurrent_decommissions should not exceed 10 for safety''), s)
      else case update_max_concurrent new_max (cs_decommission_manager s) of
             (Inl e, dm) \<Rightarrow> (Err e, s\<lparr>cs_decommission_manager := dm\<rparr>)
           | (Inr _, dm) \<Rightarrow> (Ok (), s\<lparr>cs_decommission_manager := dm, cs_max_concurrent_decommissions := new_max\<rparr>))"

section \<open>Calls of brokers\<close>

text \<open>
  A heartbeat carries the broker's load, of which the composite score is an argument; the stored raw metrics are left out.
  The result is the age of the previous heartbeat in seconds and the coordinators of the offset partitions.
\<close>

record coordinator_entry =
  ce_partition :: nat
  ce_broker_id :: broker_id
  ce_host :: string
  ce_port :: nat

definition coordinator_entries :: "metadata \<Rightarrow> coordinator_entry list" where
  "coordinator_entries m =
     map (\<lambda>(tp, a). case map_of (mm_brokers m) (pa_leader a) of
            Some b \<Rightarrow> \<lparr>ce_partition = tp_partition tp, ce_broker_id = pa_leader a, ce_host = bi_host b, ce_port = bi_port_quic b\<rparr>
          | None \<Rightarrow> \<lparr>ce_partition = tp_partition tp, ce_broker_id = pa_leader a, ce_host = ''localhost'', ce_port = 9092\<rparr>)
       (filter (\<lambda>(tp, a). tp_topic tp = ''__consumer_offsets'') (mm_partition_assignments m))"

definition broker_heartbeat :: "'s score_ops \<Rightarrow> int \<Rightarrow> int \<Rightarrow> broker_id \<Rightarrow> 's option \<Rightarrow> 's controller_service \<Rightarrow>
  (nat \<times> coordinator_entry list) option \<times> 's controller_service" where
  "broker_heartbeat so now now' b metrics_score s =
     (case metrics_score of
        None \<Rightarrow> (None, s)
      | Some score \<Rightarrow>
          (let age = (case map_of (cs_broker_heartbeats s) b of None \<Rightarrow> 0 | Some p \<Rightarrow> nat (max 0 ((now' - p) div 10 ^ 9)));
               prev_score = hm_entry score (cs_broker_load_scores s) b;
               s1 = s\<lparr>cs_broker_heartbeats := AList.update b now (cs_broker_heartbeats s),
                     cs_broker_load_scores := AList.update b (so_ewma so score prev_score) (cs_broker_load_scores s)\<rparr>
           in (Some (age, coordinator_entries (cs_metadata_manager s1)), s1)))"

definition best_replica :: "('s::linorder) score_ops \<Rightarrow> (broker_id \<times> 's) list \<Rightarrow> broker_id \<Rightarrow> broker_id list \<Rightarrow> broker_id option" where
  "best_replica so scores b in_sync =
     fst (fold (\<lambda>isr (best, lowest).
        if isr = b then (best, lowest)
        else (let sc = hm_entry (so_zero so) scores isr in if sc < lowest then (Some isr, sc) else (best, lowest))) in_sync (None, so_infinity so))"

record transfer_request =
  tr_topic_partition :: topic_partition
  tr_current_leader_id :: broker_id
  tr_current_leader_epoch :: nat
  tr_new_leader_id :: broker_id

text \<open>\<open>transfer_partition_leadership\<close> answers success without an effect.\<close>

definition transfer_partition_leadership :: "transfer_request \<Rightarrow> 's controller_service \<Rightarrow> bool \<times> 's controller_service" where
  "transfer_partition_leadership q s = (True, s)"

fun drain_loop ::
  "('s::linorder) score_ops \<Rightarrow> broker_id \<Rightarrow> (topic_partition \<times> partition_assignment) list \<Rightarrow> 's controller_service \<Rightarrow> transfer_request list \<times> 's controller_service"
where
  "drain_loop so b [] s = ([], s)"
| "drain_loop so b ((tp, a) # rest) s =
     (if pa_leader a \<noteq> b then drain_loop so b rest s
      else case best_replica so (cs_broker_load_scores s) b (pa_in_sync_replicas a) of
             None \<Rightarrow> drain_loop so b rest s
           | Some l \<Rightarrow>
               (let q = \<lparr>tr_topic_partition = tp, tr_current_leader_id = b, tr_current_leader_epoch = pa_leader_epoch a, tr_new_leader_id = l\<rparr>;
                    (ok, s1) = transfer_partition_leadership q s;
                    (qs, s2) = drain_loop so b rest s1
                in (q # qs, s2)))"

definition drain_broker :: "('s::linorder) score_ops \<Rightarrow> broker_id \<Rightarrow> 's controller_service \<Rightarrow> (bool \<times> transfer_request list) \<times> 's controller_service" where
  "drain_broker so b s =
     (let s1 = s\<lparr>cs_broker_statuses := AList.update b Draining (cs_broker_statuses s)\<rparr>;
          (qs, s2) = drain_loop so b (mm_partition_assignments (cs_metadata_manager s1)) s1
      in ((True, qs), s2))"

section \<open>Assignment of partitions\<close>

text \<open>What an assignment made by the service looks like: the given number of distinct brokers, led by the first, all in sync.\<close>

definition good_assignment :: "nat \<Rightarrow> broker_id set \<Rightarrow> partition_assignment \<Rightarrow> bool" where
  "good_assignment rf ids a \<longleftrightarrow> rf > 0 \<and> length (pa_replicas a) = rf \<and> distinct (pa_replicas a) \<and> set (pa_replicas a) \<subseteq> ids \<and>
     pa_leader a = hd (pa_replicas a) \<and> pa_in_sync_replicas a = pa_replicas a \<and> pa_leader_epoch a = 1"

lemma inj_on_shift_mod: "inj_on (\<lambda>i. (s + i) mod n) {0..<n :: nat}"
proof (rule inj_onI)
  have aux: "i = j" if "(s + i) mod n = (s + j) mod n" "i \<le> j" "j < n" for i j
  proof -
    have "n dvd (s + j) - (s + i)" using that by (subst mod_eq_dvd_iff_nat [symmetric]) auto
    then have "n dvd j - i" by simp
    then show ?thesis using that by (auto dest: dvd_imp_le)
  qed
  fix i j assume "i \<in> {0..<n}" "j \<in> {0..<n}" "(s + i) mod n = (s + j) mod n"
  then show "i = j" using aux [of i j] aux [of j i] by (cases "i \<le> j") auto
qed

lemma round_robin_good:
  assumes "rf \<le> length brokers" "distinct (map bi_id brokers)"
  shows "length (round_robin_replicas rf brokers p) = rf" "distinct (round_robin_replicas rf brokers p)"
    "set (round_robin_replicas rf brokers p) \<subseteq> bi_id ` set brokers"
proof -
  let ?n = "length brokers"
  let ?ix = "\<lambda>i. (p mod ?n + i) mod ?n"
  show "length (round_robin_replicas rf brokers p) = rf" by (simp add: round_robin_replicas_def Let_def)
  have lt: "?ix i < ?n" if "i < rf" for i using that assms(1) by (intro mod_less_divisor) auto
  have "inj_on ?ix (set [0..<rf])"
    using inj_on_subset [OF inj_on_shift_mod [of "p mod ?n" ?n], of "set [0..<rf]"] assms(1) by auto
  moreover have "inj_on (\<lambda>i. bi_id (brokers ! i)) {..<?n}"
    using assms(2) by (auto simp: inj_on_def distinct_conv_nth)
  moreover have "?ix ` set [0..<rf] \<subseteq> {..<?n}" using lt by auto
  ultimately have "inj_on ((\<lambda>i. bi_id (brokers ! i)) \<circ> ?ix) (set [0..<rf])"
    by (intro comp_inj_on) (auto intro: inj_on_subset)
  then show "distinct (round_robin_replicas rf brokers p)"
    by (simp add: round_robin_replicas_def Let_def distinct_map comp_def)
  show "set (round_robin_replicas rf brokers p) \<subseteq> bi_id ` set brokers"
    using lt by (auto simp: round_robin_replicas_def Let_def)
qed

lemma weighted_good:
  assumes "rf \<le> length brokers" "distinct (map bi_id brokers)"
  shows "length (fst (weighted_replicas so rf brokers scores counts)) = rf" "distinct (fst (weighted_replicas so rf brokers scores counts))"
    "set (fst (weighted_replicas so rf brokers scores counts)) \<subseteq> bi_id ` set brokers"
proof -
  let ?sc = "\<lambda>b. so_effective so (hm_entry (so_zero so) scores (bi_id b)) (hm_entry 0 counts (bi_id b))"
  let ?c = "map (\<lambda>b. (bi_id b, ?sc b)) brokers"
  have fst_c: "map fst ?c = map bi_id brokers" by simp
  have "mset (map fst (sort_key snd ?c)) = mset (map fst ?c)" by (simp only: mset_map mset_sort)
  from mset_eq_imp_distinct_iff [OF this] have d: "distinct (map fst (sort_key snd ?c))" using assms(2) unfolding fst_c by simp
  have w: "fst (weighted_replicas so rf brokers scores counts) = take rf (map fst (sort_key snd ?c))"
    by (simp add: weighted_replicas_def Let_def take_map)
  show "length (fst (weighted_replicas so rf brokers scores counts)) = rf" using assms(1) by (simp add: w)
  show "distinct (fst (weighted_replicas so rf brokers scores counts))" unfolding w using d by (rule distinct_take)
  have "set (map fst (sort_key snd ?c)) = set (map fst ?c)" by (simp only: set_map set_sort)
  then have "set (map fst (sort_key snd ?c)) = bi_id ` set brokers" unfolding fst_c by simp
  then show "set (fst (weighted_replicas so rf brokers scores counts)) \<subseteq> bi_id ` set brokers"
    unfolding w by (metis set_take_subset)
qed

lemma mm_assign_partition_get [simp]:
  "map_of (mm_partition_assignments (mm_assign_partition tp a m)) = (map_of (mm_partition_assignments m))(tp \<mapsto> a)"
  "mm_topics (mm_assign_partition tp a m) = mm_topics m" "mm_brokers (mm_assign_partition tp a m) = mm_brokers m"
  by (simp_all add: mm_assign_partition_def update_conv')

definition assigned ::
  "nat \<Rightarrow> broker_info list \<Rightarrow> bool \<Rightarrow> string \<Rightarrow> nat list \<Rightarrow> metadata \<Rightarrow> metadata \<Rightarrow> bool"
where
  "assigned rf brokers round_robin name ps m m' \<longleftrightarrow> mm_topics m' = mm_topics m \<and> mm_brokers m' = mm_brokers m \<and>
     (\<forall>p \<in> set ps. \<exists>a. map_of (mm_partition_assignments m') (TopicPartition name p) = Some a \<and> good_assignment rf (bi_id ` set brokers) a \<and>
        (round_robin \<longrightarrow> pa_leader a = bi_id (brokers ! (p mod length brokers)))) \<and>
     (\<forall>tp. tp \<notin> TopicPartition name ` set ps \<longrightarrow> map_of (mm_partition_assignments m') tp = map_of (mm_partition_assignments m) tp)"

lemma assign_partitions_assigned:
  assumes rf: "0 < rf" "rf \<le> length brokers" and ids: "distinct (map bi_id brokers)"
  shows "distinct ps \<Longrightarrow> assign_partitions so rf brokers scores name ps counts m = (ok, m') \<Longrightarrow>
    ok \<and> assigned rf brokers (scores = []) name ps m m'"
proof (induction ps arbitrary: counts m)
  case (Cons p ps)
  obtain replicas counts' where rc:
    "(replicas, counts') = (if scores \<noteq> [] then weighted_replicas so rf brokers scores counts else (round_robin_replicas rf brokers p, counts))"
    by (metis surj_pair)
  have rep: "length replicas = rf" "distinct replicas" "set replicas \<subseteq> bi_id ` set brokers"
    using rc round_robin_good [OF rf(2) ids, of p] weighted_good [OF rf(2) ids, of so scores counts]
    by (auto split: if_splits simp: prod_eq_iff)
  then obtain l rest where replicas: "replicas = l # rest" using rf(1) by (cases replicas) auto
  let ?a = "\<lparr>pa_leader = l, pa_replicas = replicas, pa_in_sync_replicas = replicas, pa_leader_epoch = 1\<rparr>"
  have ne: "brokers \<noteq> []" using rf by auto
  have rr: "l = bi_id (brokers ! (p mod length brokers))" if "scores = []"
    using rc that replicas rf by (auto simp: round_robin_replicas_def Let_def upt_conv_Cons)
  have good: "good_assignment rf (bi_id ` set brokers) ?a" using rep replicas rf(1) by (auto simp: good_assignment_def)
  have "assign_partitions so rf brokers scores name ps counts' (mm_assign_partition (TopicPartition name p) ?a m) = (ok, m')"
    using Cons.prems(2) ne by (simp add: rc [symmetric] replicas)
  from Cons.IH [OF _ this] Cons.prems(1) have ih: "ok \<and> assigned rf brokers (scores = []) name ps (mm_assign_partition (TopicPartition name p) ?a m) m'"
    by simp
  moreover have "TopicPartition name p \<notin> TopicPartition name ` set ps" using Cons.prems(1) by auto
  ultimately show ?case using good rr by (auto simp: assigned_def)
qed (simp add: assigned_def)

lemma assign_partitions_no_replicas:
  assumes "rf = 0"
  shows "assign_partitions so rf brokers scores name ps counts m = (ok, m') \<Longrightarrow> m' = m \<and> (ok \<longleftrightarrow> ps = [])"
proof (cases ps)
  case (Cons p ps')
  have "fst (weighted_replicas so rf brokers scores counts) = []" "round_robin_replicas rf brokers p = []"
    using assms by (simp_all add: weighted_replicas_def round_robin_replicas_def Let_def)
  then show "assign_partitions so rf brokers scores name ps counts m = (ok, m') \<Longrightarrow> ?thesis"
    by (auto simp: Cons prod_eq_iff split: prod.splits if_splits)
qed simp

section \<open>Runs of the service\<close>

datatype 's service_event =
    EvRegisterBroker broker_info
  | EvCreateTopic "broker_info list \<Rightarrow> broker_info list" int create_topic_request
  | EvDeleteTopic string
  | EvInternalTopics int
  | EvHealthCheck int
  | EvHeartbeat int int broker_id "'s option"
  | EvDrain broker_id
  | EvElection
  | EvVoteRequest vote_request
  | EvAppendEntries append_entries_request
  | EvAcquireSlot string string nat string string
  | EvReleaseSlot string
  | EvUpdateScaling nat
  | EvCleanup nat

fun service_step :: "('s::linorder) score_ops \<Rightarrow> 's service_event \<Rightarrow> 's controller_service \<Rightarrow> 's controller_service" where
  "service_step so (EvRegisterBroker b) s = snd (register_broker b s)"
| "service_step so (EvCreateTopic order now q) s = snd (create_topic so order now q s)"
| "service_step so (EvDeleteTopic name) s = snd (delete_topic name s)"
| "service_step so (EvInternalTopics now) s = ensure_internal_topics now s"
| "service_step so (EvHealthCheck now) s = health_check_turn now s"
| "service_step so (EvHeartbeat now now' b score) s = snd (broker_heartbeat so now now' b score s)"
| "service_step so (EvDrain b) s = snd (drain_broker so b s)"
| "service_step so EvElection s = s\<lparr>cs_raft_state := snd (start_election (cs_node_id s) (cs_raft_state s))\<rparr>"
| "service_step so (EvVoteRequest q) s = s\<lparr>cs_raft_state := snd (handle_vote_request id q (cs_raft_state s))\<rparr>"
| "service_step so (EvAppendEntries q) s = s\<lparr>cs_raft_state := snd (handle_append_entries q (cs_raft_state s))\<rparr>"
| "service_step so (EvAcquireSlot op tok now b rq) s =
     s\<lparr>cs_decommission_manager := snd (acquire_slot op tok now b rq (cs_decommission_manager s))\<rparr>"
| "service_step so (EvReleaseSlot op) s = s\<lparr>cs_decommission_manager := snd (release_slot op (cs_decommission_manager s))\<rparr>"
| "service_step so (EvUpdateScaling n) s = snd (update_scaling_config n s)"
| "service_step so (EvCleanup now) s = s\<lparr>cs_decommission_manager := cleanup_turn now (cs_decommission_manager s)\<rparr>"

text \<open>A broker list handed to the assignment is some ordering of the registered brokers.\<close>

definition order_ok :: "'s service_event \<Rightarrow> bool" where
  "order_ok ev \<longleftrightarrow> (case ev of EvCreateTopic order now q \<Rightarrow> (\<forall>xs. mset (order xs) = mset xs) | _ \<Rightarrow> True)"

text \<open>
  Brokers and topics are stored under their own names, and every assignment is one of a partition of a registered topic, to as many
  registered brokers as the topic asks for.
\<close>

definition brokers_wf :: "(broker_id \<times> broker_info) list \<Rightarrow> bool" where
  "brokers_wf bs \<longleftrightarrow> distinct (map fst bs) \<and> (\<forall>(k, b) \<in> set bs. bi_id b = k)"

definition assignment_ok :: "metadata \<Rightarrow> topic_partition \<Rightarrow> partition_assignment \<Rightarrow> bool" where
  "assignment_ok m tp a \<longleftrightarrow> (case map_of (mm_topics m) (tp_topic tp) of
     None \<Rightarrow> False
   | Some t \<Rightarrow> tp_partition tp < ti_partitions t \<and> good_assignment (ti_replication_factor t) (fst ` set (mm_brokers m)) a)"

definition metadata_wf :: "metadata \<Rightarrow> bool" where
  "metadata_wf m \<longleftrightarrow> brokers_wf (mm_brokers m) \<and> (\<forall>name t. map_of (mm_topics m) name = Some t \<longrightarrow> ti_name t = name) \<and>
     (\<forall>tp a. map_of (mm_partition_assignments m) tp = Some a \<longrightarrow> assignment_ok m tp a)"

lemma metadata_wf_brokers:
  assumes "brokers_wf bs" "mset brokers = mset (map snd bs)"
  shows "distinct (map bi_id brokers)" "bi_id ` set brokers = fst ` set bs"
proof -
  have ids: "map bi_id (map snd bs) = map fst bs" using assms(1) by (auto simp: brokers_wf_def)
  have "mset (map bi_id brokers) = mset (map bi_id (map snd bs))"
    using arg_cong [OF assms(2), of "image_mset bi_id"] by (simp only: mset_map)
  then have m: "mset (map bi_id brokers) = mset (map fst bs)" by (simp only: ids)
  show "distinct (map bi_id brokers)" using mset_eq_imp_distinct_iff [OF m] assms(1) by (simp add: brokers_wf_def)
  show "bi_id ` set brokers = fst ` set bs" using mset_eq_setD [OF m] by simp
qed

lemma mm_create_topic_wf:
  assumes "metadata_wf m" "mm_create_topic t m = (r, m')"
  shows "metadata_wf m'"
proof (cases "map_of (mm_topics m) (ti_name t)")
  case None
  then have m': "m' = m\<lparr>mm_topics := AList.update (ti_name t) t (mm_topics m)\<rparr>"
    using assms(2) by (simp add: mm_create_topic_def)
  have "assignment_ok m' tp a" if "assignment_ok m tp a" for tp a
    using that None by (auto simp: assignment_ok_def m' update_conv' split: option.splits)
  then show ?thesis using assms(1) by (simp add: metadata_wf_def m' update_conv')
next
  case (Some x)
  then have "m' = m" using assms(2) by (simp add: mm_create_topic_def)
  then show ?thesis using assms(1) by simp
qed

lemma mm_delete_topic_wf:
  assumes "metadata_wf m" "mm_delete_topic name m = (r, m')"
  shows "metadata_wf m'"
proof (cases "map_of (mm_topics m) name")
  case (Some t)
  then have m': "m' = m\<lparr>mm_topics := AList.delete name (mm_topics m),
      mm_partition_assignments := filter (\<lambda>(tp, a). tp_topic tp \<noteq> name) (mm_partition_assignments m)\<rparr>"
    using assms(2) by (simp add: mm_delete_topic_def)
  have "assignment_ok m' tp a" if "assignment_ok m tp a" "tp_topic tp \<noteq> name" for tp a
    using that by (auto simp: assignment_ok_def m' delete_conv' split: option.splits)
  then show ?thesis using assms(1) by (simp add: metadata_wf_def m' delete_conv' map_of_assignments_retain)
next
  case None
  then have "m' = m" using assms(2) by (simp add: mm_delete_topic_def)
  then show ?thesis using assms(1) by simp
qed

lemma brokers_wf_update:
  assumes "brokers_wf bs"
  shows "brokers_wf (AList.update (bi_id b) b bs)"
proof -
  have sub: "(k, x) \<in> set (AList.update (bi_id b) b bs) \<Longrightarrow> (k, x) = (bi_id b, b) \<or> (k, x) \<in> set bs" for k x
    by (induction bs) (auto split: if_splits)
  have "bi_id x = k" if "(k, x) \<in> set (AList.update (bi_id b) b bs)" for k x
    using sub [OF that] assms by (auto simp: brokers_wf_def)
  then show ?thesis using assms by (auto simp: brokers_wf_def distinct_update)
qed

lemma mm_add_broker_wf:
  assumes "metadata_wf m"
  shows "metadata_wf (mm_add_broker b m)"
proof -
  have keys: "fst ` set (AList.update (bi_id b) b (mm_brokers m)) = insert (bi_id b) (fst ` set (mm_brokers m))"
    by (simp add: dom_map_of_conv_image_fst [symmetric] update_conv')
  have "assignment_ok (mm_add_broker b m) tp a" if "assignment_ok m tp a" for tp a
    using that by (auto simp: assignment_ok_def mm_add_broker_def good_assignment_def keys split: option.splits)
  then show ?thesis using assms by (simp add: metadata_wf_def mm_add_broker_def brokers_wf_update)
qed


definition new_topic :: "int \<Rightarrow> create_topic_request \<Rightarrow> topic_info" where
  "new_topic now q =
     \<lparr>ti_name = cq_name q, ti_partitions = cq_partitions q, ti_replication_factor = cq_replication_factor q,
      ti_config = (case cq_config q of None \<Rightarrow> default_topic_config | Some c \<Rightarrow> c), ti_created_at = now\<rparr>"

definition create_allowed :: "create_topic_request \<Rightarrow> 's controller_service \<Rightarrow> bool" where
  "create_allowed q s \<longleftrightarrow> \<not> prefix ''__'' (cq_name q) \<and> rf_is_leader (cs_raft_state s) \<and>
     map_of (mm_topics (cs_metadata_manager s)) (cq_name q) = None"

definition with_topic :: "int \<Rightarrow> create_topic_request \<Rightarrow> 's controller_service \<Rightarrow> metadata" where
  "with_topic now q s =
     (cs_metadata_manager s)\<lparr>mm_topics := AList.update (cq_name q) (new_topic now q) (mm_topics (cs_metadata_manager s))\<rparr>"

lemma create_topic_refused:
  "\<not> create_allowed q s \<Longrightarrow> create_topic so order now q s = (r, s') \<Longrightarrow> s' = s \<and> (\<exists>msg. r = Some (refuse msg s))"
  by (auto simp: create_allowed_def create_topic_def mm_create_topic_def Let_def split: if_splits)

lemma create_topic_few_brokers:
  "create_allowed q s \<Longrightarrow> length (mm_get_brokers order (cs_metadata_manager s)) < cq_replication_factor q \<Longrightarrow>
   create_topic so order now q s =
     (Some (refuse ''Not enough brokers for replication factor'' s), s\<lparr>cs_metadata_manager := with_topic now q s\<rparr>)"
  by (simp add: create_allowed_def create_topic_def mm_create_topic_def Let_def with_topic_def new_topic_def mm_get_brokers_def refuse_def)

lemma create_topic_assign:
  "create_allowed q s \<Longrightarrow> \<not> length (mm_get_brokers order (cs_metadata_manager s)) < cq_replication_factor q \<Longrightarrow>
   assign_partitions so (cq_replication_factor q) (mm_get_brokers order (cs_metadata_manager s)) (cs_broker_load_scores s) (cq_name q)
     [0..<cq_partitions q] [] (with_topic now q s) = (ok, m') \<Longrightarrow>
   create_topic so order now q s = (if ok then Some (accept s) else None, s\<lparr>cs_metadata_manager := m'\<rparr>)"
  by (simp add: create_allowed_def create_topic_def mm_create_topic_def Let_def with_topic_def new_topic_def mm_get_brokers_def accept_def)

lemma with_topic_wf:
  assumes "metadata_wf (cs_metadata_manager s)" "create_allowed q s"
  shows "metadata_wf (with_topic now q s)"
  using mm_create_topic_wf [OF assms(1), of "new_topic now q" "Ok ()" "with_topic now q s"] assms(2)
  by (simp add: mm_create_topic_def create_allowed_def with_topic_def new_topic_def)

lemma with_topic_simps [simp]:
  "map_of (mm_topics (with_topic now q s)) (cq_name q) = Some (new_topic now q)"
  "mm_brokers (with_topic now q s) = mm_brokers (cs_metadata_manager s)"
  "mm_partition_assignments (with_topic now q s) = mm_partition_assignments (cs_metadata_manager s)"
  by (simp_all add: with_topic_def update_conv')

lemma assigned_wf:
  assumes wf: "metadata_wf m" and t: "map_of (mm_topics m) name = Some t" and ids: "bi_id ` set brokers = fst ` set (mm_brokers m)"
    and a: "assigned (ti_replication_factor t) brokers rr name [0..<ti_partitions t] m m'"
  shows "metadata_wf m'"
proof -
  have same: "mm_topics m' = mm_topics m" "mm_brokers m' = mm_brokers m" using a by (simp_all add: assigned_def)
  have "assignment_ok m tp x" if x: "map_of (mm_partition_assignments m') tp = Some x" for tp x
  proof (cases "tp \<in> TopicPartition name ` set [0..<ti_partitions t]")
    case True
    then obtain p where tp: "tp = TopicPartition name p" and p: "p \<in> set [0..<ti_partitions t]" by blast
    from p a obtain y where "map_of (mm_partition_assignments m') (TopicPartition name p) = Some y"
      "good_assignment (ti_replication_factor t) (bi_id ` set brokers) y" unfolding assigned_def by blast
    then show ?thesis using x t p by (simp add: assignment_ok_def tp ids)
  next
    case False
    then have "map_of (mm_partition_assignments m) tp = Some x" using a x by (simp add: assigned_def)
    then show ?thesis using wf by (simp add: metadata_wf_def)
  qed
  moreover have "assignment_ok m' = assignment_ok m" unfolding assignment_ok_def same by simp
  ultimately show ?thesis using wf by (simp add: metadata_wf_def same)
qed

lemma create_topic_assigned:
  assumes wf: "metadata_wf (cs_metadata_manager s)" and order: "\<forall>xs. mset (order xs) = mset xs"
    and allowed: "create_allowed q s" and rf: "0 < cq_replication_factor q" "cq_replication_factor q \<le> length (mm_brokers (cs_metadata_manager s))"
  obtains m' where "create_topic so order now q s = (Some (accept s), s\<lparr>cs_metadata_manager := m'\<rparr>)" "metadata_wf m'"
    "assigned (cq_replication_factor q) (mm_get_brokers order (cs_metadata_manager s)) (cs_broker_load_scores s = []) (cq_name q)
       [0..<cq_partitions q] (with_topic now q s) m'"
proof -
  let ?bs = "mm_get_brokers order (cs_metadata_manager s)"
  have ms: "mset ?bs = mset (map snd (mm_brokers (cs_metadata_manager s)))" using order by (simp add: mm_get_brokers_def)
  have len: "length ?bs = length (mm_brokers (cs_metadata_manager s))" using mset_eq_length [OF ms] by simp
  have ids: "distinct (map bi_id ?bs)" "bi_id ` set ?bs = fst ` set (mm_brokers (cs_metadata_manager s))"
    using metadata_wf_brokers [OF _ ms] wf by (simp_all add: metadata_wf_def)
  obtain ok m' where ap: "assign_partitions so (cq_replication_factor q) ?bs (cs_broker_load_scores s) (cq_name q) [0..<cq_partitions q] [] (with_topic now q s) = (ok, m')"
    by fastforce
  have a: "ok \<and> assigned (cq_replication_factor q) ?bs (cs_broker_load_scores s = []) (cq_name q) [0..<cq_partitions q] (with_topic now q s) m'"
    using assign_partitions_assigned [OF rf(1) _ ids(1) _ ap] rf(2) len by simp
  moreover have "create_topic so order now q s = (if ok then Some (accept s) else None, s\<lparr>cs_metadata_manager := m'\<rparr>)"
    using create_topic_assign [OF allowed _ ap] rf(2) len by simp
  moreover have "metadata_wf m'"
  proof (rule assigned_wf [OF with_topic_wf [OF wf allowed] with_topic_simps(1)])
    show "bi_id ` set ?bs = fst ` set (mm_brokers (with_topic now q s))" using ids(2) by simp
    show "assigned (ti_replication_factor (new_topic now q)) ?bs (cs_broker_load_scores s = []) (cq_name q)
        [0..<ti_partitions (new_topic now q)] (with_topic now q s) m'" using a by (simp add: new_topic_def)
  qed
  ultimately show thesis using that by simp
qed

lemma create_topic_wf:
  assumes wf: "metadata_wf (cs_metadata_manager s)" and order: "\<forall>xs. mset (order xs) = mset xs"
  shows "metadata_wf (cs_metadata_manager (snd (create_topic so order now q s)))"
proof (cases "create_allowed q s")
  case False
  then show ?thesis using create_topic_refused [OF False, of so order now "fst (create_topic so order now q s)" "snd (create_topic so order now q s)"] wf by simp
next
  case True
  let ?bs = "mm_get_brokers order (cs_metadata_manager s)"
  have len: "length ?bs = length (mm_brokers (cs_metadata_manager s))"
    using order mset_eq_length [of ?bs "map snd (mm_brokers (cs_metadata_manager s))"] by (simp add: mm_get_brokers_def)
  consider "length ?bs < cq_replication_factor q" | "cq_replication_factor q = 0" |
      "0 < cq_replication_factor q" "cq_replication_factor q \<le> length ?bs" by linarith
  then show ?thesis
  proof cases
    case 1
    then show ?thesis using create_topic_few_brokers [OF True 1] with_topic_wf [OF wf True] by simp
  next
    case 2
    obtain ok m' where ap: "assign_partitions so (cq_replication_factor q) ?bs (cs_broker_load_scores s) (cq_name q) [0..<cq_partitions q] [] (with_topic now q s) = (ok, m')"
      by fastforce
    then show ?thesis
      using create_topic_assign [OF True _ ap] assign_partitions_no_replicas [OF 2 ap] with_topic_wf [OF wf True] 2 by simp
  next
    case 3
    then obtain m' where "create_topic so order now q s = (Some (accept s), s\<lparr>cs_metadata_manager := m'\<rparr>)" "metadata_wf m'"
      using create_topic_assigned [OF wf order True] len by metis
    then show ?thesis by simp
  qed
qed

lemma drain_loop_state [simp]: "snd (drain_loop so b rest s) = s"
  by (induction so b rest s rule: drain_loop.induct)
    (auto simp: transfer_partition_leadership_def split: option.splits prod.splits)

lemma service_step_wf:
  assumes "metadata_wf (cs_metadata_manager s)" "order_ok ev"
  shows "metadata_wf (cs_metadata_manager (service_step so ev s))"
proof (cases ev)
  case (EvCreateTopic order now q)
  then show ?thesis using assms create_topic_wf by (simp add: order_ok_def)
next
  case (EvDeleteTopic name)
  then show ?thesis
    using assms(1) mm_delete_topic_wf [OF assms(1), of name]
    by (auto simp: delete_topic_def split: prod.splits sum.splits)
next
  case (EvInternalTopics now)
  then show ?thesis
    using assms(1) mm_create_topic_wf [OF assms(1) prod.collapse [symmetric]]
    by (simp add: ensure_internal_topics_def Let_def)
next
  case (EvHeartbeat now now' b score)
  then show ?thesis using assms(1) by (simp add: broker_heartbeat_def Let_def split: option.splits)
next
  case (EvUpdateScaling n)
  then show ?thesis using assms(1) by (auto simp: update_scaling_config_def split: prod.splits sum.splits)
qed (use assms(1) in \<open>simp_all add: register_broker_def mm_add_broker_wf health_check_turn_def drain_broker_def Let_def split_beta\<close>)

lemma service_run_wf:
  "metadata_wf (cs_metadata_manager s) \<Longrightarrow> \<forall>ev \<in> set evs. order_ok ev \<Longrightarrow>
   metadata_wf (cs_metadata_manager (fold (service_step so) evs s))"
  by (induction evs arbitrary: s) (simp_all add: service_step_wf)

lemma service_new_wf: "metadata_wf (cs_metadata_manager (service_new node peers n))"
  by (simp add: service_new_def metadata_new_def metadata_wf_def brokers_wf_def)

section \<open>Votes\<close>

datatype raft_event = Election | VoteRequested vote_request | EntriesAppended append_entries_request

fun raft_step :: "string \<Rightarrow> raft_event \<Rightarrow> raft_state \<Rightarrow> raft_state" where
  "raft_step node Election r = snd (start_election node r)"
| "raft_step node (VoteRequested q) r = snd (handle_vote_request id q r)"
| "raft_step node (EntriesAppended q) r = snd (handle_append_entries q r)"

text \<open>The vote a node casts in an event, as a term and a candidate: for itself in an election, or the one it grants.\<close>

fun vote_cast :: "string \<Rightarrow> raft_event \<Rightarrow> raft_state \<Rightarrow> (nat \<times> string) option" where
  "vote_cast node Election r = Some (rf_current_term (snd (start_election node r)), node)"
| "vote_cast node (VoteRequested q) r =
     (let (p, r') = handle_vote_request id q r in if vp_vote_granted p then Some (vp_term p, vq_candidate_id q) else None)"
| "vote_cast node (EntriesAppended q) r = None"

fun votes_cast :: "string \<Rightarrow> raft_event list \<Rightarrow> raft_state \<Rightarrow> (nat \<times> string) list" where
  "votes_cast node [] r = []"
| "votes_cast node (ev # evs) r =
     (case vote_cast node ev r of None \<Rightarrow> [] | Some v \<Rightarrow> [v]) @ votes_cast node evs (raft_step node ev r)"

text \<open>No election starts at the largest term, where the counter would wrap around to 0.\<close>

fun terms_fit :: "string \<Rightarrow> raft_event list \<Rightarrow> raft_state \<Rightarrow> bool" where
  "terms_fit node [] r = True"
| "terms_fit node (ev # evs) r = ((ev = Election \<longrightarrow> rf_current_term r < u64_max) \<and> terms_fit node evs (raft_step node ev r))"

lemma start_election_state:
  assumes "rf_current_term r < u64_max"
  shows "rf_current_term (snd (start_election node r)) = Suc (rf_current_term r)" "rf_voted_for (snd (start_election node r)) = Some node"
    "rf_peers (snd (start_election node r)) = rf_peers r"
  using assms by (simp_all add: start_election_def increment_term_def Let_def)

lemma raft_step_terms:
  assumes "ev = Election \<longrightarrow> rf_current_term r < u64_max"
  shows "rf_current_term r \<le> rf_current_term (raft_step node ev r)"
    "rf_current_term (raft_step node ev r) = rf_current_term r \<Longrightarrow> rf_voted_for r = Some c \<Longrightarrow> rf_voted_for (raft_step node ev r) = Some c"
    "vote_cast node ev r = Some (t, c) \<Longrightarrow> t = rf_current_term (raft_step node ev r) \<and> rf_voted_for (raft_step node ev r) = Some c \<and>
       (t = rf_current_term r \<longrightarrow> rf_voted_for r = None \<or> rf_voted_for r = Some c)"
  using assms by (cases ev; auto simp: start_election_state handle_vote_request_def handle_append_entries_def Let_def split: if_splits)+

lemma votes_cast_later:
  "terms_fit node evs r \<Longrightarrow> (t, c) \<in> set (votes_cast node evs r) \<Longrightarrow>
   rf_current_term r \<le> t \<and> (t = rf_current_term r \<longrightarrow> rf_voted_for r = None \<or> rf_voted_for r = Some c)"
proof (induction evs arbitrary: r)
  case (Cons ev evs)
  let ?r = "raft_step node ev r"
  have ok: "ev = Election \<longrightarrow> rf_current_term r < u64_max" using Cons.prems(1) by simp
  show ?case
  proof (cases "vote_cast node ev r = Some (t, c)")
    case True
    then show ?thesis using raft_step_terms(1,3) [OF ok] by metis
  next
    case False
    then have "(t, c) \<in> set (votes_cast node evs ?r)" using Cons.prems(2) by (auto split: option.splits)
    with Cons.IH Cons.prems(1) have later: "rf_current_term ?r \<le> t" "t = rf_current_term ?r \<longrightarrow> rf_voted_for ?r = None \<or> rf_voted_for ?r = Some c"
      by auto
    then show ?thesis using raft_step_terms(1,2) [OF ok, of node] by (metis le_antisym not_Some_eq option.inject order_trans)
  qed
qed simp

lemma raft_step_leader: "(rf_is_leader r \<longrightarrow> rf_peers r = []) \<Longrightarrow>
  (rf_is_leader (raft_step node ev r) \<longrightarrow> rf_peers (raft_step node ev r) = []) \<and> rf_peers (raft_step node ev r) = rf_peers r"
  by (cases ev; cases "rf_peers r") (auto simp: start_election_def increment_term_def Let_def handle_vote_request_def handle_append_entries_def)

section \<open>Interleaved acquisitions\<close>

text \<open>
  The slot manager together with the calls that are in progress: an acquisition that has passed the check, one that holds
  a permit and has not entered its slot, and a release that has removed its slot and owes the permit. \<open>mc_limit\<close> is the limit
  in force.
\<close>

datatype slot_task = Checked string string | Permitted string string | Owed

record slot_machine =
  mc_manager :: slot_manager
  mc_tasks :: "slot_task multiset"
  mc_limit :: nat

abbreviation machine :: "slot_manager \<Rightarrow> slot_task multiset \<Rightarrow> nat \<Rightarrow> slot_machine" where
  "machine m ts n \<equiv> \<lparr>mc_manager = m, mc_tasks = ts, mc_limit = n\<rparr>"

definition holds_permit :: "slot_task \<Rightarrow> bool" where
  "holds_permit t \<longleftrightarrow> (case t of Checked _ _ \<Rightarrow> False | _ \<Rightarrow> True)"

inductive slot_step :: "slot_machine \<Rightarrow> slot_machine \<Rightarrow> bool" where
  check: "check_slot b m = Ok () \<Longrightarrow> slot_step (machine m ts n) (machine m (add_mset (Checked b r) ts) n)"
| permit: "take_permit m = (Ok (), m') \<Longrightarrow> slot_step (machine m (add_mset (Checked b r) ts) n) (machine m' (add_mset (Permitted b r) ts) n)"
| exhausted: "take_permit m = (Err e, m') \<Longrightarrow> slot_step (machine m (add_mset (Checked b r) ts) n) (machine m' ts n)"
| enter: "map_of (sl_active m) op = None \<Longrightarrow> insert_slot op tok now b r m = (res, m') \<Longrightarrow>
    slot_step (machine m (add_mset (Permitted b r) ts) n) (machine m' ts n)"
| remove: "remove_slot op m = (Ok (), m') \<Longrightarrow> slot_step (machine m ts n) (machine m' (add_mset Owed ts) n)"
| pay: "slot_step (machine m (add_mset Owed ts) n) (machine (add_permits 1 m) ts n)"
| cleanup: "slot_step (machine m ts n) (machine (cleanup_turn now m) ts n)"
| update: "\<forall>t \<in># ts. \<not> holds_permit t \<Longrightarrow> update_max_concurrent n' m = (Ok (), m') \<Longrightarrow> slot_step (machine m ts n) (machine m' ts n')"

definition slots_inv :: "slot_machine \<Rightarrow> bool" where
  "slots_inv x \<longleftrightarrow> distinct (map fst (sl_active (mc_manager x))) \<and>
     sl_permits (mc_manager x) + length (sl_active (mc_manager x)) + size (filter_mset holds_permit (mc_tasks x)) = mc_limit x"

lemma length_alist_delete:
  "distinct (map fst xs) \<Longrightarrow> map_of xs k \<noteq> None \<Longrightarrow> Suc (length (AList.delete k xs)) = length xs"
proof (induction xs)
  case (Cons x xs)
  show ?case
  proof (cases "fst x = k")
    case True
    then have "k \<notin> fst ` set xs" using Cons.prems(1) by auto
    then have "AList.delete k xs = xs" by (force simp: AList.delete_eq filter_id_conv)
    then show ?thesis using True by (cases x) simp
  next
    case False
    then show ?thesis using Cons by (cases x) simp
  qed
qed simp

lemma length_alist_update_new: "map_of xs k = None \<Longrightarrow> length (AList.update k v xs) = Suc (length xs)"
  by (induction xs) auto

definition slots_balance :: "slot_manager \<Rightarrow> nat" where
  "slots_balance m = sl_permits m + length (sl_active m)"

lemma expire_slot_balance:
  "distinct (map fst (sl_active m)) \<Longrightarrow> distinct (map fst (sl_active (expire_slot op m))) \<and> slots_balance (expire_slot op m) = slots_balance m"
  using length_alist_delete [of "sl_active m" op] by (simp add: expire_slot_def slots_balance_def add_permits_def distinct_delete)

lemma cleanup_balance:
  assumes "distinct (map fst (sl_active m))"
  shows "distinct (map fst (sl_active (cleanup_turn now m))) \<and> slots_balance (cleanup_turn now m) = slots_balance m"
proof -
  have "distinct (map fst (sl_active (fold expire_slot ops m))) \<and> slots_balance (fold expire_slot ops m) = slots_balance m" for ops
    using assms by (induction ops arbitrary: m) (simp_all add: expire_slot_balance)
  then show ?thesis by (simp add: cleanup_turn_def Let_def)
qed

lemma remove_permits_enough: "n \<le> sl_permits m \<Longrightarrow> remove_permits n m = (Ok (), m\<lparr>sl_permits := sl_permits m - n\<rparr>)"
  by (induction n m rule: remove_permits.induct) auto

lemma update_max_balance:
  "update_max_concurrent n' m = (Ok (), m') \<Longrightarrow> sl_active m' = sl_active m \<and> slots_balance m' = n'"
  using remove_permits_enough [of "sl_permits m + length (sl_active m) - n'" m]
  by (auto simp: update_max_concurrent_def Let_def slots_balance_def add_permits_def split: if_splits)

lemma slot_step_inv: "slot_step x y \<Longrightarrow> slots_inv x \<Longrightarrow> slots_inv y"
proof (induction rule: slot_step.induct)
  case (enter m op tok now b r res m' ts n)
  then show ?case
    using length_alist_update_new [OF enter(1)]
    by (auto simp: slots_inv_def insert_slot_def Let_def holds_permit_def distinct_update)
next
  case (remove op m m' ts n)
  then show ?case
    using length_alist_delete [of "sl_active m" op]
    by (auto simp: slots_inv_def remove_slot_def holds_permit_def distinct_delete split: if_splits)
next
  case (cleanup m ts n now)
  then show ?case using cleanup_balance [of m now] by (simp add: slots_inv_def slots_balance_def)
next
  case (update ts n' m m' n)
  then have none: "filter_mset holds_permit ts = {#}" by simp
  show ?case using update update_max_balance [OF update(2)] by (auto simp: slots_inv_def slots_balance_def none)
qed (auto simp: slots_inv_def holds_permit_def take_permit_def add_permits_def split: if_splits)

lemma slot_run_inv: "slot_step\<^sup>*\<^sup>* x y \<Longrightarrow> slots_inv x \<Longrightarrow> slots_inv y"
  by (induction rule: rtranclp_induct) (auto intro: slot_step_inv)

text \<open>A call that runs without interruption is a sequence of steps of the machine.\<close>

lemma acquire_slot_steps:
  assumes "acquire_slot op tok now b r m = (Ok res, m')" "map_of (sl_active m) op = None"
  shows "slot_step\<^sup>*\<^sup>* (machine m ts n) (machine m' ts n)"
proof -
  obtain m1 where c: "check_slot b m = Ok ()" and p: "take_permit m = (Ok (), m1)" and i: "insert_slot op tok now b r m1 = (res, m')"
    using assms(1) by (auto simp: acquire_slot_def split: sum.splits prod.splits)
  have "map_of (sl_active m1) op = None" using p assms(2) by (auto simp: take_permit_def split: if_splits)
  then show ?thesis using slot_step.check [OF c] slot_step.permit [OF p] slot_step.enter [OF _ i] by (metis rtranclp.simps)
qed

lemma release_slot_steps:
  assumes "release_slot op m = (Ok (), m')"
  shows "slot_step\<^sup>*\<^sup>* (machine m ts n) (machine m' ts n)"
proof -
  obtain m1 where "remove_slot op m = (Ok (), m1)" "m' = add_permits 1 m1"
    using assms by (auto simp: release_slot_def split: sum.splits prod.splits)
  then show ?thesis using slot_step.remove [of op m m1 ts n] slot_step.pay [of m1 ts n] by (metis rtranclp.simps)
qed

section \<open>Properties\<close>

lemma card_residue:
  assumes "i < (n :: nat)"
  shows "card {p. p < k \<and> p mod n = i} = k div n + (if i < k mod n then 1 else 0)"
proof (induction k)
  case (Suc k)
  have "{p. p < Suc k \<and> p mod n = i} = {p. p < k \<and> p mod n = i} \<union> (if k mod n = i then {k} else {})"
    by (auto simp: less_Suc_eq)
  then have "card {p. p < Suc k \<and> p mod n = i} = card {p. p < k \<and> p mod n = i} + (if k mod n = i then 1 else 0)"
    by (simp add: card_insert_if)
  then show ?case using Suc assms by (auto simp: div_Suc mod_Suc)
qed simp

text \<open>C22. In every run of the service, brokers and topics are stored under their own names, and every partition
  assignment belongs to a partition of a registered topic and names as many distinct registered brokers as the topic's
  replication factor, the first one leading and all of them in sync.\<close>

theorem metadata_consistent:
  assumes "\<forall>ev \<in> set evs. order_ok ev"
  shows "metadata_wf (cs_metadata_manager (fold (service_step so) evs (service_new node peers n)))"
  using service_run_wf [OF service_new_wf assms] .

text \<open>C17. When the leader accepts a topic with at least one and no more replicas than there are brokers, every partition of
  it gets that many distinct registered brokers, other topics keep their assignments, and, as long as no load has been
  reported, the numbers of partitions that two brokers lead differ by at most one.\<close>

theorem create_topic_assigns:
  assumes runs: "\<forall>ev \<in> set evs. order_ok ev" "s = fold (service_step so) evs (service_new node peers k)"
    and order: "\<forall>xs. mset (order xs) = mset xs" and allowed: "create_allowed q s"
    and rf: "0 < cq_replication_factor q" "cq_replication_factor q \<le> length (mm_brokers (cs_metadata_manager s))"
  shows "\<exists>s'. create_topic so order now q s = (Some (accept s), s') \<and>
    (\<forall>p < cq_partitions q. \<exists>a. map_of (mm_partition_assignments (cs_metadata_manager s')) (TopicPartition (cq_name q) p) = Some a \<and>
       good_assignment (cq_replication_factor q) (fst ` set (mm_brokers (cs_metadata_manager s))) a) \<and>
    (\<forall>tp. tp_topic tp \<noteq> cq_name q \<longrightarrow>
       map_of (mm_partition_assignments (cs_metadata_manager s')) tp = map_of (mm_partition_assignments (cs_metadata_manager s)) tp) \<and>
    (cs_broker_load_scores s = [] \<longrightarrow> (\<forall>b \<in> fst ` set (mm_brokers (cs_metadata_manager s)).
       card {p. p < cq_partitions q \<and> map_option pa_leader (map_of (mm_partition_assignments (cs_metadata_manager s')) (TopicPartition (cq_name q) p)) = Some b}
         \<in> {cq_partitions q div length (mm_brokers (cs_metadata_manager s)), cq_partitions q div length (mm_brokers (cs_metadata_manager s)) + 1}))"
proof -
  let ?m = "cs_metadata_manager s" and ?name = "cq_name q" and ?P = "cq_partitions q"
  let ?bs = "mm_get_brokers order ?m"
  have wf: "metadata_wf ?m" using service_run_wf [OF service_new_wf runs(1)] runs(2) by simp
  have ms: "mset ?bs = mset (map snd (mm_brokers ?m))" using order by (simp add: mm_get_brokers_def)
  have ids: "distinct (map bi_id ?bs)" "bi_id ` set ?bs = fst ` set (mm_brokers ?m)"
    using metadata_wf_brokers [OF _ ms] wf by (simp_all add: metadata_wf_def)
  have len: "length ?bs = length (mm_brokers ?m)" using mset_eq_length [OF ms] by simp
  obtain m' where cr: "create_topic so order now q s = (Some (accept s), s\<lparr>cs_metadata_manager := m'\<rparr>)"
    and a: "assigned (cq_replication_factor q) ?bs (cs_broker_load_scores s = []) ?name [0..<?P] (with_topic now q s) m'"
    using create_topic_assigned [OF wf order allowed rf] by metis
  have each: "\<exists>x. map_of (mm_partition_assignments m') (TopicPartition ?name p) = Some x \<and>
      good_assignment (cq_replication_factor q) (fst ` set (mm_brokers ?m)) x \<and>
      (cs_broker_load_scores s = [] \<longrightarrow> pa_leader x = bi_id (?bs ! (p mod length ?bs)))" if "p < ?P" for p
    using a that by (simp add: assigned_def ids(2))
  have other: "map_of (mm_partition_assignments m') tp = map_of (mm_partition_assignments ?m) tp" if "tp_topic tp \<noteq> ?name" for tp
  proof -
    have "tp \<notin> TopicPartition ?name ` set [0..<?P]" using that by auto
    then show ?thesis using a by (simp add: assigned_def)
  qed
  have balanced: "card {p. p < ?P \<and> map_option pa_leader (map_of (mm_partition_assignments m') (TopicPartition ?name p)) = Some b}
      \<in> {?P div length (mm_brokers ?m), ?P div length (mm_brokers ?m) + 1}"
    if none: "cs_broker_load_scores s = []" and b: "b \<in> fst ` set (mm_brokers ?m)" for b
  proof -
    from b obtain i where i: "i < length ?bs" "b = bi_id (?bs ! i)" by (metis ids(2) imageE in_set_conv_nth)
    have lt: "p mod length ?bs < length ?bs" for p using i(1) by (intro mod_less_divisor) linarith
    have same: "bi_id (?bs ! (p mod length ?bs)) = b \<longleftrightarrow> p mod length ?bs = i" for p
      using ids(1) i lt [of p] by (auto simp: distinct_conv_nth)
    have "{p. p < ?P \<and> map_option pa_leader (map_of (mm_partition_assignments m') (TopicPartition ?name p)) = Some b} =
        {p. p < ?P \<and> p mod length ?bs = i}"
    proof (rule Collect_cong)
      fix p
      show "(p < ?P \<and> map_option pa_leader (map_of (mm_partition_assignments m') (TopicPartition ?name p)) = Some b) \<longleftrightarrow>
          (p < ?P \<and> p mod length ?bs = i)"
        using each [of p] none same [of p] by auto
    qed
    then show ?thesis using card_residue [OF i(1), of ?P] len by simp
  qed
  have "\<forall>p < ?P. \<exists>x. map_of (mm_partition_assignments m') (TopicPartition ?name p) = Some x \<and>
      good_assignment (cq_replication_factor q) (fst ` set (mm_brokers ?m)) x" using each by blast
  moreover have "cs_broker_load_scores s = [] \<longrightarrow> (\<forall>b \<in> fst ` set (mm_brokers ?m).
      card {p. p < ?P \<and> map_option pa_leader (map_of (mm_partition_assignments m') (TopicPartition ?name p)) = Some b}
        \<in> {?P div length (mm_brokers ?m), ?P div length (mm_brokers ?m) + 1})" using balanced by blast
  ultimately show ?thesis using cr other by (intro exI [of _ "s\<lparr>cs_metadata_manager := m'\<rparr>"] conjI) simp_all
qed

text \<open>A topic that the service refuses because there are too few brokers is registered all the same, without any
  assignment, and every later attempt to create it is refused because it exists.\<close>

theorem failed_create_leaves_topic:
  assumes "create_allowed q s" "length (mm_get_brokers order (cs_metadata_manager s)) < cq_replication_factor q"
    and "create_topic so order now q s = (r, s')" and "create_topic so' order' now' q' s' = (r', s'')" "cq_name q' = cq_name q"
  shows "r = Some (refuse ''Not enough brokers for replication factor'' s) \<and>
    map_of (mm_topics (cs_metadata_manager s')) (cq_name q) = Some (new_topic now q) \<and>
    mm_partition_assignments (cs_metadata_manager s') = mm_partition_assignments (cs_metadata_manager s) \<and>
    r' = Some (refuse (''Failed to create topic: Topic already exists: '' @ cq_name q) s') \<and> s'' = s'"
proof -
  have s': "r = Some (refuse ''Not enough brokers for replication factor'' s)" "s' = s\<lparr>cs_metadata_manager := with_topic now q s\<rparr>"
    using create_topic_few_brokers [OF assms(1,2), of so now] assms(3) by simp_all
  have "r' = Some (refuse (''Failed to create topic: Topic already exists: '' @ cq_name q) s') \<and> s'' = s'"
    using assms(1,4,5) by (auto simp: create_topic_def mm_create_topic_def create_allowed_def s'(2) Let_def refuse_def)
  then show ?thesis using s' by simp
qed

text \<open>C21. A node votes for at most one candidate in a term, counting its votes for itself, in every run in which requests are
  handled one after another and no election starts at the largest term.\<close>

theorem one_vote_per_term:
  assumes "terms_fit node evs r"
    and "(t, c) \<in> set (votes_cast node evs r)" "(t, c') \<in> set (votes_cast node evs r)"
  shows "c = c'"
  using assms
proof (induction evs arbitrary: r)
  case (Cons ev evs)
  let ?r = "raft_step node ev r"
  have ok: "ev = Election \<longrightarrow> rf_current_term r < u64_max" and fit: "terms_fit node evs ?r" using Cons.prems(1) by simp_all
  have later: "d = d'" if "vote_cast node ev r = Some (t, d)" "(t, d') \<in> set (votes_cast node evs ?r)" for d d'
    using raft_step_terms(3) [OF ok that(1)] votes_cast_later [OF fit that(2)] by simp
  have "vote_cast node ev r = Some (t, d) \<or> (t, d) \<in> set (votes_cast node evs ?r)"
    if "(t, d) \<in> set (votes_cast node (ev # evs) r)" for d using that by (auto split: option.splits)
  from this [OF Cons.prems(2)] this [OF Cons.prems(3)] show ?case using Cons.IH [OF fit] later by fastforce
qed simp


section \<open>Instances and limits\<close>

definition sample_score_ops :: "nat score_ops" where
  "sample_score_ops = \<lparr>so_zero = 0, so_infinity = 1000, so_effective = (\<lambda>s n. s + n), so_ewma = (\<lambda>a b. a)\<rparr>"

definition sample_broker :: "string \<Rightarrow> broker_info" where
  "sample_broker b = \<lparr>bi_id = b, bi_host = b, bi_port_quic = 9092, bi_port_rpc = 9093, bi_rack_id = ''r1''\<rparr>"

definition sample_service_events :: "nat service_event list" where
  "sample_service_events = [EvElection, EvRegisterBroker (sample_broker ''b1''), EvRegisterBroker (sample_broker ''b2'')]"

definition sample_service :: "nat controller_service" where
  "sample_service = fold (service_step sample_score_ops) sample_service_events (service_new ''c1'' [] 1)"

definition sample_topic :: "nat \<Rightarrow> create_topic_request" where
  "sample_topic rf = \<lparr>cq_name = ''t'', cq_partitions = 3, cq_replication_factor = rf, cq_config = None\<rparr>"

lemma sample_service_state:
  "mm_brokers (cs_metadata_manager sample_service) = [(''b1'', sample_broker ''b1''), (''b2'', sample_broker ''b2'')]"
  "mm_topics (cs_metadata_manager sample_service) = []" "rf_is_leader (cs_raft_state sample_service)"
  "cs_broker_load_scores sample_service = []"
  by (simp_all add: sample_service_def sample_service_events_def service_new_def slot_manager_new_def metadata_new_def raft_state_new_def
      start_election_def increment_term_def Let_def register_broker_def mm_add_broker_def sample_broker_def)

lemma sample_topic_allowed: "create_allowed (sample_topic rf) sample_service"
  by (simp add: create_allowed_def sample_topic_def sample_service_state)

theorem metadata_consistent_witness:
  "list_all order_ok (sample_service_events @ [EvCreateTopic id 0 (sample_topic 2)]) \<and>
   metadata_wf (cs_metadata_manager (fold (service_step sample_score_ops) (sample_service_events @ [EvCreateTopic id 0 (sample_topic 2)])
     (service_new ''c1'' [] 1)))"
proof -
  have ok: "\<forall>ev \<in> set (sample_service_events @ [EvCreateTopic id 0 (sample_topic 2)]). order_ok ev"
    by (simp add: sample_service_events_def order_ok_def)
  with metadata_consistent [OF this] show ?thesis by (simp only: list_all_iff)
qed

theorem create_topic_assigns_witness:
  "create_allowed (sample_topic 2) sample_service \<and>
   (\<exists>s'. create_topic sample_score_ops rev 0 (sample_topic 2) sample_service = (Some (accept sample_service), s') \<and>
     (\<exists>a. map_of (mm_partition_assignments (cs_metadata_manager s')) (TopicPartition ''t'' 2) = Some a \<and> good_assignment 2 {''b1'', ''b2''} a) \<and>
     card {p. p < 3 \<and> map_option pa_leader (map_of (mm_partition_assignments (cs_metadata_manager s')) (TopicPartition ''t'' p)) = Some ''b1''} \<in> {1, 2})"
proof -
  have ok: "\<forall>ev \<in> set sample_service_events. order_ok ev" by (simp add: sample_service_events_def order_ok_def)
  let ?s = sample_service
  obtain s' where c: "create_topic sample_score_ops rev 0 (sample_topic 2) ?s = (Some (accept ?s), s')"
    and each: "\<forall>p < cq_partitions (sample_topic 2). \<exists>a. map_of (mm_partition_assignments (cs_metadata_manager s')) (TopicPartition (cq_name (sample_topic 2)) p) = Some a \<and>
       good_assignment (cq_replication_factor (sample_topic 2)) (fst ` set (mm_brokers (cs_metadata_manager ?s))) a"
    and bal: "\<forall>b \<in> fst ` set (mm_brokers (cs_metadata_manager ?s)).
       card {p. p < cq_partitions (sample_topic 2) \<and> map_option pa_leader (map_of (mm_partition_assignments (cs_metadata_manager s')) (TopicPartition (cq_name (sample_topic 2)) p)) = Some b}
         \<in> {cq_partitions (sample_topic 2) div length (mm_brokers (cs_metadata_manager ?s)), cq_partitions (sample_topic 2) div length (mm_brokers (cs_metadata_manager ?s)) + 1}"
    using create_topic_assigns [OF ok sample_service_def, where order = rev and q = "sample_topic 2" and now = 0] sample_topic_allowed sample_service_state
    by (auto simp: sample_topic_def)
  have "\<exists>a. map_of (mm_partition_assignments (cs_metadata_manager s')) (TopicPartition ''t'' 2) = Some a \<and> good_assignment 2 {''b1'', ''b2''} a"
    using each [rule_format, of 2] by (simp add: sample_topic_def sample_service_state)
  moreover have "card {p. p < 3 \<and> map_option pa_leader (map_of (mm_partition_assignments (cs_metadata_manager s')) (TopicPartition ''t'' p)) = Some ''b1''} \<in> {1, 2}"
  proof -
    have "(3 :: nat) div Suc (Suc 0) = 1" by (simp flip: numeral_2_eq_2)
    then show ?thesis using bal by (simp add: sample_topic_def sample_service_state numeral_2_eq_2)
  qed
  ultimately show ?thesis using c sample_topic_allowed by blast
qed

theorem failed_create_leaves_topic_witness:
  "\<exists>s' s''. create_topic sample_score_ops id 0 (sample_topic 3) sample_service =
      (Some (refuse ''Not enough brokers for replication factor'' sample_service), s') \<and>
    create_topic sample_score_ops id 1 (sample_topic 1) s' = (Some (refuse ''Failed to create topic: Topic already exists: t'' s'), s'') \<and> s'' = s'"
proof -
  obtain r s' where c: "create_topic sample_score_ops id 0 (sample_topic 3) sample_service = (r, s')" by fastforce
  obtain r' s'' where d: "create_topic sample_score_ops id 1 (sample_topic 1) s' = (r', s'')" by fastforce
  have few: "length (mm_get_brokers id (cs_metadata_manager sample_service)) < cq_replication_factor (sample_topic 3)"
    by (simp add: mm_get_brokers_def sample_service_state sample_topic_def)
  show ?thesis
    using failed_create_leaves_topic [OF sample_topic_allowed few c d] c d by (simp add: sample_topic_def)
qed

theorem one_vote_per_term_witness:
  "let q = (\<lambda>c. \<lparr>vq_term = 5, vq_candidate_id = c, vq_last_log_index = 0, vq_last_log_term = 0\<rparr>);
       evs = [Election, VoteRequested (q ''n2''), VoteRequested (q ''n3''), VoteRequested (q ''n2'')]
   in terms_fit ''n1'' evs (raft_state_new [''n2'', ''n3'']) \<and>
      votes_cast ''n1'' evs (raft_state_new [''n2'', ''n3'']) = [(1, ''n1''), (5, ''n2''), (5, ''n2'')] \<and>
      (5, ''n3'') \<notin> set (votes_cast ''n1'' evs (raft_state_new [''n2'', ''n3'']))"
proof -
  let ?q = "\<lambda>c. \<lparr>vq_term = 5, vq_candidate_id = c, vq_last_log_index = 0, vq_last_log_term = 0\<rparr>"
  let ?evs = "[Election, VoteRequested (?q ''n2''), VoteRequested (?q ''n3''), VoteRequested (?q ''n2'')]"
  have fit: "terms_fit ''n1'' ?evs (raft_state_new [''n2'', ''n3''])"
    by (simp add: raft_state_new_def start_election_def increment_term_def Let_def handle_vote_request_def get_last_log_term_def get_last_log_index_def)
  have votes: "votes_cast ''n1'' ?evs (raft_state_new [''n2'', ''n3'']) = [(1, ''n1''), (5, ''n2''), (5, ''n2'')]"
    by (simp add: raft_state_new_def start_election_def increment_term_def Let_def handle_vote_request_def get_last_log_term_def get_last_log_index_def)
  have no: "(5, ''n3'') \<notin> set (votes_cast ''n1'' ?evs (raft_state_new [''n2'', ''n3'']))"
    using one_vote_per_term [OF fit, of 5 "''n2''" "''n3''"] by (auto simp only: votes) simp
  show ?thesis unfolding Let_def by (intro conjI fit votes no)
qed


text \<open>Two vote requests of one term that are handled at the same time can both be granted.\<close>

lemma concurrent_votes_granted_twice:
  fixes r :: raft_state
  assumes "rf_current_term r < vq_term q" "rf_log_entries r = []" "vq_term q' = vq_term q" "vq_last_log_term q = 0" "vq_last_log_term q' = 0"
    and "handle_vote_request (\<lambda>x. snd (handle_vote_request id q' x)) q r = (p, r')"
    and "handle_vote_request id q' (r\<lparr>rf_current_term := vq_term q, rf_voted_for := None, rf_is_leader := False\<rparr>) = (p', r'')"
  shows "vp_vote_granted p \<and> vp_vote_granted p' \<and> vp_term p = vp_term p'"
  using assms by (auto simp: handle_vote_request_def Let_def get_last_log_term_def get_last_log_index_def)

text \<open>A node that has peers never becomes leader, since an election counts only its own vote.\<close>

lemma peers_never_lead:
  assumes "rf_is_leader (fold (raft_step node) evs (raft_state_new peers))"
  shows "peers = []"
proof -
  have "(rf_is_leader (fold (raft_step node) evs r) \<longrightarrow> rf_peers r = [])"
    if "rf_is_leader r \<longrightarrow> rf_peers r = []" for r
    using that
  proof (induction evs arbitrary: r)
    case (Cons ev evs)
    have "(rf_is_leader (raft_step node ev r) \<longrightarrow> rf_peers (raft_step node ev r) = []) \<and> rf_peers (raft_step node ev r) = rf_peers r"
      by (rule raft_step_leader [OF Cons.prems])
    then show ?case using Cons.IH [of "raft_step node ev r"] by auto
  qed simp
  from this [of "raft_state_new peers"] assms show ?thesis by (auto simp: raft_state_new_def)
qed

text \<open>The check for a broker that is already being decommissioned does not hold when two acquisitions are interleaved.\<close>

lemma broker_decommissioned_twice:
  "\<exists>x. slot_step\<^sup>*\<^sup>* (machine (slot_manager_new 2) {#} 2) x \<and>
     map (\<lambda>(k, slot). (k, ds_broker_id slot)) (sl_active (mc_manager x)) = [(''o1'', ''b''), (''o2'', ''b'')]"
proof -
  let ?m0 = "slot_manager_new 2"
  let ?t = "Checked ''b'' ''r''" and ?p = "Permitted ''b'' ''r''"
  define m1 where "m1 = snd (take_permit ?m0)"
  define m2 where "m2 = snd (take_permit m1)"
  define m3 where "m3 = snd (insert_slot ''o1'' ''k1'' 0 ''b'' ''r'' m2)"
  define m4 where "m4 = snd (insert_slot ''o2'' ''k2'' 0 ''b'' ''r'' m3)"
  note defs = m1_def m2_def m3_def m4_def take_permit_def insert_slot_def slot_manager_new_def check_slot_def Let_def
  have s1: "slot_step (machine ?m0 {#} 2) (machine ?m0 {#?t#} 2)" by (rule slot_step.check) (simp add: defs)
  have s2: "slot_step (machine ?m0 {#?t#} 2) (machine ?m0 {#?t, ?t#} 2)" by (rule slot_step.check) (simp add: defs)
  have s3: "slot_step (machine ?m0 {#?t, ?t#} 2) (machine m1 {#?p, ?t#} 2)" by (rule slot_step.permit) (simp add: defs)
  have s4: "slot_step (machine m1 {#?p, ?t#} 2) (machine m2 {#?p, ?p#} 2)"
    using slot_step.permit [of m1 m2 "''b''" "''r''" "{#?p#}" 2] by (simp add: defs add_mset_commute)
  have s5: "slot_step (machine m2 {#?p, ?p#} 2) (machine m3 {#?p#} 2)"
    by (rule slot_step.enter [of _ "''o1''" "''k1''" 0 _ _ "fst (insert_slot ''o1'' ''k1'' 0 ''b'' ''r'' m2)"]) (simp_all add: defs)
  have s6: "slot_step (machine m3 {#?p#} 2) (machine m4 {#} 2)"
    by (rule slot_step.enter [of _ "''o2''" "''k2''" 0 _ _ "fst (insert_slot ''o2'' ''k2'' 0 ''b'' ''r'' m3)"]) (simp_all add: defs)
  have "slot_step\<^sup>*\<^sup>* (machine ?m0 {#} 2) (machine m4 {#} 2)"
    by (rule converse_rtranclp_into_rtranclp [where r = slot_step, OF s1], rule converse_rtranclp_into_rtranclp [where r = slot_step, OF s2],
        rule converse_rtranclp_into_rtranclp [where r = slot_step, OF s3], rule converse_rtranclp_into_rtranclp [where r = slot_step, OF s4],
        rule converse_rtranclp_into_rtranclp [where r = slot_step, OF s5], rule r_into_rtranclp [where r = slot_step, OF s6])
  moreover have "map (\<lambda>(k, slot). (k, ds_broker_id slot)) (sl_active m4) = [(''o1'', ''b''), (''o2'', ''b'')]" by (simp add: defs)
  ultimately show ?thesis by (intro exI [of _ "machine m4 {#} 2"]) simp
qed

text \<open>Draining a broker reports success and changes no assignment; a heartbeat never makes an unhealthy broker healthy again.\<close>

lemma drain_moves_nothing:
  "drain_broker so b s = ((ok, qs), s') \<Longrightarrow> ok \<and> cs_metadata_manager s' = cs_metadata_manager s"
  using drain_loop_state [of so b] by (auto simp: drain_broker_def Let_def split_beta)

lemma heartbeat_keeps_status:
  "cs_broker_statuses (snd (broker_heartbeat so now now' b score s)) = cs_broker_statuses s"
  by (simp add: broker_heartbeat_def Let_def split: option.splits)

end
